(* ===== verification/Py_Prelude.thy ===== *)
theory Py_Prelude
  imports Complex_Main "HOL-Library.Log_Nat" "HOL-Library.Multiset"
begin

text \<open>
  The part of Python the program is written in, as the other theories use it.

  \<^item> Exceptions are values of \<open>py_error\<close>; an operation that may raise returns
    \<open>py_error + 'a\<close>, \<open>Inl\<close> being the raised exception.
  \<^item> Text is a list of \<open>char\<close>: code points up to 255. A UUID is a natural number.
  \<^item> A finite \<open>float\<close> is an IEEE-754 binary64 number, so it is a rational: the type is
    \<open>rat\<close> and every arithmetic operation of the source is the exact operation followed
    by \<open>fl\<close>, round-to-nearest-even to 53 bits. \<open>fl\<close> has no exponent bounds: overflow
    to infinity and subnormal results are outside the model. Where the source tests for
    NaN or infinity the argument has type \<open>pyfloat\<close>, which has them.
  \<^item> \<open>datetime\<close> and \<open>timedelta\<close> count microseconds in Python, so both are \<open>int\<close>.
    \<open>timedelta\<close> times a float and divided by an integer round half to even.
  \<^item> A \<open>dict\<close> whose order matters is an association list with \<open>dict_set\<close> and
    \<open>dict_del\<close>; one whose order does not matter is a map.
  \<^item> \<open>sorted\<close> is stable, with or without \<open>reverse\<close>.

  The second half proves what the components need of these: the laws of rounding, as a
  locale \<open>rounding\<close> and its interpretation at \<open>fl\<close>, and the laws of the dictionary.
\<close>

subsection \<open>Exceptions\<close>

type_synonym uuid = nat

datatype py_error =
    ValueError string
  | KeyError string
  | RuntimeError string
  | OtherException string
  | SessionNotFound uuid
  | ClassificationFailed string
  | QueryExceedsBudget int int
  | ScopeMismatch string string bool
  | IngestionJobNotFound string

type_synonym 'a result = "py_error + 'a"

fun seq_results :: "'a result list \<Rightarrow> 'a list result" where
  \<comment> \<open>a comprehension whose body may raise: the first exception wins\<close>
  "seq_results [] = Inr []"
| "seq_results (r # rs) =
     (case r of
        Inl e \<Rightarrow> Inl e
      | Inr x \<Rightarrow> (case seq_results rs of Inl e \<Rightarrow> Inl e | Inr xs \<Rightarrow> Inr (x # xs)))"

lemma seq_results_map: "seq_results (map Inr xs) = Inr xs"
  by (induction xs) simp_all

lemma seq_results_Inr: "seq_results rs = Inr xs \<longleftrightarrow> rs = map Inr xs"
  by (induction rs arbitrary: xs) (auto simp: seq_results_map split: sum.splits)

named_theorems py_defs \<open>definitions a component proof unfolds first\<close>

subsection \<open>Identifiers, text and time\<close>

type_synonym datetime = int
type_synonym timedelta = int

fun hex_of :: "nat \<Rightarrow> string" where
  "hex_of n = (if n < 16 then [''0123456789abcdef'' ! n] else hex_of (n div 16) @ [''0123456789abcdef'' ! (n mod 16)])"

declare hex_of.simps [simp del]

definition uuid_str :: "uuid \<Rightarrow> string" where
  \<comment> \<open>\<open>str(UUID)\<close>: 32 hexadecimal digits in groups of 8, 4, 4, 4 and 12\<close>
  "uuid_str n =
     (let h = hex_of n; d = replicate (32 - length h) CHR ''0'' @ h
      in take 8 d @ ''-'' @ take 4 (drop 8 d) @ ''-'' @ take 4 (drop 12 d) @ ''-'' @
         take 4 (drop 16 d) @ ''-'' @ drop 20 d)"

definition seconds :: "int \<Rightarrow> timedelta" where
  "seconds n = n * 1000000"

definition days :: "int \<Rightarrow> timedelta" where
  "days n = seconds (n * 86400)"

definition is_space :: "char \<Rightarrow> bool" where
  "is_space c = (of_char c \<in> {9, 10, 11, 12, 13, 28, 29, 30, 31, 32, 133, 160 :: nat})"

definition py_strip :: "string \<Rightarrow> string" where
  "py_strip s = rev (dropWhile is_space (rev (dropWhile is_space s)))"

fun join :: "string \<Rightarrow> string list \<Rightarrow> string" where
  "join sep [] = []"
| "join sep [x] = x"
| "join sep (x # y # xs) = x @ sep @ join sep (y # xs)"

fun splitlines_from :: "string \<Rightarrow> string \<Rightarrow> string list" where
  "splitlines_from cur [] = (if cur = [] then [] else [rev cur])"
| "splitlines_from cur (c # cs) =
     (if of_char c = (13 :: nat) \<and> cs \<noteq> [] \<and> of_char (hd cs) = (10 :: nat)
      then rev cur # splitlines_from [] (tl cs)
      else if of_char c \<in> {10, 11, 12, 13, 28, 29, 30, 133 :: nat} then rev cur # splitlines_from [] cs
      else splitlines_from (c # cur) cs)"

definition py_splitlines :: "string \<Rightarrow> string list" where
  "py_splitlines s = splitlines_from [] s"

definition startswith :: "string \<Rightarrow> string \<Rightarrow> bool" where
  "startswith s p = (take (length p) s = p)"

subsection \<open>Floating point\<close>

definition round_half_even :: "rat \<Rightarrow> int" where
  "round_half_even x =
     (let f = \<lfloor>x\<rfloor>; d = x - of_int f
      in if d < 1 / 2 then f else if 1 / 2 < d then f + 1
         else if even f then f else f + 1)"

definition float_exp :: "rat \<Rightarrow> int" where
  \<comment> \<open>the binary exponent of a positive number: the largest \<open>k\<close> with \<open>2 ^ k \<le> x\<close>\<close>
  "float_exp x =
     (case quotient_of x of (p, q) \<Rightarrow>
        (let k = bitlen p - bitlen q in if 2 powi k \<le> x then k else k - 1))"

definition fl_pos :: "rat \<Rightarrow> rat" where
  "fl_pos x = (let u = 2 powi (float_exp x - 52) in of_int (round_half_even (x / u)) * u)"

definition fl :: "rat \<Rightarrow> rat" where
  "fl x = (if x = 0 then 0 else if 0 < x then fl_pos x else - fl_pos (- x))"

fun isqrt_from :: "nat \<Rightarrow> int \<Rightarrow> int \<Rightarrow> int" where
  \<comment> \<open>the integer square root below \<open>a + 2 ^ k\<close>, bit by bit\<close>
  "isqrt_from 0 a n = a"
| "isqrt_from (Suc k) a n = (if (a + 2 ^ k) ^ 2 \<le> n then isqrt_from k (a + 2 ^ k) n else isqrt_from k a n)"

definition fl_sqrt :: "rat \<Rightarrow> rat" where
  \<comment> \<open>\<open>math.sqrt\<close> of a non-negative float: the square root rounded to 53 bits\<close>
  "fl_sqrt x =
     (if x \<le> 0 then 0
      else let u = 2 powi (float_exp x div 2 - 52);
               y = x / u ^ 2;
               k = isqrt_from 53 0 \<lfloor>y\<rfloor>
           in of_int (if y \<le> (of_int k + 1 / 2) ^ 2 then k else k + 1) * u)"

datatype pyfloat = Fin rat | PosInf | NegInf | NaN

fun isfinite :: "pyfloat \<Rightarrow> bool" where
  "isfinite (Fin _) = True"
| "isfinite _ = False"

fun fsum_from :: "rat \<Rightarrow> rat list \<Rightarrow> rat" where
  \<comment> \<open>the built-in \<open>sum\<close> of Python 3.11: a left fold of rounded additions\<close>
  "fsum_from a [] = a"
| "fsum_from a (x # xs) = fsum_from (fl (a + x)) xs"

definition fsum :: "rat list \<Rightarrow> rat" where
  "fsum xs = fsum_from 0 xs"

subsection \<open>Time arithmetic\<close>

definition td_mul_float :: "timedelta \<Rightarrow> rat \<Rightarrow> timedelta" where
  \<comment> \<open>\<open>timedelta * float\<close>: the float as an exact ratio, rounded half to even\<close>
  "td_mul_float d x = round_half_even (of_int d * x)"

definition td_div_int :: "timedelta \<Rightarrow> int \<Rightarrow> timedelta" where
  "td_div_int d n = round_half_even (of_int d / of_int n)"

subsection \<open>Dictionaries and sorting\<close>

fun dict_set :: "'k \<Rightarrow> 'v \<Rightarrow> ('k \<times> 'v) list \<Rightarrow> ('k \<times> 'v) list" where
  "dict_set k v [] = [(k, v)]"
| "dict_set k v ((a, b) # d) = (if a = k then (a, v) # d else (a, b) # dict_set k v d)"

definition dict_del :: "'k \<Rightarrow> ('k \<times> 'v) list \<Rightarrow> ('k \<times> 'v) list" where
  "dict_del k d = filter (\<lambda>e. fst e \<noteq> k) d"

definition sorted_desc :: "('a \<Rightarrow> 'b::linordered_ab_group_add) \<Rightarrow> 'a list \<Rightarrow> 'a list" where
  \<comment> \<open>\<open>sorted(xs, key=f, reverse=True)\<close>: equal keys keep their order\<close>
  "sorted_desc f xs = sort_key (\<lambda>x. - f x) xs"

definition py_take :: "int \<Rightarrow> 'a list \<Rightarrow> 'a list" where
  \<comment> \<open>\<open>xs[:n]\<close>: a negative \<open>n\<close> counts from the end\<close>
  "py_take n xs = (if 0 \<le> n then take (nat n) xs else take (nat (int (length xs) + n)) xs)"

definition dedup :: "'a list \<Rightarrow> 'a list" where
  \<comment> \<open>\<open>dict.fromkeys(xs)\<close>: first occurrences, in order\<close>
  "dedup xs = rev (remdups (rev xs))"

fun skip_pack :: "('a \<Rightarrow> nat) \<Rightarrow> int \<Rightarrow> 'a list \<Rightarrow> nat \<Rightarrow> 'a list \<times> nat \<times> nat" where
  \<comment> \<open>the walk that fills a token budget and skips what does not fit: what is kept, the
      tokens used, the number dropped\<close>
  "skip_pack cost budget [] used = ([], used, 0)"
| "skip_pack cost budget (x # xs) used =
     (if int used + int (cost x) > budget
      then (case skip_pack cost budget xs used of (k, u, d) \<Rightarrow> (k, u, Suc d))
      else (case skip_pack cost budget xs (used + cost x) of (k, u, d) \<Rightarrow> (x # k, u, d)))"

subsection \<open>Laws of rounding\<close>

text \<open>
  What the client of a rounding mode relies on: it is monotone, it is odd, it leaves the
  integers up to \<open>2 ^ 53\<close> alone, and its relative error is at most \<open>2 ^ -53\<close>.
\<close>

locale rounding =
  fixes rnd :: "rat \<Rightarrow> rat"
  assumes rnd_mono: "x \<le> y \<Longrightarrow> rnd x \<le> rnd y"
    and rnd_int: "\<bar>n\<bar> \<le> 2 ^ 53 \<Longrightarrow> rnd (of_int n) = of_int n"
    and rnd_error: "\<bar>rnd x - x\<bar> \<le> \<bar>x\<bar> / 2 ^ 53"
begin

lemma rnd_0: "rnd 0 = 0"
  using rnd_int [of 0] by simp

lemma rnd_1: "rnd 1 = 1"
  using rnd_int [of 1] by simp

lemma rnd_nonneg: "0 \<le> x \<Longrightarrow> 0 \<le> rnd x"
  using rnd_mono [of 0 x] by (simp add: rnd_0)

lemma rnd_le_int: "x \<le> of_int n \<Longrightarrow> \<bar>n\<bar> \<le> 2 ^ 53 \<Longrightarrow> rnd x \<le> of_int n"
  using rnd_mono [of x "of_int n"] by (simp add: rnd_int)

lemma rnd_ge_int: "of_int n \<le> x \<Longrightarrow> \<bar>n\<bar> \<le> 2 ^ 53 \<Longrightarrow> of_int n \<le> rnd x"
  using rnd_mono [of "of_int n" x] by (simp add: rnd_int)

lemma rnd_le_1: "x \<le> 1 \<Longrightarrow> rnd x \<le> 1"
  using rnd_le_int [of x 1] by simp

lemma rnd_upper: "0 \<le> x \<Longrightarrow> rnd x \<le> x * (1 + 1 / 2 ^ 53)"
  using rnd_error [of x] by (simp only: abs_of_nonneg distrib_left abs_le_iff) simp

lemma rnd_lower: "0 \<le> x \<Longrightarrow> x * (1 - 1 / 2 ^ 53) \<le> rnd x"
  using rnd_error [of x] by (simp only: abs_of_nonneg right_diff_distrib abs_le_iff) simp

end

text \<open>The rounding of the doubles: first the exponent, then one binade, then all of them.\<close>

lemma powi_nat: "0 \<le> k \<Longrightarrow> (2::rat) powi k = 2 ^ nat k"
  by (simp add: power_int_def)

lemma powi_pos [simp]: "0 < (2::rat) powi k"
  by simp

lemma powi_mono: "j \<le> k \<Longrightarrow> (2::rat) powi j \<le> 2 powi k"
  by (simp add: power_int_increasing)

lemma bitlen_rat_bounds:
  assumes "0 < n"
  shows "2 powi (bitlen n - 1) \<le> (of_int n :: rat)" "(of_int n :: rat) < 2 powi (bitlen n)"
proof -
  have b: "2 ^ nat (bitlen n - 1) \<le> n" "n < 2 ^ nat (bitlen n)"
    using bitlen_bounds [OF assms] by auto
  have "0 < bitlen n"
    using assms by (metis bitlen_eq_zero_iff bitlen_nonneg linorder_not_less order_less_le)
  then have e: "(2::rat) powi (bitlen n - 1) = 2 ^ nat (bitlen n - 1)" "(2::rat) powi (bitlen n) = 2 ^ nat (bitlen n)"
    by (simp_all add: powi_nat)
  show "2 powi (bitlen n - 1) \<le> (of_int n :: rat)"
    unfolding e using b(1) by (metis of_int_le_iff of_int_numeral of_int_power)
  show "(of_int n :: rat) < 2 powi (bitlen n)"
    unfolding e using b(2) by (metis of_int_less_iff of_int_numeral of_int_power)
qed

lemma float_exp_bounds:
  assumes "0 < x"
  shows "2 powi float_exp x \<le> x" and "x < 2 powi (float_exp x + 1)"
proof -
  obtain p q where pq: "quotient_of x = (p, q)" by (cases "quotient_of x")
  then have q: "0 < q" and x: "x = of_int p / of_int q"
    by (auto simp: quotient_of_denom_pos quotient_of_div)
  with assms have p: "0 < p" by (simp add: zero_less_divide_iff)
  let ?k = "bitlen p - bitlen q"
  have "x < 2 powi bitlen p / 2 powi (bitlen q - 1)"
    unfolding x using bitlen_rat_bounds [OF p] bitlen_rat_bounds [OF q] q p
    by (intro frac_less) auto
  also have "\<dots> = 2 powi (?k + 1)"
    by (simp add: power_int_diff [symmetric] algebra_simps)
  finally have up: "x < 2 powi (?k + 1)" .
  have "2 powi (bitlen p - 1) / 2 powi bitlen q \<le> x"
    unfolding x using bitlen_rat_bounds [OF p] bitlen_rat_bounds [OF q] q p
    by (intro frac_le) auto
  moreover have "2 powi (bitlen p - 1) / 2 powi bitlen q = (2::rat) powi (?k - 1)"
    by (simp add: power_int_diff [symmetric] algebra_simps)
  ultimately have low: "2 powi (?k - 1) \<le> x" by simp
  show "2 powi float_exp x \<le> x" "x < 2 powi (float_exp x + 1)"
    using up low by (auto simp: float_exp_def pq Let_def)
qed

lemma round_half_even_error: "\<bar>of_int (round_half_even x) - x\<bar> \<le> 1 / 2"
proof -
  have "of_int \<lfloor>x\<rfloor> \<le> x" "x < of_int \<lfloor>x\<rfloor> + 1" by linarith+
  then show ?thesis
    unfolding round_half_even_def Let_def abs_le_iff by (simp split: if_split) linarith
qed

lemma round_half_even_int [simp]: "round_half_even (of_int n) = n"
  by (simp add: round_half_even_def)

lemma round_half_even_mono:
  assumes "x \<le> y"
  shows "round_half_even x \<le> round_half_even y"
proof -
  have fm: "\<lfloor>x\<rfloor> \<le> \<lfloor>y\<rfloor>" using assms by (rule floor_mono)
  show ?thesis
  proof (cases "\<lfloor>x\<rfloor> = \<lfloor>y\<rfloor>")
    case True
    with assms show ?thesis by (auto simp: round_half_even_def Let_def)
  next
    case False
    with fm have "\<lfloor>x\<rfloor> + 1 \<le> \<lfloor>y\<rfloor>" by simp
    then show ?thesis by (auto simp: round_half_even_def Let_def)
  qed
qed

text \<open>A positive number scaled to its 53-bit integer significand.\<close>

lemma powi_scale:
  "(2::rat) powi e = 2 ^ 52 * 2 powi (e - 52)" "(2::rat) powi (e + 1) = 2 ^ 53 * 2 powi (e - 52)"
  using power_int_add [of "2::rat" 52 "e - 52"] power_int_add [of "2::rat" 53 "e - 52"]
  by (simp_all add: add.commute)

lemma significand_bounds:
  assumes "0 < x"
  shows "2 ^ 52 \<le> x / 2 powi (float_exp x - 52)" and "x / 2 powi (float_exp x - 52) < 2 ^ 53"
  using float_exp_bounds [OF assms] unfolding powi_scale [of "float_exp x"]
  by (simp_all add: pos_le_divide_eq pos_divide_less_eq)

lemma fl_pos_error:
  assumes "0 < x"
  shows "\<bar>fl_pos x - x\<bar> \<le> x / 2 ^ 53"
proof -
  let ?u = "(2::rat) powi (float_exp x - 52)"
  have "fl_pos x - x = (of_int (round_half_even (x / ?u)) - x / ?u) * ?u"
    by (simp add: fl_pos_def Let_def left_diff_distrib)
  then have "\<bar>fl_pos x - x\<bar> = \<bar>of_int (round_half_even (x / ?u)) - x / ?u\<bar> * ?u"
    by (simp add: abs_mult)
  also have "\<dots> \<le> 1 / 2 * ?u"
    by (intro mult_right_mono round_half_even_error) simp
  also have "\<dots> \<le> x / 2 ^ 53"
    using significand_bounds(1) [OF assms] by (simp add: pos_le_divide_eq)
  finally show ?thesis .
qed

lemma fl_pos_binade:
  assumes "0 < x"
  shows "2 powi float_exp x \<le> fl_pos x" and "fl_pos x \<le> 2 powi (float_exp x + 1)"
proof -
  let ?u = "(2::rat) powi (float_exp x - 52)"
  let ?n = "round_half_even (x / ?u)"
  have "round_half_even (of_int (2 ^ 52)) \<le> ?n" "?n \<le> round_half_even (of_int (2 ^ 53))"
    using significand_bounds [OF assms] by (intro round_half_even_mono; simp)+
  then have n: "2 ^ 52 \<le> ?n" "?n \<le> 2 ^ 53"
    unfolding round_half_even_int by auto
  have "(of_int (2 ^ 52) :: rat) * ?u \<le> of_int ?n * ?u"
    using n(1) by (intro mult_right_mono of_int_le_iff [THEN iffD2]) auto
  moreover have "(of_int ?n :: rat) * ?u \<le> of_int (2 ^ 53) * ?u"
    using n(2) by (intro mult_right_mono of_int_le_iff [THEN iffD2]) auto
  ultimately show "2 powi float_exp x \<le> fl_pos x" "fl_pos x \<le> 2 powi (float_exp x + 1)"
    unfolding powi_scale [of "float_exp x"] by (simp_all add: fl_pos_def Let_def)
qed

lemma float_exp_mono:
  assumes "0 < x" "x \<le> y"
  shows "float_exp x \<le> float_exp y"
proof (rule ccontr)
  assume "\<not> ?thesis"
  then have "(2::rat) powi (float_exp y + 1) \<le> 2 powi float_exp x" by (intro powi_mono) simp
  also have "\<dots> \<le> x" using assms(1) by (rule float_exp_bounds)
  finally show False using float_exp_bounds(2) [of y] assms by linarith
qed

lemma fl_pos_mono:
  assumes "0 < x" "x \<le> y"
  shows "fl_pos x \<le> fl_pos y"
proof (cases "float_exp x = float_exp y")
  case True
  have "round_half_even (x / u) \<le> round_half_even (y / u)" if "0 < u" for u :: rat
    using assms that by (intro round_half_even_mono divide_right_mono) auto
  then show ?thesis
    unfolding fl_pos_def Let_def True by (intro mult_right_mono) auto
next
  case False
  with float_exp_mono [OF assms] have "float_exp x + 1 \<le> float_exp y" by simp
  then have "(2::rat) powi (float_exp x + 1) \<le> 2 powi float_exp y" by (rule powi_mono)
  with fl_pos_binade [of x] fl_pos_binade [of y] assms show ?thesis by linarith
qed

lemma fl_pos_int:
  assumes "0 < n" "n \<le> 2 ^ 53"
  shows "fl_pos (of_int n) = of_int n"
proof -
  let ?e = "float_exp (of_int n)"
  have up: "(2::rat) powi ?e \<le> of_int (2 ^ 53)"
    using float_exp_bounds(1) [of "of_int n"] assms
    by (meson of_int_0_less_iff of_int_le_iff order_trans)
  have e: "?e \<le> 53"
  proof (rule ccontr)
    assume "\<not> ?thesis"
    then have "(2::rat) powi 54 \<le> 2 powi ?e" by (intro powi_mono) simp
    with up show False by simp
  qed
  have "\<exists>m. of_int n / (2::rat) powi (?e - 52) = of_int m"
  proof (cases "?e \<le> 52")
    case True
    then have "of_int n / (2::rat) powi (?e - 52) = of_int (n * 2 ^ nat (52 - ?e))"
      by (simp add: power_int_def divide_simps)
    then show ?thesis by blast
  next
    case False
    with e have "?e = 53" by simp
    then have "(of_int (2 ^ 53) :: rat) \<le> of_int n"
      using float_exp_bounds(1) [of "of_int n"] assms(1) by simp
    then have "2 ^ 53 \<le> n" by (simp only: of_int_le_iff)
    with assms(2) have "n = 2 ^ 53" by (rule order_antisym)
    then have "of_int n / (2::rat) powi (?e - 52) = of_int (2 ^ 52)"
      using \<open>?e = 53\<close> by simp
    then show ?thesis by blast
  qed
  then obtain m where m: "of_int n / (2::rat) powi (?e - 52) = of_int m" ..
  then have "of_int m * (2::rat) powi (?e - 52) = of_int n" by (simp add: divide_eq_eq)
  then show ?thesis by (simp add: fl_pos_def Let_def m)
qed

lemma fl_pos_nonneg: "0 < x \<Longrightarrow> 0 \<le> fl_pos x"
  using fl_pos_binade(1) [of x] by (meson less_imp_le order_trans powi_pos)

lemma fl_neg: "fl (- x) = - fl x"
  by (auto simp: fl_def)

interpretation double: rounding fl
proof
  show "fl x \<le> fl y" if "x \<le> y" for x y
  proof (cases "0 < x")
    case True
    with that show ?thesis by (auto simp: fl_def fl_pos_mono)
  next
    case False
    show ?thesis
    proof (cases "0 \<le> y")
      case True
      have "fl x \<le> 0" using \<open>\<not> 0 < x\<close> fl_pos_nonneg [of "- x"] by (auto simp: fl_def)
      moreover have "0 \<le> fl y" using True fl_pos_nonneg [of y] by (auto simp: fl_def)
      ultimately show ?thesis by linarith
    next
      case False
      with that fl_pos_mono [of "- y" "- x"] show ?thesis by (auto simp: fl_def)
    qed
  qed
  show "fl (of_int n) = of_int n" if "\<bar>n\<bar> \<le> 2 ^ 53" for n
    using that fl_pos_int [of n] fl_pos_int [of "- n"] by (auto simp: fl_def)
  show "\<bar>fl x - x\<bar> \<le> \<bar>x\<bar> / 2 ^ 53" for x
  proof (cases "0 < x")
    case True
    with fl_pos_error [of x] show ?thesis by (simp add: fl_def)
  next
    case False
    have "\<bar>fl x - x\<bar> = \<bar>fl (- x) - - x\<bar>" by (simp add: fl_neg abs_minus_commute)
    with False fl_pos_error [of "- x"] show ?thesis by (cases "x = 0") (auto simp: fl_def)
  qed
qed

declare double.rnd_0 [simp] double.rnd_1 [simp]

subsection \<open>The text of a UUID determines it\<close>

fun hex_digit :: "char \<Rightarrow> nat" where
  "hex_digit c = (let v = of_char c in if v < 58 then v - 48 else v - 87)"

lemma hex_digit_nth: "i < 16 \<Longrightarrow> hex_digit (''0123456789abcdef'' ! i) = i \<and> CHR ''-'' \<noteq> ''0123456789abcdef'' ! i"
  by (auto simp: numeral_eq_Suc less_Suc_eq)

definition hex_value :: "string \<Rightarrow> nat" where
  "hex_value s = foldl (\<lambda>a c. 16 * a + hex_digit c) 0 s"

lemma hex_value_of: "hex_value (hex_of n) = n \<and> CHR ''-'' \<notin> set (hex_of n)"
proof (induction n rule: hex_of.induct)
  case (1 n)
  show ?case
  proof (cases "n < 16")
    case True
    then show ?thesis using hex_digit_nth [of n] by (simp add: hex_of.simps [of n] hex_value_def del: hex_digit.simps)
  next
    case False
    with 1 show ?thesis using hex_digit_nth [of "n mod 16"]
      by (simp add: hex_of.simps [of n] hex_value_def del: hex_digit.simps)
  qed
qed

lemma hex_value_pad: "hex_value (replicate k CHR ''0'' @ s) = hex_value s"
proof -
  have "foldl (\<lambda>a c. 16 * a + hex_digit c) 0 (replicate k CHR ''0'') = 0" by (induction k) simp_all
  then show ?thesis by (simp add: hex_value_def del: hex_digit.simps)
qed

lemma uuid_str_digits:
  "filter (\<lambda>c. c \<noteq> CHR ''-'') (uuid_str n) = replicate (32 - length (hex_of n)) CHR ''0'' @ hex_of n"
proof -
  let ?d = "replicate (32 - length (hex_of n)) CHR ''0'' @ hex_of n"
  have keep: "filter (\<lambda>c. c \<noteq> CHR ''-'') xs = xs" if "set xs \<subseteq> set ?d" for xs
    using that hex_value_of [of n] by (auto simp: filter_id_conv)
  have "filter (\<lambda>c. c \<noteq> CHR ''-'') (uuid_str n) =
      take 8 ?d @ take 4 (drop 8 ?d) @ take 4 (drop 12 ?d) @ take 4 (drop 16 ?d) @ drop 20 ?d"
    unfolding uuid_str_def Let_def filter_append
    by (subst keep, meson set_take_subset set_drop_subset order_trans)+ simp
  also have "\<dots> = ?d"
    using append_take_drop_id [of 8 ?d] append_take_drop_id [of 4 "drop 8 ?d"]
      append_take_drop_id [of 4 "drop 12 ?d"] append_take_drop_id [of 4 "drop 16 ?d"]
    by (simp only: drop_drop) simp
  finally show ?thesis .
qed

definition hex_digits :: string where
  "hex_digits = ''0123456789abcdef''"

lemma hex_of_chars: "set (hex_of n) \<subseteq> set hex_digits"
proof (induction n rule: hex_of.induct)
  case (1 n)
  have d: "hex_digits ! m \<in> set hex_digits" if "m < 16" for m
    using that by (intro nth_mem) (simp add: hex_digits_def)
  have "hex_of n = (if n < 16 then [hex_digits ! n] else hex_of (n div 16) @ [hex_digits ! (n mod 16)])"
    unfolding hex_digits_def by (rule hex_of.simps)
  then show ?case using 1 d [of n] d [of "n mod 16"] by (cases "n < 16") simp_all
qed

lemma uuid_str_chars: "set (uuid_str n) \<subseteq> insert (CHR ''-'') (set hex_digits)"
proof -
  have z: "CHR ''0'' \<in> set hex_digits" by (simp add: hex_digits_def)
  have "set (uuid_str n) \<subseteq> insert (CHR ''-'') (set (filter (\<lambda>c. c \<noteq> CHR ''-'') (uuid_str n)))" by auto
  also have "\<dots> \<subseteq> insert (CHR ''-'') (set hex_digits)"
    unfolding uuid_str_digits using z hex_of_chars [of n] by auto
  finally show ?thesis .
qed

lemma split_at_char:
  assumes "xs @ c # r = ys @ c # s" "c \<notin> set xs" "c \<notin> set ys"
  shows "xs = ys \<and> r = s"
  using assms by (induction xs arbitrary: ys) (case_tac ys; auto)+

lemma inj_uuid_str: "inj uuid_str"
proof (rule injI)
  fix m n
  assume "uuid_str m = uuid_str n"
  then have "hex_value (filter (\<lambda>c. c \<noteq> CHR ''-'') (uuid_str m)) = hex_value (filter (\<lambda>c. c \<noteq> CHR ''-'') (uuid_str n))"
    by simp
  then show "m = n" using hex_value_of by (simp add: uuid_str_digits hex_value_pad)
qed

lemma uuid_str_eq [simp]: "uuid_str m = uuid_str n \<longleftrightarrow> m = n"
  using inj_uuid_str by (auto dest: injD)

subsection \<open>Laws of dictionaries and sorting\<close>

lemma map_of_dict_set [simp]: "map_of (dict_set k v d) = (map_of d)(k \<mapsto> v)"
  by (induction d) (auto simp: fun_eq_iff)

lemma map_of_dict_del [simp]: "map_of (dict_del k d) = (map_of d)(k := None)"
  by (induction d) (auto simp: dict_del_def fun_eq_iff)

lemma keys_dict_set: "map fst (dict_set k v d) = (if k \<in> set (map fst d) then map fst d else map fst d @ [k])"
proof (induction d)
  case (Cons e d)
  then show ?case by (cases e) simp
qed simp

lemma distinct_dict_set [simp]: "distinct (map fst d) \<Longrightarrow> distinct (map fst (dict_set k v d))"
  by (simp add: keys_dict_set)

lemma distinct_dict_del [simp]: "distinct (map fst d) \<Longrightarrow> distinct (map fst (dict_del k d))"
  by (induction d) (auto simp: dict_del_def)

lemma set_sorted_desc [simp]: "set (sorted_desc f xs) = set xs"
  by (simp add: sorted_desc_def)

lemma mset_sorted_desc [simp]: "mset (sorted_desc f xs) = mset xs"
  by (simp add: sorted_desc_def)

lemma length_sorted_desc [simp]: "length (sorted_desc f xs) = length xs"
  by (simp add: sorted_desc_def)

lemma sorted_desc_sorted: "sorted_wrt (\<lambda>x y. f y \<le> f x) (sorted_desc f xs)"
proof -
  have "sorted (map (\<lambda>x. - f x) (sorted_desc f xs))"
    by (simp add: sorted_desc_def)
  then show ?thesis by (simp add: sorted_map)
qed

lemma set_dedup [simp]: "set (dedup xs) = set xs"
  by (simp add: dedup_def)

lemma distinct_dedup [simp]: "distinct (dedup xs)"
  by (simp add: dedup_def)

subsection \<open>Laws of the budget walk\<close>

lemma skip_pack_used: "skip_pack c b xs u = (k, u', d) \<Longrightarrow> u' = u + sum_list (map c k)"
  by (induction xs arbitrary: u k d) (fastforce split: if_splits prod.splits)+

lemma skip_pack_within: "skip_pack c b xs u = (k, u', d) \<Longrightarrow> int u \<le> b \<Longrightarrow> int u' \<le> b"
  by (induction xs arbitrary: u k d) (auto split: if_splits prod.splits)

lemma skip_pack_count: "skip_pack c b xs u = (k, u', d) \<Longrightarrow> length k + d = length xs"
  by (induction xs arbitrary: u k d) (auto split: if_splits prod.splits)

lemma skip_pack_used_mono: "skip_pack c b xs u = (k, u', d) \<Longrightarrow> u \<le> u'"
  using skip_pack_used by fastforce

lemma skip_pack_subset: "skip_pack c b xs u = (k, u', d) \<Longrightarrow> set k \<subseteq> set xs"
  by (induction xs arbitrary: u k d) (fastforce split: if_splits prod.splits)+

lemma skip_pack_sorted: "skip_pack c b xs u = (k, u', d) \<Longrightarrow> sorted_wrt P xs \<Longrightarrow> sorted_wrt P k"
  by (induction xs arbitrary: u k d)
    (auto split: if_splits prod.splits, use skip_pack_subset in fastforce)

text \<open>A skipped element would not have fitted, not even after the whole walk.\<close>

lemma skip_pack_dropped:
  "skip_pack c b xs u = (k, u', d) \<Longrightarrow> x \<in> set xs \<Longrightarrow> x \<notin> set k \<Longrightarrow> b < int u' + int (c x)"
proof (induction xs arbitrary: u k d)
  case (Cons y xs)
  show ?case
  proof (cases "x = y")
    case True
    with Cons.prems show ?thesis
      by (auto split: if_splits prod.splits dest!: skip_pack_used_mono)
  next
    case False
    with Cons show ?thesis by (auto split: if_splits prod.splits)
  qed
qed simp

end
