(* ===== verification/Orch_Entities.thy ===== *)
theory Orch_Entities
  imports Py_Prelude
begin

text \<open>
  The value types of \<^verbatim>\<open>src/orchestration/domain/entities.py\<close>, in the order of the
  file. A frozen dataclass is a record; an enum is a datatype. A class whose
  \<^verbatim>\<open>__post_init__\<close> rejects some values comes with a \<open>make_\<close> function, which is the
  constructor call: \<open>Inl\<close> is the raised \<open>ValueError\<close>. Messages that print a value are
  cut to their fixed text.
\<close>

subsection \<open>Cache and sync values\<close>

record 'kv cache_hit =
  ch_content_hash :: string
  ch_kv_cache :: 'kv

record sync_conflict =
  sc_document_id :: uuid
  sc_cached_content_hash :: string
  sc_authoritative_content_hash :: string

datatype tier_decision = PROMOTED | DEMOTED | UNCHANGED

record warm_entry =
  we_content_hash :: string
  we_content :: string

subsection \<open>Paradigms and routing\<close>

datatype paradigm = CAG | MAG | RAG

definition PARADIGM_ORDER :: "paradigm list" where
  "PARADIGM_ORDER = [CAG, MAG, RAG]"

fun paradigm_value :: "paradigm \<Rightarrow> string" where
  "paradigm_value CAG = ''cag''"
| "paradigm_value MAG = ''mag''"
| "paradigm_value RAG = ''rag''"

datatype routing_mode = CASCADE | PARALLEL

record routing_decision =
  rd_paradigms :: "paradigm set"
  rd_mode :: routing_mode
  rd_scores :: "paradigm \<rightharpoonup> pyfloat"

subsection \<open>Tiers\<close>

datatype tier_outcome = HIT | PARTIAL | MISS | TIMEOUT | ERROR

record context_item =
  ci_paradigm :: paradigm
  ci_content :: string
  ci_score :: rat
  ci_source_id :: "uuid option"

record tier_request =
  tr_tenant_id :: uuid
  tr_user_id :: uuid
  tr_session_id :: uuid
  tr_query :: string
  tr_query_embedding :: "rat list"

record tier_result =
  tres_outcome :: tier_outcome
  tres_items :: "context_item list"

definition TIER_REPORTABLE_OUTCOMES :: "tier_outcome set" where
  "TIER_REPORTABLE_OUTCOMES = {HIT, PARTIAL, MISS}"

definition make_tier_result :: "tier_outcome \<Rightarrow> context_item list \<Rightarrow> tier_result result" where
  "make_tier_result outcome items =
     (if outcome \<notin> TIER_REPORTABLE_OUTCOMES
      then Inl (ValueError ''a tier cannot report this outcome; only the cascade records it'')
      else if outcome = MISS \<and> items \<noteq> [] then Inl (ValueError ''a MISS carries no items'')
      else Inr \<lparr>tres_outcome = outcome, tres_items = items\<rparr>)"

record tier_attempt =
  ta_paradigm :: paradigm
  ta_outcome :: tier_outcome
  ta_elapsed_ms :: rat

record cascade_result =
  cr_items :: "context_item list"
  cr_attempts :: "tier_attempt list"
  cr_satisfied :: "paradigm set"
  cr_degraded :: bool

definition contributing :: "cascade_result \<Rightarrow> paradigm set" where
  "contributing r = ci_paradigm ` set (cr_items r)"

subsection \<open>Budget values\<close>

record budget_shares =
  bs_cag :: rat
  bs_mag :: rat
  bs_rag :: rat
  bs_query :: rat
  bs_reserve :: rat

fun share_ok :: "pyfloat \<Rightarrow> bool" where
  "share_ok (Fin x) = (0 \<le> x)"
| "share_ok _ = False"

fun fin_val :: "pyfloat \<Rightarrow> rat" where
  "fin_val (Fin x) = x"
| "fin_val _ = 0"

definition isclose_1 :: "rat \<Rightarrow> bool" where
  \<comment> \<open>\<open>math.isclose(x, 1.0, rel_tol=0.0, abs_tol=1e-12)\<close>\<close>
  "isclose_1 x \<longleftrightarrow> x = 1 \<or> \<bar>fl (1 - x)\<bar> \<le> fl (1 / 10 ^ 12)"

definition make_budget_shares ::
  "pyfloat \<Rightarrow> pyfloat \<Rightarrow> pyfloat \<Rightarrow> pyfloat \<Rightarrow> pyfloat \<Rightarrow> budget_shares result" where
  "make_budget_shares cag mag rag query reserve =
     (let vs = [cag, mag, rag, query, reserve] in
      if \<not> list_all share_ok vs
      then Inl (ValueError ''budget shares must be finite and non-negative'')
      else if \<not> isclose_1 (fsum (map fin_val vs))
      then Inl (ValueError ''budget shares must sum to 1.0'')
      else Inr \<lparr>bs_cag = fin_val cag, bs_mag = fin_val mag, bs_rag = fin_val rag,
                bs_query = fin_val query, bs_reserve = fin_val reserve\<rparr>)"

fun shares_for_paradigm :: "budget_shares \<Rightarrow> paradigm \<Rightarrow> rat" where
  "shares_for_paradigm s CAG = bs_cag s"
| "shares_for_paradigm s MAG = bs_mag s"
| "shares_for_paradigm s RAG = bs_rag s"

record budget_allocation =
  ba_cag :: int
  ba_mag :: int
  ba_rag :: int
  ba_query :: int
  ba_reserve :: int

definition allocation_total :: "budget_allocation \<Rightarrow> int" where
  "allocation_total a = ba_cag a + ba_mag a + ba_rag a + ba_query a + ba_reserve a"

fun allocation_for_paradigm :: "budget_allocation \<Rightarrow> paradigm \<Rightarrow> int" where
  "allocation_for_paradigm a CAG = ba_cag a"
| "allocation_for_paradigm a MAG = ba_mag a"
| "allocation_for_paradigm a RAG = ba_rag a"

subsection \<open>Data sources\<close>

datatype source_scope = TENANT | USER

datatype ingestion_route = RAG_ONLY | CAG_WITH_RAG_BACKUP | MAG_ROUTE

record data_source_profile =
  dp_source_key :: string
  dp_scope :: source_scope
  dp_expected_change_interval :: timedelta

definition make_data_source_profile ::
  "string \<Rightarrow> source_scope \<Rightarrow> timedelta \<Rightarrow> data_source_profile result" where
  "make_data_source_profile key scope interval =
     (if py_strip key = [] then Inl (ValueError ''source_key must not be blank'')
      else if interval \<le> 0 then Inl (ValueError ''expected_change_interval must be positive'')
      else Inr \<lparr>dp_source_key = key, dp_scope = scope, dp_expected_change_interval = interval\<rparr>)"

record freshness_policy =
  fp_volatile_below :: timedelta
  fp_demote_after_changes :: int
  fp_promote_after_quiet_multiple :: int
  fp_ttl_factor :: "rat option"

definition make_freshness_policy ::
  "timedelta \<Rightarrow> int \<Rightarrow> int \<Rightarrow> rat option \<Rightarrow> freshness_policy result" where
  "make_freshness_policy volatile_below demote promote ttl =
     (if volatile_below \<le> 0 then Inl (ValueError ''volatile_below must be positive'')
      else if demote < 1 then Inl (ValueError ''demote_after_changes must be at least 1'')
      else if promote \<le> demote
      then Inl (ValueError ''promote_after_quiet_multiple must exceed demote_after_changes'')
      else if (case ttl of None \<Rightarrow> False | Some f \<Rightarrow> f \<le> 0)
      then Inl (ValueError ''ttl_factor must be positive, or None for no expiry'')
      else Inr \<lparr>fp_volatile_below = volatile_below, fp_demote_after_changes = demote,
                fp_promote_after_quiet_multiple = promote, fp_ttl_factor = ttl\<rparr>)"

definition default_freshness_policy :: freshness_policy where
  "default_freshness_policy =
     \<lparr>fp_volatile_below = days 1, fp_demote_after_changes = 3,
      fp_promote_after_quiet_multiple = 7, fp_ttl_factor = Some (1 / 2)\<rparr>"

record data_source =
  ds_id :: uuid
  ds_tenant_id :: uuid
  ds_user_id :: "uuid option"
  ds_source_key :: string
  ds_scope :: source_scope
  ds_expected_change_interval :: timedelta
  ds_route :: ingestion_route
  ds_content_hash :: string
  ds_last_changed_at :: datetime
  ds_last_ingested_at :: datetime
  ds_cached_until :: "datetime option"
  ds_pending_hash :: "string option"

record source_version =
  sv_content :: "string option"

record ingestion_result =
  ir_source_id :: uuid
  ir_route :: ingestion_route
  ir_changed :: bool

datatype job_state = PENDING | SUCCESS | FAILURE

record job_status =
  js_state :: job_state
  js_result :: "ingestion_result option"
  js_error :: "string option"

record migration_decision =
  md_to_route :: ingestion_route
  md_interval :: timedelta

record source_migration =
  sm_source_key :: string
  sm_from_route :: ingestion_route
  sm_to_route :: ingestion_route
  sm_observed_interval :: timedelta

subsection \<open>What the constructors guarantee\<close>

lemma set_PARADIGM_ORDER [simp]: "set PARADIGM_ORDER = UNIV"
  using paradigm.exhaust by (auto simp: PARADIGM_ORDER_def)

lemma distinct_PARADIGM_ORDER [simp]: "distinct PARADIGM_ORDER"
  by (simp add: PARADIGM_ORDER_def)

lemma UNIV_paradigm: "UNIV = {CAG, MAG, RAG}"
  using paradigm.exhaust by auto

lemma make_tier_result_Inr:
  "make_tier_result outcome items = Inr r \<longleftrightarrow>
     outcome \<in> {HIT, PARTIAL, MISS} \<and> (outcome = MISS \<longrightarrow> items = []) \<and>
     r = \<lparr>tres_outcome = outcome, tres_items = items\<rparr>"
  by (auto simp: make_tier_result_def TIER_REPORTABLE_OUTCOMES_def)

end
