(* ===== verification/Paradigm_Router.thy ===== *)
theory Paradigm_Router
  imports Orch_Entities
begin

text \<open>
  \<^verbatim>\<open>src/orchestration/domain/paradigm_router.py\<close>: the routing decision over per-paradigm
  scores. A score is a \<open>pyfloat\<close>, because the source rejects the values that are not
  finite; the threshold and the margin are finite doubles.
\<close>

definition DEFAULT_SELECT_THRESHOLD :: rat where
  "DEFAULT_SELECT_THRESHOLD = 1 / 2"

definition DEFAULT_UNCERTAINTY_MARGIN :: rat where
  "DEFAULT_UNCERTAINTY_MARGIN = fl (15 / 100)"

definition fallback_decision :: "(paradigm \<rightharpoonup> pyfloat) option \<Rightarrow> routing_decision" where
  "fallback_decision scores =
     \<lparr>rd_paradigms = set PARADIGM_ORDER, rd_mode = PARALLEL,
      rd_scores = (case scores of None \<Rightarrow> Map.empty | Some s \<Rightarrow> s)\<rparr>"

fun in_unit :: "pyfloat \<Rightarrow> bool" where
  "in_unit (Fin x) = (0 \<le> x \<and> x \<le> 1)"
| "in_unit _ = False"

definition score_of :: "(paradigm \<rightharpoonup> pyfloat) \<Rightarrow> paradigm \<Rightarrow> rat" where
  "score_of scores p = (case scores p of None \<Rightarrow> 0 | Some x \<Rightarrow> fin_val x)"

definition selected :: "(paradigm \<rightharpoonup> pyfloat) \<Rightarrow> rat \<Rightarrow> paradigm list" where
  "selected scores threshold = filter (\<lambda>p. threshold \<le> score_of scores p) PARADIGM_ORDER"

definition uncertain :: "(paradigm \<rightharpoonup> pyfloat) \<Rightarrow> rat \<Rightarrow> rat \<Rightarrow> paradigm list" where
  "uncertain scores threshold margin =
     filter (\<lambda>p. \<bar>fl (score_of scores p - threshold)\<bar> < margin) PARADIGM_ORDER"

definition decide :: "(paradigm \<rightharpoonup> pyfloat) \<Rightarrow> rat \<Rightarrow> rat \<Rightarrow> routing_decision result" where
  "decide scores select_threshold uncertainty_margin =
     (if list_ex (\<lambda>p. scores p = None) PARADIGM_ORDER
      then Inl (ValueError ''scores must contain exactly one entry per paradigm'')
      else if list_ex (\<lambda>p. \<not> in_unit (the (scores p))) PARADIGM_ORDER
      then Inl (ValueError ''score is outside [0, 1]'')
      else if uncertainty_margin < 0
      then Inl (ValueError ''uncertainty_margin must be non-negative'')
      else
        (let sel = selected scores select_threshold in
         if sel = [] then Inr (fallback_decision (Some scores))
         else
           (let unc = uncertain scores select_threshold uncertainty_margin in
            if unc \<noteq> []
            then Inr \<lparr>rd_paradigms = set sel \<union> set unc, rd_mode = PARALLEL, rd_scores = scores\<rparr>
            else Inr \<lparr>rd_paradigms = set sel, rd_mode = CASCADE, rd_scores = scores\<rparr>)))"

subsection \<open>Properties\<close>

definition valid_scores :: "(paradigm \<rightharpoonup> pyfloat) \<Rightarrow> bool" where
  "valid_scores scores \<longleftrightarrow> (\<forall>p. \<exists>x. scores p = Some x \<and> in_unit x)"

lemma list_ex_order: "list_ex P PARADIGM_ORDER \<longleftrightarrow> (\<exists>p. P p)"
  by (simp add: list_ex_iff)

lemma decide_total:
  "(\<exists>d. decide scores t m = Inr d) \<longleftrightarrow> valid_scores scores \<and> 0 \<le> m"
proof -
  have "valid_scores scores \<longleftrightarrow>
      \<not> (\<exists>p. scores p = None) \<and> \<not> (\<exists>p. \<not> in_unit (the (scores p)))"
    unfolding valid_scores_def by (metis option.collapse option.sel option.simps(3))
  then show ?thesis
    by (simp only: decide_def list_ex_order) (auto simp: Let_def)
qed

lemma decide_Inr:
  assumes "decide scores t m = Inr d"
  shows "d = (if selected scores t = [] then fallback_decision (Some scores)
              else if uncertain scores t m \<noteq> []
              then \<lparr>rd_paradigms = set (selected scores t) \<union> set (uncertain scores t m),
                    rd_mode = PARALLEL, rd_scores = scores\<rparr>
              else \<lparr>rd_paradigms = set (selected scores t), rd_mode = CASCADE, rd_scores = scores\<rparr>)"
  using assms by (auto simp: decide_def Let_def split: if_splits)

lemma selected_set: "set (selected scores t) = {p. t \<le> score_of scores p}"
  by (auto simp: selected_def)

lemma uncertain_set: "set (uncertain scores t m) = {p. \<bar>fl (score_of scores p - t)\<bar> < m}"
  by (auto simp: uncertain_def)

lemma selected_Nil: "selected scores t = [] \<longleftrightarrow> (\<forall>p. score_of scores p < t)"
  by (auto simp: selected_def filter_empty_conv not_le)

lemma uncertain_Nil: "uncertain scores t m = [] \<longleftrightarrow> (\<forall>p. m \<le> \<bar>fl (score_of scores p - t)\<bar>)"
  by (auto simp: uncertain_def filter_empty_conv not_less)

text \<open>
  What a routing decision means. Every paradigm whose score reaches the threshold is
  routed, and some paradigm always is. The route is a confident \<open>CASCADE\<close> exactly when
  some score reaches the threshold and none lies within the uncertainty margin of it (the
  distance as the code computes it, rounded), and then it is exactly the paradigms that
  reach the threshold. A \<open>PARALLEL\<close> route has every paradigm of the uncertain band too,
  and all three when no score reaches the threshold. The scores are passed through.
\<close>

theorem decide_spec:
  assumes "decide scores t m = Inr d"
  shows "{p. t \<le> score_of scores p} \<subseteq> rd_paradigms d \<and> rd_paradigms d \<noteq> {} \<and>
    (rd_mode d = CASCADE \<longleftrightarrow>
       (\<exists>p. t \<le> score_of scores p) \<and> (\<forall>p. m \<le> \<bar>fl (score_of scores p - t)\<bar>)) \<and>
    (rd_mode d = CASCADE \<longrightarrow> rd_paradigms d = {p. t \<le> score_of scores p}) \<and>
    (rd_mode d = PARALLEL \<longrightarrow>
       {p. \<bar>fl (score_of scores p - t)\<bar> < m} \<subseteq> rd_paradigms d \<and>
       ((\<forall>p. score_of scores p < t) \<longrightarrow> rd_paradigms d = UNIV)) \<and>
    rd_scores d = scores"
proof -
  consider (none) "selected scores t = []"
    | (unsure) "selected scores t \<noteq> []" "uncertain scores t m \<noteq> []"
    | (sure) "selected scores t \<noteq> []" "uncertain scores t m = []" by blast
  then show ?thesis
  proof cases
    case none
    then have "d = fallback_decision (Some scores)" and "\<not> (\<exists>p. t \<le> score_of scores p)"
      using decide_Inr [OF assms] by (auto simp: selected_Nil not_le)
    then show ?thesis by (simp add: fallback_decision_def)
  next
    case unsure
    then have "rd_paradigms d = set (selected scores t) \<union> set (uncertain scores t m)"
      "rd_mode d = PARALLEL" "rd_scores d = scores"
      using decide_Inr [OF assms] by simp_all
    with unsure show ?thesis
      unfolding selected_set uncertain_set selected_Nil uncertain_Nil
      by (auto simp: not_less not_le simp flip: not_le)
  next
    case sure
    then have "rd_paradigms d = set (selected scores t)" "rd_mode d = CASCADE" "rd_scores d = scores"
      using decide_Inr [OF assms] by simp_all
    with sure show ?thesis
      unfolding selected_set selected_Nil uncertain_Nil by (auto simp: not_less)
  qed
qed

theorem decide_spec_witness:
  "\<exists>d. decide [CAG \<mapsto> Fin (1 / 8), MAG \<mapsto> Fin (1 / 4), RAG \<mapsto> Fin (7 / 8)]
         DEFAULT_SELECT_THRESHOLD DEFAULT_UNCERTAINTY_MARGIN = Inr d \<and>
       rd_mode d = CASCADE \<and> rd_paradigms d = {RAG}"
proof -
  let ?s = "[CAG \<mapsto> Fin (1 / 8), MAG \<mapsto> Fin (1 / 4), RAG \<mapsto> Fin (7 / 8)]"
  let ?d = "\<lparr>rd_paradigms = {RAG}, rd_mode = CASCADE, rd_scores = ?s\<rparr>"
  have e: "uncertain ?s DEFAULT_SELECT_THRESHOLD DEFAULT_UNCERTAINTY_MARGIN = []"
    by code_simp
  have d: "decide ?s DEFAULT_SELECT_THRESHOLD DEFAULT_UNCERTAINTY_MARGIN = Inr ?d"
    using e by (simp add: decide_def Let_def PARADIGM_ORDER_def selected_def score_of_def
        DEFAULT_SELECT_THRESHOLD_def DEFAULT_UNCERTAINTY_MARGIN_def double.rnd_nonneg not_less)
  have "{p. DEFAULT_SELECT_THRESHOLD \<le> score_of ?s p} \<subseteq> rd_paradigms ?d"
    using decide_spec [OF d] by (rule conjunct1)
  then show ?thesis
    using d by (intro exI [of _ ?d]) simp
qed

text \<open>
  C20. When \<^verbatim>\<open>decide\<close> raises: it returns a decision exactly when there is one score for
  every paradigm, each of them is a finite number between 0 and 1, and the margin is not
  negative. NaN and the infinities are rejected.
\<close>

theorem decide_returns_iff:
  "(\<exists>d. decide scores t m = Inr d) \<longleftrightarrow>
     (\<forall>p. \<exists>x. scores p = Some (Fin x) \<and> 0 \<le> x \<and> x \<le> 1) \<and> 0 \<le> m"
proof -
  have "in_unit x \<longleftrightarrow> (\<exists>r. x = Fin r \<and> 0 \<le> r \<and> r \<le> 1)" for x by (cases x) auto
  then show ?thesis unfolding decide_total valid_scores_def by (metis option.inject)
qed

end
