(* ===== verification/Budget_Allocator.thy ===== *)
theory Budget_Allocator
  imports Orch_Entities
begin

text \<open>
  \<^verbatim>\<open>src/orchestration/domain/budget_allocator.py\<close> (\<open>allocate\<close> and its helper) and
  \<^verbatim>\<open>src/orchestration/application/assemble_context.py\<close>: slicing the context window and
  packing each paradigm's items into its slice. Products with a share are products of
  doubles, rounded by \<open>fl\<close> before \<open>math.floor\<close>. The tokenizer behind \<open>count_tokens\<close>
  (tiktoken) is a parameter.
\<close>

subsection \<open>allocate\<close>

definition DEFAULT_SHARES :: budget_shares where
  "DEFAULT_SHARES = \<lparr>bs_cag = fl (40 / 100), bs_mag = fl (25 / 100), bs_rag = fl (20 / 100),
     bs_query = fl (10 / 100), bs_reserve = fl (5 / 100)\<rparr>"

definition recipients :: "paradigm \<Rightarrow> paradigm set \<Rightarrow> paradigm list" where
  "recipients idle active =
     (case idle of
        RAG \<Rightarrow> (case filter (\<lambda>p. p \<in> active) [MAG, CAG] of [] \<Rightarrow> [] | p # _ \<Rightarrow> [p])
      | CAG \<Rightarrow> (case filter (\<lambda>p. p \<in> active) [RAG, MAG] of [] \<Rightarrow> [] | p # _ \<Rightarrow> [p])
      | MAG \<Rightarrow> filter (\<lambda>p. p \<in> active) [CAG, RAG])"

definition floor_share :: "int \<Rightarrow> rat \<Rightarrow> int" where
  \<comment> \<open>\<open>math.floor(n * share)\<close> for an integer and a float\<close>
  "floor_share n s = \<lfloor>fl (fl (of_int n) * s)\<rfloor>"

definition portion :: "int \<Rightarrow> rat \<Rightarrow> rat \<Rightarrow> int" where
  \<comment> \<open>\<open>math.floor(donation * share / weight_total)\<close>\<close>
  "portion donation s w = \<lfloor>fl (fl (fl (of_int donation) * s) / w)\<rfloor>"

type_synonym slices = "(paradigm \<Rightarrow> int) \<times> int"

fun give :: "budget_shares \<Rightarrow> int \<Rightarrow> rat \<Rightarrow> paradigm list \<Rightarrow> (paradigm \<Rightarrow> int) \<times> int \<Rightarrow>
    (paradigm \<Rightarrow> int) \<times> int" where
  \<comment> \<open>the loop over several recipients: the slices and what was given so far\<close>
  "give shares donation w [] (sl, given) = (sl, given)"
| "give shares donation w (r # rs) (sl, given) =
     (let p = portion donation (shares_for_paradigm shares r) w
      in give shares donation w rs (sl(r := sl r + p), given + p))"

definition donate ::
  "budget_shares \<Rightarrow> (paradigm \<Rightarrow> int) \<Rightarrow> paradigm set \<Rightarrow> paradigm \<Rightarrow> slices \<Rightarrow> slices" where
  \<comment> \<open>the body of \<open>for idle in PARADIGM_ORDER\<close>\<close>
  "donate shares base active idle st =
     (case st of (sl, reserve) \<Rightarrow>
        if idle \<in> active then (sl, reserve)
        else
          (let donation = base idle;
               sl1 = sl(idle := sl idle - donation);
               rs = recipients idle active
           in case rs of
                [] \<Rightarrow> (sl1, reserve + donation)
              | [r] \<Rightarrow> (sl1(r := sl1 r + donation), reserve)
              | _ \<Rightarrow>
                  (let w = fsum (map (shares_for_paradigm shares) rs) in
                   if w \<le> 0 then (sl1, reserve + donation)
                   else (case give shares donation w rs (sl1, 0) of (sl2, given) \<Rightarrow>
                           (sl2, reserve + (donation - given))))))"

definition allocate :: "int \<Rightarrow> paradigm set \<Rightarrow> budget_shares \<Rightarrow> budget_allocation result" where
  "allocate total_tokens active shares =
     (if total_tokens < 0 then Inl (ValueError ''total_tokens must be non-negative'')
      else
        (let base = (\<lambda>p. floor_share total_tokens (shares_for_paradigm shares p));
             query = floor_share total_tokens (bs_query shares);
             reserve = total_tokens - sum_list (map base PARADIGM_ORDER) - query
         in case fold (donate shares base active) PARADIGM_ORDER (base, reserve) of
              (sl, reserve') \<Rightarrow>
                Inr \<lparr>ba_cag = sl CAG, ba_mag = sl MAG, ba_rag = sl RAG,
                     ba_query = query, ba_reserve = reserve'\<rparr>))"

subsection \<open>assemble\_context\<close>

definition SECTION_TITLES :: "paradigm \<Rightarrow> string" where
  "SECTION_TITLES p =
     (case p of CAG \<Rightarrow> ''Pre-loaded reference knowledge (CAG)''
      | MAG \<Rightarrow> ''What is known about this user (MAG)''
      | RAG \<Rightarrow> ''Retrieved documents (RAG)'')"

record assembled_context =
  ac_text :: string
  ac_included :: "context_item list"
  ac_dropped :: "paradigm \<Rightarrow> nat"
  ac_tokens_used :: "paradigm \<Rightarrow> nat"

definition ranked :: "context_item list \<Rightarrow> paradigm \<Rightarrow> context_item list" where
  "ranked items p = sorted_desc ci_score (filter (\<lambda>x. ci_paradigm x = p) items)"

definition pack_paradigm ::
  "(string \<Rightarrow> nat) \<Rightarrow> budget_allocation \<Rightarrow> context_item list \<Rightarrow> paradigm \<Rightarrow>
    context_item list \<times> nat \<times> nat" where
  "pack_paradigm count_tokens alloc items p =
     skip_pack (\<lambda>x. count_tokens (ci_content x)) (allocation_for_paradigm alloc p) (ranked items p) 0"

definition assemble_context ::
  "(string \<Rightarrow> nat) \<Rightarrow> context_item list \<Rightarrow> budget_allocation \<Rightarrow> assembled_context" where
  "assemble_context count_tokens items alloc =
     (let packed = pack_paradigm count_tokens alloc items;
          kept = (\<lambda>p. fst (packed p));
          nonempty = filter (\<lambda>p. kept p \<noteq> []) PARADIGM_ORDER;
          render = (\<lambda>p. ''## '' @ SECTION_TITLES p @ [CHR 0x0A] @
                        join [CHR 0x0A, CHR 0x0A] (map ci_content (kept p)))
      in \<lparr>ac_text = join [CHR 0x0A, CHR 0x0A] (map render nonempty),
          ac_included = concat (map kept nonempty),
          ac_dropped = (\<lambda>p. snd (snd (packed p))),
          ac_tokens_used = (\<lambda>p. fst (snd (packed p)))\<rparr>)"

subsection \<open>The donation loop\<close>

text \<open>One donation moves tokens between the slices and the reserve and loses none.\<close>

definition slices_sum :: "(paradigm \<Rightarrow> int) \<Rightarrow> int" where
  "slices_sum sl = sl CAG + sl MAG + sl RAG"

lemma slices_sum_upd: "slices_sum (sl(p := v)) = slices_sum sl - sl p + v"
  by (cases p) (simp_all add: slices_sum_def)

lemma give_sum:
  "give shares d w rs (sl, g) = (sl', g') \<Longrightarrow> slices_sum sl' - g' = slices_sum sl - g"
  by (induction rs arbitrary: sl g) (auto simp: Let_def slices_sum_upd)

lemma donate_sum:
  "donate shares base active p (sl, r) = (sl', r') \<Longrightarrow> slices_sum sl' + r' = slices_sum sl + r"
  by (auto simp: donate_def Let_def slices_sum_upd split: if_splits list.splits prod.splits
      dest!: give_sum)

lemma fold_donate_sum:
  "fold (donate shares base active) ps (sl, r) = (sl', r') \<Longrightarrow>
     slices_sum sl' + r' = slices_sum sl + r"
proof (induction ps arbitrary: sl r)
  case (Cons p ps)
  obtain sl1 r1 where s: "donate shares base active p (sl, r) = (sl1, r1)" by fastforce
  with Cons.prems have "slices_sum sl' + r' = slices_sum sl1 + r1" by (auto intro: Cons.IH)
  with donate_sum [OF s] show ?case by simp
qed simp

lemma allocate_Inr:
  assumes "allocate n active shares = Inr a"
  obtains sl r where "0 \<le> n"
    "fold (donate shares (\<lambda>p. floor_share n (shares_for_paradigm shares p)) active) PARADIGM_ORDER
       (\<lambda>p. floor_share n (shares_for_paradigm shares p),
        n - slices_sum (\<lambda>p. floor_share n (shares_for_paradigm shares p))
          - floor_share n (bs_query shares)) = (sl, r)"
    "a = \<lparr>ba_cag = sl CAG, ba_mag = sl MAG, ba_rag = sl RAG,
          ba_query = floor_share n (bs_query shares), ba_reserve = r\<rparr>"
  using assms
  by (auto simp: allocate_def Let_def slices_sum_def PARADIGM_ORDER_def add.assoc
      split: if_splits prod.splits)

text \<open>
  The several-recipient case is the donation of an idle MAG to CAG and RAG together; every
  other donation has at most one recipient.
\<close>

lemma recipients_cases:
  "recipients idle active = [] \<or> (\<exists>r. recipients idle active = [r]) \<or>
   idle = MAG \<and> recipients idle active = [CAG, RAG]"
  by (cases idle) (auto simp: recipients_def split: list.splits)

lemma recipients_active: "set (recipients idle active) \<subseteq> active"
  by (cases idle) (auto simp: recipients_def split: list.splits dest!: filter_eq_ConsD)

lemma weight_two: "fsum [a, b] = fl (fl a + b)"
  by (simp add: fsum_def)

lemma portions_le:
  fixes s1 s2 :: rat
  assumes d: "0 \<le> d" "d \<le> 2 ^ 49" and s: "0 \<le> s1" "0 \<le> s2" and w: "0 < w"
    and wl: "(s1 + s2) * (1 - 1 / 2 ^ 52) \<le> w"
  shows "portion d s1 w + portion d s2 w \<le> d"
proof -
  let ?e = "1 / 2 ^ 53 :: rat"
  have df: "fl (of_int d) = of_int d" using d by (intro double.rnd_int) auto
  have q: "fl (fl (of_int d * s) / w) \<le> of_int d * s * (1 + ?e) * (1 + ?e) / w" if "0 \<le> s" for s
  proof -
    have p: "0 \<le> of_int d * s" using d that by simp
    have "fl (fl (of_int d * s) / w) \<le> fl (of_int d * s) / w * (1 + ?e)"
      using double.rnd_nonneg [OF p] w by (intro double.rnd_upper) simp
    also have "\<dots> \<le> of_int d * s * (1 + ?e) / w * (1 + ?e)"
      using double.rnd_upper [OF p] w by (intro mult_right_mono divide_right_mono) auto
    finally show ?thesis by simp
  qed
  have "of_int (portion d s1 w + portion d s2 w) \<le> fl (fl (of_int d * s1) / w) + fl (fl (of_int d * s2) / w)"
    unfolding portion_def df of_int_add by (intro add_mono of_int_floor_le)
  also have "\<dots> \<le> of_int d * (s1 + s2) * (1 + ?e) * (1 + ?e) / w"
    using add_mono [OF q [OF s(1)] q [OF s(2)]]
    by (simp only: distrib_left distrib_right add_divide_distrib)
  also have "\<dots> < of_int d + 1"
  proof -
    have ds: "0 \<le> of_int d * (s1 + s2)" using d s by simp
    have "of_int d * (s1 + s2) * ((1 + ?e) * (1 + ?e)) \<le> of_int d * (s1 + s2) * ((1 + 1 / 2 ^ 50) * (1 - 1 / 2 ^ 52))"
      using ds by (intro mult_left_mono) (simp_all add: field_simps)
    also have "\<dots> = (of_int d * (1 + 1 / 2 ^ 50)) * ((s1 + s2) * (1 - 1 / 2 ^ 52))" by simp
    also have "\<dots> \<le> (of_int d * (1 + 1 / 2 ^ 50)) * w"
      using wl d by (intro mult_left_mono) auto
    also have "\<dots> < (of_int d + 1) * w"
    proof -
      have "(of_int d :: rat) \<le> of_int (2 ^ 49)" using d by (simp only: of_int_le_iff)
      then show ?thesis using w by (intro mult_strict_right_mono) (simp_all add: algebra_simps)
    qed
    finally show ?thesis using w by (simp add: pos_divide_less_eq mult.assoc)
  qed
  finally have "(of_int (portion d s1 w + portion d s2 w) :: rat) < of_int (d + 1)" by simp
  then show ?thesis by (simp only: of_int_less_iff)
qed

lemma weight_lower:
  assumes "0 \<le> s1" "0 \<le> s2"
  shows "(s1 + s2) * (1 - 1 / 2 ^ 52) \<le> fsum [s1, s2]"
proof -
  have f: "0 \<le> fl s1 + s2" using assms by (simp add: double.rnd_nonneg)
  have "s1 * (1 - 1 / 2 ^ 53) + s2 * (1 - 1 / 2 ^ 53) \<le> fl s1 + s2"
    using double.rnd_lower [OF assms(1)] assms(2) by (intro add_mono) (auto simp: field_simps)
  then have "(s1 + s2) * (1 - 1 / 2 ^ 53) * (1 - 1 / 2 ^ 53) \<le> (fl s1 + s2) * (1 - 1 / 2 ^ 53)"
    by (intro mult_right_mono) (simp_all only: distrib_right, simp)
  also have "\<dots> \<le> fsum [s1, s2]" unfolding weight_two by (rule double.rnd_lower [OF f])
  finally have "(s1 + s2) * ((1 - 1 / 2 ^ 53) * (1 - 1 / 2 ^ 53)) \<le> fsum [s1, s2]"
    by (simp only: mult.assoc)
  moreover have "(s1 + s2) * (1 - 1 / 2 ^ 52) \<le> (s1 + s2) * ((1 - 1 / 2 ^ 53) * (1 - 1 / 2 ^ 53))"
    using assms by (intro mult_left_mono) (simp_all add: field_simps)
  ultimately show ?thesis by linarith
qed

definition nonneg_shares :: "budget_shares \<Rightarrow> bool" where
  "nonneg_shares s \<longleftrightarrow> 0 \<le> bs_cag s \<and> 0 \<le> bs_mag s \<and> 0 \<le> bs_rag s \<and> 0 \<le> bs_query s \<and> 0 \<le> bs_reserve s"

lemma nonneg_shares_for [simp]: "nonneg_shares s \<Longrightarrow> 0 \<le> shares_for_paradigm s p"
  by (cases p) (auto simp: nonneg_shares_def)

lemma portion_nonneg: "0 \<le> d \<Longrightarrow> 0 \<le> s \<Longrightarrow> 0 < w \<Longrightarrow> 0 \<le> portion d s w"
  by (simp add: portion_def double.rnd_nonneg)

lemma floor_share_nonneg: "0 \<le> n \<Longrightarrow> 0 \<le> s \<Longrightarrow> 0 \<le> floor_share n s"
  by (simp add: floor_share_def double.rnd_nonneg)

text \<open>What one donation does to each slice and to the reserve.\<close>

lemma donate_effect:
  assumes nn: "nonneg_shares shares" and b: "0 \<le> base p" "base p \<le> 2 ^ 49"
    and d: "donate shares base active p (sl, r) = (sl', r')"
  shows "p \<in> active \<Longrightarrow> (sl', r') = (sl, r)"
    and "p \<notin> active \<Longrightarrow> sl' p = sl p - base p"
    and "q \<notin> active \<Longrightarrow> q \<noteq> p \<Longrightarrow> sl' q = sl q"
    and "q \<in> active \<Longrightarrow> sl q \<le> sl' q"
    and "r \<le> r'"
proof -
  have act: "set (recipients p active) \<subseteq> active" by (rule recipients_active)
  have "(p \<in> active \<longrightarrow> (sl', r') = (sl, r)) \<and> (p \<notin> active \<longrightarrow> sl' p = sl p - base p) \<and>
      (\<forall>q. q \<notin> active \<longrightarrow> q \<noteq> p \<longrightarrow> sl' q = sl q) \<and> (\<forall>q. q \<in> active \<longrightarrow> sl q \<le> sl' q) \<and> r \<le> r'"
  proof (cases "p \<in> active")
    case True
    with d show ?thesis by (simp add: donate_def)
  next
    case False
    consider "recipients p active = []" | x where "recipients p active = [x]"
      | "p = MAG" "recipients p active = [CAG, RAG]"
      using recipients_cases [of p active] by blast
    then show ?thesis
    proof cases
      case 1
      with d False b show ?thesis by (auto simp: donate_def Let_def)
    next
      case 2
      with d False b act show ?thesis by (auto simp: donate_def Let_def)
    next
      case 3
      let ?w = "fsum [bs_cag shares, bs_rag shares]"
      have ac: "CAG \<in> active" "RAG \<in> active" using act 3 by auto
      show ?thesis
      proof (cases "?w \<le> 0")
        case True
        with d False b ac 3 show ?thesis by (auto simp: donate_def Let_def)
      next
        case w: False
        have s: "0 \<le> bs_cag shares" "0 \<le> bs_rag shares" using nn by (auto simp: nonneg_shares_def)
        have "portion (base p) (bs_cag shares) ?w + portion (base p) (bs_rag shares) ?w \<le> base p"
          using portions_le [OF b s _ weight_lower [OF s]] w by simp
        moreover have "0 \<le> portion (base p) (bs_cag shares) ?w" "0 \<le> portion (base p) (bs_rag shares) ?w"
          using b s w by (auto intro: portion_nonneg)
        ultimately show ?thesis
          using d False w ac 3 by (auto simp: donate_def Let_def)
      qed
    qed
  qed
  then show "p \<in> active \<Longrightarrow> (sl', r') = (sl, r)" "p \<notin> active \<Longrightarrow> sl' p = sl p - base p"
    "q \<notin> active \<Longrightarrow> q \<noteq> p \<Longrightarrow> sl' q = sl q" "q \<in> active \<Longrightarrow> sl q \<le> sl' q" "r \<le> r'"
    by auto
qed

lemma fold_donate_effect:
  assumes nn: "nonneg_shares shares" and b: "\<And>p. 0 \<le> base p \<and> base p \<le> 2 ^ 49"
    and "distinct ps" and "fold (donate shares base active) ps (sl, r) = (sl', r')"
  shows "(\<forall>q. q \<notin> active \<longrightarrow> sl' q = (if q \<in> set ps then sl q - base q else sl q)) \<and>
    (\<forall>q \<in> active. sl q \<le> sl' q) \<and> r \<le> r'"
  using assms(3,4)
proof (induction ps arbitrary: sl r)
  case (Cons p ps)
  obtain sl1 r1 where s: "donate shares base active p (sl, r) = (sl1, r1)" by fastforce
  have "\<forall>q. q \<notin> active \<longrightarrow> sl' q = (if q \<in> set ps then sl1 q - base q else sl1 q)"
    "\<forall>q \<in> active. sl1 q \<le> sl' q" "r1 \<le> r'"
    using Cons.IH [of sl1 r1] Cons.prems s by auto
  moreover note donate_effect [OF nn _ _ s]
  ultimately show ?case using b Cons.prems(1) by (fastforce intro: order_trans)
qed simp

text \<open>
  The shares a \<^verbatim>\<open>BudgetShares\<close> can hold: the check on their sum is made on a rounded
  sum, so the exact sum may pass 1 by the tolerance and the rounding.
\<close>

lemma fl_add_lower: "0 \<le> a \<Longrightarrow> 0 \<le> b \<Longrightarrow> (a + b) * (1 - 1 / 2 ^ 53) \<le> fl (a + b)"
  by (rule double.rnd_lower) simp

lemma regroup: "(a + (x + s)) * (C * c) = ((a + x) * c + s * c) * (C :: rat)"
  by (simp add: algebra_simps)

lemma fsum_from_lower:
  assumes "0 \<le> a" "\<forall>x \<in> set xs. 0 \<le> x"
  shows "(a + sum_list xs) * (1 - 1 / 2 ^ 53) ^ length xs \<le> fsum_from a xs"
  using assms
proof (induction xs arbitrary: a)
  case (Cons x xs)
  let ?c = "1 - 1 / 2 ^ 53 :: rat"
  have c: "0 \<le> ?c" "?c \<le> 1" by simp_all
  have s: "0 \<le> sum_list xs" using Cons.prems by (intro sum_list_nonneg) auto
  have "(a + sum_list (x # xs)) * ?c ^ length (x # xs) = ((a + x) * ?c + sum_list xs * ?c) * ?c ^ length xs"
    using regroup [of a x "sum_list xs" "?c ^ length xs" ?c]
    by (simp only: list.size sum_list.Cons power_Suc add_0_right power_add power_one_right power_0 mult_1_left)
  also have "\<dots> \<le> (fl (a + x) + sum_list xs) * ?c ^ length xs"
  proof (intro mult_right_mono add_mono)
    show "(a + x) * ?c \<le> fl (a + x)" using Cons.prems by (intro fl_add_lower) auto
    show "sum_list xs * ?c \<le> sum_list xs" using mult_left_mono [OF c(2) s] by simp
  qed (use c in simp)
  also have "\<dots> \<le> fsum_from (fl (a + x)) xs"
    using Cons.prems by (intro Cons.IH double.rnd_nonneg) auto
  finally show ?case by simp
qed simp

lemma isclose_1_upper:
  assumes "isclose_1 x"
  shows "x \<le> 1 + 11 / 10 ^ 13"
proof (cases "x \<le> 1")
  case False
  then have "0 \<le> x - 1" and "\<bar>fl (1 - x)\<bar> \<le> fl (1 / 10 ^ 12)"
    using assms by (auto simp: isclose_1_def)
  moreover have "fl (1 - x) = - fl (x - 1)" using fl_neg [of "x - 1"] by simp
  ultimately have "(x - 1) * (1 - 1 / 2 ^ 53) \<le> fl (1 / 10 ^ 12)"
    using double.rnd_lower [of "x - 1"] by simp
  also have "\<dots> \<le> 1 / 10 ^ 12 * (1 + 1 / 2 ^ 53)" by (rule double.rnd_upper) simp
  finally show ?thesis by (simp add: field_simps)
qed simp

definition valid_shares :: "budget_shares \<Rightarrow> bool" where
  "valid_shares s \<longleftrightarrow> nonneg_shares s \<and>
     isclose_1 (fsum [bs_cag s, bs_mag s, bs_rag s, bs_query s, bs_reserve s])"

lemma make_budget_shares_valid:
  assumes "make_budget_shares c m r q v = Inr s"
  shows "valid_shares s"
proof -
  have ok: "list_all share_ok [c, m, r, q, v]" "isclose_1 (fsum (map fin_val [c, m, r, q, v]))"
    and s: "s = \<lparr>bs_cag = fin_val c, bs_mag = fin_val m, bs_rag = fin_val r, bs_query = fin_val q, bs_reserve = fin_val v\<rparr>"
    using assms unfolding make_budget_shares_def Let_def by (simp_all del: list.pred_inject list.map split: if_splits)
  have "0 \<le> fin_val x" if "share_ok x" for x using that by (cases x) simp_all
  with ok s show ?thesis by (simp add: valid_shares_def nonneg_shares_def)
qed

lemma valid_shares_sum:
  assumes "valid_shares s"
  shows "bs_cag s + bs_mag s + bs_rag s + bs_query s \<le> 1 + 2 / 10 ^ 12"
proof -
  let ?xs = "[bs_cag s, bs_mag s, bs_rag s, bs_query s, bs_reserve s]"
  have nn: "nonneg_shares s" and c: "isclose_1 (fsum ?xs)"
    using assms by (auto simp: valid_shares_def)
  have "sum_list ?xs * (1 - 1 / 2 ^ 53) ^ length ?xs \<le> fsum ?xs"
    using fsum_from_lower [of 0 ?xs] nn by (simp add: nonneg_shares_def fsum_def del: fsum_from.simps)
  also have "\<dots> \<le> 1 + 11 / 10 ^ 13" using c by (rule isclose_1_upper)
  finally have "sum_list ?xs \<le> 1 + 2 / 10 ^ 12" by (simp add: field_simps)
  with nn show ?thesis by (simp add: nonneg_shares_def)
qed

lemma base_sum_le:
  assumes v: "valid_shares s" and n: "0 \<le> n" "n \<le> 2 ^ 38"
  shows "slices_sum (\<lambda>p. floor_share n (shares_for_paradigm s p)) + floor_share n (bs_query s) \<le> n"
proof -
  have nf: "fl (of_int n) = of_int n" using n by (intro double.rnd_int) auto
  let ?c = "1 + 1 / 2 ^ 53 :: rat"
  have f: "of_int (floor_share n x) \<le> of_int n * x * ?c" if "0 \<le> x" for x
    unfolding floor_share_def nf
    by (rule order_trans [OF of_int_floor_le double.rnd_upper]) (use n that in simp)
  have "of_int (slices_sum (\<lambda>p. floor_share n (shares_for_paradigm s p)) + floor_share n (bs_query s))
      \<le> of_int n * bs_cag s * ?c + of_int n * bs_mag s * ?c + of_int n * bs_rag s * ?c + of_int n * bs_query s * ?c"
    using v f unfolding slices_sum_def of_int_add shares_for_paradigm.simps
    by (intro add_mono) (auto simp: valid_shares_def nonneg_shares_def)
  also have "\<dots> = of_int n * (bs_cag s + bs_mag s + bs_rag s + bs_query s) * ?c"
    by (simp only: distrib_left distrib_right)
  also have "\<dots> \<le> of_int n * (1 + 2 / 10 ^ 12) * ?c"
    using n valid_shares_sum [OF v] by (intro mult_right_mono mult_left_mono) auto
  also have "\<dots> < of_int (n + 1)"
  proof -
    have "(of_int n :: rat) \<le> of_int (2 ^ 38)" using n by (simp only: of_int_le_iff)
    then show ?thesis by (simp add: field_simps)
  qed
  finally show ?thesis by (simp only: of_int_less_iff)
qed

lemma floor_share_le:
  assumes "0 \<le> n" "n \<le> 2 ^ 38" "0 \<le> s" "s \<le> 2"
  shows "floor_share n s \<le> 2 ^ 49"
proof -
  have "fl (of_int n) = of_int n" using assms by (intro double.rnd_int) auto
  moreover have "(of_int n :: rat) * s \<le> of_int (2 ^ 38) * 2"
    using assms by (intro mult_mono of_int_le_iff [THEN iffD2]) auto
  then have "fl (of_int n * s) \<le> of_int (2 ^ 49)"
    by (intro double.rnd_le_int) auto
  ultimately show ?thesis unfolding floor_share_def by (simp add: floor_le_iff)
qed

text \<open>A donation adds a fixed amount to each slice, whatever the slices are.\<close>

lemma donate_delta:
  "\<exists>\<Delta> \<delta>. \<forall>sl r. donate shares base active p (sl, r) = (\<lambda>q. sl q + \<Delta> q, r + \<delta>)"
proof (cases "p \<in> active")
  case True
  then show ?thesis by (intro exI [of _ "\<lambda>_. 0"] exI [of _ 0]) (simp add: donate_def)
next
  case False
  let ?z = "(\<lambda>_. 0)(p := - base p)"
  consider "recipients p active = []" | x where "recipients p active = [x]"
    | "p = MAG" "recipients p active = [CAG, RAG]"
    using recipients_cases [of p active] by blast
  then show ?thesis
  proof cases
    case 1
    with False show ?thesis
      by (intro exI [of _ ?z] exI [of _ "base p"]) (auto simp: donate_def Let_def)
  next
    case (2 x)
    with False recipients_active [of p active] have "x \<noteq> p" by auto
    with 2 False show ?thesis
      by (intro exI [of _ "?z(x := base p)"] exI [of _ 0]) (auto simp: donate_def Let_def fun_eq_iff)
  next
    case 3
    let ?w = "fsum [bs_cag shares, bs_rag shares]"
    let ?c = "portion (base p) (bs_cag shares) ?w" and ?r = "portion (base p) (bs_rag shares) ?w"
    show ?thesis
    proof (cases "?w \<le> 0")
      case True
      with 3 False show ?thesis
        by (intro exI [of _ ?z] exI [of _ "base p"]) (auto simp: donate_def Let_def)
    next
      case w: False
      with 3 False show ?thesis
        by (intro exI [of _ "?z(CAG := ?c, RAG := ?r)"] exI [of _ "base p - (?c + ?r)"])
          (auto simp: donate_def Let_def fun_eq_iff)
    qed
  qed
qed

lemma donate_commute:
  "donate shares base active p \<circ> donate shares base active q =
   donate shares base active q \<circ> donate shares base active p"
proof -
  obtain D1 d1 where 1: "\<forall>sl r. donate shares base active p (sl, r) = (\<lambda>q. sl q + D1 q, r + d1)"
    using donate_delta by blast
  obtain D2 d2 where 2: "\<forall>sl r. donate shares base active q (sl, r) = (\<lambda>q. sl q + D2 q, r + d2)"
    using donate_delta by blast
  show ?thesis by (simp add: fun_eq_iff 1 2 add_ac)
qed

subsection \<open>Properties of allocate\<close>

lemma allocate_total_eq:
  assumes "allocate n active shares = Inr a"
  shows "allocation_total a = n"
proof -
  from assms obtain sl r where
    f: "fold (donate shares (\<lambda>p. floor_share n (shares_for_paradigm shares p)) active) PARADIGM_ORDER
       (\<lambda>p. floor_share n (shares_for_paradigm shares p),
        n - slices_sum (\<lambda>p. floor_share n (shares_for_paradigm shares p))
          - floor_share n (bs_query shares)) = (sl, r)"
    and a: "a = \<lparr>ba_cag = sl CAG, ba_mag = sl MAG, ba_rag = sl RAG,
          ba_query = floor_share n (bs_query shares), ba_reserve = r\<rparr>"
    by (rule allocate_Inr)
  from fold_donate_sum [OF f] show ?thesis
    by (simp add: a allocation_total_def slices_sum_def)
qed

text \<open>
  C8. No token is lost: whatever the shares, the contributing paradigms and the window, the
  five slices of an allocation sum to the window. Donations that find no recipient, and
  every flooring remainder, end up in the reserve.
\<close>

theorem allocate_sums_to_window:
  assumes "allocate n active shares = Inr a"
  shows "allocation_total a = n"
  using assms by (rule allocate_total_eq)

theorem allocate_sums_to_window_witness:
  "\<exists>a. allocate 128000 {MAG} DEFAULT_SHARES = Inr a \<and> ba_mag a = 108800 \<and> allocation_total a = 128000"
proof -
  have e: "allocate 128000 {MAG} DEFAULT_SHARES =
      Inr \<lparr>ba_cag = 0, ba_mag = 108800, ba_rag = 0, ba_query = 12800, ba_reserve = 6400\<rparr>"
    by code_simp
  from allocate_sums_to_window [OF e] e show ?thesis by simp
qed

lemma allocate_bounds:
  assumes "make_budget_shares c m g q v = Inr shares"
    and "0 \<le> n" and "n \<le> 2 ^ 38" and "allocate n active shares = Inr a"
  shows "0 \<le> ba_reserve a \<and> 0 \<le> ba_query a \<and>
    (\<forall>p. if p \<in> active
         then floor_share n (shares_for_paradigm shares p) \<le> allocation_for_paradigm a p \<and>
              0 \<le> allocation_for_paradigm a p
         else allocation_for_paradigm a p = 0)"
proof -
  have v: "valid_shares shares" using assms(1) by (rule make_budget_shares_valid)
  then have nn: "nonneg_shares shares" by (simp add: valid_shares_def)
  let ?base = "\<lambda>p. floor_share n (shares_for_paradigm shares p)"
  have le2: "shares_for_paradigm shares p \<le> 2" for p
    using valid_shares_sum [OF v] nn by (cases p) (auto simp: nonneg_shares_def)
  have b: "0 \<le> ?base p \<and> ?base p \<le> 2 ^ 49" for p
    using assms(2) nn by (intro conjI floor_share_nonneg floor_share_le [OF assms(2,3) _ le2]) simp_all
  from assms(4) obtain sl r where
    f: "fold (donate shares ?base active) PARADIGM_ORDER
       (?base, n - slices_sum ?base - floor_share n (bs_query shares)) = (sl, r)"
    and a: "a = \<lparr>ba_cag = sl CAG, ba_mag = sl MAG, ba_rag = sl RAG,
          ba_query = floor_share n (bs_query shares), ba_reserve = r\<rparr>"
    by (rule allocate_Inr)
  have ap: "allocation_for_paradigm a p = sl p" for p by (cases p) (simp_all add: a)
  from fold_donate_effect [OF nn b distinct_PARADIGM_ORDER f] base_sum_le [OF v assms(2,3)]
  have "0 \<le> r" "\<forall>p. p \<notin> active \<longrightarrow> sl p = 0" "\<forall>p \<in> active. ?base p \<le> sl p" by auto
  moreover have "0 \<le> floor_share n (bs_query shares)"
    using assms(2) nn by (simp add: floor_share_nonneg nonneg_shares_def)
  ultimately show ?thesis using b by (auto simp: ap, simp_all add: a) (meson order_trans)
qed

text \<open>
  C17. The slices of an allocation are budgets. For shares that the constructor of
  \<^verbatim>\<open>BudgetShares\<close> accepts and a window of up to \<open>2 ^ 38\<close> tokens, no slice and no
  reserve is negative, in spite of the rounding of every product and of the tolerance on
  the sum of the shares; a paradigm that contributed nothing gets nothing; a contributing
  paradigm keeps at least its base slice.
\<close>

theorem allocate_slices:
  assumes "make_budget_shares c m g q v = Inr shares"
    and "0 \<le> n" and "n \<le> 2 ^ 38" and "allocate n active shares = Inr a"
  shows "0 \<le> ba_reserve a \<and> 0 \<le> ba_query a \<and>
    (\<forall>p. if p \<in> active
         then floor_share n (shares_for_paradigm shares p) \<le> allocation_for_paradigm a p \<and>
              0 \<le> allocation_for_paradigm a p
         else allocation_for_paradigm a p = 0)"
  using assms by (rule allocate_bounds)

theorem allocate_slices_witness:
  "\<exists>shares a. make_budget_shares (Fin (1 / 2)) (Fin (1 / 4)) (Fin (1 / 8)) (Fin (1 / 8)) (Fin 0) = Inr shares \<and>
     allocate 1001 {CAG, RAG} shares = Inr a \<and> allocation_for_paradigm a MAG = 0 \<and> 0 \<le> ba_reserve a"
proof -
  let ?s = "\<lparr>bs_cag = 1 / 2, bs_mag = 1 / 4, bs_rag = 1 / 8, bs_query = 1 / 8, bs_reserve = 0\<rparr>"
  let ?a = "\<lparr>ba_cag = 700, ba_mag = 0, ba_rag = 175, ba_query = 125, ba_reserve = 1\<rparr>"
  have s: "make_budget_shares (Fin (1 / 2)) (Fin (1 / 4)) (Fin (1 / 8)) (Fin (1 / 8)) (Fin 0) = Inr ?s"
    by code_simp
  have a: "allocate 1001 {CAG, RAG} ?s = Inr ?a" by code_simp
  have "\<forall>p. if p \<in> {CAG, RAG} then floor_share 1001 (shares_for_paradigm ?s p) \<le> allocation_for_paradigm ?a p \<and>
      0 \<le> allocation_for_paradigm ?a p else allocation_for_paradigm ?a p = 0"
    using allocate_slices [OF s _ _ a] by simp
  then have "allocation_for_paradigm ?a MAG = 0" by (drule_tac spec [of _ MAG]) simp
  with s a show ?thesis by (intro exI [of _ ?s] exI [of _ ?a]) simp
qed

text \<open>
  The reallocation rules do not depend on the order they are applied in: running the
  donation loop over the paradigms in any other order gives the same slices and reserve.
\<close>

theorem donation_order_irrelevant:
  assumes "mset ps = mset PARADIGM_ORDER"
  shows "fold (donate shares base active) ps st = fold (donate shares base active) PARADIGM_ORDER st"
proof -
  have "fold (donate shares base active) ps = fold (donate shares base active) PARADIGM_ORDER"
    using assms by (intro fold_multiset_equiv donate_commute) auto
  then show ?thesis by simp
qed

theorem donation_order_irrelevant_witness:
  "fold (donate DEFAULT_SHARES (\<lambda>_. 10) {RAG}) [RAG, MAG, CAG] (\<lambda>_. 10, 5) =
   fold (donate DEFAULT_SHARES (\<lambda>_. 10) {RAG}) PARADIGM_ORDER (\<lambda>_. 10, 5)"
  by (rule donation_order_irrelevant) (simp add: PARADIGM_ORDER_def)

subsection \<open>Properties of the packing walk\<close>

definition cost_of :: "(string \<Rightarrow> nat) \<Rightarrow> context_item list \<Rightarrow> nat" where
  "cost_of count_tokens xs = sum_list (map (\<lambda>x. count_tokens (ci_content x)) xs)"

lemma ranked_set: "set (ranked items p) = {x \<in> set items. ci_paradigm x = p}"
  by (auto simp: ranked_def)

lemma pack_paradigm_kept:
  assumes "pack_paradigm ct alloc items p = (k, u, d)"
  shows "set k \<subseteq> {x \<in> set items. ci_paradigm x = p}"
  using skip_pack_subset [OF assms [unfolded pack_paradigm_def]] ranked_set [of items p] by simp

lemma included_of_paradigm:
  assumes "pack_paradigm ct alloc items p = (k, u, d)"
  shows "filter (\<lambda>x. ci_paradigm x = p) (ac_included (assemble_context ct items alloc)) = k"
proof -
  let ?kept = "\<lambda>q. fst (pack_paradigm ct alloc items q)"
  have *: "filter (\<lambda>x. ci_paradigm x = p) (?kept q) = (if q = p then ?kept q else [])" for q
  proof -
    obtain k' u' d' where "pack_paradigm ct alloc items q = (k', u', d')" by (metis prod_cases3)
    with pack_paradigm_kept [OF this] show ?thesis by (auto simp: filter_empty_conv filter_id_conv)
  qed
  have "filter (\<lambda>x. ci_paradigm x = p) (concat (map ?kept (filter (\<lambda>q. ?kept q \<noteq> []) ps))) =
      concat (map ?kept (filter (\<lambda>q. q = p) ps))" for ps
    by (induction ps) (auto simp: *)
  moreover have "concat (map ?kept (filter (\<lambda>q. q = p) PARADIGM_ORDER)) = ?kept p"
    by (cases p) (simp_all add: PARADIGM_ORDER_def)
  ultimately show ?thesis using assms by (simp add: assemble_context_def Let_def)
qed

lemma assemble_packs:
  assumes "0 \<le> allocation_for_paradigm alloc p"
  shows "let r = assemble_context ct items alloc;
             mine = filter (\<lambda>x. ci_paradigm x = p) (ac_included r)
         in ac_tokens_used r p = cost_of ct mine \<and>
            int (ac_tokens_used r p) \<le> allocation_for_paradigm alloc p \<and>
            sorted_wrt (\<lambda>x y. ci_score y \<le> ci_score x) mine \<and>
            length mine + ac_dropped r p = length (filter (\<lambda>x. ci_paradigm x = p) items) \<and>
            (\<forall>x. x \<in> set items \<and> ci_paradigm x = p \<and> x \<notin> set mine \<longrightarrow>
               allocation_for_paradigm alloc p < int (ac_tokens_used r p) + int (ct (ci_content x)))"
proof -
  obtain k u d where k: "pack_paradigm ct alloc items p = (k, u, d)" by (metis prod_cases3)
  note pk = k [unfolded pack_paradigm_def]
  have inc: "filter (\<lambda>x. ci_paradigm x = p) (ac_included (assemble_context ct items alloc)) = k"
    by (rule included_of_paradigm [OF k])
  have ud: "ac_tokens_used (assemble_context ct items alloc) p = u"
    "ac_dropped (assemble_context ct items alloc) p = d"
    using k by (simp_all add: assemble_context_def Let_def)
  have "sorted_wrt (\<lambda>x y. ci_score y \<le> ci_score x) k"
    using skip_pack_sorted [OF pk] sorted_desc_sorted by (auto simp: ranked_def)
  moreover have "length k + d = length (filter (\<lambda>x. ci_paradigm x = p) items)"
    using skip_pack_count [OF pk] by (simp add: ranked_def)
  ultimately show ?thesis
    using assms skip_pack_used [OF pk] skip_pack_within [OF pk] skip_pack_dropped [OF pk] ranked_set [of items p]
    unfolding Let_def inc ud cost_of_def by auto
qed

text \<open>
  C18. Packing respects the budget, keeps the best-scored order and never starves a small
  item. For each paradigm with a non-negative slice: the tokens used are the tokens of the
  included items of that paradigm and do not exceed the slice; they are in descending
  score order; every item of the paradigm is either included or counted as dropped; and
  an item left out would not fit in what the included ones leave of the slice.
\<close>

theorem assemble_context_packs:
  assumes "0 \<le> allocation_for_paradigm alloc p"
  shows "let r = assemble_context ct items alloc;
             mine = filter (\<lambda>x. ci_paradigm x = p) (ac_included r)
         in ac_tokens_used r p = cost_of ct mine \<and>
            int (ac_tokens_used r p) \<le> allocation_for_paradigm alloc p \<and>
            sorted_wrt (\<lambda>x y. ci_score y \<le> ci_score x) mine \<and>
            length mine + ac_dropped r p = length (filter (\<lambda>x. ci_paradigm x = p) items) \<and>
            (\<forall>x. x \<in> set items \<and> ci_paradigm x = p \<and> x \<notin> set mine \<longrightarrow>
               allocation_for_paradigm alloc p < int (ac_tokens_used r p) + int (ct (ci_content x)))"
  using assms by (rule assemble_packs)

theorem assemble_context_packs_witness:
  "let alloc = \<lparr>ba_cag = 0, ba_mag = 0, ba_rag = 5, ba_query = 1, ba_reserve = 0\<rparr>;
       big = \<lparr>ci_paradigm = RAG, ci_content = ''abcdefgh'', ci_score = 1, ci_source_id = None\<rparr>;
       small = \<lparr>ci_paradigm = RAG, ci_content = ''abc'', ci_score = 1 / 2, ci_source_id = None\<rparr>;
       r = assemble_context length [big, small] alloc
   in 0 \<le> allocation_for_paradigm alloc RAG \<and> ac_included r = [small] \<and> ac_dropped r RAG = 1 \<and>
      int (ac_tokens_used r RAG) \<le> 5"
proof -
  let ?alloc = "\<lparr>ba_cag = 0, ba_mag = 0, ba_rag = 5, ba_query = 1, ba_reserve = 0\<rparr>"
  let ?big = "\<lparr>ci_paradigm = RAG, ci_content = ''abcdefgh'', ci_score = 1, ci_source_id = None\<rparr>"
  let ?small = "\<lparr>ci_paradigm = RAG, ci_content = ''abc'', ci_score = 1 / 2, ci_source_id = None\<rparr>"
  have h: "0 \<le> allocation_for_paradigm ?alloc RAG" by simp
  have "ac_included (assemble_context length [?big, ?small] ?alloc) = [?small]"
    "ac_dropped (assemble_context length [?big, ?small] ?alloc) RAG = 1" by code_simp+
  with h assemble_context_packs [OF h, of length "[?big, ?small]"] show ?thesis
    by (simp add: Let_def)
qed

end
