(* ===== verification/Frozen_Cache.thy ===== *)
theory Frozen_Cache
  imports Orch_Entities
begin

text \<open>
  CAG's hot tier. The ports \<^verbatim>\<open>FrozenCache\<close> and \<^verbatim>\<open>ExpiringCache\<close>
  (\<^verbatim>\<open>src/orchestration/domain/ports.py\<close>) are records of operations over a cache state
  \<open>'c\<close>; a method that changes the object returns the new state. Every operation takes the
  reading of the clock at its call, which only the expiring cache looks at. The locales
  \<open>frozen_cache\<close>, \<open>storing_cache\<close>, \<open>expiring_cache\<close> and \<open>storing_expiring_cache\<close> state
  what callers rely on, over \<open>view\<close>: the content hash a lookup finds under a key at a time.

  Three implementations: \<open>HFFrozenCache\<close> (its dictionary; the transformers forward pass is
  the parameter \<open>prefill\<close>), \<open>NullFrozenCache\<close>, and \<open>ExpiringFrozenCache\<close> around any
  \<open>FrozenCache\<close>. \<open>sha256\<close> is the hex digest of the UTF-8 encoding. The methods of
  \<open>ExpiringFrozenCache\<close> hold a lock around their check and eviction; the model runs each
  of them as one step, and \<open>preload_until\<close> also as its two steps. A forward pass returns: one that
  raises would leave the expiry that \<open>preload_until\<close> had just set.
\<close>

type_synonym doc_key = "uuid \<times> uuid"

record ('c, 'kv) frozen_cache_ops =
  fc_preload :: "datetime \<Rightarrow> 'c \<Rightarrow> uuid \<Rightarrow> uuid \<Rightarrow> string \<Rightarrow> 'c"
  fc_lookup :: "datetime \<Rightarrow> 'c \<Rightarrow> uuid \<Rightarrow> uuid \<Rightarrow> 'kv cache_hit option \<times> 'c"
  fc_evict :: "datetime \<Rightarrow> 'c \<Rightarrow> uuid \<Rightarrow> uuid \<Rightarrow> 'c"
  fc_contains :: "datetime \<Rightarrow> 'c \<Rightarrow> uuid \<Rightarrow> uuid \<Rightarrow> bool \<times> 'c"

record ('c, 'kv) expiring_cache_ops = "('c, 'kv) frozen_cache_ops" +
  ec_preload_until :: "datetime \<Rightarrow> 'c \<Rightarrow> uuid \<Rightarrow> uuid \<Rightarrow> string \<Rightarrow> datetime option \<Rightarrow> 'c"
  ec_renew :: "datetime \<Rightarrow> 'c \<Rightarrow> uuid \<Rightarrow> uuid \<Rightarrow> datetime option \<Rightarrow> bool \<times> 'c"

subsection \<open>HFFrozenCache\<close>

type_synonym 'kv hf_cache = "doc_key \<rightharpoonup> string \<times> 'kv"

definition make_hf_frozen_cache :: "'t option \<Rightarrow> 'm option \<Rightarrow> 'kv hf_cache result" where
  "make_hf_frozen_cache tokenizer model =
     (if (tokenizer = None) \<noteq> (model = None)
      then Inl (ValueError ''tokenizer and model must be supplied together or not at all'')
      else Inr Map.empty)"

definition hf_preload :: "(string \<Rightarrow> string) \<Rightarrow> (string \<Rightarrow> 'kv) \<Rightarrow> 'kv hf_cache \<Rightarrow> uuid \<Rightarrow> uuid \<Rightarrow>
    string \<Rightarrow> 'kv hf_cache" where
  "hf_preload sha256 prefill entries tenant_id document_id content =
     entries((tenant_id, document_id) \<mapsto> (sha256 content, prefill content))"

definition hf_lookup :: "'kv hf_cache \<Rightarrow> uuid \<Rightarrow> uuid \<Rightarrow> 'kv cache_hit option" where
  "hf_lookup entries tenant_id document_id =
     (case entries (tenant_id, document_id) of
        None \<Rightarrow> None
      | Some (h, cache) \<Rightarrow> Some \<lparr>ch_content_hash = h, ch_kv_cache = cache\<rparr>)"

definition hf_evict :: "'kv hf_cache \<Rightarrow> uuid \<Rightarrow> uuid \<Rightarrow> 'kv hf_cache" where
  "hf_evict entries tenant_id document_id = entries((tenant_id, document_id) := None)"

definition hf_contains :: "'kv hf_cache \<Rightarrow> uuid \<Rightarrow> uuid \<Rightarrow> bool" where
  "hf_contains entries tenant_id document_id = (entries (tenant_id, document_id) \<noteq> None)"

definition hf_ops ::
  "(string \<Rightarrow> string) \<Rightarrow> (string \<Rightarrow> 'kv) \<Rightarrow> ('kv hf_cache, 'kv) frozen_cache_ops" where
  "hf_ops sha256 prefill =
     \<lparr>fc_preload = (\<lambda>_. hf_preload sha256 prefill),
      fc_lookup = (\<lambda>_ c t d. (hf_lookup c t d, c)),
      fc_evict = (\<lambda>_. hf_evict),
      fc_contains = (\<lambda>_ c t d. (hf_contains c t d, c))\<rparr>"

subsection \<open>NullFrozenCache\<close>

definition null_ops :: "(unit, 'kv) expiring_cache_ops" where
  "null_ops =
     \<lparr>fc_preload = (\<lambda>_ c _ _ _. c), fc_lookup = (\<lambda>_ c _ _. (None, c)),
      fc_evict = (\<lambda>_ c _ _. c), fc_contains = (\<lambda>_ c _ _. (False, c)),
      ec_preload_until = (\<lambda>_ c _ _ _ _. c), ec_renew = (\<lambda>_ c _ _ _. (False, c))\<rparr>"

subsection \<open>ExpiringFrozenCache\<close>

record 'c expiring_frozen_cache =
  ex_inner :: 'c
  ex_expiry :: "doc_key \<rightharpoonup> datetime option"

definition expire_if_due :: "('c, 'kv, 'z) frozen_cache_ops_scheme \<Rightarrow> datetime \<Rightarrow>
    'c expiring_frozen_cache \<Rightarrow> uuid \<Rightarrow> uuid \<Rightarrow> bool \<times> 'c expiring_frozen_cache" where
  "expire_if_due inner now c tenant_id document_id =
     (case ex_expiry c (tenant_id, document_id) of
        None \<Rightarrow> (False, c)
      | Some None \<Rightarrow> (False, c)
      | Some (Some expires_at) \<Rightarrow>
          if now < expires_at then (False, c)
          else (True, c\<lparr>ex_expiry := (ex_expiry c)((tenant_id, document_id) := None),
                        ex_inner := fc_evict inner now (ex_inner c) tenant_id document_id\<rparr>))"

definition ex_set_expiry ::
  "'c expiring_frozen_cache \<Rightarrow> uuid \<Rightarrow> uuid \<Rightarrow> datetime option \<Rightarrow> 'c expiring_frozen_cache" where
  \<comment> \<open>the first step of \<open>preload_until\<close>, under the lock\<close>
  "ex_set_expiry c tenant_id document_id expires_at =
     c\<lparr>ex_expiry := (ex_expiry c)((tenant_id, document_id) \<mapsto> expires_at)\<rparr>"

definition ex_inner_preload :: "('c, 'kv, 'z) frozen_cache_ops_scheme \<Rightarrow> datetime \<Rightarrow>
    'c expiring_frozen_cache \<Rightarrow> uuid \<Rightarrow> uuid \<Rightarrow> string \<Rightarrow> 'c expiring_frozen_cache" where
  \<comment> \<open>its second step, outside the lock\<close>
  "ex_inner_preload inner now c tenant_id document_id content =
     c\<lparr>ex_inner := fc_preload inner now (ex_inner c) tenant_id document_id content\<rparr>"

definition preload_until :: "('c, 'kv, 'z) frozen_cache_ops_scheme \<Rightarrow> datetime \<Rightarrow>
    'c expiring_frozen_cache \<Rightarrow> uuid \<Rightarrow> uuid \<Rightarrow> string \<Rightarrow> datetime option \<Rightarrow>
    'c expiring_frozen_cache" where
  "preload_until inner now c tenant_id document_id content expires_at =
     ex_inner_preload inner now (ex_set_expiry c tenant_id document_id expires_at)
       tenant_id document_id content"

definition ex_preload :: "('c, 'kv, 'z) frozen_cache_ops_scheme \<Rightarrow> datetime \<Rightarrow>
    'c expiring_frozen_cache \<Rightarrow> uuid \<Rightarrow> uuid \<Rightarrow> string \<Rightarrow> 'c expiring_frozen_cache" where
  "ex_preload inner now c tenant_id document_id content =
     preload_until inner now c tenant_id document_id content None"

definition renew :: "('c, 'kv, 'z) frozen_cache_ops_scheme \<Rightarrow> datetime \<Rightarrow>
    'c expiring_frozen_cache \<Rightarrow> uuid \<Rightarrow> uuid \<Rightarrow> datetime option \<Rightarrow>
    bool \<times> 'c expiring_frozen_cache" where
  "renew inner now c tenant_id document_id expires_at =
     (case expire_if_due inner now c tenant_id document_id of
        (True, c1) \<Rightarrow> (False, c1)
      | (False, c1) \<Rightarrow>
          (case fc_contains inner now (ex_inner c1) tenant_id document_id of
             (present, i) \<Rightarrow>
               let c2 = c1\<lparr>ex_inner := i\<rparr> in
               if \<not> present then (False, c2)
               else (True, ex_set_expiry c2 tenant_id document_id expires_at)))"

definition ex_lookup :: "('c, 'kv, 'z) frozen_cache_ops_scheme \<Rightarrow> datetime \<Rightarrow>
    'c expiring_frozen_cache \<Rightarrow> uuid \<Rightarrow> uuid \<Rightarrow> 'kv cache_hit option \<times> 'c expiring_frozen_cache" where
  "ex_lookup inner now c tenant_id document_id =
     (case expire_if_due inner now c tenant_id document_id of
        (True, c1) \<Rightarrow> (None, c1)
      | (False, c1) \<Rightarrow>
          (case fc_lookup inner now (ex_inner c1) tenant_id document_id of
             (hit, i) \<Rightarrow> (hit, c1\<lparr>ex_inner := i\<rparr>)))"

definition ex_evict :: "('c, 'kv, 'z) frozen_cache_ops_scheme \<Rightarrow> datetime \<Rightarrow>
    'c expiring_frozen_cache \<Rightarrow> uuid \<Rightarrow> uuid \<Rightarrow> 'c expiring_frozen_cache" where
  "ex_evict inner now c tenant_id document_id =
     c\<lparr>ex_expiry := (ex_expiry c)((tenant_id, document_id) := None),
       ex_inner := fc_evict inner now (ex_inner c) tenant_id document_id\<rparr>"

definition ex_contains :: "('c, 'kv, 'z) frozen_cache_ops_scheme \<Rightarrow> datetime \<Rightarrow>
    'c expiring_frozen_cache \<Rightarrow> uuid \<Rightarrow> uuid \<Rightarrow> bool \<times> 'c expiring_frozen_cache" where
  "ex_contains inner now c tenant_id document_id =
     (case expire_if_due inner now c tenant_id document_id of
        (True, c1) \<Rightarrow> (False, c1)
      | (False, c1) \<Rightarrow>
          (case fc_contains inner now (ex_inner c1) tenant_id document_id of
             (present, i) \<Rightarrow> (present, c1\<lparr>ex_inner := i\<rparr>)))"

definition expiring_ops :: "('c, 'kv, 'z) frozen_cache_ops_scheme \<Rightarrow>
    ('c expiring_frozen_cache, 'kv) expiring_cache_ops" where
  "expiring_ops inner =
     \<lparr>fc_preload = ex_preload inner, fc_lookup = ex_lookup inner,
      fc_evict = ex_evict inner, fc_contains = ex_contains inner,
      ec_preload_until = preload_until inner, ec_renew = renew inner\<rparr>"

lemmas expiring_defs [py_defs] =
  expire_if_due_def ex_set_expiry_def ex_inner_preload_def preload_until_def ex_preload_def
  renew_def ex_lookup_def ex_evict_def ex_contains_def expiring_ops_def

subsection \<open>The contracts\<close>

definition live :: "datetime option \<Rightarrow> datetime \<Rightarrow> bool" where
  "live expires_at now = (case expires_at of None \<Rightarrow> True | Some e \<Rightarrow> now < e)"

text \<open>
  A frozen cache. Under each key there is at most one content hash; a lookup reports it and
  changes nothing a later call can see; entries only disappear with time; a preload leaves
  its own content under its key or nothing, and no other key is touched.
\<close>

locale frozen_cache =
  fixes ops :: "('c, 'kv, 'z) frozen_cache_ops_scheme"
    and view :: "datetime \<Rightarrow> 'c \<Rightarrow> doc_key \<Rightarrow> string option"
    and hash :: "string \<Rightarrow> string"
  assumes lookup_view: "map_option ch_content_hash (fst (fc_lookup ops now c t d)) = view now c (t, d)"
    and lookup_frame: "now \<le> now' \<Longrightarrow> view now' (snd (fc_lookup ops now c t d)) = view now' c"
    and contains_view: "fst (fc_contains ops now c t d) \<longleftrightarrow> view now c (t, d) \<noteq> None"
    and contains_frame: "now \<le> now' \<Longrightarrow> view now' (snd (fc_contains ops now c t d)) = view now' c"
    and evict_view: "now \<le> now' \<Longrightarrow> view now' (fc_evict ops now c t d) = (view now' c)((t, d) := None)"
    and preload_own: "now \<le> now' \<Longrightarrow>
      view now' (fc_preload ops now c t d x) (t, d) \<in> {None, Some (hash x)}"
    and preload_frame: "now \<le> now' \<Longrightarrow> k \<noteq> (t, d) \<Longrightarrow>
      view now' (fc_preload ops now c t d x) k = view now' c k"
    and view_expires: "now \<le> now' \<Longrightarrow> view now' c k = None \<or> view now' c k = view now c k"
begin

lemma lookup_None_iff: "fst (fc_lookup ops now c t d) = None \<longleftrightarrow> view now c (t, d) = None"
  by (simp flip: lookup_view)

lemma lookup_Some: "fst (fc_lookup ops now c t d) = Some h \<Longrightarrow> view now c (t, d) = Some (ch_content_hash h)"
  by (simp flip: lookup_view)

lemma evicted_absent: "now \<le> now' \<Longrightarrow> fst (fc_lookup ops now' (fc_evict ops now c t d) t d) = None"
  by (simp add: lookup_None_iff evict_view)

lemma absent_stays_absent: "now \<le> now' \<Longrightarrow> view now c k = None \<Longrightarrow> view now' c k = None"
  using view_expires [of now now' c k] by auto

end

locale storing_cache = frozen_cache +
  assumes preload_stores: "now \<le> now' \<Longrightarrow> view now' (fc_preload ops now c t d x) (t, d) = Some (hash x)"
begin

lemma preload_view: "now \<le> now' \<Longrightarrow> view now' (fc_preload ops now c t d x) = (view now' c)((t, d) \<mapsto> hash x)"
  by (auto simp: fun_eq_iff preload_stores preload_frame)

end

text \<open>A cache whose entries stay until they are evicted or replaced.\<close>

locale permanent_cache = storing_cache +
  assumes view_permanent: "view now' c = view now c"

locale expiring_cache = frozen_cache ops view hash
  for ops :: "('c, 'kv, 'z) expiring_cache_ops_scheme" and view and hash +
  assumes until_own: "now \<le> now' \<Longrightarrow>
      view now' (ec_preload_until ops now c t d x e) (t, d) \<in> (if live e now' then {None, Some (hash x)} else {None})"
    and until_frame: "now \<le> now' \<Longrightarrow> k \<noteq> (t, d) \<Longrightarrow>
      view now' (ec_preload_until ops now c t d x e) k = view now' c k"
    and renew_result: "fst (ec_renew ops now c t d e) \<longleftrightarrow> view now c (t, d) \<noteq> None"
    and renew_view: "now \<le> now' \<Longrightarrow> view now c (t, d) \<noteq> None \<Longrightarrow>
      view now' (snd (ec_renew ops now c t d e)) (t, d) = (if live e now' then view now c (t, d) else None)"
    and renew_frame: "now \<le> now' \<Longrightarrow> k \<noteq> (t, d) \<or> view now c (t, d) = None \<Longrightarrow>
      view now' (snd (ec_renew ops now c t d e)) k = view now' c k"

locale storing_expiring_cache = storing_cache ops view hash + expiring_cache ops view hash
  for ops :: "('c, 'kv, 'z) expiring_cache_ops_scheme" and view and hash +
  assumes until_stores: "now \<le> now' \<Longrightarrow>
      view now' (ec_preload_until ops now c t d x e) (t, d) = (if live e now' then Some (hash x) else None)"

subsection \<open>The implementations meet them\<close>

definition hf_view :: "datetime \<Rightarrow> 'kv hf_cache \<Rightarrow> doc_key \<Rightarrow> string option" where
  "hf_view now c k = map_option fst (c k)"

lemmas hf_defs = hf_ops_def hf_view_def hf_preload_def hf_lookup_def hf_evict_def hf_contains_def

interpretation hf: permanent_cache "hf_ops sha256 prefill" hf_view sha256
  for sha256 :: "string \<Rightarrow> string" and prefill :: "string \<Rightarrow> 'kv"
  by unfold_locales (auto simp: hf_defs fun_eq_iff split: option.splits)

interpretation nullc: expiring_cache null_ops "\<lambda>_ _ _. None" sha256 for sha256 :: "string \<Rightarrow> string"
  by unfold_locales (auto simp: null_ops_def fun_eq_iff)

text \<open>An entry of the expiring cache is visible while its recorded expiry is in the future.\<close>

definition ex_live :: "'c expiring_frozen_cache \<Rightarrow> doc_key \<Rightarrow> datetime \<Rightarrow> bool" where
  "ex_live c k now = (case ex_expiry c k of None \<Rightarrow> True | Some e \<Rightarrow> live e now)"

definition ex_view :: "(datetime \<Rightarrow> 'c \<Rightarrow> doc_key \<Rightarrow> string option) \<Rightarrow> datetime \<Rightarrow>
    'c expiring_frozen_cache \<Rightarrow> doc_key \<Rightarrow> string option" where
  "ex_view view now c k = (if ex_live c k now then view now (ex_inner c) k else None)"

lemma expire_if_due_iff: "fst (expire_if_due inner now c t d) \<longleftrightarrow> \<not> ex_live c (t, d) now"
  by (auto simp: expire_if_due_def ex_live_def live_def split: option.splits)

lemma expire_if_due_live: "ex_live c (t, d) now \<Longrightarrow> expire_if_due inner now c t d = (False, c)"
  by (auto simp: expire_if_due_def ex_live_def live_def split: option.splits if_splits)

lemma expire_if_due_dead:
  "\<not> ex_live c (t, d) now \<Longrightarrow> expire_if_due inner now c t d = (True, ex_evict inner now c t d)"
  by (auto simp: expire_if_due_def ex_live_def live_def ex_evict_def split: option.splits if_splits)

lemmas expire_cases = expire_if_due_live expire_if_due_dead

lemma ex_live_mono: "now \<le> now' \<Longrightarrow> ex_live c k now' \<Longrightarrow> ex_live c k now"
  by (auto simp: ex_live_def live_def split: option.splits)

lemma ex_live_upd [simp]:
  "ex_live (c\<lparr>ex_inner := i\<rparr>) k now = ex_live c k now"
  "ex_live (c\<lparr>ex_expiry := (ex_expiry c)(k := None)\<rparr>) k now"
  "ex_live (c\<lparr>ex_expiry := (ex_expiry c)(k \<mapsto> e)\<rparr>) k now = live e now"
  "k' \<noteq> k \<Longrightarrow> ex_live (c\<lparr>ex_expiry := (ex_expiry c)(k := v)\<rparr>) k' now = ex_live c k' now"
  by (simp_all add: ex_live_def)

text \<open>Wrapping a permanent cache gives an expiring one that stores.\<close>

locale expiring_over = permanent_cache
begin

lemma ex_evict_view: "now \<le> now' \<Longrightarrow> ex_view view now' (ex_evict ops now c t d) = (ex_view view now' c)((t, d) := None)"
  by (auto simp: ex_view_def ex_evict_def ex_live_def evict_view fun_eq_iff split: option.splits)

lemma dead_evict_view:
  assumes "\<not> ex_live c (t, d) now" "now \<le> now'"
  shows "ex_view view now' (ex_evict ops now c t d) = ex_view view now' c"
  using assms ex_live_mono [of now now' c "(t, d)"]
  by (auto simp: ex_evict_view fun_eq_iff ex_view_def)

lemma until_view:
  "now \<le> now' \<Longrightarrow> ex_view view now' (preload_until ops now c t d x e) =
     (ex_view view now' c)((t, d) := (if live e now' then Some (hash x) else None))"
  by (auto simp: ex_view_def preload_until_def ex_inner_preload_def ex_set_expiry_def preload_view
      ex_live_def fun_eq_iff split: option.splits)

lemma ex_contains_inner:
  "fst (fc_contains ops now (ex_inner c) t d) \<longleftrightarrow> view now (ex_inner c) (t, d) \<noteq> None"
  by (rule contains_view)

lemma renew_dead:
  assumes "ex_view view now c (t, d) = None" "now \<le> now'"
  shows "ex_view view now' (snd (renew ops now c t d e)) = ex_view view now' c"
proof (cases "ex_live c (t, d) now")
  case True
  then have "view now (ex_inner c) (t, d) = None" using assms(1) by (simp add: ex_view_def)
  with True show ?thesis
    using contains_frame [OF assms(2), of "ex_inner c" t d] contains_view [of now "ex_inner c" t d]
    by (auto simp: renew_def expire_cases ex_view_def fun_eq_iff Let_def split: prod.splits)
next
  case False
  then show ?thesis using dead_evict_view [OF False assms(2)] by (simp add: renew_def expire_cases)
qed

lemma renew_live:
  assumes "ex_view view now c (t, d) \<noteq> None" "now \<le> now'"
  shows "ex_view view now' (snd (renew ops now c t d e)) =
    (ex_view view now' c)((t, d) := (if live e now' then ex_view view now c (t, d) else None))"
proof -
  have l: "ex_live c (t, d) now" and v: "view now (ex_inner c) (t, d) \<noteq> None"
    using assms(1) by (auto simp: ex_view_def split: if_splits)
  obtain b i where bi: "fc_contains ops now (ex_inner c) t d = (b, i)" by fastforce
  with v contains_view [of now "ex_inner c" t d] have b by simp
  have i: "view now' i = view now' (ex_inner c)" using contains_frame [OF assms(2), of "ex_inner c" t d] bi by simp
  have "snd (renew ops now c t d e) = ex_set_expiry (c\<lparr>ex_inner := i\<rparr>) t d e"
    using l \<open>b\<close> bi by (simp add: renew_def expire_cases Let_def)
  then show ?thesis
    using l i view_permanent [of now' "ex_inner c" now]
    by (auto simp: ex_view_def ex_set_expiry_def ex_live_def fun_eq_iff split: option.splits)
qed

end

sublocale expiring_over \<subseteq> ex: storing_expiring_cache "expiring_ops ops" "ex_view view" hash
proof unfold_locales
  fix now now' :: datetime and c :: "'a expiring_frozen_cache" and t d :: uuid
    and x :: string and e :: "datetime option" and k :: doc_key
  let ?o = "expiring_ops ops"
  show "map_option ch_content_hash (fst (fc_lookup ?o now c t d)) = ex_view view now c (t, d)"
    by (cases "ex_live c (t, d) now")
      (auto simp: expiring_ops_def ex_lookup_def expire_cases ex_view_def lookup_view
        split: prod.splits simp flip: lookup_view)
  show "fst (fc_contains ?o now c t d) = (ex_view view now c (t, d) \<noteq> None)"
    using contains_view [of now "ex_inner c" t d]
    by (cases "ex_live c (t, d) now")
      (auto simp: expiring_ops_def ex_contains_def expire_cases ex_view_def split: prod.splits)
  show "fst (ec_renew ?o now c t d e) = (ex_view view now c (t, d) \<noteq> None)"
    using contains_view [of now "ex_inner c" t d]
    by (cases "ex_live c (t, d) now")
      (auto simp: expiring_ops_def renew_def expire_cases ex_view_def Let_def split: prod.splits)
  assume le: "now \<le> now'"
  show "ex_view view now' (snd (fc_lookup ?o now c t d)) = ex_view view now' c"
    using lookup_frame [OF le, of "ex_inner c" t d] dead_evict_view [OF _ le, of c t d]
    by (cases "ex_live c (t, d) now")
      (auto simp: expiring_ops_def ex_lookup_def expire_cases ex_view_def fun_eq_iff split: prod.splits)
  show "ex_view view now' (snd (fc_contains ?o now c t d)) = ex_view view now' c"
    using contains_frame [OF le, of "ex_inner c" t d] dead_evict_view [OF _ le, of c t d]
    by (cases "ex_live c (t, d) now")
      (auto simp: expiring_ops_def ex_contains_def expire_cases ex_view_def fun_eq_iff split: prod.splits)
  show "ex_view view now' (fc_evict ?o now c t d) = (ex_view view now' c)((t, d) := None)"
    using ex_evict_view [OF le] by (simp add: expiring_ops_def)
  show "ex_view view now' (fc_preload ?o now c t d x) (t, d) \<in> {None, Some (hash x)}"
    "ex_view view now' (fc_preload ?o now c t d x) (t, d) = Some (hash x)"
    by (simp_all add: expiring_ops_def ex_preload_def until_view [OF le] live_def)
  show "ex_view view now' (ec_preload_until ?o now c t d x e) (t, d)
      \<in> (if live e now' then {None, Some (hash x)} else {None})"
    "ex_view view now' (ec_preload_until ?o now c t d x e) (t, d) = (if live e now' then Some (hash x) else None)"
    by (simp_all add: expiring_ops_def until_view [OF le])
  show "ex_view view now' c k = None \<or> ex_view view now' c k = ex_view view now c k"
    using view_expires [OF le, of "ex_inner c" k] ex_live_mono [OF le, of c k]
    by (auto simp: ex_view_def)
  show "ex_view view now' (fc_preload ?o now c t d x) k = ex_view view now' c k"
    "ex_view view now' (ec_preload_until ?o now c t d x e) k = ex_view view now' c k" if "k \<noteq> (t, d)"
    using that by (simp_all add: expiring_ops_def ex_preload_def until_view [OF le])
  show "ex_view view now' (snd (ec_renew ?o now c t d e)) (t, d) =
      (if live e now' then ex_view view now c (t, d) else None)" if "ex_view view now c (t, d) \<noteq> None"
    using renew_live [OF that le, of e] by (simp add: expiring_ops_def)
  show "ex_view view now' (snd (ec_renew ?o now c t d e)) k = ex_view view now' c k"
    if "k \<noteq> (t, d) \<or> ex_view view now c (t, d) = None"
    using that renew_live [OF _ le, of c t d e] renew_dead [OF _ le, of c t d e]
    by (cases "ex_view view now c (t, d) = None") (auto simp: expiring_ops_def)
qed

interpretation hfx: expiring_over "hf_ops sha256 prefill" hf_view sha256
  for sha256 :: "string \<Rightarrow> string" and prefill :: "string \<Rightarrow> 'kv"
  by unfold_locales

subsection \<open>Refinement of a specification with exact expiry\<close>

text \<open>
  The specification keeps each entry with its expiry and never evicts on a read: a read
  filters by the clock. A session is a list of timestamped calls; the replies are the
  content hash found, or the returned flag.
\<close>

datatype cache_call =
    Preload uuid uuid string
  | PreloadUntil uuid uuid string "datetime option"
  | Renew uuid uuid "datetime option"
  | Lookup uuid uuid
  | Contains uuid uuid
  | Evict uuid uuid

datatype cache_reply = Done | Found "string option" | Flag bool

fun cache_step :: "('c, 'kv, 'z) expiring_cache_ops_scheme \<Rightarrow> datetime \<Rightarrow> cache_call \<Rightarrow> 'c \<Rightarrow> cache_reply \<times> 'c" where
  "cache_step ops now (Preload t d x) c = (Done, fc_preload ops now c t d x)"
| "cache_step ops now (PreloadUntil t d x e) c = (Done, ec_preload_until ops now c t d x e)"
| "cache_step ops now (Renew t d e) c = (case ec_renew ops now c t d e of (b, c') \<Rightarrow> (Flag b, c'))"
| "cache_step ops now (Lookup t d) c =
     (case fc_lookup ops now c t d of (h, c') \<Rightarrow> (Found (map_option ch_content_hash h), c'))"
| "cache_step ops now (Contains t d) c = (case fc_contains ops now c t d of (b, c') \<Rightarrow> (Flag b, c'))"
| "cache_step ops now (Evict t d) c = (Done, fc_evict ops now c t d)"

fun cache_run :: "('c, 'kv, 'z) expiring_cache_ops_scheme \<Rightarrow> (datetime \<times> cache_call) list \<Rightarrow> 'c \<Rightarrow> cache_reply list" where
  "cache_run ops [] c = []"
| "cache_run ops ((now, call) # rest) c =
     (case cache_step ops now call c of (r, c') \<Rightarrow> r # cache_run ops rest c')"

type_synonym cache_spec = "doc_key \<rightharpoonup> string \<times> datetime option"

definition spec_find :: "cache_spec \<Rightarrow> datetime \<Rightarrow> doc_key \<Rightarrow> string option" where
  "spec_find a now k = (case a k of None \<Rightarrow> None | Some (h, e) \<Rightarrow> if live e now then Some h else None)"

fun spec_step :: "(string \<Rightarrow> string) \<Rightarrow> datetime \<Rightarrow> cache_call \<Rightarrow> cache_spec \<Rightarrow> cache_reply \<times> cache_spec" where
  "spec_step sha256 now (Preload t d x) a = (Done, a((t, d) \<mapsto> (sha256 x, None)))"
| "spec_step sha256 now (PreloadUntil t d x e) a = (Done, a((t, d) \<mapsto> (sha256 x, e)))"
| "spec_step sha256 now (Renew t d e) a =
     (case spec_find a now (t, d) of
        None \<Rightarrow> (Flag False, a)
      | Some h \<Rightarrow> (Flag True, a((t, d) \<mapsto> (h, e))))"
| "spec_step sha256 now (Lookup t d) a = (Found (spec_find a now (t, d)), a)"
| "spec_step sha256 now (Contains t d) a = (Flag (spec_find a now (t, d) \<noteq> None), a)"
| "spec_step sha256 now (Evict t d) a = (Done, a((t, d) := None))"

fun spec_run :: "(string \<Rightarrow> string) \<Rightarrow> (datetime \<times> cache_call) list \<Rightarrow> cache_spec \<Rightarrow> cache_reply list" where
  "spec_run sha256 [] a = []"
| "spec_run sha256 ((now, call) # rest) a =
     (case spec_step sha256 now call a of (r, a') \<Rightarrow> r # spec_run sha256 rest a')"

context storing_expiring_cache
begin

definition sim :: "datetime \<Rightarrow> 'c \<Rightarrow> cache_spec \<Rightarrow> bool" where
  "sim n c a \<longleftrightarrow> (\<forall>now \<ge> n. \<forall>k. view now c k = spec_find a now k)"

lemma sim_later: "sim n c a \<Longrightarrow> n \<le> m \<Longrightarrow> sim m c a"
  by (auto simp: sim_def)

lemma step_sim:
  assumes "sim now c a"
  shows "fst (cache_step ops now call c) = fst (spec_step hash now call a)"
    and "sim now (snd (cache_step ops now call c)) (snd (spec_step hash now call a))"
proof -
  have v: "view now' c k = spec_find a now' k" if "now \<le> now'" for now' k
    using assms that unfolding sim_def by blast
  have "fst (cache_step ops now call c) = fst (spec_step hash now call a) \<and>
      sim now (snd (cache_step ops now call c)) (snd (spec_step hash now call a))"
  proof (cases call)
    case (Preload t d x)
    then show ?thesis by (auto simp: sim_def preload_view v spec_find_def live_def)
  next
    case (PreloadUntil t d x e)
    have "view now' (ec_preload_until ops now c t d x e) k = spec_find (a((t, d) \<mapsto> (hash x, e))) now' k"
      if "now \<le> now'" for now' k
      using that until_stores [of now now' c t d x e] until_frame [of now now' k t d c x e] v [OF that, of k]
      by (cases "k = (t, d)") (auto simp: spec_find_def)
    with PreloadUntil show ?thesis by (simp add: sim_def)
  next
    case (Renew t d e)
    show ?thesis
    proof (cases "spec_find a now (t, d)")
      case None
      with v have "view now c (t, d) = None" by simp
      with None Renew v show ?thesis
        using renew_result [of now c t d e] renew_frame [of now _ _ t d c e]
        by (auto simp: sim_def split: prod.splits)
    next
      case (Some h)
      with v have h: "view now c (t, d) = Some h" by simp
      have "view now' (snd (ec_renew ops now c t d e)) k = spec_find (a((t, d) \<mapsto> (h, e))) now' k"
        if "now \<le> now'" for now' k
        using that h renew_view [of now now' c t d e] renew_frame [of now now' k t d c e] v [OF that, of k]
        by (cases "k = (t, d)") (auto simp: spec_find_def)
      with Some Renew h show ?thesis
        using renew_result [of now c t d e] by (auto simp: sim_def split: prod.splits)
    qed
  next
    case (Lookup t d)
    then show ?thesis
      using lookup_view [of now c t d] lookup_frame [of now _ c t d] v by (auto simp: sim_def split: prod.splits)
  next
    case (Contains t d)
    then show ?thesis
      using contains_view [of now c t d] contains_frame [of now _ c t d] v
      by (auto simp: sim_def split: prod.splits)
  next
    case (Evict t d)
    then show ?thesis by (auto simp: sim_def evict_view v spec_find_def)
  qed
  then show "fst (cache_step ops now call c) = fst (spec_step hash now call a)"
    "sim now (snd (cache_step ops now call c)) (snd (spec_step hash now call a))" by auto
qed

lemma run_refines:
  "sim n c a \<Longrightarrow> sorted (n # map fst calls) \<Longrightarrow> cache_run ops calls c = spec_run hash calls a"
proof (induction calls arbitrary: n c a)
  case (Cons x calls)
  obtain now call where x: "x = (now, call)" by fastforce
  with Cons.prems have s: "sim now c a" by (auto intro: sim_later)
  have "cache_run ops calls (snd (cache_step ops now call c)) = spec_run hash calls (snd (spec_step hash now call a))"
    using Cons.prems x by (intro Cons.IH [OF step_sim(2) [OF s]]) auto
  with step_sim(1) [OF s, of call] show ?case by (simp add: x case_prod_unfold)
qed simp

end

text \<open>
  C6. The expiring cache is correct under any use. For every sequence of preloads, timed
  preloads, renewals, lookups, membership tests and evictions, on any keys, whose clock
  readings never go back, \<^verbatim>\<open>ExpiringFrozenCache\<close> around \<^verbatim>\<open>HFFrozenCache\<close> gives exactly
  the replies of the specification: an entry is found up to the instant its expiry is
  reached and never after, a renewal succeeds exactly on a live entry, and evicting
  lazily, on the first read that notices, is not observable.
\<close>

theorem expiring_cache_refines_spec:
  assumes "sorted (map fst calls)"
  shows "cache_run (expiring_ops (hf_ops sha256 prefill)) calls \<lparr>ex_inner = Map.empty, ex_expiry = Map.empty\<rparr>
    = spec_run sha256 calls Map.empty"
proof (cases calls)
  case (Cons x xs)
  then show ?thesis
    using assms by (intro hfx.ex.run_refines [of "fst x"])
      (auto simp: hfx.ex.sim_def ex_view_def hf_view_def spec_find_def)
qed simp

theorem expiring_cache_refines_spec_witness:
  "cache_run (expiring_ops (hf_ops (\<lambda>s. s) (\<lambda>_. ()))) [(0, PreloadUntil 1 2 ''x'' (Some 5)), (4, Lookup 1 2),
      (5, Lookup 1 2), (6, Renew 1 2 None)] \<lparr>ex_inner = Map.empty, ex_expiry = Map.empty\<rparr>
   = [Done, Found (Some ''x''), Found None, Flag False]"
proof -
  let ?cs = "[(0, PreloadUntil 1 2 ''x'' (Some 5)), (4, Lookup 1 2), (5, Lookup 1 2), (6, Renew 1 2 None)]"
  have "cache_run (expiring_ops (hf_ops (\<lambda>s. s) (\<lambda>_. ()))) ?cs \<lparr>ex_inner = Map.empty, ex_expiry = Map.empty\<rparr>
      = spec_run (\<lambda>s. s) ?cs Map.empty"
    by (rule expiring_cache_refines_spec) simp
  also have "\<dots> = [Done, Found (Some ''x''), Found None, Flag False]"
    by (simp add: spec_find_def live_def)
  finally show ?thesis .
qed

subsection \<open>preload\_until against concurrent readers\<close>

fun ex_reads :: "('c, 'kv, 'z) frozen_cache_ops_scheme \<Rightarrow> (datetime \<times> uuid \<times> uuid) list \<Rightarrow>
    'c expiring_frozen_cache \<Rightarrow> 'c expiring_frozen_cache" where
  "ex_reads inner [] c = c"
| "ex_reads inner ((now, t, d) # rs) c = ex_reads inner rs (snd (ex_lookup inner now c t d))"

lemma lookup_keeps_expiry:
  "ex_expiry c k = Some e \<Longrightarrow> live e now \<Longrightarrow> ex_expiry (snd (ex_lookup inner now c t d)) k = Some e"
  by (cases "ex_live c (t, d) now")
    (auto simp: ex_lookup_def expire_cases ex_evict_def ex_live_def split: prod.splits)

lemma reads_keep_expiry:
  "ex_expiry c k = Some e \<Longrightarrow> \<forall>(now, _, _) \<in> set rs. live e now \<Longrightarrow> ex_expiry (ex_reads inner rs c) k = Some e"
  by (induction rs arbitrary: c) (auto simp: lookup_keeps_expiry)

text \<open>
  A timed preload cannot be undone by a reader that runs in the middle of it. The
  expiry is recorded first and the slow preload of the inner cache runs outside the lock;
  whatever lookups, on this or any other key, other threads make between the two, a lookup
  after the preload finds the new content until its expiry. This holds also when an expired
  entry of the same document was there before.
\<close>

theorem preload_until_survives_readers:
  assumes "\<forall>(r, _, _) \<in> set reads. live e r" and "live e now"
  shows "map_option ch_content_hash (fst (ex_lookup (hf_ops sha256 prefill) now
      (ex_inner_preload (hf_ops sha256 prefill) w
         (ex_reads (hf_ops sha256 prefill) reads (ex_set_expiry c t d e)) t d content) t d))
    = Some (sha256 content)"
proof -
  let ?o = "hf_ops sha256 prefill"
  let ?c = "ex_reads ?o reads (ex_set_expiry c t d e)"
  have "ex_expiry ?c (t, d) = Some e"
    using assms(1) by (intro reads_keep_expiry) (auto simp: ex_set_expiry_def)
  then have "ex_live (ex_inner_preload ?o w ?c t d content) (t, d) now"
    using assms(2) by (simp add: ex_live_def ex_inner_preload_def)
  then show ?thesis
    by (simp add: ex_lookup_def expire_if_due_live ex_inner_preload_def hf_defs)
qed

theorem preload_until_survives_readers_witness:
  "let c = \<lparr>ex_inner = [(1, 2) \<mapsto> (''old'', ())], ex_expiry = [(1, 2) \<mapsto> Some 3]\<rparr>
   in map_option ch_content_hash (fst (ex_lookup (hf_ops (\<lambda>s. s) (\<lambda>_. ())) 9
      (ex_inner_preload (hf_ops (\<lambda>s. s) (\<lambda>_. ())) 8
         (ex_reads (hf_ops (\<lambda>s. s) (\<lambda>_. ())) [(7, 1, 2)] (ex_set_expiry c 1 2 (Some 10))) 1 2 ''new'') 1 2))
    = Some ''new''"
  unfolding Let_def by (rule preload_until_survives_readers) (simp_all add: live_def)

end
