(* ===== verification/Access_Tracker.thy ===== *)
theory Access_Tracker
  imports Py_Prelude
begin

text \<open>
  The access trackers: \<^verbatim>\<open>_sliding_window_counter.py\<close>, which keeps the times of the
  accesses to each key and drops those older than the retention, and the two trackers on
  it, \<^verbatim>\<open>in_memory_access_tracker.py\<close> with the key (tenant, document) and
  \<^verbatim>\<open>in_memory_user_scoped_access_tracker.py\<close> with (tenant, user, document), of
  \<^verbatim>\<open>src/orchestration/infrastructure\<close>. The events dictionary is an association list,
  since the order of its keys decides ties in \<open>most_accessed\<close>. Counting prunes, so it
  returns the new counter too.
\<close>

record 'k sliding_window_counter =
  sw_retention :: timedelta
  sw_events :: "('k \<times> datetime list) list"

definition sw_prune :: "'k sliding_window_counter \<Rightarrow> 'k \<Rightarrow> datetime \<Rightarrow> 'k sliding_window_counter" where
  "sw_prune s key now =
     (let cutoff = now - sw_retention s in
      case map_of (sw_events s) key of
        None \<Rightarrow> s
      | Some events \<Rightarrow>
          (let kept = filter (\<lambda>tm. cutoff \<le> tm) events in
           if kept \<noteq> [] then s\<lparr>sw_events := dict_set key kept (sw_events s)\<rparr>
           else s\<lparr>sw_events := dict_del key (sw_events s)\<rparr>))"

definition sw_get :: "'k sliding_window_counter \<Rightarrow> 'k \<Rightarrow> datetime list" where
  "sw_get s key = (case map_of (sw_events s) key of None \<Rightarrow> [] | Some es \<Rightarrow> es)"

definition sw_record :: "'k sliding_window_counter \<Rightarrow> 'k \<Rightarrow> datetime \<Rightarrow> 'k sliding_window_counter" where
  "sw_record s key tm =
     sw_prune (s\<lparr>sw_events := dict_set key (sw_get s key @ [tm]) (sw_events s)\<rparr>) key tm"

definition in_window :: "timedelta \<Rightarrow> datetime \<Rightarrow> datetime \<Rightarrow> bool" where
  "in_window window now tm \<longleftrightarrow> now - window \<le> tm \<and> tm \<le> now"

definition sw_count :: "'k sliding_window_counter \<Rightarrow> 'k \<Rightarrow> timedelta \<Rightarrow> datetime \<Rightarrow>
    nat \<times> 'k sliding_window_counter" where
  "sw_count s key window now =
     (let s' = sw_prune s key now in (length (filter (in_window window now) (sw_get s' key)), s'))"

definition sw_keys :: "'k sliding_window_counter \<Rightarrow> 'k list" where
  "sw_keys s = map fst (sw_events s)"

fun sw_count_all :: "'k sliding_window_counter \<Rightarrow> 'k list \<Rightarrow> timedelta \<Rightarrow> datetime \<Rightarrow>
    ('k \<times> nat) list \<times> 'k sliding_window_counter" where
  \<comment> \<open>the dictionary comprehension of \<open>most_accessed\<close>\<close>
  "sw_count_all s [] window now = ([], s)"
| "sw_count_all s (k # ks) window now =
     (case sw_count s k window now of (c, s1) \<Rightarrow>
        (case sw_count_all s1 ks window now of (cs, s2) \<Rightarrow> ((k, c) # cs, s2)))"

definition sw_most_accessed :: "'k sliding_window_counter \<Rightarrow> ('k \<Rightarrow> bool) \<Rightarrow> int \<Rightarrow> timedelta \<Rightarrow>
    datetime \<Rightarrow> 'k list \<times> 'k sliding_window_counter" where
  "sw_most_accessed s mine n window now =
     (case sw_count_all s (filter mine (sw_keys s)) window now of (counts, s') \<Rightarrow>
        (let ranked = sorted_desc (\<lambda>e. int (snd e)) counts
         in (py_take n (map fst (filter (\<lambda>e. 0 < snd e) ranked)), s')))"

subsection \<open>The two trackers\<close>

type_synonym access_tracker = "(uuid \<times> uuid) sliding_window_counter"
type_synonym user_access_tracker = "(uuid \<times> uuid \<times> uuid) sliding_window_counter"

definition DEFAULT_RETENTION :: timedelta where
  "DEFAULT_RETENTION = days 30"

definition new_counter :: "timedelta \<Rightarrow> 'k sliding_window_counter" where
  "new_counter retention = \<lparr>sw_retention = retention, sw_events = []\<rparr>"

definition record_access :: "access_tracker \<Rightarrow> uuid \<Rightarrow> uuid \<Rightarrow> datetime \<Rightarrow> access_tracker" where
  "record_access s tenant_id document_id tm = sw_record s (tenant_id, document_id) tm"

definition access_count :: "access_tracker \<Rightarrow> uuid \<Rightarrow> uuid \<Rightarrow> timedelta \<Rightarrow> datetime \<Rightarrow> nat \<times> access_tracker" where
  "access_count s tenant_id document_id window now = sw_count s (tenant_id, document_id) window now"

definition most_accessed :: "access_tracker \<Rightarrow> uuid \<Rightarrow> int \<Rightarrow> timedelta \<Rightarrow> datetime \<Rightarrow> uuid list \<times> access_tracker" where
  "most_accessed s tenant_id n window now =
     (case sw_most_accessed s (\<lambda>k. fst k = tenant_id) n window now of (ks, s') \<Rightarrow> (map snd ks, s'))"

definition user_record_access ::
  "user_access_tracker \<Rightarrow> uuid \<Rightarrow> uuid \<Rightarrow> uuid \<Rightarrow> datetime \<Rightarrow> user_access_tracker" where
  "user_record_access s tenant_id user_id document_id tm = sw_record s (tenant_id, user_id, document_id) tm"

definition user_access_count ::
  "user_access_tracker \<Rightarrow> uuid \<Rightarrow> uuid \<Rightarrow> uuid \<Rightarrow> timedelta \<Rightarrow> datetime \<Rightarrow> nat \<times> user_access_tracker" where
  "user_access_count s tenant_id user_id document_id window now =
     sw_count s (tenant_id, user_id, document_id) window now"

definition user_most_accessed ::
  "user_access_tracker \<Rightarrow> uuid \<Rightarrow> uuid \<Rightarrow> int \<Rightarrow> timedelta \<Rightarrow> datetime \<Rightarrow> uuid list \<times> user_access_tracker" where
  "user_most_accessed s tenant_id user_id n window now =
     (case sw_most_accessed s (\<lambda>k. fst k = tenant_id \<and> fst (snd k) = user_id) n window now of
        (ks, s') \<Rightarrow> (map (snd \<circ> snd) ks, s'))"

subsection \<open>Laws of the counter\<close>

definition sw_ok :: "'k sliding_window_counter \<Rightarrow> bool" where
  "sw_ok s \<longleftrightarrow> distinct (map fst (sw_events s)) \<and> 0 \<le> sw_retention s"

lemma sw_prune_retention [simp]: "sw_retention (sw_prune s k now) = sw_retention s"
  by (simp add: sw_prune_def Let_def split: option.split)

lemma sw_get_prune:
  "sw_get (sw_prune s k now) k' =
     (if k' = k then filter (\<lambda>tm. now - sw_retention s \<le> tm) (sw_get s k) else sw_get s k')"
  by (auto simp: sw_prune_def sw_get_def Let_def filter_empty_conv split: option.splits)

lemma sw_prune_ok [simp]: "sw_ok s \<Longrightarrow> sw_ok (sw_prune s k now)"
  by (auto simp: sw_ok_def sw_prune_def Let_def split: option.split)

lemma sw_record_retention [simp]: "sw_retention (sw_record s k tm) = sw_retention s"
  by (simp add: sw_record_def)

lemma sw_record_ok [simp]: "sw_ok s \<Longrightarrow> sw_ok (sw_record s k tm)"
  unfolding sw_record_def by (rule sw_prune_ok) (simp add: sw_ok_def)

lemma sw_get_record:
  "sw_get (sw_record s k tm) k' =
     (if k' = k then filter (\<lambda>t. tm - sw_retention s \<le> t) (sw_get s k @ [tm]) else sw_get s k')"
  by (auto simp: sw_record_def sw_get_prune) (simp_all add: sw_get_def)

text \<open>
  A counter represents a log of all accesses ever made when, from the current time on, no
  count with a window inside the retention can tell the difference.
\<close>

definition represents :: "'k sliding_window_counter \<Rightarrow> ('k \<Rightarrow> datetime list) \<Rightarrow> datetime \<Rightarrow> bool" where
  "represents s lg now \<longleftrightarrow>
     (\<forall>k. filter (\<lambda>tm. now - sw_retention s \<le> tm) (sw_get s k) =
          filter (\<lambda>tm. now - sw_retention s \<le> tm) (lg k))"

lemma filter_weaken: "(\<And>x. P x \<Longrightarrow> Q x) \<Longrightarrow> filter Q xs = filter Q ys \<Longrightarrow> filter P xs = filter P ys"
proof -
  assume i: "\<And>x. P x \<Longrightarrow> Q x" and e: "filter Q xs = filter Q ys"
  have "filter P zs = filter P (filter Q zs)" for zs using i by (induction zs) auto
  from this [of xs] this [of ys] show ?thesis by (simp only: e)
qed

lemma represents_later: "represents s lg now \<Longrightarrow> now \<le> now' \<Longrightarrow> represents s lg now'"
  unfolding represents_def by (auto intro: filter_weaken [of _ "\<lambda>tm. now - sw_retention s \<le> tm"])

lemma represents_prune: "represents s lg now \<Longrightarrow> represents (sw_prune s k now) lg now"
  by (simp add: represents_def sw_get_prune)

lemma represents_record:
  "represents s lg now \<Longrightarrow> represents (sw_record s k now) (lg(k := lg k @ [now])) now"
  by (simp add: represents_def sw_get_record)

lemma represents_count:
  assumes "represents s lg now"
  shows "fst (sw_count s k window now) = length (filter (in_window (min window (sw_retention s)) now) (lg k))"
proof -
  have "sw_get (sw_prune s k now) k = filter (\<lambda>tm. now - sw_retention s \<le> tm) (lg k)"
    using assms by (simp add: sw_get_prune represents_def)
  moreover have "filter (in_window window now) (filter (\<lambda>tm. now - sw_retention s \<le> tm) xs) =
      filter (in_window (min window (sw_retention s)) now) xs" for xs
    by (auto simp: in_window_def min_def intro!: filter_cong)
  ultimately show ?thesis by (simp add: sw_count_def Let_def)
qed

subsection \<open>Counting is exact\<close>

datatype 'k counter_call = Record 'k datetime | Count 'k timedelta datetime

fun call_time :: "'k counter_call \<Rightarrow> datetime" where
  "call_time (Record _ tm) = tm"
| "call_time (Count _ _ now) = now"

fun counter_run :: "'k sliding_window_counter \<Rightarrow> 'k counter_call list \<Rightarrow> nat list" where
  "counter_run s [] = []"
| "counter_run s (Record k tm # cs) = counter_run (sw_record s k tm) cs"
| "counter_run s (Count k w now # cs) =
     (case sw_count s k w now of (n, s') \<Rightarrow> n # counter_run s' cs)"

fun log_run :: "('k \<Rightarrow> datetime list) \<Rightarrow> 'k counter_call list \<Rightarrow> nat list" where
  \<comment> \<open>the specification: a log that is never pruned\<close>
  "log_run lg [] = []"
| "log_run lg (Record k tm # cs) = log_run (lg(k := lg k @ [tm])) cs"
| "log_run lg (Count k w now # cs) = length (filter (in_window w now) (lg k)) # log_run lg cs"

fun capped :: "timedelta \<Rightarrow> 'k counter_call \<Rightarrow> 'k counter_call" where
  "capped r (Count k w now) = Count k (min w r) now"
| "capped r (Record k tm) = Record k tm"

lemma counter_refines_log:
  "represents s lg n \<Longrightarrow> sorted (n # map call_time cs) \<Longrightarrow> counter_run s cs = log_run lg (map (capped (sw_retention s)) cs)"
proof (induction cs arbitrary: s lg n)
  case (Cons c cs)
  show ?case
  proof (cases c)
    case (Record k tm)
    with Cons.prems have "represents s lg tm" by (auto intro: represents_later)
    then have "represents (sw_record s k tm) (lg(k := lg k @ [tm])) tm" by (rule represents_record)
    then have "counter_run (sw_record s k tm) cs = log_run (lg(k := lg k @ [tm])) (map (capped (sw_retention (sw_record s k tm))) cs)"
      by (rule Cons.IH) (use Cons.prems Record in auto)
    then show ?thesis by (simp only: Record counter_run.simps log_run.simps list.map capped.simps sw_record_retention)
  next
    case (Count k w now)
    with Cons.prems have r: "represents s lg now" by (auto intro: represents_later)
    from represents_prune [OF r] have "represents (snd (sw_count s k w now)) lg now"
      by (simp add: sw_count_def Let_def)
    moreover have "sw_retention (snd (sw_count s k w now)) = sw_retention s"
      by (simp add: sw_count_def Let_def)
    ultimately have "counter_run (snd (sw_count s k w now)) cs = log_run lg (map (capped (sw_retention s)) cs)"
      using Cons.IH [of "snd (sw_count s k w now)" lg now] Cons.prems Count by simp
    with represents_count [OF r, of k w] Count show ?thesis
      by (simp add: case_prod_unfold)
  qed
qed simp

lemma filter_subset_length: "mset xs \<subseteq># mset ys \<Longrightarrow> length (filter P xs) \<le> length (filter P ys)"
  by (metis mset_filter multiset_filter_mono size_mset size_mset_mono)

lemma subset_filtered: "mset xs \<subseteq># mset ys \<Longrightarrow> mset (filter P xs) \<subseteq># mset ys"
  by (metis mset_filter multiset_filter_subset subset_mset.order_trans)

lemma counter_never_over:
  assumes "\<And>k. mset (sw_get s k) \<subseteq># mset (lg k)"
  shows "list_all2 (\<le>) (counter_run s cs) (log_run lg cs)"
  using assms
proof (induction cs arbitrary: s lg)
  case (Cons c cs)
  show ?case
  proof (cases c)
    case (Record k tm)
    have "mset (sw_get s k @ [tm]) \<subseteq># mset (lg k @ [tm])" using Cons.prems [of k] by simp
    then have "mset (sw_get (sw_record s k tm) k') \<subseteq># mset ((lg(k := lg k @ [tm])) k')" for k'
      using subset_filtered Cons.prems [of k'] unfolding sw_get_record by (cases "k' = k") (simp_all only: if_True if_False fun_upd_apply simp_thms)
    with Cons.IH Record show ?thesis by simp
  next
    case (Count k w now)
    have p: "mset (sw_get (sw_prune s k now) k') \<subseteq># mset (lg k')" for k'
      using subset_filtered [OF Cons.prems [of k]] Cons.prems [of k'] unfolding sw_get_prune by (cases "k' = k") (simp_all only: if_True if_False simp_thms)
    have "fst (sw_count s k w now) \<le> length (filter (in_window w now) (lg k))"
      using filter_subset_length [OF p] by (simp add: sw_count_def Let_def)
    moreover have "list_all2 (\<le>) (counter_run (snd (sw_count s k w now)) cs) (log_run lg cs)"
      using Cons.IH p by (simp add: sw_count_def Let_def)
    ultimately show ?thesis by (simp add: Count case_prod_unfold)
  qed
qed simp

text \<open>
  C9. What pruning costs, exactly. For any interleaving of recorded accesses and counts, with any mix of window sizes, a count never
  exceeds that of a log that keeps every access. When the times of the calls never go back, each count is that of the log for
  the window cut to the retention: windows up to the retention are answered exactly, and longer ones as if they were the
  retention. The counter enforces neither condition.
\<close>

theorem sliding_window_counts_exactly:
  "list_all2 (\<le>) (counter_run (new_counter retention) cs) (log_run (\<lambda>_. []) cs) \<and>
   (sorted (map call_time cs) \<longrightarrow> counter_run (new_counter retention) cs = log_run (\<lambda>_. []) (map (capped retention) cs))"
proof
  show "list_all2 (\<le>) (counter_run (new_counter retention) cs) (log_run (\<lambda>_. []) cs)"
    by (rule counter_never_over) (simp add: new_counter_def sw_get_def)
  show "sorted (map call_time cs) \<longrightarrow> counter_run (new_counter retention) cs = log_run (\<lambda>_. []) (map (capped retention) cs)"
  proof
    assume s: "sorted (map call_time cs)"
    show "counter_run (new_counter retention) cs = log_run (\<lambda>_. []) (map (capped retention) cs)"
    proof (cases cs)
      case (Cons c cs')
      have "represents (new_counter retention) (\<lambda>_. []) (call_time c)" by (simp add: represents_def new_counter_def sw_get_def)
      from counter_refines_log [OF this, of cs] s Cons show ?thesis by (simp add: new_counter_def)
    qed simp
  qed
qed

theorem sliding_window_counts_exactly_witness:
  "counter_run (new_counter 100) [Record ''a'' 0, Record ''a'' 60, Count ''a'' 10 60, Count ''a'' 100 100, Count ''a'' 500 101] = [1, 2, 1]"
proof -
  let ?cs = "[Record ''a'' 0, Record ''a'' 60, Count ''a'' 10 60, Count ''a'' 100 100, Count ''a'' 500 101]"
  have "counter_run (new_counter 100) ?cs = log_run (\<lambda>_. []) (map (capped 100) ?cs)"
    using sliding_window_counts_exactly [of 100 ?cs] by simp
  also have "\<dots> = [1, 2, 1]" by (simp add: in_window_def)
  finally show ?thesis .
qed

subsection \<open>most\_accessed\<close>

lemma sw_prune_idem: "sw_get (sw_prune (sw_prune s k now) k now) k' = sw_get (sw_prune s k now) k'"
  by (simp add: sw_get_prune)

lemma sw_count_other:
  "k' \<noteq> k \<Longrightarrow> fst (sw_count (sw_prune s k now) k' w now) = fst (sw_count s k' w now)"
  by (simp add: sw_count_def Let_def sw_get_prune)

lemma snd_sw_count: "snd (sw_count s k w now) = sw_prune s k now"
  by (simp add: sw_count_def Let_def)

lemma sw_count_all_counts:
  "distinct ks \<Longrightarrow> fst (sw_count_all s ks w now) = map (\<lambda>k. (k, fst (sw_count s k w now))) ks"
proof (induction ks arbitrary: s)
  case (Cons k ks)
  have "fst (sw_count_all (sw_prune s k now) ks w now) =
      map (\<lambda>k'. (k', fst (sw_count (sw_prune s k now) k' w now))) ks"
    using Cons by simp
  also have "\<dots> = map (\<lambda>k'. (k', fst (sw_count s k' w now))) ks"
    using Cons.prems by (intro map_cong refl) (metis Pair_inject distinct.simps(2) sw_count_other)
  finally show ?case
    using snd_sw_count [of s k w now] by (simp add: case_prod_unfold)
qed simp

lemma py_take_prefix: "\<exists>m. py_take n xs = take m xs"
  by (auto simp: py_take_def)

lemma sorted_wrt_filter_map:
  "sorted_wrt (\<lambda>x y. f y \<le> f x) xs \<Longrightarrow> sorted_wrt (\<lambda>x y. f y \<le> f x) (filter P xs)"
  by (rule sorted_wrt_filter)

lemma top_of_ranking:
  assumes "sorted_wrt (\<lambda>x y. f y \<le> (f x :: int)) xs" "x \<in> set (take m xs)" "y \<in> set xs" "y \<notin> set (take m xs)"
  shows "f y \<le> f x"
proof -
  have r: "sorted_wrt (\<lambda>x y. f y \<le> f x) (take m xs @ drop m xs)" using assms(1) by simp
  have "y \<in> set (drop m xs)" using assms(3,4) by (metis Un_iff append_take_drop_id set_append)
  then show ?thesis
    using r assms(2) unfolding sorted_wrt_append by blast
qed

text \<open>
  What \<open>most_accessed\<close> returns: keys of the caller's own, each accessed in the window, by
  falling count, and none left out that was accessed more often.
\<close>

lemma sw_most_accessed_spec:
  assumes ok: "sw_ok s" and r: "sw_most_accessed s mine n window now = (ks, s')"
  defines "cnt \<equiv> \<lambda>k. fst (sw_count s k window now)"
  shows "distinct ks" and "set ks \<subseteq> {k \<in> set (sw_keys s). mine k \<and> 0 < cnt k}"
    and "sorted_wrt (\<lambda>a b. cnt b \<le> cnt a) ks" and "0 \<le> n \<Longrightarrow> length ks \<le> nat n"
    and "k \<in> set ks \<Longrightarrow> k' \<in> set (sw_keys s) \<Longrightarrow> mine k' \<Longrightarrow> k' \<notin> set ks \<Longrightarrow> cnt k' \<le> cnt k"
proof -
  let ?keys = "filter mine (sw_keys s)"
  let ?cs = "map (\<lambda>k. (k, cnt k)) ?keys"
  let ?all = "map fst (filter (\<lambda>e. 0 < snd e) (sorted_desc (\<lambda>e. int (snd e)) ?cs))"
  have dk: "distinct ?keys" using ok by (simp add: sw_ok_def sw_keys_def)
  have "fst (sw_count_all s ?keys window now) = ?cs"
    using sw_count_all_counts [OF dk] by (simp add: cnt_def)
  then have pk: "ks = py_take n ?all"
    using r by (simp add: sw_most_accessed_def Let_def case_prod_unfold)
  then obtain m where ks: "ks = take m ?all" using py_take_prefix by blast
  have len: "0 \<le> n \<Longrightarrow> length ks \<le> nat n" by (simp add: pk py_take_def)
  have ent: "e \<in> set (sorted_desc (\<lambda>e. int (snd e)) ?cs) \<Longrightarrow> snd e = cnt (fst e)" for e by auto
  have "mset (map fst (sorted_desc (\<lambda>e. int (snd e)) ?cs)) = mset ?keys"
    by (simp add: mset_map multiset.map_comp comp_def)
  then have "distinct (map fst (sorted_desc (\<lambda>e. int (snd e)) ?cs))"
    using dk by (metis mset_eq_imp_distinct_iff)
  then have da: "distinct ?all" by (rule distinct_map_filter)
  have sa: "sorted_wrt (\<lambda>a b. int (cnt b) \<le> int (cnt a)) ?all"
    unfolding sorted_wrt_map
    by (rule sorted_wrt_mono_rel [OF _ sorted_wrt_filter [OF sorted_desc_sorted]]) (auto dest: ent)
  have seta: "set ?all = {k \<in> set (sw_keys s). mine k \<and> 0 < cnt k}" by force
  show "distinct ks" using da by (simp add: ks)
  show "set ks \<subseteq> {k \<in> set (sw_keys s). mine k \<and> 0 < cnt k}"
    using seta set_take_subset [of m ?all] by (auto simp: ks)
  show "sorted_wrt (\<lambda>a b. cnt b \<le> cnt a) ks"
    using sorted_wrt_take [OF sa, of m] by (simp add: ks)
  show "0 \<le> n \<Longrightarrow> length ks \<le> nat n" by (rule len)
  show "cnt k' \<le> cnt k" if "k \<in> set ks" "k' \<in> set (sw_keys s)" "mine k'" "k' \<notin> set ks"
  proof (cases "0 < cnt k'")
    case True
    with that seta have "k' \<in> set ?all" by blast
    with top_of_ranking [OF sa, of k m k'] that show ?thesis by (simp add: ks)
  qed simp
qed

lemma sw_count_absent: "k \<notin> set (sw_keys s) \<Longrightarrow> fst (sw_count s k w now) = 0"
proof -
  assume "k \<notin> set (sw_keys s)"
  then have "sw_get s k = []" by (simp add: sw_get_def sw_keys_def map_of_eq_None_iff [THEN iffD2])
  then show ?thesis by (simp add: sw_count_def Let_def sw_get_prune)
qed

lemma inj_on_pair: "inj_on snd {k. fst k = t}"
  by (auto simp: inj_on_def)

text \<open>
  The ranking behind cache warming. Of one tenant's documents, \<^verbatim>\<open>most_accessed\<close>
  returns distinct ones that were accessed in the window, at most \<open>n\<close> of them, by falling
  access count, and leaves out no document of the tenant accessed more often than one it
  returns. Accesses of other tenants play no part.
\<close>

theorem most_accessed_top_n:
  assumes "sw_ok s" and "most_accessed s tenant n window now = (ds, s')"
  shows "distinct ds \<and> (0 \<le> n \<longrightarrow> length ds \<le> nat n) \<and>
    (\<forall>d \<in> set ds. 0 < fst (access_count s tenant d window now)) \<and>
    sorted_wrt (\<lambda>a b. fst (access_count s tenant b window now) \<le> fst (access_count s tenant a window now)) ds \<and>
    (\<forall>d \<in> set ds. \<forall>d'. d' \<notin> set ds \<longrightarrow>
       fst (access_count s tenant d' window now) \<le> fst (access_count s tenant d window now))"
proof -
  obtain ks where r: "sw_most_accessed s (\<lambda>k. fst k = tenant) n window now = (ks, s')" and ds: "ds = map snd ks"
    using assms(2) by (auto simp: most_accessed_def split: prod.splits)
  note sp = sw_most_accessed_spec [OF assms(1) r]
  have t: "k \<in> set ks \<Longrightarrow> fst k = tenant" for k using sp(2) by auto
  have ks: "(tenant, d) \<in> set ks \<longleftrightarrow> d \<in> set ds" for d using t by (force simp: ds)
  have "inj_on snd (set ks)" using t by (intro inj_on_subset [OF inj_on_pair]) auto
  with sp(1) have "distinct ds" by (simp add: ds distinct_map)
  moreover have "\<forall>d \<in> set ds. 0 < fst (access_count s tenant d window now)"
    using sp(2) ks by (auto simp: access_count_def)
  moreover have "sorted_wrt (\<lambda>a b. fst (access_count s tenant b window now) \<le> fst (access_count s tenant a window now)) ds"
    unfolding ds sorted_wrt_map access_count_def
    by (rule sorted_wrt_mono_rel [OF _ sp(3)]) (metis prod.collapse t)
  moreover have "fst (access_count s tenant d' window now) \<le> fst (access_count s tenant d window now)"
    if "d \<in> set ds" "d' \<notin> set ds" for d d'
    using sp(5) [of "(tenant, d)" "(tenant, d')"] sw_count_absent [of "(tenant, d')" s window now] that ks
    by (cases "(tenant, d') \<in> set (sw_keys s)") (auto simp: access_count_def)
  ultimately show ?thesis using sp(4) by (simp add: ds)
qed

theorem most_accessed_top_n_witness:
  "let s = record_access (record_access (record_access (new_counter 100) 1 7 5) 1 8 6) 1 8 7
   in sw_ok s \<and> fst (most_accessed s 1 1 50 10) = [8] \<and>
      fst (access_count s 1 7 50 10) \<le> fst (access_count s 1 8 50 10)"
proof -
  let ?s = "record_access (record_access (record_access (new_counter 100) 1 7 5) 1 8 6) 1 8 7"
  have ok: "sw_ok ?s" unfolding record_access_def by (intro sw_record_ok) (simp add: sw_ok_def new_counter_def)
  have m: "most_accessed ?s 1 1 50 10 = ([8], snd (most_accessed ?s 1 1 50 10))"
    by code_simp
  from most_accessed_top_n [OF ok m] have "\<forall>d'. d' \<notin> {8} \<longrightarrow>
      fst (access_count ?s 1 d' 50 10) \<le> fst (access_count ?s 1 8 50 10)" by auto
  then have "fst (access_count ?s 1 7 50 10) \<le> fst (access_count ?s 1 8 50 10)" by simp
  with ok m show ?thesis unfolding Let_def by (metis fst_conv)
qed

subsection \<open>The tracker port\<close>

text \<open>
  \<^verbatim>\<open>AccessFrequencyTracker\<close> and \<^verbatim>\<open>UserScopedAccessFrequencyTracker\<close> of
  \<^verbatim>\<open>src/orchestration/domain/ports.py\<close> differ in their scope only: a tenant, or a tenant
  and a user. Callers rely on a count being repeatable at the same instant.
\<close>

record ('s, 'scope) tracker_ops =
  tk_record_access :: "'s \<Rightarrow> 'scope \<Rightarrow> uuid \<Rightarrow> datetime \<Rightarrow> 's"
  tk_access_count :: "'s \<Rightarrow> 'scope \<Rightarrow> uuid \<Rightarrow> timedelta \<Rightarrow> datetime \<Rightarrow> nat \<times> 's"
  tk_most_accessed :: "'s \<Rightarrow> 'scope \<Rightarrow> int \<Rightarrow> timedelta \<Rightarrow> datetime \<Rightarrow> uuid list \<times> 's"

definition tenant_tracker_ops :: "(access_tracker, uuid) tracker_ops" where
  "tenant_tracker_ops =
     \<lparr>tk_record_access = record_access, tk_access_count = access_count, tk_most_accessed = most_accessed\<rparr>"

definition user_tracker_ops :: "(user_access_tracker, uuid \<times> uuid) tracker_ops" where
  "user_tracker_ops =
     \<lparr>tk_record_access = (\<lambda>s (t, u). user_record_access s t u),
      tk_access_count = (\<lambda>s (t, u). user_access_count s t u),
      tk_most_accessed = (\<lambda>s (t, u). user_most_accessed s t u)\<rparr>"

locale frequency_tracker =
  fixes tracker :: "('s, 'scope) tracker_ops"
  assumes count_repeatable:
    "fst (tk_access_count tracker (snd (tk_access_count tracker s sc d w now)) sc' d' w' now) =
     fst (tk_access_count tracker s sc' d' w' now)"
begin

lemma count_stable:
  "tk_access_count tracker s sc d w now = (n, s') \<Longrightarrow> fst (tk_access_count tracker s' sc d w now) = n"
  using count_repeatable [of s sc d w now sc d w] by simp

end

lemma sw_count_repeatable: "fst (sw_count (snd (sw_count s k w now)) k' w' now) = fst (sw_count s k' w' now)"
  by (simp add: sw_count_def Let_def sw_get_prune)

interpretation tenant_tracker: frequency_tracker tenant_tracker_ops
  by unfold_locales (simp add: tenant_tracker_ops_def access_count_def sw_count_repeatable)

interpretation user_tracker: frequency_tracker user_tracker_ops
  by unfold_locales (simp add: user_tracker_ops_def user_access_count_def sw_count_repeatable split: prod.split)

end
