(* ===== verification/Mag_Entities.thy ===== *)
theory Mag_Entities
  imports Py_Prelude
begin

text \<open>
  The data of the memory paradigm: \<^verbatim>\<open>src/mag/domain/entities.py\<close>, the values
  \<^verbatim>\<open>json.loads\<close> returns, and what the language-model calls of the memory commands
  share: \<^verbatim>\<open>strip_markdown_fence\<close> and the bounded retry loop around a completion.

  A JSON object is an association list with distinct keys. \<^verbatim>\<open>json.loads\<close> itself is a
  parameter of the definitions that call it, \<open>None\<close> being \<^verbatim>\<open>JSONDecodeError\<close>. A
  completion is a value of a parameter \<open>chat\<close>: the reply to the \<open>n\<close>-th call with a prompt.
\<close>

datatype json =
    JNull
  | JBool bool
  | JInt int
  | JFloat pyfloat
  | JStr string
  | JList "json list"
  | JObj "(string \<times> json) list"

type_synonym embedding = "rat list"

record episodic_memory =
  em_id :: uuid
  em_session_id :: uuid
  em_content :: "(string \<times> json) list"
  em_embedding :: embedding
  em_timestamp :: datetime
  em_salience_score :: rat
  em_consolidated_at :: "datetime option"

record semantic_memory =
  sm_fact_id :: uuid
  sm_user_id :: uuid
  sm_fact_key :: string
  sm_fact_value :: string
  sm_embedding :: embedding
  sm_confidence :: pyfloat
  sm_source :: string
  sm_valid_until :: "datetime option"
  sm_archived_at :: "datetime option"

record working_memory_turn =
  wt_role :: string
  wt_content :: string
  wt_recorded_at :: datetime
  wt_metadata :: "(string \<times> json) list"

record scored_episode =
  se_episode :: episodic_memory
  se_score :: pyfloat

record scored_fact =
  sf_fact :: semantic_memory
  sf_score :: pyfloat

datatype node_property = PJson json | PTime datetime

record activated_node =
  an_node_id :: string
  an_node_type :: string
  an_properties :: "(string \<times> node_property) list"
  an_activation :: rat
  an_hops :: nat

datatype candidate_origin =
  FromEpisode episodic_memory | FromFact semantic_memory | FromNode activated_node

record gating_candidate =
  gc_content_text :: string
  gc_score :: pyfloat
  gc_salience :: pyfloat
  gc_timestamp :: "datetime option"
  gc_source_type :: string
  gc_origin :: candidate_origin
  gc_embedding :: embedding

record procedural_memory =
  pm_id :: uuid
  pm_user_id :: uuid
  pm_task_pattern :: string
  pm_workflow :: "(string \<times> json) list"
  pm_success_rate :: rat
  pm_last_used :: "datetime option"

record semantic_memory_history_entry =
  he_id :: uuid
  he_original_fact_id :: uuid
  he_user_id :: uuid
  he_fact_key :: string
  he_fact_value :: string
  he_confidence :: pyfloat
  he_source :: string
  he_operation :: string
  he_superseded_at :: datetime

record fact_evolution_classification =
  ec_operation :: string
  ec_reasoning :: string

subsection \<open>Language-model replies\<close>

definition fence :: string where
  "fence = ''```''"

definition strip_markdown_fence :: "string \<Rightarrow> string" where
  "strip_markdown_fence text =
     (let stripped = py_strip text in
      if startswith stripped fence
      then (let lines = py_splitlines stripped in
            join [CHR 0x0A]
              (if lines \<noteq> [] \<and> py_strip (last lines) = fence then butlast (tl lines) else tl lines))
      else stripped)"

fun retry :: "nat \<Rightarrow> (nat \<Rightarrow> string) \<Rightarrow> (string \<Rightarrow> 'a option) \<Rightarrow> nat \<Rightarrow> 'a option \<times> nat" where
  \<comment> \<open>\<open>for _ in range(attempts)\<close>: complete, try to parse and return, or continue; the last
      argument counts the completions made so far\<close>
  "retry 0 reply parse n = (None, n)"
| "retry (Suc k) reply parse n =
     (case parse (reply n) of Some x \<Rightarrow> (Some x, Suc n) | None \<Rightarrow> retry k reply parse (Suc n))"

lemma retry_calls: "retry k reply parse n = (r, m) \<Longrightarrow> n \<le> m \<and> m \<le> n + k"
  by (induction k arbitrary: n) (fastforce split: option.splits)+

lemma retry_Some: "retry k reply parse n = (Some x, m) \<Longrightarrow> \<exists>i. n \<le> i \<and> i < n + k \<and> parse (reply i) = Some x"
proof (induction k arbitrary: n)
  case (Suc k)
  show ?case
  proof (cases "parse (reply n)")
    case None
    with Suc.prems Suc.IH [of "Suc n"] show ?thesis by (auto intro: Suc_leD)
  next
    case (Some y)
    with Suc.prems have "y = x" by simp
    with Some show ?thesis by auto
  qed
qed simp

lemma retry_None: "retry k reply parse n = (None, m) \<longleftrightarrow> m = n + k \<and> (\<forall>i. n \<le> i \<and> i < n + k \<longrightarrow> parse (reply i) = None)"
proof (induction k arbitrary: n)
  case 0
  show ?case by auto
next
  case (Suc k)
  have "(\<forall>i. n \<le> i \<and> i < n + Suc k \<longrightarrow> parse (reply i) = None) \<longleftrightarrow>
      parse (reply n) = None \<and> (\<forall>i. Suc n \<le> i \<and> i < Suc n + k \<longrightarrow> parse (reply i) = None)"
    by (metis Suc_leD Suc_leI add_Suc add_Suc_right le_add1 le_imp_less_Suc order_le_less)
  with Suc.IH [of "Suc n"] show ?case by (auto split: option.split)
qed

end
