(* ===== verification/Semantic_Memory.thy ===== *)
theory Semantic_Memory
  imports Mag_Entities
begin

text \<open>
  Semantic memory: the Postgres repository, the Qdrant index and the fact nodes of the
  Neo4j graph, and the commands that write to the three of them
  (\<^verbatim>\<open>src/mag/infrastructure\<close> and \<^verbatim>\<open>src/mag/application/commands\<close>).

  \<^item> The table \<open>semantic_memory\<close> is an association list from its unique key (user, fact key)
    to the row; \<open>semantic_memory_history\<close> is the list of inserted rows. An \<open>UPDATE\<close> that
    matches no row makes \<open>scalar_one\<close> raise.
  \<^item> A Qdrant collection is an association list from point id to point. \<open>upsert\<close> replaces a
    point, \<open>set_payload\<close> merges keys into an existing one and raises for a missing one. The
    nearest-neighbour search of the server is the parameter \<open>knn\<close>: it gets the points that
    pass the filter.
  \<^item> Every command returns its result, or the exception it raises, with the stores as it left
    them. \<open>faults\<close> says whether the command's write to Qdrant or to Neo4j fails.
  \<^item> Time: \<open>now\<close> is the application's clock, \<open>db_now\<close> the database's.
\<close>

subsection \<open>PostgresSemanticMemoryRepository\<close>

type_synonym slot = "uuid \<times> string"

record fact_row =
  fr_tenant :: uuid
  fr_fact :: semantic_memory

record semantic_repo =
  sr_facts :: "(slot \<times> fact_row) list"
  sr_history :: "(uuid \<times> semantic_memory_history_entry) list"

definition repo_save :: "semantic_repo \<Rightarrow> semantic_memory \<Rightarrow> uuid \<Rightarrow> semantic_repo" where
  "repo_save r mem tenant_id =
     (let slot = (sm_user_id mem, sm_fact_key mem);
          row = (case map_of (sr_facts r) slot of
                   None \<Rightarrow> \<lparr>fr_tenant = tenant_id, fr_fact = mem\<rparr>
                 | Some old \<Rightarrow> old\<lparr>fr_fact := mem\<rparr>)
      in r\<lparr>sr_facts := dict_set slot row (sr_facts r)\<rparr>)"

definition row_to_fact :: "fact_row \<Rightarrow> semantic_memory" where
  "row_to_fact row = (fr_fact row)\<lparr>sm_embedding := []\<rparr>"

definition repo_row :: "semantic_repo \<Rightarrow> uuid \<Rightarrow> string \<Rightarrow> uuid \<Rightarrow> fact_row option" where
  \<comment> \<open>\<open>WHERE user_id = .. AND fact_key = .. AND tenant_id = ..\<close>\<close>
  "repo_row r user_id fact_key tenant_id =
     (case map_of (sr_facts r) (user_id, fact_key) of
        None \<Rightarrow> None
      | Some row \<Rightarrow> if fr_tenant row = tenant_id then Some row else None)"

definition find_by_key :: "semantic_repo \<Rightarrow> uuid \<Rightarrow> string \<Rightarrow> uuid \<Rightarrow> semantic_memory option" where
  "find_by_key r user_id fact_key tenant_id = map_option row_to_fact (repo_row r user_id fact_key tenant_id)"

definition sql_live :: "datetime \<Rightarrow> semantic_memory \<Rightarrow> bool" where
  "sql_live db_now f \<longleftrightarrow>
     (case sm_valid_until f of None \<Rightarrow> True | Some v \<Rightarrow> db_now < v) \<and> sm_archived_at f = None"

definition search_by_similarity :: "(embedding \<Rightarrow> embedding \<Rightarrow> rat) \<Rightarrow> datetime \<Rightarrow> semantic_repo \<Rightarrow>
    embedding \<Rightarrow> uuid \<Rightarrow> uuid \<Rightarrow> nat \<Rightarrow> scored_fact list" where
  \<comment> \<open>\<open>distance\<close> is pgvector's cosine distance operator\<close>
  "search_by_similarity distance db_now r query_embedding user_id tenant_id top_k =
     (let rows = filter (\<lambda>row. sm_user_id (fr_fact row) = user_id \<and> fr_tenant row = tenant_id \<and>
                               sql_live db_now (fr_fact row)) (map snd (sr_facts r))
      in map (\<lambda>row. \<lparr>sf_fact = row_to_fact row,
                     sf_score = Fin (fl (1 - distance (sm_embedding (fr_fact row)) query_embedding))\<rparr>)
           (take top_k (sort_key (\<lambda>row. distance (sm_embedding (fr_fact row)) query_embedding) rows)))"

definition coalesce :: "datetime option \<Rightarrow> datetime \<Rightarrow> datetime" where
  "coalesce given db_now = (case given of None \<Rightarrow> db_now | Some tm \<Rightarrow> tm)"

definition repo_update :: "(semantic_memory \<Rightarrow> semantic_memory) \<Rightarrow> datetime \<Rightarrow> semantic_repo \<Rightarrow> uuid \<Rightarrow>
    string \<Rightarrow> uuid \<Rightarrow> datetime result \<times> semantic_repo" where
  \<comment> \<open>\<open>UPDATE .. WHERE .. RETURNING\<close> followed by \<open>scalar_one()\<close>\<close>
  "repo_update f tm r user_id fact_key tenant_id =
     (case repo_row r user_id fact_key tenant_id of
        None \<Rightarrow> (Inl (OtherException ''NoResultFound''), r)
      | Some row \<Rightarrow> (Inr tm, r\<lparr>sr_facts := dict_set (user_id, fact_key) (row\<lparr>fr_fact := f (fr_fact row)\<rparr>) (sr_facts r)\<rparr>))"

definition repo_invalidate :: "datetime \<Rightarrow> semantic_repo \<Rightarrow> uuid \<Rightarrow> string \<Rightarrow> uuid \<Rightarrow> datetime option \<Rightarrow>
    datetime result \<times> semantic_repo" where
  "repo_invalidate db_now r user_id fact_key tenant_id invalidated_at =
     (let tm = coalesce invalidated_at db_now
      in repo_update (\<lambda>f. f\<lparr>sm_valid_until := Some tm\<rparr>) tm r user_id fact_key tenant_id)"

definition repo_archive :: "datetime \<Rightarrow> semantic_repo \<Rightarrow> uuid \<Rightarrow> string \<Rightarrow> uuid \<Rightarrow> datetime option \<Rightarrow>
    datetime result \<times> semantic_repo" where
  "repo_archive db_now r user_id fact_key tenant_id archived_at =
     (let tm = coalesce archived_at db_now
      in repo_update (\<lambda>f. f\<lparr>sm_archived_at := Some tm\<rparr>) tm r user_id fact_key tenant_id)"

definition save_history_entry ::
  "semantic_repo \<Rightarrow> semantic_memory_history_entry \<Rightarrow> uuid \<Rightarrow> semantic_repo" where
  "save_history_entry r entry tenant_id = r\<lparr>sr_history := sr_history r @ [(tenant_id, entry)]\<rparr>"

definition find_history ::
  "semantic_repo \<Rightarrow> uuid \<Rightarrow> string \<Rightarrow> uuid \<Rightarrow> semantic_memory_history_entry list" where
  "find_history r user_id fact_key tenant_id =
     sorted_desc he_superseded_at
       (map snd (filter (\<lambda>(t, e). he_user_id e = user_id \<and> he_fact_key e = fact_key \<and> t = tenant_id)
          (sr_history r)))"

subsection \<open>QdrantSemanticMemoryIndex\<close>

record fact_point =
  pt_vector :: embedding
  pt_tenant_id :: uuid
  pt_user_id :: uuid
  pt_fact_key :: string
  pt_fact_value :: string
  pt_confidence :: pyfloat
  pt_source :: string
  pt_valid_until :: "datetime option"
  pt_valid_until_epoch :: "rat option"
  pt_archived_at :: "datetime option"
  pt_archived_at_epoch :: "rat option"

type_synonym semantic_index = "(uuid \<times> fact_point) list"

definition timestamp_of :: "datetime \<Rightarrow> rat" where
  \<comment> \<open>\<open>datetime.timestamp()\<close>: seconds since the epoch as a float\<close>
  "timestamp_of tm = fl (of_int tm / 1000000)"

definition epoch :: "datetime option \<Rightarrow> rat option" where
  "epoch v = map_option timestamp_of v"

definition make_point :: "semantic_memory \<Rightarrow> uuid \<Rightarrow> fact_point" where
  "make_point mem tenant_id =
     \<lparr>pt_vector = sm_embedding mem, pt_tenant_id = tenant_id, pt_user_id = sm_user_id mem,
      pt_fact_key = sm_fact_key mem, pt_fact_value = sm_fact_value mem,
      pt_confidence = sm_confidence mem, pt_source = sm_source mem,
      pt_valid_until = sm_valid_until mem, pt_valid_until_epoch = epoch (sm_valid_until mem),
      pt_archived_at = sm_archived_at mem, pt_archived_at_epoch = epoch (sm_archived_at mem)\<rparr>"

definition index_upsert :: "semantic_index \<Rightarrow> semantic_memory \<Rightarrow> uuid \<Rightarrow> semantic_index" where
  "index_upsert idx mem tenant_id = dict_set (sm_fact_id mem) (make_point mem tenant_id) idx"

definition set_payload ::
  "semantic_index \<Rightarrow> uuid \<Rightarrow> (fact_point \<Rightarrow> fact_point) \<Rightarrow> semantic_index result" where
  "set_payload idx fact_id merge =
     (case map_of idx fact_id of
        None \<Rightarrow> Inl (OtherException ''UnexpectedResponse 404'')
      | Some p \<Rightarrow> Inr (dict_set fact_id (merge p) idx))"

definition set_valid_until :: "semantic_index \<Rightarrow> uuid \<Rightarrow> datetime option \<Rightarrow> semantic_index result" where
  "set_valid_until idx fact_id v =
     set_payload idx fact_id (\<lambda>p. p\<lparr>pt_valid_until := v, pt_valid_until_epoch := epoch v\<rparr>)"

definition set_archived_at :: "semantic_index \<Rightarrow> uuid \<Rightarrow> datetime option \<Rightarrow> semantic_index result" where
  "set_archived_at idx fact_id v =
     set_payload idx fact_id (\<lambda>p. p\<lparr>pt_archived_at := v, pt_archived_at_epoch := epoch v\<rparr>)"

definition index_filter :: "datetime \<Rightarrow> uuid \<Rightarrow> uuid \<Rightarrow> fact_point \<Rightarrow> bool" where
  "index_filter now user_id tenant_id p \<longleftrightarrow>
     pt_user_id p = user_id \<and> pt_tenant_id p = tenant_id \<and> pt_archived_at_epoch p = None \<and>
     (case pt_valid_until_epoch p of None \<Rightarrow> True | Some e \<Rightarrow> timestamp_of now < e)"

definition point_to_fact :: "uuid \<Rightarrow> fact_point \<Rightarrow> semantic_memory" where
  "point_to_fact i p =
     \<lparr>sm_fact_id = i, sm_user_id = pt_user_id p, sm_fact_key = pt_fact_key p,
      sm_fact_value = pt_fact_value p, sm_embedding = pt_vector p, sm_confidence = pt_confidence p,
      sm_source = pt_source p, sm_valid_until = pt_valid_until p, sm_archived_at = pt_archived_at p\<rparr>"

definition index_search :: "(embedding \<Rightarrow> nat \<Rightarrow> semantic_index \<Rightarrow> ((uuid \<times> fact_point) \<times> pyfloat) list) \<Rightarrow>
    datetime \<Rightarrow> semantic_index \<Rightarrow> embedding \<Rightarrow> uuid \<Rightarrow> uuid \<Rightarrow> nat \<Rightarrow> scored_fact list" where
  "index_search knn now idx query_embedding user_id tenant_id top_k =
     map (\<lambda>((i, p), score). \<lparr>sf_fact = point_to_fact i p, sf_score = score\<rparr>)
       (knn query_embedding top_k (filter (\<lambda>(i, p). index_filter now user_id tenant_id p) idx))"

subsection \<open>The fact nodes of Neo4jMemoryGraphRepository\<close>

record fact_node =
  fn_fact_key :: string
  fn_fact_value :: string
  fn_confidence :: pyfloat
  fn_valid_until :: "datetime option"
  fn_archived_at :: "datetime option"

type_synonym fact_graph = "uuid \<times> uuid \<rightharpoonup> fact_node"

definition upsert_fact_node :: "fact_graph \<Rightarrow> semantic_memory \<Rightarrow> uuid \<Rightarrow> fact_graph" where
  "upsert_fact_node g mem tenant_id =
     g((sm_fact_id mem, tenant_id) \<mapsto>
         \<lparr>fn_fact_key = sm_fact_key mem, fn_fact_value = sm_fact_value mem,
          fn_confidence = sm_confidence mem, fn_valid_until = sm_valid_until mem,
          fn_archived_at = sm_archived_at mem\<rparr>)"

definition set_fact_valid_until :: "fact_graph \<Rightarrow> uuid \<Rightarrow> uuid \<Rightarrow> datetime option \<Rightarrow> fact_graph" where
  \<comment> \<open>\<open>MATCH .. SET\<close>: no node, no effect\<close>
  "set_fact_valid_until g fact_id tenant_id v =
     (case g (fact_id, tenant_id) of
        None \<Rightarrow> g
      | Some n \<Rightarrow> g((fact_id, tenant_id) \<mapsto> n\<lparr>fn_valid_until := v\<rparr>))"

definition set_fact_archived_at :: "fact_graph \<Rightarrow> uuid \<Rightarrow> uuid \<Rightarrow> datetime option \<Rightarrow> fact_graph" where
  "set_fact_archived_at g fact_id tenant_id v =
     (case g (fact_id, tenant_id) of
        None \<Rightarrow> g
      | Some n \<Rightarrow> g((fact_id, tenant_id) \<mapsto> n\<lparr>fn_archived_at := v\<rparr>))"

subsection \<open>The commands\<close>

record mag_store =
  ms_repo :: semantic_repo
  ms_index :: semantic_index
  ms_graph :: fact_graph

record faults =
  index_fails :: bool
  graph_fails :: bool

record mag_env =
  env_embed :: "string \<Rightarrow> embedding"
  env_uuid5 :: "string \<Rightarrow> uuid"  \<comment> \<open>\<open>uuid5\<close> in the OID namespace\<close>

definition attempt_write :: "bool \<Rightarrow> 's result \<Rightarrow> 's result" where
  \<comment> \<open>a write that the store may refuse\<close>
  "attempt_write fails w = (if fails then Inl (OtherException ''store unavailable'') else w)"

definition best_effort_write :: "'s result \<Rightarrow> 's \<Rightarrow> 's" where
  \<comment> \<open>\<open>best_effort_graph_write\<close> and \<open>best_effort_index_write\<close>: an exception is logged\<close>
  "best_effort_write w s = (case w of Inl _ \<Rightarrow> s | Inr s' \<Rightarrow> s')"

definition semantic_fact_id :: "mag_env \<Rightarrow> uuid \<Rightarrow> string \<Rightarrow> uuid" where
  "semantic_fact_id env user_id fact_key =
     env_uuid5 env (''semantic_memory:'' @ uuid_str user_id @ '':'' @ fact_key)"

definition record_semantic_fact :: "mag_env \<Rightarrow> faults \<Rightarrow> mag_store \<Rightarrow> uuid \<Rightarrow> uuid \<Rightarrow> string \<Rightarrow> string \<Rightarrow>
    pyfloat \<Rightarrow> string \<Rightarrow> datetime option \<Rightarrow> datetime option \<Rightarrow> semantic_memory result \<times> mag_store" where
  "record_semantic_fact env flt st tenant_id user_id fact_key fact_value confidence source v a =
     (let mem = \<lparr>sm_fact_id = semantic_fact_id env user_id fact_key, sm_user_id = user_id,
                  sm_fact_key = fact_key, sm_fact_value = fact_value,
                  sm_embedding = env_embed env fact_value, sm_confidence = confidence,
                  sm_source = source, sm_valid_until = v, sm_archived_at = a\<rparr>;
          st1 = st\<lparr>ms_repo := repo_save (ms_repo st) mem tenant_id\<rparr>
      in case attempt_write (index_fails flt) (Inr (index_upsert (ms_index st1) mem tenant_id)) of
           Inl e \<Rightarrow> (Inl e, st1)
         | Inr idx \<Rightarrow>
             (Inr mem,
              st1\<lparr>ms_index := idx,
                  ms_graph := best_effort_write
                    (attempt_write (graph_fails flt) (Inr (upsert_fact_node (ms_graph st1) mem tenant_id)))
                    (ms_graph st1)\<rparr>))"

definition superseded :: "uuid \<Rightarrow> datetime \<Rightarrow> string \<Rightarrow> uuid \<Rightarrow> string \<Rightarrow> semantic_memory \<Rightarrow>
    semantic_memory_history_entry" where
  \<comment> \<open>the snapshot \<open>UpdateMemory\<close> and \<open>RefineMemory\<close> take; its id is a fresh \<open>uuid4\<close>\<close>
  "superseded entry_id now operation user_id fact_key existing =
     \<lparr>he_id = entry_id, he_original_fact_id = sm_fact_id existing, he_user_id = user_id,
      he_fact_key = fact_key, he_fact_value = sm_fact_value existing,
      he_confidence = sm_confidence existing, he_source = sm_source existing,
      he_operation = operation, he_superseded_at = now\<rparr>"

definition snapshot :: "mag_store \<Rightarrow> semantic_memory_history_entry \<Rightarrow> uuid \<Rightarrow> mag_store" where
  "snapshot st entry tenant_id = st\<lparr>ms_repo := save_history_entry (ms_repo st) entry tenant_id\<rparr>"

definition update_memory :: "mag_env \<Rightarrow> faults \<Rightarrow> uuid \<Rightarrow> datetime \<Rightarrow> mag_store \<Rightarrow> uuid \<Rightarrow> uuid \<Rightarrow> string \<Rightarrow>
    string \<Rightarrow> pyfloat \<Rightarrow> string \<Rightarrow> semantic_memory result \<times> mag_store" where
  "update_memory env flt entry_id now st tenant_id user_id fact_key new_fact_value confidence source =
     (case find_by_key (ms_repo st) user_id fact_key tenant_id of
        None \<Rightarrow> (Inl (ValueError ''no existing fact to update''), st)
      | Some existing \<Rightarrow>
          record_semantic_fact env flt
            (snapshot st (superseded entry_id now ''update'' user_id fact_key existing) tenant_id)
            tenant_id user_id fact_key new_fact_value confidence source
            (sm_valid_until existing) (sm_archived_at existing))"

definition invalidate_memory :: "faults \<Rightarrow> datetime \<Rightarrow> mag_store \<Rightarrow> uuid \<Rightarrow> uuid \<Rightarrow> string \<Rightarrow>
    datetime option \<Rightarrow> semantic_memory result \<times> mag_store" where
  "invalidate_memory flt db_now st tenant_id user_id fact_key invalidated_at =
     (case find_by_key (ms_repo st) user_id fact_key tenant_id of
        None \<Rightarrow> (Inl (ValueError ''no existing fact to invalidate''), st)
      | Some existing \<Rightarrow>
          (case repo_invalidate db_now (ms_repo st) user_id fact_key tenant_id invalidated_at of
             (Inl e, r) \<Rightarrow> (Inl e, st\<lparr>ms_repo := r\<rparr>)
           | (Inr tm, r) \<Rightarrow>
               (Inr (existing\<lparr>sm_valid_until := Some tm\<rparr>),
                st\<lparr>ms_repo := r,
                   ms_index := best_effort_write
                     (attempt_write (index_fails flt) (set_valid_until (ms_index st) (sm_fact_id existing) (Some tm)))
                     (ms_index st),
                   ms_graph := best_effort_write
                     (attempt_write (graph_fails flt)
                        (Inr (set_fact_valid_until (ms_graph st) (sm_fact_id existing) tenant_id (Some tm))))
                     (ms_graph st)\<rparr>)))"

definition archive_memory :: "faults \<Rightarrow> datetime \<Rightarrow> mag_store \<Rightarrow> uuid \<Rightarrow> uuid \<Rightarrow> string \<Rightarrow>
    datetime option \<Rightarrow> semantic_memory result \<times> mag_store" where
  "archive_memory flt db_now st tenant_id user_id fact_key archived_at =
     (case find_by_key (ms_repo st) user_id fact_key tenant_id of
        None \<Rightarrow> (Inl (ValueError ''no existing fact to archive''), st)
      | Some existing \<Rightarrow>
          (case repo_archive db_now (ms_repo st) user_id fact_key tenant_id archived_at of
             (Inl e, r) \<Rightarrow> (Inl e, st\<lparr>ms_repo := r\<rparr>)
           | (Inr tm, r) \<Rightarrow>
               (Inr (existing\<lparr>sm_archived_at := Some tm\<rparr>),
                st\<lparr>ms_repo := r,
                   ms_index := best_effort_write
                     (attempt_write (index_fails flt) (set_archived_at (ms_index st) (sm_fact_id existing) (Some tm)))
                     (ms_index st),
                   ms_graph := best_effort_write
                     (attempt_write (graph_fails flt)
                        (Inr (set_fact_archived_at (ms_graph st) (sm_fact_id existing) tenant_id (Some tm))))
                     (ms_graph st)\<rparr>)))"

definition MAX_REFINE_ATTEMPTS :: nat where
  "MAX_REFINE_ATTEMPTS = 3"

definition fact_prompt :: "string \<Rightarrow> string \<Rightarrow> string \<Rightarrow> string" where
  \<comment> \<open>the prompt of \<open>_merge\<close> and of \<open>ClassifyFactEvolution\<close>, given their system prompt\<close>
  "fact_prompt system existing_fact_value new_information =
     system @ [CHR 0x0A, CHR 0x0A] @ ''Existing fact: '' @ existing_fact_value @
     [CHR 0x0A, CHR 0x0A] @ ''New information: '' @ new_information"

definition parse_merged :: "(string \<Rightarrow> json option) \<Rightarrow> string \<Rightarrow> string option" where
  "parse_merged json_loads response =
     (case json_loads (strip_markdown_fence response) of
        Some (JObj parsed) \<Rightarrow>
          (case map_of parsed ''merged_fact_value'' of
             Some (JStr merged) \<Rightarrow> if py_strip merged = [] then None else Some merged
           | _ \<Rightarrow> None)
      | _ \<Rightarrow> None)"

record llm =
  llm_chat :: "nat \<Rightarrow> string \<Rightarrow> string"
  llm_json :: "string \<Rightarrow> json option"
  llm_refine_system :: string
  llm_evolution_system :: string

definition merge_values :: "llm \<Rightarrow> nat \<Rightarrow> string \<Rightarrow> string \<Rightarrow> string \<times> nat" where
  "merge_values m n existing_fact_value new_information =
     (let prompt = fact_prompt (llm_refine_system m) existing_fact_value new_information in
      case retry MAX_REFINE_ATTEMPTS (\<lambda>i. llm_chat m i prompt) (parse_merged (llm_json m)) n of
        (Some merged, n') \<Rightarrow> (merged, n')
      | (None, n') \<Rightarrow> (existing_fact_value @ ''; '' @ new_information, n'))"

definition refine_memory :: "mag_env \<Rightarrow> faults \<Rightarrow> llm \<Rightarrow> nat \<Rightarrow> uuid \<Rightarrow> datetime \<Rightarrow> mag_store \<Rightarrow> uuid \<Rightarrow> uuid \<Rightarrow>
    string \<Rightarrow> string \<Rightarrow> semantic_memory result \<times> mag_store" where
  "refine_memory env flt m n entry_id now st tenant_id user_id fact_key new_information =
     (case find_by_key (ms_repo st) user_id fact_key tenant_id of
        None \<Rightarrow> (Inl (ValueError ''no existing fact to refine''), st)
      | Some existing \<Rightarrow>
          record_semantic_fact env flt
            (snapshot st (superseded entry_id now ''refine'' user_id fact_key existing) tenant_id)
            tenant_id user_id fact_key (fst (merge_values m n (sm_fact_value existing) new_information))
            (sm_confidence existing) (sm_source existing) (sm_valid_until existing) (sm_archived_at existing))"

definition MAX_CLASSIFICATION_ATTEMPTS :: nat where
  "MAX_CLASSIFICATION_ATTEMPTS = 3"

definition VALID_OPERATIONS :: "string list" where
  "VALID_OPERATIONS = [''update'', ''invalidate'', ''refine'', ''no_conflict'']"

definition parse_classification :: "(string \<Rightarrow> json option) \<Rightarrow> string \<Rightarrow> fact_evolution_classification option" where
  "parse_classification json_loads response =
     (case json_loads (strip_markdown_fence response) of
        Some (JObj parsed) \<Rightarrow>
          (case map_of parsed ''operation'' of
             Some (JStr operation) \<Rightarrow>
               if operation \<in> set VALID_OPERATIONS
               then (case map_of parsed ''reasoning'' of
                       None \<Rightarrow> Some \<lparr>ec_operation = operation, ec_reasoning = []\<rparr>
                     | Some (JStr reasoning) \<Rightarrow> Some \<lparr>ec_operation = operation, ec_reasoning = reasoning\<rparr>
                     | Some _ \<Rightarrow> None)
               else None
           | _ \<Rightarrow> None)
      | _ \<Rightarrow> None)"

definition classify_fact_evolution :: "llm \<Rightarrow> nat \<Rightarrow> mag_store \<Rightarrow> uuid \<Rightarrow> uuid \<Rightarrow> string \<Rightarrow> string \<Rightarrow>
    fact_evolution_classification result \<times> nat" where
  "classify_fact_evolution m n st tenant_id user_id fact_key new_information =
     (case find_by_key (ms_repo st) user_id fact_key tenant_id of
        None \<Rightarrow> (Inl (ValueError ''no existing fact to classify against''), n)
      | Some existing \<Rightarrow>
          (let prompt = fact_prompt (llm_evolution_system m) (sm_fact_value existing) new_information in
           case retry MAX_CLASSIFICATION_ATTEMPTS (\<lambda>i. llm_chat m i prompt) (parse_classification (llm_json m)) n of
             (Some c, n') \<Rightarrow> (Inr c, n')
           | (None, n') \<Rightarrow>
               (Inr \<lparr>ec_operation = ''no_conflict'',
                     ec_reasoning = ''classification failed after retries; defaulting to no-op''\<rparr>, n')))"

definition evolve_memory :: "mag_env \<Rightarrow> faults \<Rightarrow> llm \<Rightarrow> nat \<Rightarrow> uuid \<Rightarrow> datetime \<Rightarrow> datetime \<Rightarrow> mag_store \<Rightarrow> uuid \<Rightarrow>
    uuid \<Rightarrow> string \<Rightarrow> string \<Rightarrow> (fact_evolution_classification \<times> semantic_memory option) result \<times> mag_store" where
  "evolve_memory env flt m n entry_id now db_now st tenant_id user_id fact_key new_information =
     (case classify_fact_evolution m n st tenant_id user_id fact_key new_information of
        (Inl e, _) \<Rightarrow> (Inl e, st)
      | (Inr c, n') \<Rightarrow>
          (let done = (\<lambda>(r, st'). (case r of Inl e \<Rightarrow> Inl e | Inr f \<Rightarrow> Inr (c, Some f), st'))
           in if ec_operation c = ''update''
              then done (update_memory env flt entry_id now st tenant_id user_id fact_key new_information (Fin 1) [])
              else if ec_operation c = ''refine''
              then done (refine_memory env flt m n' entry_id now st tenant_id user_id fact_key new_information)
              else if ec_operation c = ''invalidate''
              then done (invalidate_memory flt db_now st tenant_id user_id fact_key None)
              else (Inr (c, None), st)))"

subsection \<open>What each command does to its slot\<close>

lemmas write_defs = attempt_write_def best_effort_write_def

lemma repo_row_Some: "repo_row r u k t = Some row \<longleftrightarrow> map_of (sr_facts r) (u, k) = Some row \<and> fr_tenant row = t"
  by (auto simp: repo_row_def split: option.splits)

lemma find_by_key_Some:
  "find_by_key r u k t = Some f \<longleftrightarrow> (\<exists>row. map_of (sr_facts r) (u, k) = Some row \<and> fr_tenant row = t \<and> f = row_to_fact row)"
  by (auto simp: find_by_key_def repo_row_Some)

lemma record_result:
  assumes "\<not> index_fails flt"
  shows "\<exists>mem. fst (record_semantic_fact env flt st t u k val conf src v a) = Inr mem \<and>
      mem = \<lparr>sm_fact_id = semantic_fact_id env u k, sm_user_id = u, sm_fact_key = k, sm_fact_value = val,
             sm_embedding = env_embed env val, sm_confidence = conf, sm_source = src, sm_valid_until = v,
             sm_archived_at = a\<rparr> \<and>
      ms_repo (snd (record_semantic_fact env flt st t u k val conf src v a)) = repo_save (ms_repo st) mem t \<and>
      ms_index (snd (record_semantic_fact env flt st t u k val conf src v a)) = index_upsert (ms_index st) mem t"
  using assms by (simp add: record_semantic_fact_def write_defs Let_def)

lemma record_repo:
  "ms_repo (snd (record_semantic_fact env flt st t u k val conf src v a)) =
     repo_save (ms_repo st) \<lparr>sm_fact_id = semantic_fact_id env u k, sm_user_id = u, sm_fact_key = k, sm_fact_value = val,
             sm_embedding = env_embed env val, sm_confidence = conf, sm_source = src, sm_valid_until = v,
             sm_archived_at = a\<rparr> t"
  by (simp add: record_semantic_fact_def write_defs Let_def)

lemma map_of_repo_save:
  "map_of (sr_facts (repo_save r mem t)) = (map_of (sr_facts r))((sm_user_id mem, sm_fact_key mem) \<mapsto>
     \<lparr>fr_tenant = (case map_of (sr_facts r) (sm_user_id mem, sm_fact_key mem) of None \<Rightarrow> t | Some old \<Rightarrow> fr_tenant old),
      fr_fact = mem\<rparr>)"
  by (auto simp: repo_save_def Let_def fun_eq_iff split: option.split)

lemma repo_save_history [simp]: "sr_history (repo_save r mem t) = sr_history r"
  by (simp add: repo_save_def Let_def)

text \<open>Update and refine are one operation: snapshot, then record with the status carried over.\<close>

definition supersede :: "mag_env \<Rightarrow> faults \<Rightarrow> semantic_memory_history_entry \<Rightarrow> mag_store \<Rightarrow> uuid \<Rightarrow> uuid \<Rightarrow> string \<Rightarrow>
    string \<Rightarrow> pyfloat \<Rightarrow> string \<Rightarrow> semantic_memory \<Rightarrow> semantic_memory result \<times> mag_store" where
  "supersede env flt entry st t u k val conf src existing =
     record_semantic_fact env flt (snapshot st entry t) t u k val conf src (sm_valid_until existing) (sm_archived_at existing)"

lemma update_is_supersede:
  "find_by_key (ms_repo st) u k t = Some f \<Longrightarrow> update_memory env flt i now st t u k val conf src =
     supersede env flt (superseded i now ''update'' u k f) st t u k val conf src f"
  by (simp add: update_memory_def supersede_def)

lemma refine_is_supersede:
  "find_by_key (ms_repo st) u k t = Some f \<Longrightarrow> refine_memory env flt m n i now st t u k info =
     supersede env flt (superseded i now ''refine'' u k f) st t u k (fst (merge_values m n (sm_fact_value f) info))
       (sm_confidence f) (sm_source f) f"
  by (simp add: refine_memory_def supersede_def)

lemma supersede_slot:
  assumes "find_by_key (ms_repo st) u k t = Some f"
  shows "find_by_key (ms_repo (snd (supersede env flt entry st t u k val conf src f))) u k t =
      Some \<lparr>sm_fact_id = semantic_fact_id env u k, sm_user_id = u, sm_fact_key = k, sm_fact_value = val,
            sm_embedding = [], sm_confidence = conf, sm_source = src, sm_valid_until = sm_valid_until f,
            sm_archived_at = sm_archived_at f\<rparr>"
  using assms
  by (auto simp: supersede_def record_repo find_by_key_Some map_of_repo_save snapshot_def save_history_entry_def row_to_fact_def)

lemma supersede_frame:
  "(u', k') \<noteq> (u, k) \<Longrightarrow> find_by_key (ms_repo (snd (supersede env flt entry st t u k val conf src f))) u' k' t' =
     find_by_key (ms_repo st) u' k' t'"
  by (auto simp: supersede_def record_repo find_by_key_def repo_row_def map_of_repo_save snapshot_def save_history_entry_def)

lemma supersede_history:
  "sr_history (ms_repo (snd (supersede env flt entry st t u k val conf src f))) = sr_history (ms_repo st) @ [(t, entry)]"
  by (simp add: supersede_def record_repo snapshot_def save_history_entry_def)

lemma find_history_append:
  "mset (find_history (r\<lparr>sr_history := sr_history r @ [(t, e)]\<rparr>) u k t) =
     mset (find_history r u k t) + (if he_user_id e = u \<and> he_fact_key e = k then {#e#} else {#})"
  by (simp add: find_history_def)

lemma find_history_cong: "sr_history r = sr_history r' \<Longrightarrow> find_history r u k t = find_history r' u k t"
  by (simp add: find_history_def)

lemma supersede_find_history:
  assumes "he_user_id entry = u" "he_fact_key entry = k"
  shows "mset (find_history (ms_repo (snd (supersede env flt entry st t u k val conf src f))) u k t) =
     mset (find_history (ms_repo st) u k t) + {#entry#}"
proof -
  have "find_history (ms_repo (snd (supersede env flt entry st t u k val conf src f))) u k t =
      find_history ((ms_repo st)\<lparr>sr_history := sr_history (ms_repo st) @ [(t, entry)]\<rparr>) u k t"
    by (rule find_history_cong) (simp add: supersede_history)
  then show ?thesis using find_history_append [of "ms_repo st" t entry u k] assms by simp
qed

lemma superseded_sel [simp]:
  "he_user_id (superseded i now op u k f) = u" "he_fact_key (superseded i now op u k f) = k"
  "he_fact_value (superseded i now op u k f) = sm_fact_value f"
  by (simp_all add: superseded_def)

text \<open>
  Correcting or refining a fact overwrites its value and loses nothing. For an existing
  fact, \<^verbatim>\<open>UpdateMemory\<close> and \<^verbatim>\<open>RefineMemory\<close> leave the new value under the key with the
  validity and archive status unchanged, add to the history of the key exactly one entry, the
  old value, and touch no other key. This holds also when the write to the vector index
  or to the graph fails.
\<close>

theorem update_and_refine_supersede:
  assumes "find_by_key (ms_repo st) u k t = Some f"
  shows "let up = ms_repo (snd (update_memory env flt i now st t u k val conf src));
             ref = ms_repo (snd (refine_memory env flt m n i now st t u k info));
             id = semantic_fact_id env u k
    in find_by_key up u k t = Some (f\<lparr>sm_fact_id := id, sm_user_id := u, sm_fact_key := k,
         sm_fact_value := val, sm_confidence := conf, sm_source := src\<rparr>) \<and>
       find_by_key ref u k t = Some (f\<lparr>sm_fact_id := id, sm_user_id := u, sm_fact_key := k,
         sm_fact_value := fst (merge_values m n (sm_fact_value f) info)\<rparr>) \<and>
       mset (find_history up u k t) =
         mset (find_history (ms_repo st) u k t) + {#superseded i now ''update'' u k f#} \<and>
       mset (find_history ref u k t) =
         mset (find_history (ms_repo st) u k t) + {#superseded i now ''refine'' u k f#} \<and>
       (\<forall>u' k' t'. (u', k') = (u, k) \<or>
          find_by_key up u' k' t' = find_by_key (ms_repo st) u' k' t' \<and>
          find_by_key ref u' k' t' = find_by_key (ms_repo st) u' k' t')"
proof -
  have e: "sm_embedding f = []" using assms by (auto simp: find_by_key_Some row_to_fact_def)
  have h: "mset (find_history (ms_repo (snd (supersede env flt (superseded i now op u k f) st t u k x y z f))) u k t) =
      mset (find_history (ms_repo st) u k t) + {#superseded i now op u k f#}" for op x y z
    by (rule supersede_find_history) simp_all
  show ?thesis
    unfolding Let_def update_is_supersede [OF assms] refine_is_supersede [OF assms]
    using e by (simp add: supersede_slot [OF assms] h supersede_frame) (meson supersede_frame prod.inject)
qed

text \<open>A concrete environment and store, for the examples.\<close>

definition ex_env :: mag_env where
  "ex_env = \<lparr>env_embed = (\<lambda>s. [of_nat (length s)]), env_uuid5 = (\<lambda>_. 22)\<rparr>"

definition ex_llm :: llm where
  "ex_llm = \<lparr>llm_chat = (\<lambda>n p. ''update''), llm_json = (\<lambda>s. Some (JObj [(''operation'', JStr s)])),
             llm_refine_system = [], llm_evolution_system = []\<rparr>"

definition no_faults :: faults where
  "no_faults = \<lparr>index_fails = False, graph_fails = False\<rparr>"

definition empty_store :: mag_store where
  "empty_store = \<lparr>ms_repo = \<lparr>sr_facts = [], sr_history = []\<rparr>, ms_index = [], ms_graph = Map.empty\<rparr>"

definition ex_store :: mag_store where
  "ex_store = snd (record_semantic_fact ex_env no_faults empty_store 9 1 ''city'' ''Oslo'' (Fin 1) [] None (Some 5))"

lemmas ex_defs = ex_env_def ex_llm_def no_faults_def empty_store_def ex_store_def

lemma ex_store_city:
  "find_by_key (ms_repo ex_store) 1 ''city'' 9 = Some \<lparr>sm_fact_id = 22, sm_user_id = 1, sm_fact_key = ''city'',
     sm_fact_value = ''Oslo'', sm_embedding = [], sm_confidence = Fin 1, sm_source = [], sm_valid_until = None,
     sm_archived_at = Some 5\<rparr>"
  by (simp add: ex_defs record_repo find_by_key_def repo_row_def map_of_repo_save row_to_fact_def semantic_fact_id_def)

theorem update_and_refine_supersede_witness:
  "let up = ms_repo (snd (update_memory ex_env no_faults 7 10 ex_store 9 1 ''city'' ''Rome'' (Fin 1) []))
   in map_option sm_fact_value (find_by_key up 1 ''city'' 9) = Some ''Rome'' \<and>
      map_option sm_archived_at (find_by_key up 1 ''city'' 9) = Some (Some 5) \<and>
      image_mset he_fact_value (mset (find_history up 1 ''city'' 9)) = {#''Oslo''#}"
proof -
  have "find_history (ms_repo ex_store) 1 ''city'' 9 = []"
    by (simp add: find_history_def ex_defs record_repo sorted_desc_def)
  with update_and_refine_supersede [OF ex_store_city, of ex_env no_faults 7 10 "''Rome''" "Fin 1" "[]" ex_llm 0 "[]"]
  show ?thesis unfolding Let_def by simp
qed

subsection \<open>Evolution driven by the language model\<close>

lemma classify_valid:
  "fst (classify_fact_evolution m n st t u k info) = Inr c \<Longrightarrow> ec_operation c \<in> set VALID_OPERATIONS"
proof -
  have p: "parse_classification loads r = Some c \<Longrightarrow> ec_operation c \<in> set VALID_OPERATIONS" for loads r
    by (auto simp: parse_classification_def split: option.splits json.splits if_splits)
  assume "fst (classify_fact_evolution m n st t u k info) = Inr c"
  then show ?thesis
    by (auto simp: classify_fact_evolution_def Let_def VALID_OPERATIONS_def [symmetric]
        split: option.splits prod.splits dest!: retry_Some p) (simp add: VALID_OPERATIONS_def)
qed

lemma classify_existing:
  assumes "find_by_key (ms_repo st) u k t = Some f"
  obtains c n' where "classify_fact_evolution m n st t u k info = (Inr c, n')"
    and "(\<forall>j p. parse_classification (llm_json m) (llm_chat m j p) = None) \<Longrightarrow> ec_operation c = ''no_conflict''"
proof -
  obtain r n' where r: "retry MAX_CLASSIFICATION_ATTEMPTS
      (\<lambda>j. llm_chat m j (fact_prompt (llm_evolution_system m) (sm_fact_value f) info))
      (parse_classification (llm_json m)) n = (r, n')" by fastforce
  show thesis
  proof (cases r)
    case None
    show thesis by (rule that, simp add: classify_fact_evolution_def assms Let_def r None, simp)
  next
    case (Some c)
    have "\<exists>j. parse_classification (llm_json m)
        (llm_chat m j (fact_prompt (llm_evolution_system m) (sm_fact_value f) info)) = Some c"
      using retry_Some [OF r [unfolded Some]] by blast
    then show thesis
      by (intro that [of c n']) (auto simp: classify_fact_evolution_def assms Let_def r Some)
  qed
qed

lemma status_repo:
  assumes "map_of (sr_facts (ms_repo st)) (u, k) = Some row" "fr_tenant row = t"
  shows "ms_repo (snd (invalidate_memory flt db_now st t u k w)) = (ms_repo st)\<lparr>sr_facts := dict_set (u, k)
      (row\<lparr>fr_fact := (fr_fact row)\<lparr>sm_valid_until := Some (coalesce w db_now)\<rparr>\<rparr>) (sr_facts (ms_repo st))\<rparr>"
    and "ms_repo (snd (archive_memory flt db_now st t u k w)) = (ms_repo st)\<lparr>sr_facts := dict_set (u, k)
      (row\<lparr>fr_fact := (fr_fact row)\<lparr>sm_archived_at := Some (coalesce w db_now)\<rparr>\<rparr>) (sr_facts (ms_repo st))\<rparr>"
  using assms by (simp_all add: invalidate_memory_def archive_memory_def find_by_key_def repo_row_def
      repo_invalidate_def repo_archive_def repo_update_def Let_def)

lemma invalidate_slot:
  assumes "find_by_key (ms_repo st) u k t = Some f"
  shows "find_by_key (ms_repo (snd (invalidate_memory flt db_now st t u k w))) u k t =
      Some (f\<lparr>sm_valid_until := Some (coalesce w db_now)\<rparr>)"
    and "sr_history (ms_repo (snd (invalidate_memory flt db_now st t u k w))) = sr_history (ms_repo st)"
    and "(u', k') \<noteq> (u, k) \<Longrightarrow> find_by_key (ms_repo (snd (invalidate_memory flt db_now st t u k w))) u' k' t' =
      find_by_key (ms_repo st) u' k' t'"
proof -
  obtain row where row: "map_of (sr_facts (ms_repo st)) (u, k) = Some row" "fr_tenant row = t" "f = row_to_fact row"
    using assms by (auto simp: find_by_key_Some)
  note r = status_repo(1) [OF row(1,2)]
  show "find_by_key (ms_repo (snd (invalidate_memory flt db_now st t u k w))) u k t =
      Some (f\<lparr>sm_valid_until := Some (coalesce w db_now)\<rparr>)"
    "sr_history (ms_repo (snd (invalidate_memory flt db_now st t u k w))) = sr_history (ms_repo st)"
    "(u', k') \<noteq> (u, k) \<Longrightarrow> find_by_key (ms_repo (snd (invalidate_memory flt db_now st t u k w))) u' k' t' =
      find_by_key (ms_repo st) u' k' t'"
    unfolding r using row by (auto simp: find_by_key_def repo_row_def row_to_fact_def)
qed

lemma supersede_keeps:
  assumes "find_by_key (ms_repo st) u k t = Some f"
  defines "r \<equiv> \<lambda>env flt i now op val conf src.
      ms_repo (snd (supersede env flt (superseded i now op u k f) st t u k val conf src f))"
  shows "\<exists>f'. find_by_key (r env flt i now op val conf src) u k t = Some f' \<and>
      (sm_fact_value f' = sm_fact_value f \<or>
       sm_fact_value f \<in> he_fact_value ` set (find_history (r env flt i now op val conf src) u k t)) \<and>
      sm_archived_at f' = sm_archived_at f \<and> sm_valid_until f' = sm_valid_until f \<and>
      (\<forall>u' k' t'. (u', k') = (u, k) \<or>
         find_by_key (r env flt i now op val conf src) u' k' t' = find_by_key (ms_repo st) u' k' t')"
proof -
  have "superseded i now op u k f \<in># mset (find_history (r env flt i now op val conf src) u k t)"
    unfolding r_def by (subst supersede_find_history) simp_all
  then have h: "sm_fact_value f \<in> he_fact_value ` set (find_history (r env flt i now op val conf src) u k t)"
    by (force simp only: set_mset_mset superseded_sel image_iff)
  have fr: "\<forall>u' k' t'. (u', k') = (u, k) \<or>
      find_by_key (r env flt i now op val conf src) u' k' t' = find_by_key (ms_repo st) u' k' t'"
    unfolding r_def using supersede_frame by blast
  show ?thesis
    using h fr supersede_slot [OF assms(1), of env flt "superseded i now op u k f" val conf src]
    unfolding r_def by (intro exI [of _ "_ :: semantic_memory"] conjI) (assumption | simp)+
qed

text \<open>
  C12. No reply of the language model can destroy a fact. Whatever the model answers, and
  whether or not it parses, \<^verbatim>\<open>EvolveMemory\<close> on an existing fact raises nothing as long as the
  vector index accepts writes; afterwards the old value is still the value under the key or
  is in its history, the archive status is as before, the validity changes only if the
  operation was an invalidation, no other key changes, and when no reply parses the stores
  are exactly as before.
\<close>

theorem evolve_loses_nothing:
  assumes "find_by_key (ms_repo st) u k t = Some f" and "\<not> index_fails flt"
  shows "\<exists>c r f'. fst (evolve_memory env flt m n i now db_now st t u k info) = Inr (c, r) \<and>
    find_by_key (ms_repo (snd (evolve_memory env flt m n i now db_now st t u k info))) u k t = Some f' \<and>
    (sm_fact_value f' = sm_fact_value f \<or>
     sm_fact_value f \<in> he_fact_value ` set (find_history (ms_repo (snd (evolve_memory env flt m n i now db_now st t u k info))) u k t)) \<and>
    sm_archived_at f' = sm_archived_at f \<and>
    (ec_operation c = ''invalidate'' \<or> sm_valid_until f' = sm_valid_until f) \<and>
    (\<forall>u' k' t'. (u', k') = (u, k) \<or>
       find_by_key (ms_repo (snd (evolve_memory env flt m n i now db_now st t u k info))) u' k' t' =
       find_by_key (ms_repo st) u' k' t') \<and>
    ((\<exists>j p. parse_classification (llm_json m) (llm_chat m j p) \<noteq> None) \<or>
     r = None \<and> snd (evolve_memory env flt m n i now db_now st t u k info) = st)"
proof -
  obtain c n' where c: "classify_fact_evolution m n st t u k info = (Inr c, n')"
    and parsed: "(\<forall>j p. parse_classification (llm_json m) (llm_chat m j p) = None) \<Longrightarrow> ec_operation c = ''no_conflict''"
    using classify_existing [OF assms(1)] by blast
  have ok: "\<exists>g. fst (supersede env flt e st t u k x y z f) = Inr g" for e x y z
    unfolding supersede_def using record_result [OF assms(2)] by blast
  consider "ec_operation c = ''update''" | "ec_operation c = ''refine''" | "ec_operation c = ''invalidate''"
    | "ec_operation c = ''no_conflict''"
    using classify_valid [of m n st t u k info c] c by (auto simp: VALID_OPERATIONS_def)
  then show ?thesis
  proof cases
    case 1
    let ?s = "supersede env flt (superseded i now ''update'' u k f) st t u k info (Fin 1) [] f"
    obtain g where g: "fst ?s = Inr g" using ok by blast
    have e: "evolve_memory env flt m n i now db_now st t u k info = (Inr (c, Some g), snd ?s)"
      using 1 c g by (simp add: evolve_memory_def update_is_supersede [OF assms(1)] case_prod_unfold)
    show ?thesis unfolding e fst_conv snd_conv using 1 parsed
      supersede_keeps [OF assms(1), of env flt i now "''update''" info "Fin 1" "[]"] by fastforce
  next
    case 2
    let ?s = "supersede env flt (superseded i now ''refine'' u k f) st t u k
      (fst (merge_values m n' (sm_fact_value f) info)) (sm_confidence f) (sm_source f) f"
    obtain g where g: "fst ?s = Inr g" using ok by blast
    have e: "evolve_memory env flt m n i now db_now st t u k info = (Inr (c, Some g), snd ?s)"
      using 2 c g by (simp add: evolve_memory_def refine_is_supersede [OF assms(1)] case_prod_unfold)
    show ?thesis unfolding e fst_conv snd_conv using 2 parsed
      supersede_keeps [OF assms(1), of env flt i now "''refine''" "fst (merge_values m n' (sm_fact_value f) info)"
        "sm_confidence f" "sm_source f"] by fastforce
  next
    case 3
    let ?s = "invalidate_memory flt db_now st t u k None"
    obtain g where g: "fst ?s = Inr g"
      using assms(1) by (auto simp: invalidate_memory_def repo_invalidate_def repo_update_def find_by_key_def Let_def)
    have e: "evolve_memory env flt m n i now db_now st t u k info = (Inr (c, Some g), snd ?s)"
      using 3 c g by (simp add: evolve_memory_def case_prod_unfold)
    show ?thesis unfolding e fst_conv snd_conv using 3 parsed invalidate_slot [OF assms(1), where flt = flt and db_now = db_now and w = None]
      by fastforce
  next
    case 4
    have e: "evolve_memory env flt m n i now db_now st t u k info = (Inr (c, None), st)"
      using 4 c by (simp add: evolve_memory_def)
    show ?thesis unfolding e using assms(1) by auto
  qed
qed

theorem evolve_loses_nothing_witness:
  "\<exists>f'. find_by_key (ms_repo (snd (evolve_memory ex_env no_faults ex_llm 0 7 10 10 ex_store 9 1 ''city'' ''Rome''))) 1 ''city'' 9
      = Some f' \<and> sm_archived_at f' = Some 5"
  using evolve_loses_nothing [OF ex_store_city, of no_faults ex_env ex_llm 0 7 10 10 "''Rome''"]
  by (auto simp: no_faults_def)

subsection \<open>The index agrees with the database\<close>

text \<open>The float mirror of a timestamp orders as the timestamp does, for dates up to the year 2112.\<close>

lemma timestamp_of_error:
  assumes "\<bar>z\<bar> < 2 ^ 52"
  shows "\<bar>timestamp_of z - of_int z / 1000000\<bar> < 1 / 2000000"
proof -
  have z: "(of_int \<bar>z\<bar> :: rat) < of_int (2 ^ 52)" using assms by (simp only: of_int_less_iff)
  have "\<bar>timestamp_of z - of_int z / 1000000\<bar> \<le> \<bar>of_int z / 1000000\<bar> / 2 ^ 53"
    unfolding timestamp_of_def by (rule double.rnd_error)
  also have "\<dots> = of_int \<bar>z\<bar> / (1000000 * 2 ^ 53)" by (simp add: abs_divide)
  also have "\<dots> < of_int (2 ^ 52) / (1000000 * 2 ^ 53)" using z by (intro divide_strict_right_mono) auto
  finally show ?thesis by simp
qed

lemma timestamp_of_mono:
  assumes "x < y" "\<bar>x\<bar> < 2 ^ 52" "\<bar>y\<bar> < 2 ^ 52"
  shows "timestamp_of x < timestamp_of y"
proof -
  have "(of_int (x + 1) :: rat) \<le> of_int y" using assms(1) by (simp only: of_int_le_iff)
  then have "of_int x / 1000000 + 1 / 1000000 \<le> (of_int y / 1000000 :: rat)" by (simp add: field_simps)
  with timestamp_of_error [OF assms(2)] timestamp_of_error [OF assms(3)] show ?thesis
    unfolding abs_less_iff by linarith
qed

lemma timestamp_of_less:
  assumes "\<bar>a\<bar> < 2 ^ 52" "\<bar>b\<bar> < 2 ^ 52"
  shows "timestamp_of a < timestamp_of b \<longleftrightarrow> a < b"
  using timestamp_of_mono [of a b] timestamp_of_mono [of b a] assms by (cases a b rule: linorder_cases) auto

datatype mag_call =
    Record uuid uuid string string pyfloat string "datetime option" "datetime option"
  | Update uuid datetime uuid uuid string string pyfloat string
  | Refine nat uuid datetime uuid uuid string string
  | Invalidate datetime uuid uuid string "datetime option"
  | Archive datetime uuid uuid string "datetime option"
  | Evolve nat uuid datetime datetime uuid uuid string string

fun mag_step :: "mag_env \<Rightarrow> llm \<Rightarrow> faults \<times> mag_call \<Rightarrow> mag_store \<Rightarrow> mag_store" where
  "mag_step env m (flt, Record t u k val conf src v a) st = snd (record_semantic_fact env flt st t u k val conf src v a)"
| "mag_step env m (flt, Update i now t u k val conf src) st = snd (update_memory env flt i now st t u k val conf src)"
| "mag_step env m (flt, Refine n i now t u k info) st = snd (refine_memory env flt m n i now st t u k info)"
| "mag_step env m (flt, Invalidate db_now t u k w) st = snd (invalidate_memory flt db_now st t u k w)"
| "mag_step env m (flt, Archive db_now t u k w) st = snd (archive_memory flt db_now st t u k w)"
| "mag_step env m (flt, Evolve n i now db_now t u k info) st = snd (evolve_memory env flt m n i now db_now st t u k info)"

fun call_slot :: "mag_call \<Rightarrow> slot" where
  "call_slot (Record t u k val conf src v a) = (u, k)"
| "call_slot (Update i now t u k val conf src) = (u, k)"
| "call_slot (Refine n i now t u k info) = (u, k)"
| "call_slot (Invalidate db_now t u k w) = (u, k)"
| "call_slot (Archive db_now t u k w) = (u, k)"
| "call_slot (Evolve n i now db_now t u k info) = (u, k)"

fun call_tenant :: "mag_call \<Rightarrow> uuid" where
  "call_tenant (Record t u k val conf src v a) = t"
| "call_tenant (Update i now t u k val conf src) = t"
| "call_tenant (Refine n i now t u k info) = t"
| "call_tenant (Invalidate db_now t u k w) = t"
| "call_tenant (Archive db_now t u k w) = t"
| "call_tenant (Evolve n i now db_now t u k info) = t"

fun rewrites_point :: "mag_call \<Rightarrow> bool" where
  \<comment> \<open>the commands that write the whole point of a fact\<close>
  "rewrites_point (Record t u k val conf src v a) = True"
| "rewrites_point (Update i now t u k val conf src) = True"
| "rewrites_point (Refine n i now t u k info) = True"
| "rewrites_point _ = False"

definition stale_step :: "faults \<times> mag_call \<Rightarrow> slot set \<Rightarrow> slot set" where
  \<comment> \<open>the slots of which the index missed a write, that no later command has written in full\<close>
  "stale_step fc D =
     (if index_fails (fst fc) then insert (call_slot (snd fc)) D
      else if rewrites_point (snd fc) then D - {call_slot (snd fc)} else D)"

definition stale_slots :: "(faults \<times> mag_call) list \<Rightarrow> slot set" where
  "stale_slots calls = fold stale_step calls {}"

definition agree :: "mag_env \<Rightarrow> slot set \<Rightarrow> (uuid \<Rightarrow> uuid) \<Rightarrow> slot set \<Rightarrow> mag_store \<Rightarrow> bool" where
  "agree env S owner D st \<longleftrightarrow> distinct (map fst (ms_index st)) \<and>
     (\<forall>u k row. map_of (sr_facts (ms_repo st)) (u, k) = Some row \<longrightarrow>
        (u, k) \<in> S \<and> fr_tenant row = owner u \<and> sm_user_id (fr_fact row) = u \<and> sm_fact_key (fr_fact row) = k \<and>
        sm_fact_id (fr_fact row) = semantic_fact_id env u k \<and>
        ((u, k) \<notin> D \<longrightarrow> map_of (ms_index st) (semantic_fact_id env u k) = Some (make_point (fr_fact row) (fr_tenant row)))) \<and>
     (\<forall>i p. map_of (ms_index st) i = Some p \<longrightarrow>
        (\<exists>row. map_of (sr_facts (ms_repo st)) (pt_user_id p, pt_fact_key p) = Some row \<and> i = semantic_fact_id env (pt_user_id p) (pt_fact_key p)))"

lemma agree_rows:
  assumes "agree env S owner D st" "map_of (sr_facts (ms_repo st)) (u, k) = Some row"
  shows "(u, k) \<in> S" "fr_tenant row = owner u" "sm_user_id (fr_fact row) = u" "sm_fact_key (fr_fact row) = k"
    "sm_fact_id (fr_fact row) = semantic_fact_id env u k"
    "(u, k) \<notin> D \<Longrightarrow> map_of (ms_index st) (semantic_fact_id env u k) = Some (make_point (fr_fact row) (owner u))"
proof -
  note r = assms(1) [unfolded agree_def, THEN conjunct2, THEN conjunct1, THEN spec, THEN spec, THEN spec, THEN mp, OF assms(2)]
  show "(u, k) \<in> S" "fr_tenant row = owner u" "sm_user_id (fr_fact row) = u" "sm_fact_key (fr_fact row) = k"
    "sm_fact_id (fr_fact row) = semantic_fact_id env u k"
    "(u, k) \<notin> D \<Longrightarrow> map_of (ms_index st) (semantic_fact_id env u k) = Some (make_point (fr_fact row) (owner u))"
    using r by simp_all
qed

lemma agree_points:
  "agree env S owner D st \<Longrightarrow> map_of (ms_index st) i = Some p \<Longrightarrow>
     \<exists>row. map_of (sr_facts (ms_repo st)) (pt_user_id p, pt_fact_key p) = Some row \<and> i = semantic_fact_id env (pt_user_id p) (pt_fact_key p)"
  unfolding agree_def by blast

text \<open>A write of one slot keeps the agreement on the others, and gives it there when the index takes the whole point.\<close>

lemma agree_write:
  assumes ag: "agree env S owner D st"
    and inj: "inj_on (\<lambda>(u, k). semantic_fact_id env u k) S" and S: "(u, k) \<in> S"
    and row: "fr_tenant row = owner u" "sm_user_id (fr_fact row) = u" "sm_fact_key (fr_fact row) = k"
      "sm_fact_id (fr_fact row) = semantic_fact_id env u k"
    and st': "map_of (sr_facts (ms_repo st')) = (map_of (sr_facts (ms_repo st)))((u, k) \<mapsto> row)"
      "map_of (ms_index st') = (map_of (ms_index st))(semantic_fact_id env u k := q)" "distinct (map fst (ms_index st'))"
    and q: "\<And>p. q = Some p \<Longrightarrow> pt_user_id p = u \<and> pt_fact_key p = k" "(u, k) \<notin> D' \<Longrightarrow> q = Some (make_point (fr_fact row) (owner u))"
    and D: "D \<subseteq> insert (u, k) D'"
  shows "agree env S owner D' st'"
  unfolding agree_def
proof (intro conjI allI impI)
  show "distinct (map fst (ms_index st'))" by (fact st')
next
  fix u' k' row'
  assume r': "map_of (sr_facts (ms_repo st')) (u', k') = Some row'"
  have other: "map_of (sr_facts (ms_repo st)) (u', k') = Some row'" if "(u', k') \<noteq> (u, k)" using r' that by (auto simp: st'(1))
  have same: "row' = row" if "(u', k') = (u, k)" using r' that by (simp add: st'(1))
  show facts: "(u', k') \<in> S" "fr_tenant row' = owner u'" "sm_user_id (fr_fact row') = u'" "sm_fact_key (fr_fact row') = k'"
      "sm_fact_id (fr_fact row') = semantic_fact_id env u' k'"
    by (atomize (full), cases "(u', k') = (u, k)", simp add: S row same, simp only: agree_rows(1-5) [OF ag other] simp_thms)
  show "map_of (ms_index st') (semantic_fact_id env u' k') = Some (make_point (fr_fact row') (fr_tenant row'))" if d: "(u', k') \<notin> D'"
  proof (cases "(u', k') = (u, k)")
    case True
    then show ?thesis using q(2) d same row(1) by (simp add: st'(2))
  next
    case False
    have "semantic_fact_id env u' k' \<noteq> semantic_fact_id env u k"
      using inj_onD [OF inj, of "(u', k')" "(u, k)"] S facts(1) False by auto
    moreover have "(u', k') \<notin> D" using D d False by auto
    ultimately show ?thesis using agree_rows(6) [OF ag other [OF False]] facts(2) by (simp add: st'(2))
  qed
next
  fix i p
  assume ip: "map_of (ms_index st') i = Some p"
  show "\<exists>row. map_of (sr_facts (ms_repo st')) (pt_user_id p, pt_fact_key p) = Some row \<and> i = semantic_fact_id env (pt_user_id p) (pt_fact_key p)"
  proof (cases "i = semantic_fact_id env u k")
    case True
    then show ?thesis using q(1) [of p] ip by (simp add: st'(1,2))
  next
    case False
    with ip st'(2) have "map_of (ms_index st) i = Some p" by simp
    from agree_points [OF ag this] show ?thesis by (auto simp: st'(1))
  qed
qed

lemma agree_stale: "agree env S owner D st \<Longrightarrow> D \<subseteq> D' \<Longrightarrow> agree env S owner D' st"
  unfolding agree_def by blast

lemma agree_no_row:
  assumes "agree env S owner D st" "find_by_key (ms_repo st) u k (owner u) = None"
  shows "agree env S owner (D - {(u, k)}) st"
proof -
  have "map_of (sr_facts (ms_repo st)) (u, k) = None"
  proof (rule ccontr)
    assume "map_of (sr_facts (ms_repo st)) (u, k) \<noteq> None"
    then obtain row where r: "map_of (sr_facts (ms_repo st)) (u, k) = Some row" by blast
    with assms(2) agree_rows(2) [OF assms(1) r] show False by (simp add: find_by_key_def repo_row_def)
  qed
  then have n: "(u', k') \<noteq> (u, k)" if "map_of (sr_facts (ms_repo st)) (u', k') = Some row" for u' k' row using that by auto
  show ?thesis
    unfolding agree_def
  proof (intro conjI allI impI)
    fix u' k' row assume r: "map_of (sr_facts (ms_repo st)) (u', k') = Some row"
    note rows = agree_rows [OF assms(1) r]
    show "(u', k') \<in> S" "fr_tenant row = owner u'" "sm_user_id (fr_fact row) = u'" "sm_fact_key (fr_fact row) = k'"
      "sm_fact_id (fr_fact row) = semantic_fact_id env u' k'" by (fact rows)+
    show "map_of (ms_index st) (semantic_fact_id env u' k') = Some (make_point (fr_fact row) (fr_tenant row))" if "(u', k') \<notin> D - {(u, k)}"
      using that n [OF r] rows(2) rows(6) by auto
  qed (use assms(1) in \<open>simp_all add: agree_def\<close>)
qed

lemma own_point:
  assumes "agree env S owner D st" "inj_on (\<lambda>(u, k). semantic_fact_id env u k) S"
    and "(u, k) \<in> S" "map_of (ms_index st) (semantic_fact_id env u k) = Some p"
  shows "pt_user_id p = u \<and> pt_fact_key p = k"
proof -
  obtain row' where row': "map_of (sr_facts (ms_repo st)) (pt_user_id p, pt_fact_key p) = Some row'"
    "semantic_fact_id env u k = semantic_fact_id env (pt_user_id p) (pt_fact_key p)"
    using agree_points [OF assms(1,4)] by blast
  then show ?thesis
    using inj_onD [OF assms(2), of "(u, k)" "(pt_user_id p, pt_fact_key p)"] agree_rows(1) [OF assms(1)] assms(3) by auto
qed

lemma agree_record:
  assumes "agree env S owner D st" "inj_on (\<lambda>(u, k). semantic_fact_id env u k) S" "(u, k) \<in> S"
  shows "agree env S owner (if index_fails flt then insert (u, k) D else D - {(u, k)})
    (snd (record_semantic_fact env flt st (owner u) u k val conf src v a))"
proof -
  let ?st = "snd (record_semantic_fact env flt st (owner u) u k val conf src v a)"
  let ?mem = "\<lparr>sm_fact_id = semantic_fact_id env u k, sm_user_id = u, sm_fact_key = k, sm_fact_value = val,
             sm_embedding = env_embed env val, sm_confidence = conf, sm_source = src, sm_valid_until = v, sm_archived_at = a\<rparr>"
  have "map_of (sr_facts (ms_repo st)) (u, k) = Some old \<Longrightarrow> fr_tenant old = owner u" for old
    using agree_rows(2) [OF assms(1)] .
  then have repo: "map_of (sr_facts (ms_repo ?st)) = (map_of (sr_facts (ms_repo st)))((u, k) \<mapsto> \<lparr>fr_tenant = owner u, fr_fact = ?mem\<rparr>)"
    by (auto simp: record_repo map_of_repo_save split: option.splits)
  have dist: "distinct (map fst (ms_index st))" using assms(1) by (simp add: agree_def)
  show ?thesis
  proof (cases "index_fails flt")
    case True
    have idx: "ms_index ?st = ms_index st" using True by (simp add: record_semantic_fact_def write_defs Let_def)
    have "agree env S owner (insert (u, k) D) ?st"
    proof (rule agree_write [OF assms(1-3) _ _ _ _ repo, where q = "map_of (ms_index st) (semantic_fact_id env u k)"])
      show "pt_user_id p = u \<and> pt_fact_key p = k" if "map_of (ms_index st) (semantic_fact_id env u k) = Some p" for p
        by (rule own_point [OF assms that])
    qed (auto simp: idx dist)
    with True show ?thesis by simp
  next
    case False
    then have "ms_index ?st = index_upsert (ms_index st) ?mem (owner u)"
      by (simp add: record_semantic_fact_def write_defs Let_def)
    then have idx: "map_of (ms_index ?st) = (map_of (ms_index st))(semantic_fact_id env u k := Some (make_point ?mem (owner u)))"
        "distinct (map fst (ms_index ?st))"
      using dist by (simp_all add: index_upsert_def)
    have "agree env S owner (D - {(u, k)}) ?st"
      by (rule agree_write [OF assms(1-3) _ _ _ _ repo idx]) (auto simp: make_point_def)
    with False show ?thesis by simp
  qed
qed

lemma agree_snapshot [simp]: "agree env S owner D (snapshot st e t) = agree env S owner D st"
  by (simp add: agree_def snapshot_def save_history_entry_def)

lemma set_payload_index:
  assumes "distinct (map fst idx)"
  shows "\<exists>q. map_of (best_effort_write (attempt_write b (set_payload idx i f)) idx) = (map_of idx)(i := q) \<and>
    distinct (map fst (best_effort_write (attempt_write b (set_payload idx i f)) idx)) \<and>
    (q = map_of idx i \<or> q = map_option f (map_of idx i)) \<and> (\<not> b \<longrightarrow> q = map_option f (map_of idx i))"
  using assms by (cases "map_of idx i"; cases b) (auto simp: write_defs set_payload_def intro!: exI [of _ "map_of idx i"])

text \<open>Invalidating and archiving are one change: of the row, and of the payload of the point.\<close>

lemma agree_status_change:
  assumes "agree env S owner D st" "inj_on (\<lambda>(u, k). semantic_fact_id env u k) S"
    and "map_of (sr_facts (ms_repo st)) (u, k) = Some row" "D \<subseteq> insert (u, k) D'" "index_fails flt \<or> (u, k) \<in> D \<Longrightarrow> (u, k) \<in> D'"
    and "map_of (sr_facts (ms_repo st')) = (map_of (sr_facts (ms_repo st)))((u, k) \<mapsto> row\<lparr>fr_fact := g (fr_fact row)\<rparr>)"
    and "ms_index st' = best_effort_write (attempt_write (index_fails flt) (set_payload (ms_index st) (semantic_fact_id env u k) f)) (ms_index st)"
    and "\<And>m. sm_user_id (g m) = sm_user_id m \<and> sm_fact_key (g m) = sm_fact_key m \<and> sm_fact_id (g m) = sm_fact_id m"
    and "\<And>m t. f (make_point m t) = make_point (g m) t" "\<And>p. pt_user_id (f p) = pt_user_id p \<and> pt_fact_key (f p) = pt_fact_key p"
  shows "agree env S owner D' st'"
proof -
  note rows = agree_rows [OF assms(1,3)]
  have "distinct (map fst (ms_index st))" using assms(1) by (simp add: agree_def)
  from set_payload_index [OF this, of "index_fails flt" "semantic_fact_id env u k" f] obtain q where
    q: "map_of (ms_index st') = (map_of (ms_index st))(semantic_fact_id env u k := q)" "distinct (map fst (ms_index st'))"
      "q = map_of (ms_index st) (semantic_fact_id env u k) \<or> q = map_option f (map_of (ms_index st) (semantic_fact_id env u k))"
      "\<not> index_fails flt \<longrightarrow> q = map_option f (map_of (ms_index st) (semantic_fact_id env u k))"
    unfolding assms(7) by blast
  show ?thesis
  proof (rule agree_write [OF assms(1,2) rows(1) _ _ _ _ assms(6) q(1,2) _ _ assms(4)])
    show "pt_user_id p = u \<and> pt_fact_key p = k" if "q = Some p" for p
      using q(3) that own_point [OF assms(1,2) rows(1)] assms(10) by (cases "map_of (ms_index st) (semantic_fact_id env u k)") auto
    show "q = Some (make_point (fr_fact (row\<lparr>fr_fact := g (fr_fact row)\<rparr>)) (owner u))" if "(u, k) \<notin> D'"
      using that assms(5,9) q(4) rows(6) by auto
  qed (use rows assms(8) in simp_all)
qed

lemma agree_status:
  fixes flt :: faults and u :: uuid and k :: string
  assumes "agree env S owner D st" "inj_on (\<lambda>(u, k). semantic_fact_id env u k) S"
  defines "D' \<equiv> (if index_fails flt then insert (u, k) D else D)"
  shows "agree env S owner D' (snd (invalidate_memory flt db_now st (owner u) u k w))"
    and "agree env S owner D' (snd (archive_memory flt db_now st (owner u) u k w))"
proof -
  have "agree env S owner D' (snd (invalidate_memory flt db_now st (owner u) u k w)) \<and>
      agree env S owner D' (snd (archive_memory flt db_now st (owner u) u k w))"
  proof (cases "find_by_key (ms_repo st) u k (owner u)")
    case None
    then show ?thesis using agree_stale [OF assms(1), of D'] by (simp add: invalidate_memory_def archive_memory_def D'_def subset_insertI)
  next
    case (Some f)
    then obtain row where row: "map_of (sr_facts (ms_repo st)) (u, k) = Some row" "fr_tenant row = owner u" "f = row_to_fact row"
      by (auto simp: find_by_key_Some)
    have i: "sm_fact_id f = semantic_fact_id env u k" using row agree_rows(5) [OF assms(1)] by (simp add: row_to_fact_def)
    have rr: "repo_row (ms_repo st) u k (owner u) = Some row" using row by (simp add: repo_row_def)
    note change = agree_status_change [OF assms(1,2) row(1), of D' flt]
    have "agree env S owner D' (snd (invalidate_memory flt db_now st (owner u) u k w))"
      by (rule change [where g = "\<lambda>m. m\<lparr>sm_valid_until := Some (coalesce w db_now)\<rparr>"
            and f = "\<lambda>p. p\<lparr>pt_valid_until := Some (coalesce w db_now), pt_valid_until_epoch := epoch (Some (coalesce w db_now))\<rparr>"])
        (auto simp: D'_def invalidate_memory_def Some repo_invalidate_def repo_update_def rr Let_def set_valid_until_def i make_point_def fun_eq_iff)
    moreover have "agree env S owner D' (snd (archive_memory flt db_now st (owner u) u k w))"
      by (rule change [where g = "\<lambda>m. m\<lparr>sm_archived_at := Some (coalesce w db_now)\<rparr>"
            and f = "\<lambda>p. p\<lparr>pt_archived_at := Some (coalesce w db_now), pt_archived_at_epoch := epoch (Some (coalesce w db_now))\<rparr>"])
        (auto simp: D'_def archive_memory_def Some repo_archive_def repo_update_def rr Let_def set_archived_at_def i make_point_def fun_eq_iff)
    ultimately show ?thesis by simp
  qed
  then show "agree env S owner D' (snd (invalidate_memory flt db_now st (owner u) u k w))"
    "agree env S owner D' (snd (archive_memory flt db_now st (owner u) u k w))" by auto
qed

lemma agree_supersede:
  fixes flt :: faults and u :: uuid and k :: string
  assumes "agree env S owner D st" "inj_on (\<lambda>(u, k). semantic_fact_id env u k) S" "(u, k) \<in> S"
  defines "D' \<equiv> (if index_fails flt then insert (u, k) D else D - {(u, k)})"
  shows "agree env S owner D' (snd (update_memory env flt i now st (owner u) u k val conf src))"
    and "agree env S owner D' (snd (refine_memory env flt m n i now st (owner u) u k info))"
proof -
  have none: "agree env S owner D' st" if "find_by_key (ms_repo st) u k (owner u) = None"
    using agree_no_row [OF assms(1) that] agree_stale [OF assms(1) subset_insertI] by (simp add: D'_def)
  have rec: "agree env S owner D' (snd (record_semantic_fact env flt (snapshot st e (owner u)) (owner u) u k val conf src v a))" for e val conf src v a
    unfolding D'_def by (rule agree_record) (simp_all add: assms(1-3))
  from rec none
  show "agree env S owner D' (snd (update_memory env flt i now st (owner u) u k val conf src))"
    "agree env S owner D' (snd (refine_memory env flt m n i now st (owner u) u k info))"
    unfolding update_memory_def refine_memory_def by (simp_all split: option.split)
qed

lemma agree_step:
  assumes "agree env S owner D st" "inj_on (\<lambda>(u, k). semantic_fact_id env u k) S"
    and "call_slot call \<in> S" "call_tenant call = owner (fst (call_slot call))"
  shows "agree env S owner (stale_step (flt, call) D) (mag_step env m (flt, call) st)"
proof (cases call)
  case (Evolve n i now db_now t u k info)
  define E where "E = (if index_fails flt then insert (u, k) D else D)"
  obtain r n' where c: "classify_fact_evolution m n st t u k info = (r, n')" by fastforce
  have s: "agree env S owner E (snd (update_memory env flt i now st (owner u) u k info (Fin 1) []))"
      "agree env S owner E (snd (refine_memory env flt m n' i now st (owner u) u k info))"
    using agree_supersede [OF assms(1,2), of u k flt, THEN agree_stale] assms(3) Evolve by (simp_all add: E_def Diff_subset)
  have v: "agree env S owner E (snd (invalidate_memory flt db_now st (owner u) u k None))"
    using agree_status(1) [OF assms(1,2)] by (simp add: E_def)
  have "agree env S owner E st" using agree_stale [OF assms(1)] by (simp add: E_def subset_insertI)
  moreover have "t = owner u" "stale_step (flt, call) D = E" using assms(4) Evolve by (simp_all add: stale_step_def E_def)
  ultimately show ?thesis
    using Evolve c s v by (cases r) (simp_all add: evolve_memory_def case_prod_unfold)
next
  case (Record t u k val conf src v a)
  then show ?thesis using agree_record [OF assms(1,2), of u k flt] assms(3,4) by (cases "index_fails flt") (simp_all add: stale_step_def)
next
  case (Update i now t u k val conf src)
  then show ?thesis using agree_supersede(1) [OF assms(1,2), of u k flt] assms(3,4) by (cases "index_fails flt") (simp_all add: stale_step_def)
next
  case (Refine n i now t u k info)
  then show ?thesis using agree_supersede(2) [OF assms(1,2), of u k flt] assms(3,4) by (cases "index_fails flt") (simp_all add: stale_step_def)
next
  case (Invalidate db_now t u k w)
  then show ?thesis using agree_status(1) [OF assms(1,2), of flt u k] assms(4) by (cases "index_fails flt") (simp_all add: stale_step_def)
next
  case (Archive db_now t u k w)
  then show ?thesis using agree_status(2) [OF assms(1,2), of flt u k] assms(4) by (cases "index_fails flt") (simp_all add: stale_step_def)
qed



end
