(* ===== verification/Tiering_Sync.thy ===== *)
theory Tiering_Sync
  imports Frozen_Cache Access_Tracker Semantic_Memory
begin

text \<open>
  Moving documents between the tiers and keeping the fast copies true
  (\<^verbatim>\<open>src/orchestration/domain\<close> and \<^verbatim>\<open>application\<close>): the sync mixer, the keys of
  promoted memory, cache warming, the three tiering policies and the three sync cycles, and
  \<^verbatim>\<open>SemanticMemoryWarmStore\<close>, the warm tier on semantic memory.

  The policies and cycles are written over the operations of the ports, as the code is, and
  their properties are proved from the contracts of the ports. \<open>clk\<close> is what the cache reads
  from its own clock; a sync cycle reads it once for each document, \<open>clk i\<close> for the \<open>i\<close>-th.
  \<open>sha256\<close> is the hex digest of the UTF-8 encoding and \<open>uuid5\<close> the name-based UUID in the OID
  namespace, both parameters; that \<open>uuid5\<close> has no collision is a hypothesis where it matters.
\<close>

subsection \<open>The sync mixer and the keys\<close>

definition content_hash :: "(string \<Rightarrow> string) \<Rightarrow> string \<Rightarrow> string" where
  "content_hash sha256 content = sha256 content"

definition reconcile :: "(string \<Rightarrow> string) \<Rightarrow> string option \<Rightarrow> string \<Rightarrow> uuid \<Rightarrow> sync_conflict option" where
  "reconcile sha256 cached_content_hash authoritative_content document_id =
     (case cached_content_hash of
        None \<Rightarrow> None
      | Some h \<Rightarrow>
          (let authoritative_hash = content_hash sha256 authoritative_content
           in if h = authoritative_hash then None
              else Some \<lparr>sc_document_id = document_id, sc_cached_content_hash = h,
                         sc_authoritative_content_hash = authoritative_hash\<rparr>))"

definition cache_key :: "(string \<Rightarrow> uuid) \<Rightarrow> uuid \<Rightarrow> string \<Rightarrow> uuid" where
  "cache_key uuid5 user_id mag_content_key = uuid5 (uuid_str user_id @ '':'' @ mag_content_key)"

definition tracker_key :: "(string \<Rightarrow> uuid) \<Rightarrow> string \<Rightarrow> uuid" where
  "tracker_key uuid5 mag_content_key = uuid5 mag_content_key"

subsection \<open>WarmCache and the tiering policies\<close>

fun warm_all :: "('c, 'kv, 'z) frozen_cache_ops_scheme \<Rightarrow> datetime \<Rightarrow> 'c \<Rightarrow> uuid \<Rightarrow> (uuid \<Rightarrow> string) \<Rightarrow>
    uuid list \<Rightarrow> 'c" where
  "warm_all cache clk c tenant_id content_provider [] = c"
| "warm_all cache clk c tenant_id content_provider (d # ds) =
     (case fc_contains cache clk c tenant_id d of (present, c1) \<Rightarrow>
        warm_all cache clk
          (if \<not> present then fc_preload cache clk c1 tenant_id d (content_provider d) else c1)
          tenant_id content_provider ds)"

definition warm_cache :: "('s, uuid) tracker_ops \<Rightarrow> ('c, 'kv, 'z) frozen_cache_ops_scheme \<Rightarrow> datetime \<Rightarrow> 's \<Rightarrow> 'c \<Rightarrow>
    uuid \<Rightarrow> int \<Rightarrow> timedelta \<Rightarrow> datetime \<Rightarrow> (uuid \<Rightarrow> string) \<Rightarrow> uuid list \<times> 's \<times> 'c" where
  "warm_cache tracker cache clk s c tenant_id n window now content_provider =
     (case tk_most_accessed tracker s tenant_id n window now of (top_n, s1) \<Rightarrow>
        (top_n, s1, warm_all cache clk c tenant_id content_provider top_n))"

definition hysteresis_error :: py_error where
  "hysteresis_error = ValueError ''promote_threshold must be >= demote_threshold''"

definition tiering_evaluate :: "('s, uuid) tracker_ops \<Rightarrow> ('c, 'kv, 'z) frozen_cache_ops_scheme \<Rightarrow> datetime \<Rightarrow>
    's \<Rightarrow> 'c \<Rightarrow> uuid \<Rightarrow> uuid \<Rightarrow> (uuid \<Rightarrow> string) \<Rightarrow> int \<Rightarrow> int \<Rightarrow> timedelta \<Rightarrow> datetime \<Rightarrow>
    tier_decision result \<times> 's \<times> 'c" where
  "tiering_evaluate tracker cache clk s c tenant_id document_id content_provider
       promote_threshold demote_threshold window now =
     (if promote_threshold < demote_threshold then (Inl hysteresis_error, s, c)
      else case tk_access_count tracker s tenant_id document_id window now of (cnt, s1) \<Rightarrow>
             (case fc_contains cache clk c tenant_id document_id of (is_cached, c1) \<Rightarrow>
                if promote_threshold \<le> int cnt \<and> \<not> is_cached
                then (Inr PROMOTED, s1, fc_preload cache clk c1 tenant_id document_id (content_provider document_id))
                else if int cnt < demote_threshold \<and> is_cached
                then (Inr DEMOTED, s1, fc_evict cache clk c1 tenant_id document_id)
                else (Inr UNCHANGED, s1, c1)))"

definition cag_mag_evaluate :: "(string \<Rightarrow> uuid) \<Rightarrow> ('s, uuid \<times> uuid) tracker_ops \<Rightarrow>
    ('c, 'kv, 'z) frozen_cache_ops_scheme \<Rightarrow> datetime \<Rightarrow> 's \<Rightarrow> 'c \<Rightarrow> uuid \<Rightarrow> uuid \<Rightarrow> string \<Rightarrow>
    (string \<Rightarrow> string) \<Rightarrow> int \<Rightarrow> int \<Rightarrow> timedelta \<Rightarrow> datetime \<Rightarrow> tier_decision result \<times> 's \<times> 'c" where
  "cag_mag_evaluate uuid5 tracker cache clk s c tenant_id user_id mag_content_key content_provider
       promote_threshold demote_threshold window now =
     (if promote_threshold < demote_threshold then (Inl hysteresis_error, s, c)
      else case tk_access_count tracker s (tenant_id, user_id) (tracker_key uuid5 mag_content_key) window now of
             (cnt, s1) \<Rightarrow>
               (let cache_id = cache_key uuid5 user_id mag_content_key in
                case fc_contains cache clk c tenant_id cache_id of (is_hot, c1) \<Rightarrow>
                  if promote_threshold \<le> int cnt \<and> \<not> is_hot
                  then (Inr PROMOTED, s1, fc_preload cache clk c1 tenant_id cache_id (content_provider mag_content_key))
                  else if int cnt < demote_threshold \<and> is_hot
                  then (Inr DEMOTED, s1, fc_evict cache clk c1 tenant_id cache_id)
                  else (Inr UNCHANGED, s1, c1)))"

subsection \<open>WarmStore\<close>

record 's warm_store_ops =
  ws_promote :: "'s \<Rightarrow> uuid \<Rightarrow> uuid \<Rightarrow> uuid \<Rightarrow> string \<Rightarrow> unit result \<times> 's"
  ws_lookup :: "datetime \<Rightarrow> 's \<Rightarrow> uuid \<Rightarrow> uuid \<Rightarrow> uuid \<Rightarrow> warm_entry option"
  ws_demote :: "datetime \<Rightarrow> datetime \<Rightarrow> 's \<Rightarrow> uuid \<Rightarrow> uuid \<Rightarrow> uuid \<Rightarrow> unit result \<times> 's"
  ws_contains :: "datetime \<Rightarrow> 's \<Rightarrow> uuid \<Rightarrow> uuid \<Rightarrow> uuid \<Rightarrow> bool"

definition fact_key_for :: "uuid \<Rightarrow> string" where
  "fact_key_for document_id = ''rag_promoted:'' @ uuid_str document_id"

definition warm_promote :: "mag_env \<Rightarrow> bool \<Rightarrow> mag_store \<Rightarrow> uuid \<Rightarrow> uuid \<Rightarrow> uuid \<Rightarrow> string \<Rightarrow>
    unit result \<times> mag_store" where
  \<comment> \<open>the flag: the index refuses the write\<close>
  "warm_promote env index_down st tenant_id user_id document_id content =
     (let fact_key = fact_key_for document_id;
          mem = \<lparr>sm_fact_id = semantic_fact_id env user_id fact_key, sm_user_id = user_id,
                 sm_fact_key = fact_key, sm_fact_value = content, sm_embedding = env_embed env content,
                 sm_confidence = Fin 1, sm_source = [], sm_valid_until = None, sm_archived_at = None\<rparr>;
          st1 = st\<lparr>ms_repo := repo_save (ms_repo st) mem tenant_id\<rparr>
      in case attempt_write index_down (Inr (index_upsert (ms_index st1) mem tenant_id)) of
           Inl e \<Rightarrow> (Inl e, st1)
         | Inr idx \<Rightarrow> (Inr (), st1\<lparr>ms_index := idx\<rparr>))"

definition warm_lookup :: "(string \<Rightarrow> string) \<Rightarrow> datetime \<Rightarrow> mag_store \<Rightarrow> uuid \<Rightarrow> uuid \<Rightarrow> uuid \<Rightarrow> warm_entry option" where
  "warm_lookup sha256 now st tenant_id user_id document_id =
     (case find_by_key (ms_repo st) user_id (fact_key_for document_id) tenant_id of
        None \<Rightarrow> None
      | Some f \<Rightarrow>
          if sm_archived_at f \<noteq> None then None
          else if (case sm_valid_until f of None \<Rightarrow> False | Some v \<Rightarrow> v \<le> now) then None
          else Some \<lparr>we_content_hash = content_hash sha256 (sm_fact_value f), we_content = sm_fact_value f\<rparr>)"

definition warm_demote :: "(string \<Rightarrow> string) \<Rightarrow> datetime \<Rightarrow> datetime \<Rightarrow> mag_store \<Rightarrow> uuid \<Rightarrow> uuid \<Rightarrow> uuid \<Rightarrow>
    unit result \<times> mag_store" where
  "warm_demote sha256 now db_now st tenant_id user_id document_id =
     (if warm_lookup sha256 now st tenant_id user_id document_id = None then (Inr (), st)
      else case repo_invalidate db_now (ms_repo st) user_id (fact_key_for document_id) tenant_id None of
             (Inl e, r) \<Rightarrow> (Inl e, st\<lparr>ms_repo := r\<rparr>)
           | (Inr _, r) \<Rightarrow> (Inr (), st\<lparr>ms_repo := r\<rparr>))"

definition warm_contains :: "(string \<Rightarrow> string) \<Rightarrow> datetime \<Rightarrow> mag_store \<Rightarrow> uuid \<Rightarrow> uuid \<Rightarrow> uuid \<Rightarrow> bool" where
  "warm_contains sha256 now st tenant_id user_id document_id =
     (warm_lookup sha256 now st tenant_id user_id document_id \<noteq> None)"

definition semantic_memory_warm_store :: "mag_env \<Rightarrow> (string \<Rightarrow> string) \<Rightarrow> bool \<Rightarrow> mag_store warm_store_ops" where
  "semantic_memory_warm_store env sha256 index_down =
     \<lparr>ws_promote = warm_promote env index_down, ws_lookup = warm_lookup sha256,
      ws_demote = warm_demote sha256, ws_contains = warm_contains sha256\<rparr>"

definition mag_tiering_evaluate :: "('s, uuid \<times> uuid) tracker_ops \<Rightarrow> 'w warm_store_ops \<Rightarrow> datetime \<Rightarrow> datetime \<Rightarrow>
    's \<Rightarrow> 'w \<Rightarrow> uuid \<Rightarrow> uuid \<Rightarrow> uuid \<Rightarrow> (uuid \<Rightarrow> string) \<Rightarrow> int \<Rightarrow> int \<Rightarrow> timedelta \<Rightarrow> datetime \<Rightarrow>
    tier_decision result \<times> 's \<times> 'w" where
  "mag_tiering_evaluate tracker store clk db_now s w tenant_id user_id document_id content_provider
       promote_threshold demote_threshold window now =
     (if promote_threshold < demote_threshold then (Inl hysteresis_error, s, w)
      else case tk_access_count tracker s (tenant_id, user_id) document_id window now of (cnt, s1) \<Rightarrow>
             (let is_warm = ws_contains store clk w tenant_id user_id document_id in
              if promote_threshold \<le> int cnt \<and> \<not> is_warm
              then (case ws_promote store w tenant_id user_id document_id (content_provider document_id) of
                      (Inl e, w1) \<Rightarrow> (Inl e, s1, w1)
                    | (Inr _, w1) \<Rightarrow> (Inr PROMOTED, s1, w1))
              else if int cnt < demote_threshold \<and> is_warm
              then (case ws_demote store clk db_now w tenant_id user_id document_id of
                      (Inl e, w1) \<Rightarrow> (Inl e, s1, w1)
                    | (Inr _, w1) \<Rightarrow> (Inr DEMOTED, s1, w1))
              else (Inr UNCHANGED, s1, w)))"

subsection \<open>The sync cycles\<close>

fun sync_run :: "('c, 'kv, 'z) frozen_cache_ops_scheme \<Rightarrow> (string \<Rightarrow> string) \<Rightarrow> (nat \<Rightarrow> datetime) \<Rightarrow> nat \<Rightarrow> 'c \<Rightarrow>
    uuid \<Rightarrow> uuid list \<Rightarrow> (uuid \<Rightarrow> string) \<Rightarrow> sync_conflict list \<times> 'c" where
  "sync_run cache sha256 clk i c tenant_id [] authoritative_content = ([], c)"
| "sync_run cache sha256 clk i c tenant_id (d # ds) authoritative_content =
     (case fc_lookup cache (clk i) c tenant_id d of (hit, c1) \<Rightarrow>
        (case reconcile sha256 (map_option ch_content_hash hit) (authoritative_content d) d of
           None \<Rightarrow> sync_run cache sha256 clk (Suc i) c1 tenant_id ds authoritative_content
         | Some conflict \<Rightarrow>
             (case sync_run cache sha256 clk (Suc i) (fc_evict cache (clk i) c1 tenant_id d) tenant_id ds
                     authoritative_content of
                (conflicts, c2) \<Rightarrow> (conflict # conflicts, c2))))"

fun cag_mag_sync_run :: "(string \<Rightarrow> uuid) \<Rightarrow> ('c, 'kv, 'z) frozen_cache_ops_scheme \<Rightarrow> (string \<Rightarrow> string) \<Rightarrow>
    (nat \<Rightarrow> datetime) \<Rightarrow> nat \<Rightarrow> 'c \<Rightarrow> uuid \<Rightarrow> uuid \<Rightarrow> string list \<Rightarrow> (string \<Rightarrow> string) \<Rightarrow>
    (string \<times> sync_conflict) list \<times> 'c" where
  "cag_mag_sync_run uuid5 cache sha256 clk i c tenant_id user_id [] authoritative_content = ([], c)"
| "cag_mag_sync_run uuid5 cache sha256 clk i c tenant_id user_id (k # ks) authoritative_content =
     (let cache_id = cache_key uuid5 user_id k in
      case fc_lookup cache (clk i) c tenant_id cache_id of (hit, c1) \<Rightarrow>
        (case reconcile sha256 (map_option ch_content_hash hit) (authoritative_content k) cache_id of
           None \<Rightarrow> cag_mag_sync_run uuid5 cache sha256 clk (Suc i) c1 tenant_id user_id ks authoritative_content
         | Some conflict \<Rightarrow>
             (case cag_mag_sync_run uuid5 cache sha256 clk (Suc i) (fc_evict cache (clk i) c1 tenant_id cache_id)
                     tenant_id user_id ks authoritative_content of
                (conflicts, c2) \<Rightarrow> ((k, conflict) # conflicts, c2))))"

fun mag_sync_run :: "'w warm_store_ops \<Rightarrow> (string \<Rightarrow> string) \<Rightarrow> (nat \<Rightarrow> datetime \<times> datetime) \<Rightarrow> nat \<Rightarrow> 'w \<Rightarrow>
    uuid \<Rightarrow> uuid \<Rightarrow> uuid list \<Rightarrow> (uuid \<Rightarrow> string) \<Rightarrow> sync_conflict list result \<times> 'w" where
  \<comment> \<open>\<open>clk i\<close>: the readings of the application's and of the database's clock\<close>
  "mag_sync_run store sha256 clk i w tenant_id user_id [] authoritative_content = (Inr [], w)"
| "mag_sync_run store sha256 clk i w tenant_id user_id (d # ds) authoritative_content =
     (let entry = ws_lookup store (fst (clk i)) w tenant_id user_id d in
      case reconcile sha256 (map_option we_content_hash entry) (authoritative_content d) d of
        None \<Rightarrow> mag_sync_run store sha256 clk (Suc i) w tenant_id user_id ds authoritative_content
      | Some conflict \<Rightarrow>
          (case ws_demote store (fst (clk i)) (snd (clk i)) w tenant_id user_id d of
             (Inl e, w1) \<Rightarrow> (Inl e, w1)
           | (Inr _, w1) \<Rightarrow>
               (case mag_sync_run store sha256 clk (Suc i) w1 tenant_id user_id ds authoritative_content of
                  (Inl e, w2) \<Rightarrow> (Inl e, w2)
                | (Inr conflicts, w2) \<Rightarrow> (Inr (conflict # conflicts), w2))))"

subsection \<open>Tiering does not flap\<close>

text \<open>
  Both policies on the frozen cache are one step, which asks the tracker about one id and the
  cache about another.
\<close>

definition evaluate_core :: "('s, 'scope) tracker_ops \<Rightarrow> ('c, 'kv, 'z) frozen_cache_ops_scheme \<Rightarrow> datetime \<Rightarrow> 's \<Rightarrow> 'c \<Rightarrow>
    'scope \<Rightarrow> uuid \<Rightarrow> uuid \<Rightarrow> uuid \<Rightarrow> string \<Rightarrow> int \<Rightarrow> int \<Rightarrow> timedelta \<Rightarrow> datetime \<Rightarrow> tier_decision result \<times> 's \<times> 'c" where
  "evaluate_core tracker cache clk s c scope tid t cid content promote demote window now =
     (if promote < demote then (Inl hysteresis_error, s, c)
      else case tk_access_count tracker s scope tid window now of (cnt, s1) \<Rightarrow>
             (case fc_contains cache clk c t cid of (present, c1) \<Rightarrow>
                if promote \<le> int cnt \<and> \<not> present
                then (Inr PROMOTED, s1, fc_preload cache clk c1 t cid content)
                else if int cnt < demote \<and> present
                then (Inr DEMOTED, s1, fc_evict cache clk c1 t cid)
                else (Inr UNCHANGED, s1, c1)))"

lemma tiering_is_core:
  "tiering_evaluate tracker cache clk s c t d provider = evaluate_core tracker cache clk s c t d t d (provider d)"
  by (simp add: tiering_evaluate_def evaluate_core_def fun_eq_iff)

lemma cag_mag_is_core:
  "cag_mag_evaluate uuid5 tracker cache clk s c t u k provider =
     evaluate_core tracker cache clk s c (t, u) (tracker_key uuid5 k) t (cache_key uuid5 u k) (provider k)"
  by (simp add: cag_mag_evaluate_def evaluate_core_def fun_eq_iff Let_def)

definition tier_rule :: "nat \<Rightarrow> bool \<Rightarrow> int \<Rightarrow> int \<Rightarrow> tier_decision" where
  "tier_rule cnt present promote demote =
     (if promote \<le> int cnt \<and> \<not> present then PROMOTED
      else if int cnt < demote \<and> present then DEMOTED else UNCHANGED)"

locale tiering = frequency_tracker tracker + storing_cache ops view hash
  for tracker :: "('s, 'scope) tracker_ops"
    and ops :: "('c, 'kv, 'z) frozen_cache_ops_scheme"
    and view :: "datetime \<Rightarrow> 'c \<Rightarrow> doc_key \<Rightarrow> string option" and hash :: "string \<Rightarrow> string"
begin

lemma core_decision:
  assumes "demote \<le> promote" "evaluate_core tracker ops clk s c scope tid t cid x promote demote w now = (r, s', c')"
  shows "r = Inr (tier_rule (fst (tk_access_count tracker s scope tid w now)) (view clk c (t, cid) \<noteq> None) promote demote)"
    and "s' = snd (tk_access_count tracker s scope tid w now)"
  using assms contains_view [of clk c t cid]
  by (auto simp: evaluate_core_def tier_rule_def case_prod_unfold split: if_splits)

lemma core_view:
  assumes "demote \<le> promote" "evaluate_core tracker ops clk s c scope tid t cid x promote demote w now = (Inr dec, s', c')"
    and "clk \<le> n"
  shows "view n c' = (case dec of PROMOTED \<Rightarrow> (view n c)((t, cid) \<mapsto> hash x) | DEMOTED \<Rightarrow> (view n c)((t, cid) := None)
      | UNCHANGED \<Rightarrow> view n c)"
  using assms contains_frame [OF assms(3), of c t cid]
  by (auto simp: evaluate_core_def case_prod_unfold preload_view evict_view split: if_splits)

lemma core_settles:
  assumes "demote \<le> promote" "evaluate_core tracker ops clk s c scope tid t cid x promote demote w now = (Inr dec, s', c')"
  shows "fst (evaluate_core tracker ops clk s' c' scope tid t cid x' promote demote w now) = Inr UNCHANGED"
proof -
  let ?n = "fst (tk_access_count tracker s scope tid w now)"
  note d = core_decision [OF assms]
  have n: "fst (tk_access_count tracker s' scope tid w now) = ?n"
    unfolding d(2) by (rule count_repeatable)
  have v: "view clk c' = (case dec of PROMOTED \<Rightarrow> (view clk c)((t, cid) \<mapsto> hash x) | DEMOTED \<Rightarrow> (view clk c)((t, cid) := None)
      | UNCHANGED \<Rightarrow> view clk c)" by (rule core_view [OF assms]) simp
  obtain r2 s2 c2 where e2: "evaluate_core tracker ops clk s' c' scope tid t cid x' promote demote w now = (r2, s2, c2)"
    using prod_cases3 by blast
  have "r2 = Inr (tier_rule ?n (view clk c' (t, cid) \<noteq> None) promote demote)"
    using core_decision(1) [OF assms(1) e2] n by simp
  moreover have "tier_rule ?n (view clk c' (t, cid) \<noteq> None) promote demote = UNCHANGED"
    using d(1) v assms(1) by (auto simp: tier_rule_def split: if_splits)
  ultimately show ?thesis using e2 by simp
qed

end

interpretation hf_tiering: tiering tenant_tracker_ops "hf_ops sha256 prefill" hf_view sha256
  for sha256 :: "string \<Rightarrow> string" and prefill :: "string \<Rightarrow> 'kv"
  by unfold_locales

interpretation ex_tiering: tiering tenant_tracker_ops "expiring_ops (hf_ops sha256 prefill)" "ex_view hf_view" sha256
  for sha256 :: "string \<Rightarrow> string" and prefill :: "string \<Rightarrow> 'kv"
  by unfold_locales

interpretation user_tiering: tiering user_tracker_ops "hf_ops sha256 prefill" hf_view sha256
  for sha256 :: "string \<Rightarrow> string" and prefill :: "string \<Rightarrow> 'kv"
  by unfold_locales

text \<open>
  C21. The hot tier follows the access counts with hysteresis. With the thresholds in order,
  \<^verbatim>\<open>TieringPolicy.evaluate\<close> promotes exactly a document that is not cached and whose count in
  the window has reached the promotion threshold, demotes exactly a cached one whose count is
  below the demotion threshold, and otherwise changes nothing; only this document's entry
  changes, and a promoted one holds the current content; the counts are not disturbed, and
  evaluating again at once changes nothing. With
  the thresholds out of order it raises and touches neither the tracker nor the cache.
\<close>

theorem tiering_policy_correct:
  assumes "tiering_evaluate tenant_tracker_ops (hf_ops sha256 prefill) clk s c t d provider promote demote w now = (r, s', c')"
  shows "if promote < demote then r = Inl hysteresis_error \<and> s' = s \<and> c' = c
    else let n = fst (access_count s t d w now); present = hf_contains c t d in
      r = Inr (if promote \<le> int n \<and> \<not> present then PROMOTED
               else if int n < demote \<and> present then DEMOTED else UNCHANGED) \<and>
      hf_lookup c' t d =
        (if promote \<le> int n \<and> \<not> present
         then Some \<lparr>ch_content_hash = sha256 (provider d), ch_kv_cache = prefill (provider d)\<rparr>
         else if int n < demote then None else hf_lookup c t d) \<and>
      (\<forall>k. k = (t, d) \<or> c' k = c k) \<and>
      (\<forall>d' w'. fst (access_count s' t d' w' now) = fst (access_count s t d' w' now)) \<and>
      fst (tiering_evaluate tenant_tracker_ops (hf_ops sha256 prefill) clk s' c' t d provider promote demote w now) =
        Inr UNCHANGED"
proof (cases "promote < demote")
  case True
  with assms show ?thesis by (simp add: tiering_evaluate_def)
next
  case False
  let ?n = "fst (access_count s t d w now)"
  let ?dec = "if promote \<le> int ?n \<and> \<not> hf_contains c t d then PROMOTED
               else if int ?n < demote \<and> hf_contains c t d then DEMOTED else UNCHANGED"
  from False have le: "demote \<le> promote" by simp
  note core = assms [unfolded tiering_is_core]
  have r: "r = Inr ?dec"
    using hf_tiering.core_decision(1) [OF le core]
    by (simp add: tier_rule_def tenant_tracker_ops_def hf_view_def hf_contains_def)
  have s': "s' = snd (access_count s t d w now)"
    using hf_tiering.core_decision(2) [OF le core] by (simp add: tenant_tracker_ops_def)
  have "fst (access_count s' t d' w' now) = fst (access_count s t d' w' now)" for d' w'
    unfolding s' using tenant_tracker.count_repeatable [of s t d w now t d' w'] by (simp add: tenant_tracker_ops_def)
  moreover have "fst (tiering_evaluate tenant_tracker_ops (hf_ops sha256 prefill) clk s' c' t d provider promote demote w now) = Inr UNCHANGED"
    using hf_tiering.core_settles [OF le core [unfolded r]] by (simp add: tiering_is_core)
  moreover have "c' = (if promote \<le> int ?n \<and> \<not> hf_contains c t d then hf_preload sha256 prefill c t d (provider d)
      else if int ?n < demote \<and> hf_contains c t d then hf_evict c t d else c)"
    using assms False by (auto simp: tiering_evaluate_def tenant_tracker_ops_def hf_ops_def case_prod_unfold split: if_splits)
  ultimately show ?thesis
    using False r by (auto simp: Let_def hf_preload_def hf_evict_def hf_lookup_def hf_contains_def split: option.splits)
qed

theorem tiering_policy_correct_witness:
  "let s = record_access (new_counter DEFAULT_RETENTION) 1 2 0;
       e = tiering_evaluate tenant_tracker_ops (hf_ops (\<lambda>x. x) (\<lambda>x. x)) 0 s Map.empty 1 2 (\<lambda>_. ''doc'') 1 1 10 5
   in fst e = Inr PROMOTED \<and> hf_lookup (snd (snd e)) 1 2 = Some \<lparr>ch_content_hash = ''doc'', ch_kv_cache = ''doc''\<rparr>"
proof -
  let ?s = "record_access (new_counter DEFAULT_RETENTION) 1 2 0"
  have n: "fst (access_count ?s 1 2 10 5) = 1"
    by (simp add: access_count_def sw_count_def record_access_def sw_record_def sw_get_def new_counter_def sw_prune_def
        DEFAULT_RETENTION_def days_def seconds_def in_window_def Let_def)
  obtain r s' c' where e: "tiering_evaluate tenant_tracker_ops (hf_ops (\<lambda>x. x) (\<lambda>x. x)) 0 ?s Map.empty 1 2 (\<lambda>_. ''doc'') 1 1 10 5
      = (r, s', c')" using prod_cases3 by blast
  show ?thesis unfolding Let_def e fst_conv snd_conv
    using tiering_policy_correct [OF e] n by (simp add: Let_def hf_contains_def)
qed

subsection \<open>A sync cycle leaves nothing stale\<close>

context frozen_cache
begin

lemma sync_step:
  assumes "m \<le> n"
  shows "map_option ch_content_hash (fst (fc_lookup ops m c t d)) = view m c (t, d)"
    and "view n (snd (fc_lookup ops m c t d)) = view n c"
    and "view n (fc_evict ops m (snd (fc_lookup ops m c t d)) t d) = (view n c)((t, d) := None)"
  using assms by (simp_all add: lookup_view lookup_frame evict_view)

lemma reconcile_view:
  "reconcile hash (view m c k) (auth d) d =
     (case view m c k of None \<Rightarrow> None
      | Some h \<Rightarrow> if h = hash (auth d) then None
                 else Some \<lparr>sc_document_id = d, sc_cached_content_hash = h, sc_authoritative_content_hash = hash (auth d)\<rparr>)"
  by (simp add: reconcile_def content_hash_def Let_def split: option.split)

lemma sync_run_view:
  assumes "mono clk" "sync_run ops hash clk i c t ds auth = (cs, c')" "clk (i + length ds) \<le> n"
  shows "view n c' k = (if fst k = t \<and> snd k \<in> set ds \<and> view n c k \<noteq> Some (hash (auth (snd k))) then None else view n c k)"
  using assms(2,3)
proof (induction ds arbitrary: i c cs)
  case (Cons d ds)
  have le: "clk i \<le> n" using monoD [OF assms(1), of i "i + length (d # ds)"] Cons.prems(2) by simp
  obtain hit c1 where l: "fc_lookup ops (clk i) c t d = (hit, c1)" by fastforce
  note st = sync_step [OF le, of c t d, unfolded l fst_conv snd_conv]
  have ex: "view n c (t, d) = None \<or> view n c (t, d) = view (clk i) c (t, d)" by (rule view_expires [OF le])
  show ?case
  proof (cases "reconcile hash (map_option ch_content_hash hit) (auth d) d")
    case None
    with Cons.prems l have "sync_run ops hash clk (Suc i) c1 t ds auth = (cs, c')" by simp
    from Cons.IH [OF this] Cons.prems(2) have "view n c' k =
        (if fst k = t \<and> snd k \<in> set ds \<and> view n c k \<noteq> Some (hash (auth (snd k))) then None else view n c k)"
      by (simp add: st(2))
    moreover have "view n c (t, d) \<in> {None, Some (hash (auth d))}"
      using None ex unfolding st(1) reconcile_view by (auto split: option.splits if_splits)
    ultimately show ?thesis by (cases k) (auto split: if_splits)
  next
    case (Some cf)
    with Cons.prems l obtain cs' where "sync_run ops hash clk (Suc i) (fc_evict ops (clk i) c1 t d) t ds auth = (cs', c')"
      by (auto split: prod.splits)
    from Cons.IH [OF this] Cons.prems(2) have "view n c' k =
        (if fst k = t \<and> snd k \<in> set ds \<and> ((view n c)((t, d) := None)) k \<noteq> Some (hash (auth (snd k))) then None
         else ((view n c)((t, d) := None)) k)"
      by (simp add: st(3))
    moreover have "view n c (t, d) \<noteq> Some (hash (auth d))"
      using Some ex unfolding st(1) reconcile_view by (auto split: option.splits if_splits)
    ultimately show ?thesis by (cases k) (auto split: if_splits)
  qed
qed simp

lemma sync_run_conflict:
  assumes "mono clk" "sync_run ops hash clk i c t ds auth = (cs, c')" "cf \<in> set cs"
  shows "sc_document_id cf \<in> set ds \<and> view (clk i) c (t, sc_document_id cf) = Some (sc_cached_content_hash cf) \<and>
    sc_authoritative_content_hash cf = hash (auth (sc_document_id cf)) \<and>
    sc_cached_content_hash cf \<noteq> sc_authoritative_content_hash cf"
  using assms(2,3)
proof (induction ds arbitrary: i c cs)
  case (Cons d ds)
  have le: "clk i \<le> clk (Suc i)" using monoD [OF assms(1)] by simp
  obtain hit c1 where l: "fc_lookup ops (clk i) c t d = (hit, c1)" by fastforce
  note st = sync_step [OF le, of c t d, unfolded l fst_conv snd_conv]
  have ex: "view (clk (Suc i)) c k = Some x \<Longrightarrow> view (clk i) c k = Some x" for k x
    using view_expires [OF le, of c k] by auto
  show ?case
  proof (cases "reconcile hash (map_option ch_content_hash hit) (auth d) d")
    case None
    with Cons.prems l have "sync_run ops hash clk (Suc i) c1 t ds auth = (cs, c')" by simp
    from Cons.IH [OF this Cons.prems(2)] show ?thesis by (auto simp: st(2) dest: ex)
  next
    case (Some cf')
    with Cons.prems l obtain cs' where r: "sync_run ops hash clk (Suc i) (fc_evict ops (clk i) c1 t d) t ds auth = (cs', c')"
      and cs: "cs = cf' # cs'" by (auto split: prod.splits)
    show ?thesis
    proof (cases "cf = cf'")
      case True
      with Some show ?thesis unfolding st(1) reconcile_view by (auto split: option.splits if_splits)
    next
      case False
      with cs Cons.prems(2) have "cf \<in> set cs'" by simp
      from Cons.IH [OF r this] show ?thesis by (auto simp: st(3) dest: ex split: if_splits)
    qed
  qed
qed simp

lemma sync_run_distinct:
  assumes "mono clk" "sync_run ops hash clk i c t ds auth = (cs, c')"
  shows "distinct (map sc_document_id cs)"
  using assms(2)
proof (induction ds arbitrary: i c cs)
  case (Cons d ds)
  have le: "clk i \<le> clk (Suc i)" using monoD [OF assms(1)] by simp
  obtain hit c1 where l: "fc_lookup ops (clk i) c t d = (hit, c1)" by fastforce
  note st = sync_step [OF le, of c t d, unfolded l fst_conv snd_conv]
  show ?case
  proof (cases "reconcile hash (map_option ch_content_hash hit) (auth d) d")
    case None
    with Cons.prems l show ?thesis by (auto intro: Cons.IH)
  next
    case (Some cf')
    with Cons.prems l obtain cs' where r: "sync_run ops hash clk (Suc i) (fc_evict ops (clk i) c1 t d) t ds auth = (cs', c')"
      and cs: "cs = cf' # cs'" by (auto split: prod.splits)
    have "sc_document_id cf' = d" using Some unfolding st(1) reconcile_view by (auto split: option.splits if_splits)
    moreover have "d \<notin> sc_document_id ` set cs'"
    proof
      assume "d \<in> sc_document_id ` set cs'"
      then obtain x where x: "x \<in> set cs'" "d = sc_document_id x" by blast
      from sync_run_conflict [OF assms(1) r x(1)] show False unfolding st(3) x(2) [symmetric] by simp
    qed
    ultimately show ?thesis using Cons.IH [OF r] cs by simp
  qed
qed simp

lemma sync_run_complete:
  assumes "mono clk" "sync_run ops hash clk i c t ds auth = (cs, c')" "clk (i + length ds) \<le> n"
    and "d \<in> set ds" "view n c (t, d) \<notin> {None, Some (hash (auth d))}"
  shows "d \<in> sc_document_id ` set cs"
  using assms(2,3,4,5)
proof (induction ds arbitrary: i c cs)
  case (Cons e ds)
  have le: "clk i \<le> n" using monoD [OF assms(1), of i "i + length (e # ds)"] Cons.prems(2) by simp
  obtain hit c1 where l: "fc_lookup ops (clk i) c t e = (hit, c1)" by fastforce
  note st = sync_step [OF le, of c t e, unfolded l fst_conv snd_conv]
  have ex: "view n c (t, e) = None \<or> view n c (t, e) = view (clk i) c (t, e)" by (rule view_expires [OF le])
  show ?case
  proof (cases "reconcile hash (map_option ch_content_hash hit) (auth e) e")
    case None
    with Cons.prems l have "sync_run ops hash clk (Suc i) c1 t ds auth = (cs, c')" by simp
    moreover have "view n c (t, e) \<in> {None, Some (hash (auth e))}"
      using None ex unfolding st(1) reconcile_view by (auto split: option.splits if_splits)
    ultimately show ?thesis using Cons.IH [of "Suc i" c1 cs] Cons.prems by (auto simp: st(2))
  next
    case (Some cf)
    with Cons.prems l obtain cs' where r: "sync_run ops hash clk (Suc i) (fc_evict ops (clk i) c1 t e) t ds auth = (cs', c')"
      and cs: "cs = cf # cs'" by (auto split: prod.splits)
    have "sc_document_id cf = e" using Some unfolding st(1) reconcile_view by (auto split: option.splits if_splits)
    with Cons.IH [OF r] Cons.prems cs show ?thesis by (cases "d = e") (auto simp: st(3))
  qed
qed simp

end

text \<open>
  C4. After a sync cycle no tracked document has a stale copy. On the expiring cache, with a
  clock that does not go back, \<^verbatim>\<open>SyncCycle.run\<close> removes exactly the copies of the given
  documents that differ from the authoritative content: afterwards a tracked document is
  absent or fresh, a fresh copy is kept, and no other document and no other tenant is
  touched. Each conflict it reports is a real one, with both hashes, no document is reported
  twice however often it is listed, and a stale copy that does not expire during the run is
  reported.
\<close>

theorem sync_cycle_correct:
  assumes "mono clk" and "clk (length ds) \<le> n"
    and "sync_run (expiring_ops (hf_ops sha256 prefill)) sha256 clk 0 c t ds auth = (cs, c')"
  shows "(\<forall>k. ex_view hf_view n c' k =
        (if fst k = t \<and> snd k \<in> set ds \<and> ex_view hf_view n c k \<noteq> Some (sha256 (auth (snd k))) then None
         else ex_view hf_view n c k)) \<and>
    distinct (map sc_document_id cs) \<and>
    (\<forall>cf \<in> set cs. sc_document_id cf \<in> set ds \<and>
       ex_view hf_view (clk 0) c (t, sc_document_id cf) = Some (sc_cached_content_hash cf) \<and>
       sc_authoritative_content_hash cf = sha256 (auth (sc_document_id cf)) \<and>
       sc_cached_content_hash cf \<noteq> sc_authoritative_content_hash cf) \<and>
    (\<forall>d \<in> set ds. ex_view hf_view n c (t, d) \<in> {None, Some (sha256 (auth d))} \<or> d \<in> sc_document_id ` set cs)"
proof (intro conjI allI)
  have n: "clk (0 + length ds) \<le> n" using assms(2) by simp
  show "ex_view hf_view n c' k =
      (if fst k = t \<and> snd k \<in> set ds \<and> ex_view hf_view n c k \<noteq> Some (sha256 (auth (snd k))) then None
       else ex_view hf_view n c k)" for k
    by (rule hfx.ex.sync_run_view [OF assms(1,3) n])
  show "distinct (map sc_document_id cs)" by (rule hfx.ex.sync_run_distinct [OF assms(1,3)])
  show "\<forall>cf \<in> set cs. sc_document_id cf \<in> set ds \<and>
       ex_view hf_view (clk 0) c (t, sc_document_id cf) = Some (sc_cached_content_hash cf) \<and>
       sc_authoritative_content_hash cf = sha256 (auth (sc_document_id cf)) \<and>
       sc_cached_content_hash cf \<noteq> sc_authoritative_content_hash cf"
    by (rule ballI, rule hfx.ex.sync_run_conflict [OF assms(1,3)])
  show "\<forall>d \<in> set ds. ex_view hf_view n c (t, d) \<in> {None, Some (sha256 (auth d))} \<or> d \<in> sc_document_id ` set cs"
    using hfx.ex.sync_run_complete [OF assms(1,3) n] by blast
qed

theorem sync_cycle_correct_witness:
  "let r = sync_run (expiring_ops (hf_ops (\<lambda>s. s) (\<lambda>_. ()))) (\<lambda>s. s) (\<lambda>i. 3) 0
     \<lparr>ex_inner = [(1, 2) \<mapsto> (''old'', ()), (1, 4) \<mapsto> (''new'', ())], ex_expiry = Map.empty\<rparr> 1 [2, 4, 2] (\<lambda>_. ''new'')
   in ex_view hf_view 5 (snd r) (1, 2) = None \<and> ex_view hf_view 5 (snd r) (1, 4) = Some ''new'' \<and>
      distinct (map sc_document_id (fst r))"
proof -
  let ?c = "\<lparr>ex_inner = [(1, 2) \<mapsto> (''old'', ()), (1, 4) \<mapsto> (''new'', ())], ex_expiry = Map.empty\<rparr>"
  obtain cs c' where r: "sync_run (expiring_ops (hf_ops (\<lambda>s. s) (\<lambda>_. ()))) (\<lambda>s. s) (\<lambda>i. 3) 0 ?c 1 [2, 4, 2] (\<lambda>_. ''new'') = (cs, c')"
    by fastforce
  have "mono (\<lambda>i::nat. 3::int)" by (simp add: mono_def)
  from sync_cycle_correct [OF this _ r, of 5] show ?thesis
    unfolding Let_def r by (simp add: ex_view_def hf_view_def ex_live_def)
qed

text \<open>The cycle over promoted memory is the same cycle on the derived cache ids.\<close>

lemma cag_mag_sync_is_sync:
  assumes "\<forall>k \<in> set ks. auth' (cache_key uuid5 u k) = auth k"
  shows "sync_run cache sha256 clk i c t (map (cache_key uuid5 u) ks) auth' =
      (map snd (fst (cag_mag_sync_run uuid5 cache sha256 clk i c t u ks auth)),
       snd (cag_mag_sync_run uuid5 cache sha256 clk i c t u ks auth))"
  using assms by (induction ks arbitrary: i c) (auto simp: Let_def case_prod_unfold split: option.split)

lemma cag_mag_sync_keys:
  "(k, cf) \<in> set (fst (cag_mag_sync_run uuid5 cache sha256 clk i c t u ks auth)) \<Longrightarrow>
     k \<in> set ks \<and> sc_document_id cf = cache_key uuid5 u k"
  by (induction ks arbitrary: i c)
    (auto simp: Let_def case_prod_unfold reconcile_def split: option.splits if_splits)

text \<open>
  The cached copies of a user's promoted memory are brought in line with memory, and no
  other entry of the cache is touched. \<^verbatim>\<open>CagMagSyncCycle.run\<close> removes exactly the entries of
  the given keys that differ from the current memory content, keeps the fresh ones, leaves
  every other cache id alone (with no id collision that includes all entries of other
  users), and reports every key with a stale entry once, under the caller's own key.
\<close>

theorem cag_mag_sync_correct:
  assumes "mono clk" and "clk (length ks) \<le> n" and inj: "inj_on (cache_key uuid5 u) (set ks)"
    and run: "cag_mag_sync_run uuid5 (expiring_ops (hf_ops sha256 prefill)) sha256 clk 0 c t u ks auth = (cs, c')"
  shows "(\<forall>k \<in> set ks. ex_view hf_view n c' (t, cache_key uuid5 u k) =
        (if ex_view hf_view n c (t, cache_key uuid5 u k) = Some (sha256 (auth k)) then Some (sha256 (auth k)) else None)) \<and>
    (\<forall>t' d. t' = t \<and> d \<in> cache_key uuid5 u ` set ks \<or> ex_view hf_view n c' (t', d) = ex_view hf_view n c (t', d)) \<and>
    distinct (map fst cs) \<and>
    (\<forall>(k, cf) \<in> set cs. k \<in> set ks \<and> sc_document_id cf = cache_key uuid5 u k \<and>
       sc_cached_content_hash cf \<noteq> sha256 (auth k)) \<and>
    (\<forall>k \<in> set ks. ex_view hf_view n c (t, cache_key uuid5 u k) \<in> {None, Some (sha256 (auth k))} \<or> k \<in> fst ` set cs)"
proof -
  let ?ck = "cache_key uuid5 u" and ?o = "expiring_ops (hf_ops sha256 prefill)"
  let ?auth = "\<lambda>d. auth (inv_into (set ks) ?ck d)"
  have a: "\<forall>k \<in> set ks. ?auth (?ck k) = auth k" using inj by simp
  have r: "sync_run ?o sha256 clk 0 c t (map ?ck ks) ?auth = (map snd cs, c')"
    using cag_mag_sync_is_sync [OF a, of ?o sha256 clk 0 c t] run by simp
  have n: "clk (0 + length (map ?ck ks)) \<le> n" using assms(2) by simp
  note v = hfx.ex.sync_run_view [OF assms(1) r n] and cf = hfx.ex.sync_run_conflict [OF assms(1) r]
  have keys: "k \<in> set ks \<and> sc_document_id f = ?ck k" if "(k, f) \<in> set cs" for k f
    using cag_mag_sync_keys [of k f uuid5 ?o sha256 clk 0 c t u ks auth] that run by simp
  have ids: "map sc_document_id (map snd cs) = map (?ck \<circ> fst) cs"
    using keys by auto
  have "distinct (map fst cs)"
    using hfx.ex.sync_run_distinct [OF assms(1) r] unfolding ids by (metis distinct_map list.map_comp)
  moreover have "\<forall>k \<in> set ks. ex_view hf_view n c' (t, ?ck k) =
      (if ex_view hf_view n c (t, ?ck k) = Some (sha256 (auth k)) then Some (sha256 (auth k)) else None)"
    using v inj by auto
  moreover have "t' = t \<and> d \<in> ?ck ` set ks \<or> ex_view hf_view n c' (t', d) = ex_view hf_view n c (t', d)" for t' d
    using v by auto
  moreover have "k \<in> set ks \<and> sc_document_id f = ?ck k \<and> sc_cached_content_hash f \<noteq> sha256 (auth k)"
    if "(k, f) \<in> set cs" for k f
    using keys [OF that] cf [of f] that inj by force
  moreover have "ex_view hf_view n c (t, ?ck k) \<in> {None, Some (sha256 (auth k))} \<or> k \<in> fst ` set cs"
    if k: "k \<in> set ks" for k
  proof (rule disjCI)
    assume "k \<notin> fst ` set cs"
    then have "?ck k \<notin> sc_document_id ` set (map snd cs)"
      using keys inj_onD [OF inj _ k] by (force simp: image_iff)
    with hfx.ex.sync_run_complete [OF assms(1) r n, of "?ck k"] k inj
    show "ex_view hf_view n c (t, ?ck k) \<in> {None, Some (sha256 (auth k))}" by auto
  qed
  ultimately show ?thesis by blast
qed

theorem cag_mag_sync_correct_witness:
  "let c = \<lparr>ex_inner = [(1, 97) \<mapsto> (''old'', ())], ex_expiry = Map.empty\<rparr>;
       r = cag_mag_sync_run (\<lambda>s. of_char (last s)) (expiring_ops (hf_ops (\<lambda>s. s) (\<lambda>_. ()))) (\<lambda>s. s) (\<lambda>i. 3) 0 c 1 7
             [''a'', ''b'', ''a''] (\<lambda>_. ''new'')
   in distinct (map fst (fst r)) \<and> ex_view hf_view 5 (snd r) (1, 97) = None"
proof -
  let ?c = "\<lparr>ex_inner = [(1, 97) \<mapsto> (''old'', ())], ex_expiry = Map.empty\<rparr>" and ?u = "\<lambda>s. of_char (last s) :: nat"
  obtain cs c' where r: "cag_mag_sync_run ?u (expiring_ops (hf_ops (\<lambda>s. s) (\<lambda>_. ()))) (\<lambda>s. s) (\<lambda>i. 3) 0 ?c 1 7
      [''a'', ''b'', ''a''] (\<lambda>_. ''new'') = (cs, c')" by fastforce
  have m: "mono (\<lambda>i::nat. 3::int)" by (simp add: mono_def)
  have k: "cache_key ?u 7 ''a'' = 97" "cache_key ?u 7 ''b'' = 98" by (simp_all add: cache_key_def)
  have i: "inj_on (cache_key ?u 7) (set [''a'', ''b'', ''a''])" by (simp add: inj_on_def k)
  have old: "ex_view hf_view 5 ?c (1, 97) = Some ''old''" by (simp add: ex_view_def hf_view_def ex_live_def)
  from cag_mag_sync_correct [OF m _ i r, of 5] k old show ?thesis unfolding Let_def r by simp
qed

subsection \<open>The warm store\<close>

text \<open>
  What the memory tiering and sync rely on. \<open>member s t u\<close>: what user \<open>u\<close> has in the store
  belongs to tenant \<open>t\<close>. A demotion takes effect once both clocks have reached the instant
  it wrote.
\<close>

type_synonym warm_key = "uuid \<times> uuid \<times> uuid"

locale warm_store =
  fixes store :: "'w warm_store_ops"
    and view :: "datetime \<Rightarrow> 'w \<Rightarrow> warm_key \<Rightarrow> string option"
    and hash :: "string \<Rightarrow> string"
    and member :: "'w \<Rightarrow> uuid \<Rightarrow> uuid \<Rightarrow> bool"
  assumes lookup_view: "ws_lookup store n w t u d =
      map_option (\<lambda>x. \<lparr>we_content_hash = hash x, we_content = x\<rparr>) (view n w (t, u, d))"
    and contains_view: "ws_contains store n w t u d \<longleftrightarrow> view n w (t, u, d) \<noteq> None"
    and promote_view: "member w t u \<Longrightarrow> fst (ws_promote store w t u d x) = Inr () \<and>
      view n (snd (ws_promote store w t u d x)) = (view n w)((t, u, d) \<mapsto> x)"
    and promote_member: "member w t u \<Longrightarrow> member w t' u' \<Longrightarrow> u' \<noteq> u \<or> t' = t \<Longrightarrow>
      member (snd (ws_promote store w t u d x)) t' u'"
    and demote_returns: "fst (ws_demote store m db w t u d) = Inr ()"
    and demote_view: "m \<le> n \<Longrightarrow> db \<le> n \<Longrightarrow>
      view n (snd (ws_demote store m db w t u d)) = (view n w)((t, u, d) := None)"
    and demote_member: "member w t' u' \<Longrightarrow> member (snd (ws_demote store m db w t u d)) t' u'"
    and view_expires: "m \<le> n \<Longrightarrow> view n w k = None \<or> view n w k = view m w k"
begin

lemma mag_sync_run_Cons:
  "mag_sync_run store hash clk i w t u (d # ds) auth =
     (case reconcile hash (map_option we_content_hash (ws_lookup store (fst (clk i)) w t u d)) (auth d) d of
        None \<Rightarrow> mag_sync_run store hash clk (Suc i) w t u ds auth
      | Some cf \<Rightarrow>
          (let r = mag_sync_run store hash clk (Suc i) (snd (ws_demote store (fst (clk i)) (snd (clk i)) w t u d)) t u ds auth
           in (map_sum id (Cons cf) (fst r), snd r)))"
proof -
  obtain x w1 where d: "ws_demote store (fst (clk i)) (snd (clk i)) w t u d = (x, w1)" by fastforce
  with demote_returns [of "fst (clk i)" "snd (clk i)" w t u d] have "x = Inr ()" by simp
  with d show ?thesis
    by (auto simp: Let_def split: option.split prod.split sum.split)
qed

lemma mag_sync_run_returns: "\<exists>cs. fst (mag_sync_run store hash clk i w t u ds auth) = Inr cs"
proof (induction ds arbitrary: i w)
  case (Cons d ds)
  let ?w = "snd (ws_demote store (fst (clk i)) (snd (clk i)) w t u d)"
  obtain cs cs' where "fst (mag_sync_run store hash clk (Suc i) w t u ds auth) = Inr cs"
    "fst (mag_sync_run store hash clk (Suc i) ?w t u ds auth) = Inr cs'" using Cons.IH by metis
  then show ?case by (simp add: mag_sync_run_Cons Let_def split: option.split del: mag_sync_run.simps)
qed simp

lemma mag_sync_run_view:
  assumes "\<forall>j. fst (clk j) \<le> n \<and> snd (clk j) \<le> n"
  shows "view n (snd (mag_sync_run store hash clk i w t u ds auth)) k =
    (if fst k = t \<and> fst (snd k) = u \<and> snd (snd k) \<in> set ds \<and>
        map_option hash (view n w k) \<noteq> Some (hash (auth (snd (snd k)))) then None else view n w k)"
proof (induction ds arbitrary: i w)
  case (Cons d ds)
  have ex: "view n w (t, u, d) = None \<or> view n w (t, u, d) = view (fst (clk i)) w (t, u, d)"
    using view_expires assms by blast
  let ?w = "snd (ws_demote store (fst (clk i)) (snd (clk i)) w t u d)"
  have dv: "view n ?w = (view n w)((t, u, d) := None)" using demote_view assms by blast
  let ?r = "reconcile hash (map_option we_content_hash (ws_lookup store (fst (clk i)) w t u d)) (auth d) d"
  have rc: "?r = None \<longleftrightarrow> view (fst (clk i)) w (t, u, d) = None \<or>
      map_option hash (view (fst (clk i)) w (t, u, d)) = Some (hash (auth d))"
    by (auto simp: lookup_view reconcile_def content_hash_def Let_def split: option.splits)
  show ?case
  proof (cases ?r)
    case None
    with rc ex have "view n w (t, u, d) = None \<or> map_option hash (view n w (t, u, d)) = Some (hash (auth d))" by auto
    moreover have "snd (mag_sync_run store hash clk i w t u (d # ds) auth) = snd (mag_sync_run store hash clk (Suc i) w t u ds auth)"
      using None by (simp add: mag_sync_run_Cons del: mag_sync_run.simps)
    ultimately show ?thesis using Cons.IH [of "Suc i" w] by (cases k) (auto split: if_splits)
  next
    case (Some cf)
    with rc ex have "map_option hash (view n w (t, u, d)) \<noteq> Some (hash (auth d))" by auto
    moreover have "snd (mag_sync_run store hash clk i w t u (d # ds) auth) = snd (mag_sync_run store hash clk (Suc i) ?w t u ds auth)"
      using Some by (simp add: mag_sync_run_Cons Let_def del: mag_sync_run.simps)
    ultimately show ?thesis using Cons.IH [of "Suc i" ?w] by (cases k) (auto simp: dv split: if_splits)
  qed
qed simp

end

locale warm_tiering = frequency_tracker tracker + warm_store store view hash member
  for tracker :: "('s, uuid \<times> uuid) tracker_ops" and store :: "'w warm_store_ops" and view hash member
begin

lemma mag_tiering_step:
  assumes "demote \<le> promote" "member w t u"
    and "mag_tiering_evaluate tracker store clk db s w t u d provider promote demote win now = (r, s', w')"
  shows "r = Inr (tier_rule (fst (tk_access_count tracker s (t, u) d win now)) (view clk w (t, u, d) \<noteq> None) promote demote)"
    and "s' = snd (tk_access_count tracker s (t, u) d win now)"
    and "clk \<le> n \<Longrightarrow> db \<le> n \<Longrightarrow> view n w' = (case r of Inr PROMOTED \<Rightarrow> (view n w)((t, u, d) \<mapsto> provider d)
        | Inr DEMOTED \<Rightarrow> (view n w)((t, u, d) := None) | _ \<Rightarrow> view n w)"
    and "member w' t u"
proof -
  obtain wp where p: "ws_promote store w t u d (provider d) = (Inr (), wp)"
    "\<And>n. view n wp = (view n w)((t, u, d) \<mapsto> provider d)" "member wp t u"
    using promote_view [OF assms(2), of d "provider d"] promote_member [OF assms(2,2), of d "provider d"]
    by (metis prod.collapse)
  obtain wd where d: "ws_demote store clk db w t u d = (Inr (), wd)"
    "clk \<le> n \<Longrightarrow> db \<le> n \<Longrightarrow> view n wd = (view n w)((t, u, d) := None)" "member wd t u"
    using demote_returns [of clk db w t u d] demote_view [of clk n db w t u d] demote_member [OF assms(2)]
    by (metis prod.collapse)
  show "r = Inr (tier_rule (fst (tk_access_count tracker s (t, u) d win now)) (view clk w (t, u, d) \<noteq> None) promote demote)"
    "s' = snd (tk_access_count tracker s (t, u) d win now)" "member w' t u"
    using assms p d by (auto simp: mag_tiering_evaluate_def Let_def case_prod_unfold contains_view tier_rule_def split: if_splits)
  show "clk \<le> n \<Longrightarrow> db \<le> n \<Longrightarrow> view n w' = (case r of Inr PROMOTED \<Rightarrow> (view n w)((t, u, d) \<mapsto> provider d)
      | Inr DEMOTED \<Rightarrow> (view n w)((t, u, d) := None) | _ \<Rightarrow> view n w)"
    using assms p d by (auto simp: mag_tiering_evaluate_def Let_def case_prod_unfold contains_view split: if_splits)
qed

end

text \<open>The implementation on semantic memory.\<close>

definition warm_view :: "datetime \<Rightarrow> mag_store \<Rightarrow> warm_key \<Rightarrow> string option" where
  "warm_view n st = (\<lambda>(t, u, d).
     case find_by_key (ms_repo st) u (fact_key_for d) t of
       None \<Rightarrow> None
     | Some f \<Rightarrow> if sql_live n f then Some (sm_fact_value f) else None)"

definition warm_member :: "mag_store \<Rightarrow> uuid \<Rightarrow> uuid \<Rightarrow> bool" where
  "warm_member st t u \<longleftrightarrow> (\<forall>k row. map_of (sr_facts (ms_repo st)) (u, k) = Some row \<longrightarrow> fr_tenant row = t)"

lemma fact_key_for_eq [simp]: "fact_key_for d = fact_key_for d' \<longleftrightarrow> d = d'"
  by (simp add: fact_key_for_def)

lemma warm_lookup_view:
  "warm_lookup sha256 n st t u d = map_option (\<lambda>x. \<lparr>we_content_hash = sha256 x, we_content = x\<rparr>) (warm_view n st (t, u, d))"
  by (auto simp: warm_lookup_def warm_view_def sql_live_def content_hash_def split: option.splits)

lemma warm_demote_repo:
  "warm_demote sha256 m db st t u d =
     (Inr (), if warm_view m st (t, u, d) = None then st
              else st\<lparr>ms_repo := snd (repo_invalidate db (ms_repo st) u (fact_key_for d) t None)\<rparr>)"
  by (auto simp: warm_demote_def warm_lookup_view warm_view_def find_by_key_def repo_invalidate_def repo_update_def Let_def
      split: option.splits)

lemma find_after_invalidate:
  "find_by_key (snd (repo_invalidate db r u k t None)) u' k' t' =
     (if (u', k', t') = (u, k, t) then map_option (sm_valid_until_update (\<lambda>_. Some db)) (find_by_key r u k t)
      else find_by_key r u' k' t')"
proof (cases "repo_row r u k t")
  case None
  then show ?thesis by (auto simp: repo_invalidate_def repo_update_def Let_def find_by_key_def)
next
  case (Some row)
  then have row: "map_of (sr_facts r) (u, k) = Some row" "fr_tenant row = t" by (simp_all add: repo_row_Some)
  show ?thesis
  proof (cases "(u', k') = (u, k)")
    case True
    with Some row show ?thesis
      by (cases "t' = t") (simp_all add: repo_invalidate_def repo_update_def Let_def find_by_key_def repo_row_def row_to_fact_def coalesce_def)
  next
    case False
    with Some show ?thesis by (auto simp: repo_invalidate_def repo_update_def Let_def find_by_key_def repo_row_def)
  qed
qed

lemma warm_demote_view:
  assumes "m \<le> n" "db \<le> n"
  shows "warm_view n (snd (warm_demote sha256 m db st t u d)) = (warm_view n st)((t, u, d) := None)"
proof (rule ext)
  fix k :: warm_key
  obtain t' u' d' where k: "k = (t', u', d')" using prod_cases3 by blast
  have live: "sql_live n f \<Longrightarrow> sql_live m f" for f
    using assms(1) by (auto simp: sql_live_def split: option.splits)
  show "warm_view n (snd (warm_demote sha256 m db st t u d)) k = ((warm_view n st)((t, u, d) := None)) k"
    using assms(2) live unfolding k
    by (auto simp: warm_demote_repo warm_view_def find_after_invalidate sql_live_def split: option.splits if_splits)
qed

lemma warm_promote_repo:
  "\<exists>mem. sm_user_id mem = u \<and> sm_fact_key mem = fact_key_for d \<and> sm_fact_value mem = x \<and> sql_live n mem \<and>
     fst (warm_promote env False st t u d x) = Inr () \<and>
     ms_repo (snd (warm_promote env False st t u d x)) = repo_save (ms_repo st) mem t"
  by (intro exI [of _ "\<lparr>sm_fact_id = semantic_fact_id env u (fact_key_for d), sm_user_id = u, sm_fact_key = fact_key_for d,
      sm_fact_value = x, sm_embedding = env_embed env x, sm_confidence = Fin 1, sm_source = [], sm_valid_until = None,
      sm_archived_at = None\<rparr>"])
    (simp add: warm_promote_def Let_def attempt_write_def sql_live_def)

lemma warm_promote_returns: "fst (warm_promote env False st t u d x) = Inr ()"
  by (simp add: warm_promote_def Let_def attempt_write_def)

lemma warm_demote_returns: "fst (warm_demote sha256 m db st t u d) = Inr ()"
  by (simp add: warm_demote_repo)

lemma warm_promote_view:
  assumes "warm_member st t u"
  shows "warm_view n (snd (warm_promote env False st t u d x)) = (warm_view n st)((t, u, d) \<mapsto> x)"
proof (rule ext)
  fix k :: warm_key
  obtain t' u' d' where k: "k = (t', u', d')" using prod_cases3 by blast
  obtain mem where mem: "sm_user_id mem = u" "sm_fact_key mem = fact_key_for d" "sm_fact_value mem = x" "sql_live n mem"
    "ms_repo (snd (warm_promote env False st t u d x)) = repo_save (ms_repo st) mem t"
    using warm_promote_repo by blast
  show "warm_view n (snd (warm_promote env False st t u d x)) k = ((warm_view n st)((t, u, d) \<mapsto> x)) k"
    using assms mem unfolding k warm_member_def
    by (auto simp: warm_view_def find_by_key_def repo_row_def map_of_repo_save row_to_fact_def sql_live_def
        split: option.splits)
qed

lemma warm_member_promote:
  assumes "warm_member st t u" "warm_member st t' u'" "u' \<noteq> u \<or> t' = t"
  shows "warm_member (snd (warm_promote env False st t u d x)) t' u'"
proof -
  obtain mem where mem: "sm_user_id mem = u" "ms_repo (snd (warm_promote env False st t u d x)) = repo_save (ms_repo st) mem t"
    using warm_promote_repo by blast
  show ?thesis
    unfolding warm_member_def mem(2) map_of_repo_save
  proof (intro allI impI)
    fix k row
    assume r: "((map_of (sr_facts (ms_repo st)))((sm_user_id mem, sm_fact_key mem) \<mapsto>
        \<lparr>fr_tenant = case map_of (sr_facts (ms_repo st)) (sm_user_id mem, sm_fact_key mem) of None \<Rightarrow> t | Some old \<Rightarrow> fr_tenant old,
         fr_fact = mem\<rparr>)) (u', k) = Some row"
    show "fr_tenant row = t'"
    proof (cases "(u', k) = (sm_user_id mem, sm_fact_key mem)")
      case True
      with r assms mem(1) show ?thesis by (auto simp: warm_member_def split: option.splits)
    next
      case False
      with r have "map_of (sr_facts (ms_repo st)) (u', k) = Some row" by (simp split: if_splits)
      with assms(2) show ?thesis by (simp add: warm_member_def)
    qed
  qed
qed

lemma warm_member_demote: "warm_member st t' u' \<Longrightarrow> warm_member (snd (warm_demote sha256 m db st t u d)) t' u'"
  by (auto simp: warm_member_def warm_demote_repo repo_invalidate_def repo_update_def Let_def repo_row_Some split: option.splits if_splits)

interpretation memory_store: warm_store "semantic_memory_warm_store env sha256 False" warm_view sha256 warm_member
  for env :: mag_env and sha256 :: "string \<Rightarrow> string"
proof unfold_locales
  show "warm_view n w k = None \<or> warm_view n w k = warm_view m w k" if "m \<le> n" for m n w k
    using that by (cases k) (auto simp: warm_view_def sql_live_def split: option.splits)
qed (auto simp: semantic_memory_warm_store_def warm_lookup_view warm_contains_def warm_promote_view warm_promote_returns
    warm_member_promote warm_demote_view warm_member_demote warm_demote_returns)

interpretation memory_tiering: warm_tiering user_tracker_ops "semantic_memory_warm_store env sha256 False" warm_view sha256 warm_member
  for env :: mag_env and sha256 :: "string \<Rightarrow> string"
  by unfold_locales

text \<open>
  The memory tier follows a user's access counts with hysteresis, and its store keeps
  what it is given. With the thresholds in order and a user who belongs to the tenant,
  \<^verbatim>\<open>MagTieringPolicy.evaluate\<close> on \<^verbatim>\<open>SemanticMemoryWarmStore\<close> never raises; it promotes
  exactly a cold document at or above the promotion threshold, whose content a lookup then
  returns; it demotes exactly a warm one below the demotion threshold, which is then
  absent for readers whose clock has reached the database's; and no other document, user or tenant is affected. A
  second evaluation right after changes nothing.
\<close>

theorem mag_tiering_correct:
  assumes "demote \<le> promote" and "warm_member w t u" and "clk \<le> clk'" "db \<le> clk'"
    and "mag_tiering_evaluate user_tracker_ops (semantic_memory_warm_store env sha256 False) clk db s w t u d provider
       promote demote win now = (r, s', w')"
  shows "r = Inr (if promote \<le> int (fst (user_access_count s t u d win now)) \<and> \<not> warm_contains sha256 clk w t u d then PROMOTED
               else if int (fst (user_access_count s t u d win now)) < demote \<and> warm_contains sha256 clk w t u d then DEMOTED
               else UNCHANGED) \<and>
    warm_lookup sha256 clk' w' t u d =
      (case r of Inr PROMOTED \<Rightarrow> Some \<lparr>we_content_hash = sha256 (provider d), we_content = provider d\<rparr>
       | Inr DEMOTED \<Rightarrow> None | _ \<Rightarrow> warm_lookup sha256 clk' w t u d) \<and>
    (\<forall>t' u' d'. (t', u', d') = (t, u, d) \<or> warm_lookup sha256 clk' w' t' u' d' = warm_lookup sha256 clk' w t' u' d') \<and>
    (r = Inr UNCHANGED \<or>
     fst (mag_tiering_evaluate user_tracker_ops (semantic_memory_warm_store env sha256 False) clk' db' s' w' t u d provider
       promote demote win now) = Inr UNCHANGED)"
proof -
  let ?n = "fst (user_access_count s t u d win now)" and ?p = "warm_view clk w (t, u, d) \<noteq> None"
  note step = memory_tiering.mag_tiering_step [OF assms(1,2,5)]
  have cnt: "fst (tk_access_count user_tracker_ops s (t, u) d win now) = ?n" by (simp add: user_tracker_ops_def)
  have r: "r = Inr (tier_rule ?n ?p promote demote)" using step(1) by (simp add: cnt)
  have v: "warm_view clk' w' = (case r of Inr PROMOTED \<Rightarrow> (warm_view clk' w)((t, u, d) \<mapsto> provider d)
      | Inr DEMOTED \<Rightarrow> (warm_view clk' w)((t, u, d) := None) | _ \<Rightarrow> warm_view clk' w)"
    by (rule step(3) [OF assms(3,4)])
  obtain r2 s2 w2 where e2: "mag_tiering_evaluate user_tracker_ops (semantic_memory_warm_store env sha256 False) clk' db' s' w' t u d
      provider promote demote win now = (r2, s2, w2)" using prod_cases3 by blast
  have "fst (tk_access_count user_tracker_ops s' (t, u) d win now) = ?n"
    unfolding step(2) user_tracker.count_repeatable by (rule cnt)
  then have r2: "r2 = Inr (tier_rule ?n (warm_view clk' w' (t, u, d) \<noteq> None) promote demote)"
    using memory_tiering.mag_tiering_step(1) [OF assms(1) step(4) e2] by simp
  have "r = Inr UNCHANGED \<or> r2 = Inr UNCHANGED"
    using r2 v assms(1) unfolding r by (auto simp: tier_rule_def split: if_splits)
  moreover have "warm_contains sha256 clk w t u d \<longleftrightarrow> ?p" by (simp add: warm_contains_def warm_lookup_view)
  ultimately show ?thesis
    using r v e2 by (auto simp: tier_rule_def warm_lookup_view split: tier_decision.splits if_splits)
qed

theorem mag_tiering_correct_witness:
  "let s = user_record_access (new_counter DEFAULT_RETENTION) 9 1 2 0;
       e = mag_tiering_evaluate user_tracker_ops (semantic_memory_warm_store ex_env (\<lambda>x. x) False) 5 5 s empty_store 9 1 2
             (\<lambda>_. ''doc'') 1 1 10 5
   in fst e = Inr PROMOTED \<and> warm_lookup (\<lambda>x. x) 6 (snd (snd e)) 9 1 2 = Some \<lparr>we_content_hash = ''doc'', we_content = ''doc''\<rparr>"
proof -
  let ?s = "user_record_access (new_counter DEFAULT_RETENTION) 9 1 2 0"
  have n: "fst (user_access_count ?s 9 1 2 10 5) = 1"
    by (simp add: user_access_count_def sw_count_def user_record_access_def sw_record_def sw_get_def new_counter_def
        sw_prune_def DEFAULT_RETENTION_def days_def seconds_def in_window_def Let_def)
  obtain r s' w' where e: "mag_tiering_evaluate user_tracker_ops (semantic_memory_warm_store ex_env (\<lambda>x. x) False) 5 5 ?s empty_store 9 1 2
      (\<lambda>_. ''doc'') 1 1 10 5 = (r, s', w')" using prod_cases3 by blast
  have m: "warm_member empty_store 9 1" by (simp add: warm_member_def empty_store_def)
  have c: "\<not> warm_contains (\<lambda>x. x) 5 empty_store 9 1 2"
    by (simp add: warm_contains_def warm_lookup_def find_by_key_def repo_row_def empty_store_def)
  show ?thesis unfolding Let_def e fst_conv snd_conv
    using mag_tiering_correct [OF _ m _ _ e, of 6] n c by simp
qed

text \<open>
  After a memory sync cycle nothing stale is left in the warm tier, and the cycle always
  completes. \<^verbatim>\<open>MagSyncCycle.run\<close> on \<^verbatim>\<open>SemanticMemoryWarmStore\<close> never raises, although the
  repository's update does for a missing row; for a reader whose clock has reached those of
  the run, the given documents of the user are absent or fresh, fresh ones are kept, and
  nothing else has changed.
\<close>

theorem mag_sync_correct:
  assumes "\<forall>j. fst (clk j) \<le> n \<and> snd (clk j) \<le> n"
  shows "let e = mag_sync_run (semantic_memory_warm_store env sha256 False) sha256 clk 0 w t u ds auth in
    (\<exists>cs. fst e = Inr cs) \<and>
    (\<forall>d \<in> set ds. map_option we_content_hash (warm_lookup sha256 n (snd e) t u d) =
       (if map_option we_content_hash (warm_lookup sha256 n w t u d) = Some (sha256 (auth d))
        then Some (sha256 (auth d)) else None)) \<and>
    (\<forall>t' u' d. t' = t \<and> u' = u \<and> d \<in> set ds \<or> warm_lookup sha256 n (snd e) t' u' d = warm_lookup sha256 n w t' u' d)"
proof -
  let ?e = "mag_sync_run (semantic_memory_warm_store env sha256 False) sha256 clk 0 w t u ds auth"
  note v = memory_store.mag_sync_run_view [OF assms, of env sha256 0 w t u ds auth]
  have "\<exists>cs. fst ?e = Inr cs" by (rule memory_store.mag_sync_run_returns)
  moreover have "\<forall>d \<in> set ds. map_option we_content_hash (warm_lookup sha256 n (snd ?e) t u d) =
      (if map_option we_content_hash (warm_lookup sha256 n w t u d) = Some (sha256 (auth d))
       then Some (sha256 (auth d)) else None)"
    by (auto simp: warm_lookup_view v option.map_comp comp_def)
  moreover have "t' = t \<and> u' = u \<and> d \<in> set ds \<or> warm_lookup sha256 n (snd ?e) t' u' d = warm_lookup sha256 n w t' u' d" for t' u' d
    by (auto simp: warm_lookup_view v)
  ultimately show ?thesis unfolding Let_def by blast
qed

theorem mag_sync_correct_witness:
  "let w = snd (warm_promote ex_env False empty_store 9 1 2 ''old'');
       e = mag_sync_run (semantic_memory_warm_store ex_env (\<lambda>x. x) False) (\<lambda>x. x) (\<lambda>_. (3, 3)) 0 w 9 1 [2, 2] (\<lambda>_. ''new'')
   in warm_lookup (\<lambda>x. x) 4 w 9 1 2 \<noteq> None \<and> warm_lookup (\<lambda>x. x) 4 (snd e) 9 1 2 = None"
proof -
  let ?w = "snd (warm_promote ex_env False empty_store 9 1 2 ''old'')"
  have m: "warm_member empty_store 9 1" by (simp add: warm_member_def empty_store_def)
  have "warm_lookup (\<lambda>x. x) 4 ?w 9 1 2 = Some \<lparr>we_content_hash = ''old'', we_content = ''old''\<rparr>"
    unfolding warm_lookup_view warm_promote_view [OF m] by simp
  with mag_sync_correct [of "\<lambda>_. (3, 3)" 4 ex_env "\<lambda>x. x" ?w 9 1 "[2, 2]" "\<lambda>_. ''new''"]
  show ?thesis unfolding Let_def by simp
qed

text \<open>
  A demoted document stays in the vector index. \<^verbatim>\<open>SemanticMemoryWarmStore.demote\<close>
  writes the validity to Postgres only: after a promotion and a demotion the warm store no longer finds
  the document, but the index still holds its content as a live fact that passes the filter
  of every later search of this user.
\<close>

theorem demoted_document_stays_in_index:
  assumes "warm_member st t u" and "m \<le> n" "db \<le> n"
  shows "let st' = snd (warm_demote sha256 m db (snd (warm_promote env False st t u d x)) t u d) in
    warm_lookup sha256 n st' t u d = None \<and>
    (\<exists>p. map_of (ms_index st') (semantic_fact_id env u (fact_key_for d)) = Some p \<and>
         pt_fact_value p = x \<and> index_filter n u t p)"
proof -
  let ?st = "snd (warm_promote env False st t u d x)"
  have "warm_view n (snd (warm_demote sha256 m db ?st t u d)) (t, u, d) = None"
    unfolding warm_demote_view [OF assms(2,3)] by simp
  moreover have "ms_index (snd (warm_demote sha256 m db ?st t u d)) = ms_index ?st" by (simp add: warm_demote_repo)
  moreover have "\<exists>p. map_of (ms_index ?st) (semantic_fact_id env u (fact_key_for d)) = Some p \<and>
      pt_fact_value p = x \<and> index_filter n u t p"
    by (simp add: warm_promote_def Let_def attempt_write_def index_upsert_def make_point_def index_filter_def epoch_def)
  ultimately show ?thesis by (simp add: Let_def warm_lookup_view)
qed

theorem demoted_document_stays_in_index_witness:
  "let st' = snd (warm_demote (\<lambda>s. s) 3 3 (snd (warm_promote ex_env False empty_store 9 1 2 ''old'')) 9 1 2) in
   warm_lookup (\<lambda>s. s) 4 st' 9 1 2 = None \<and>
   (\<exists>p. map_of (ms_index st') (semantic_fact_id ex_env 1 (fact_key_for 2)) = Some p \<and> pt_fact_value p = ''old'' \<and> index_filter 4 1 9 p)"
  by (rule demoted_document_stays_in_index) (simp_all add: warm_member_def empty_store_def)

subsection \<open>Cache warming\<close>

context storing_cache
begin

lemma warm_all_view:
  assumes "clk \<le> n"
  shows "view n (warm_all ops clk c t provider ds) k =
    (if fst k = t \<and> snd k \<in> set ds \<and> view clk c k = None then Some (hash (provider (snd k))) else view n c k)"
proof (induction ds arbitrary: c)
  case (Cons d ds)
  obtain b c1 where b: "fc_contains ops clk c t d = (b, c1)" by fastforce
  have pres: "b \<longleftrightarrow> view clk c (t, d) \<noteq> None" using contains_view [of clk c t d] b by simp
  have fr: "view m c1 = view m c" if "clk \<le> m" for m using contains_frame [OF that, of c t d] b by simp
  show ?case
  proof (cases b)
    case True
    have "view n (warm_all ops clk c1 t provider ds) k =
        (if fst k = t \<and> snd k \<in> set ds \<and> view clk c k = None then Some (hash (provider (snd k))) else view n c k)"
      using Cons.IH [of c1] fr [OF assms] fr [of clk] by simp
    with b True pres show ?thesis by (cases k) auto
  next
    case False
    let ?c2 = "fc_preload ops clk c1 t d (provider d)"
    have v: "view m ?c2 = (view m c)((t, d) \<mapsto> hash (provider d))" if "clk \<le> m" for m
      using preload_view [OF that, of c1 t d "provider d"] fr [OF that] by simp
    have "view n (warm_all ops clk ?c2 t provider ds) k =
        (if fst k = t \<and> snd k \<in> set ds \<and> ((view clk c)((t, d) \<mapsto> hash (provider d))) k = None then Some (hash (provider (snd k)))
         else ((view n c)((t, d) \<mapsto> hash (provider d))) k)"
      using Cons.IH [of ?c2] v [OF assms] v [of clk] by simp
    with b False pres show ?thesis by (cases k) auto
  qed
qed simp

end

text \<open>
  Warming fills the cache with the most accessed documents and disturbs nothing. After
  \<^verbatim>\<open>WarmCache.execute\<close> every document it returns that was not cached holds the provided
  content, one that was cached keeps its entry, and every other entry is as it was.
\<close>

theorem warm_cache_correct:
  assumes "clk \<le> n"
    and "warm_cache tenant_tracker_ops (expiring_ops (hf_ops sha256 prefill)) clk s c t m w now provider = (top_n, s', c')"
  shows "top_n = fst (most_accessed s t m w now) \<and>
    (\<forall>t' d. ex_view hf_view n c' (t', d) =
      (if t' = t \<and> d \<in> set (fst (most_accessed s t m w now)) \<and> ex_view hf_view clk c (t', d) = None
       then Some (sha256 (provider d)) else ex_view hf_view n c (t', d)))"
  using assms hfx.ex.warm_all_view [OF assms(1), of sha256 prefill c t provider]
  by (auto simp: warm_cache_def tenant_tracker_ops_def case_prod_unfold)

theorem warm_cache_correct_witness:
  "let s = record_access (new_counter DEFAULT_RETENTION) 1 2 0;
       e = warm_cache tenant_tracker_ops (expiring_ops (hf_ops (\<lambda>x. x) (\<lambda>_. ()))) 5 s
             \<lparr>ex_inner = Map.empty, ex_expiry = Map.empty\<rparr> 1 3 10 5 (\<lambda>_. ''doc'')
   in fst e = fst (most_accessed s 1 3 10 5) \<and>
      (\<forall>d \<in> set (fst e). ex_view hf_view 6 (snd (snd e)) (1, d) = Some ''doc'')"
proof -
  let ?s = "record_access (new_counter DEFAULT_RETENTION) 1 2 0"
  obtain top s' c' where e: "warm_cache tenant_tracker_ops (expiring_ops (hf_ops (\<lambda>x. x) (\<lambda>_. ()))) 5 ?s
      \<lparr>ex_inner = Map.empty, ex_expiry = Map.empty\<rparr> 1 3 10 5 (\<lambda>_. ''doc'') = (top, s', c')" using prod_cases3 by blast
  show ?thesis unfolding Let_def e fst_conv snd_conv
    using warm_cache_correct [OF _ e, of 6] by (auto simp: ex_view_def hf_view_def)
qed

end
