(* ===== verification/Cache_Warmed.thy ===== *)
theory Cache_Warmed
  imports Frozen_Cache Tiering_Sync
begin

text \<open>
  Cache-warmed retrieval: \<^verbatim>\<open>src/orchestration/application/cache_warmed_retrieve.py\<close>, the
  \<^verbatim>\<open>cosine_similarity\<close> of \<^verbatim>\<open>domain/similarity.py\<close> and \<^verbatim>\<open>SearchResult\<close>.

  The memo \<open>cw_warmed\<close> has for each tenant a dictionary from document to content and
  embedding, in insertion order, which decides ties. The cache is any \<^verbatim>\<open>FrozenCache\<close>; its lookups
  may change it, and \<open>clk i\<close> is what it reads from its clock at the \<open>i\<close>-th of them. The
  fallback retriever and the embedding model are parameters.
\<close>

record search_result =
  sr_document_id :: uuid
  sr_chunk_id :: uuid
  sr_content :: string
  sr_score :: rat

definition norm2 :: "embedding \<Rightarrow> rat" where
  "norm2 a = fl_sqrt (fsum (map (\<lambda>x. fl (x * x)) a))"

definition cosine_similarity :: "embedding \<Rightarrow> embedding \<Rightarrow> rat result" where
  "cosine_similarity a b =
     (if length a \<noteq> length b then Inl (ValueError ''zip() arguments have different lengths'')
      else let dot = fsum (map (\<lambda>(x, y). fl (x * y)) (zip a b))
           in if norm2 a = 0 \<or> norm2 b = 0 then Inr 0
              else Inr (fl (dot / fl (norm2 a * norm2 b))))"

record cache_warmed =
  cw_warmed :: "uuid \<rightharpoonup> (uuid \<times> (string \<times> embedding)) list"
  cw_hits :: nat
  cw_misses :: nat

definition new_cache_warmed :: cache_warmed where
  "new_cache_warmed = \<lparr>cw_warmed = Map.empty, cw_hits = 0, cw_misses = 0\<rparr>"

definition note_warmed :: "(string \<Rightarrow> embedding) \<Rightarrow> cache_warmed \<Rightarrow> uuid \<Rightarrow> uuid \<Rightarrow> string \<Rightarrow> cache_warmed" where
  "note_warmed emb s tenant_id document_id content =
     (let entries = (case cw_warmed s tenant_id of None \<Rightarrow> [] | Some es \<Rightarrow> es)
      in s\<lparr>cw_warmed := (cw_warmed s)(tenant_id \<mapsto> dict_set document_id (content, emb content) entries)\<rparr>)"

definition forget :: "cache_warmed \<Rightarrow> uuid \<Rightarrow> uuid \<Rightarrow> cache_warmed" where
  "forget s tenant_id document_id =
     (case cw_warmed s tenant_id of
        None \<Rightarrow> s
      | Some entries \<Rightarrow> s\<lparr>cw_warmed := (cw_warmed s)(tenant_id \<mapsto> dict_del document_id entries)\<rparr>)"

definition stats :: "cache_warmed \<Rightarrow> nat \<times> nat" where
  "stats s = (cw_hits s, cw_misses s)"

definition candidates :: "(uuid \<times> (string \<times> embedding)) list \<Rightarrow> embedding \<Rightarrow> (rat \<times> uuid \<times> string) list result" where
  "candidates entries query_embedding =
     (case seq_results (map (\<lambda>(d, content, e).
              case cosine_similarity query_embedding e of Inl x \<Rightarrow> Inl x | Inr score \<Rightarrow> Inr (score, d, content)) entries) of
        Inl x \<Rightarrow> Inl x
      | Inr cs \<Rightarrow> Inr (sorted_desc fst cs))"

fun first_confirmed :: "('c, 'kv, 'z) frozen_cache_ops_scheme \<Rightarrow> (string \<Rightarrow> string) \<Rightarrow> (nat \<Rightarrow> datetime) \<Rightarrow> nat \<Rightarrow> 'c \<Rightarrow>
    uuid \<Rightarrow> (rat \<times> uuid \<times> string) list \<Rightarrow> search_result option \<times> 'c" where
  "first_confirmed cache sha256 clk i c tenant_id [] = (None, c)"
| "first_confirmed cache sha256 clk i c tenant_id ((score, d, content) # rest) =
     (case fc_lookup cache (clk i) c tenant_id d of (cached_hit, c1) \<Rightarrow>
        if map_option ch_content_hash cached_hit = Some (content_hash sha256 content)
        then (Some \<lparr>sr_document_id = d, sr_chunk_id = d, sr_content = content, sr_score = score\<rparr>, c1)
        else first_confirmed cache sha256 clk (Suc i) c1 tenant_id rest)"

definition best_warmed_match :: "('c, 'kv, 'z) frozen_cache_ops_scheme \<Rightarrow> (string \<Rightarrow> string) \<Rightarrow> (nat \<Rightarrow> datetime) \<Rightarrow>
    cache_warmed \<Rightarrow> 'c \<Rightarrow> uuid \<Rightarrow> embedding \<Rightarrow> search_result option result \<times> 'c" where
  "best_warmed_match cache sha256 clk s c tenant_id query_embedding =
     (case cw_warmed s tenant_id of
        None \<Rightarrow> (Inr None, c)
      | Some entries \<Rightarrow>
          if entries = [] then (Inr None, c)
          else case candidates entries query_embedding of
                 Inl e \<Rightarrow> (Inl e, c)
               | Inr cs \<Rightarrow> (case first_confirmed cache sha256 clk 0 c tenant_id cs of (r, c1) \<Rightarrow> (Inr r, c1)))"

definition match_query :: "('c, 'kv, 'z) frozen_cache_ops_scheme \<Rightarrow> (string \<Rightarrow> string) \<Rightarrow> (string \<Rightarrow> embedding) \<Rightarrow>
    (nat \<Rightarrow> datetime) \<Rightarrow> cache_warmed \<Rightarrow> 'c \<Rightarrow> uuid \<Rightarrow> string \<Rightarrow> search_result option result \<times> 'c" where
  "match_query cache sha256 emb clk s c tenant_id query =
     best_warmed_match cache sha256 clk s c tenant_id (emb query)"

definition cache_warmed_execute :: "('c, 'kv, 'z) frozen_cache_ops_scheme \<Rightarrow> (string \<Rightarrow> string) \<Rightarrow> (string \<Rightarrow> embedding) \<Rightarrow>
    (uuid \<Rightarrow> string \<Rightarrow> int \<Rightarrow> search_result list result) \<Rightarrow> rat \<Rightarrow> (nat \<Rightarrow> datetime) \<Rightarrow> cache_warmed \<Rightarrow> 'c \<Rightarrow> uuid \<Rightarrow> string \<Rightarrow>
    int \<Rightarrow> search_result list result \<times> cache_warmed \<times> 'c" where
  "cache_warmed_execute cache sha256 emb fallback threshold clk s c tenant_id query top_k =
     (let miss = (\<lambda>c1. (fallback tenant_id query top_k, s\<lparr>cw_misses := Suc (cw_misses s)\<rparr>, c1))
      in if cw_warmed s tenant_id = None then miss c
         else case match_query cache sha256 emb clk s c tenant_id query of
                (Inl e, c1) \<Rightarrow> (Inl e, s, c1)
              | (Inr None, c1) \<Rightarrow> miss c1
              | (Inr (Some r), c1) \<Rightarrow>
                  if threshold \<le> sr_score r then (Inr [r], s\<lparr>cw_hits := Suc (cw_hits s)\<rparr>, c1) else miss c1)"

subsection \<open>Only confirmed documents are served, the best one first\<close>

context frozen_cache
begin

lemma first_confirmed_Cons:
  "first_confirmed ops hash clk i c t ((s, d, x) # cs) =
     (if view (clk i) c (t, d) = Some (hash x)
      then (Some \<lparr>sr_document_id = d, sr_chunk_id = d, sr_content = x, sr_score = s\<rparr>, snd (fc_lookup ops (clk i) c t d))
      else first_confirmed ops hash clk (Suc i) (snd (fc_lookup ops (clk i) c t d)) t cs)"
  by (simp add: case_prod_unfold content_hash_def lookup_view del: map_option_eq_Some)

lemma first_confirmed_frame:
  assumes "mono clk" "clk (i + length cs) \<le> n"
  shows "view n (snd (first_confirmed ops hash clk i c t cs)) = view n c"
  using assms(2)
proof (induction cs arbitrary: i c)
  case (Cons x cs)
  have "clk i \<le> n" using monoD [OF assms(1), of i "i + length (x # cs)"] Cons.prems by simp
  then have "view n (snd (fc_lookup ops (clk i) c t (fst (snd x)))) = view n c" by (rule lookup_frame)
  with Cons.IH [of "Suc i" "snd (fc_lookup ops (clk i) c t (fst (snd x)))"] Cons.prems
  show ?case by (cases x) (simp add: case_prod_unfold)
qed simp

lemma first_confirmed_None:
  assumes "mono clk" "clk (i + length cs) \<le> n" "fst (first_confirmed ops hash clk i c t cs) = None"
    and "(score, d, x) \<in> set cs"
  shows "view n c (t, d) \<noteq> Some (hash x)"
  using assms(2,3,4)
proof (induction cs arbitrary: i c)
  case (Cons y cs)
  obtain s' d' x' where y: "y = (s', d', x')" using prod_cases3 by blast
  have le: "clk i \<le> n" using monoD [OF assms(1), of i "i + length (y # cs)"] Cons.prems by simp
  let ?c = "snd (fc_lookup ops (clk i) c t d')"
  have v: "view n ?c = view n c" by (rule lookup_frame [OF le])
  have no: "view (clk i) c (t, d') \<noteq> Some (hash x')" and r: "fst (first_confirmed ops hash clk (Suc i) ?c t cs) = None"
    using Cons.prems(2) unfolding y first_confirmed_Cons by (auto split: if_splits)
  show ?case
  proof (cases "(score, d, x) = y")
    case True
    with y no view_expires [OF le, of c "(t, d)"] show ?thesis by auto
  next
    case False
    with Cons.IH [OF _ r] Cons.prems v show ?thesis by simp
  qed
qed simp

lemma first_confirmed_Some:
  assumes "mono clk" "clk (i + length cs) \<le> n" "fst (first_confirmed ops hash clk i c t cs) = Some r"
  shows "sr_chunk_id r = sr_document_id r \<and>
    (\<exists>pre post j. cs = pre @ (sr_score r, sr_document_id r, sr_content r) # post \<and> i \<le> j \<and> clk j \<le> n \<and>
       view (clk j) c (t, sr_document_id r) = Some (hash (sr_content r)) \<and>
       (\<forall>(s, d, x) \<in> set pre. view n c (t, d) \<noteq> Some (hash x)))"
  using assms(2,3)
proof (induction cs arbitrary: i c)
  case (Cons y cs)
  obtain s' d' x' where y: "y = (s', d', x')" using prod_cases3 by blast
  have le: "clk i \<le> n" using monoD [OF assms(1), of i "i + length (y # cs)"] Cons.prems by simp
  let ?c = "snd (fc_lookup ops (clk i) c t d')"
  show ?case
  proof (cases "view (clk i) c (t, d') = Some (hash x')")
    case True
    with Cons.prems(2) have "r = \<lparr>sr_document_id = d', sr_chunk_id = d', sr_content = x', sr_score = s'\<rparr>"
      unfolding y first_confirmed_Cons by simp
    with True y le show ?thesis by (intro conjI exI [of _ "[]"] exI [of _ cs] exI [of _ i]) simp_all
  next
    case False
    with Cons.prems(2) have r: "fst (first_confirmed ops hash clk (Suc i) ?c t cs) = Some r"
      unfolding y first_confirmed_Cons by simp
    obtain pre post j where p: "sr_chunk_id r = sr_document_id r" "cs = pre @ (sr_score r, sr_document_id r, sr_content r) # post" "Suc i \<le> j" "clk j \<le> n"
      "view (clk j) ?c (t, sr_document_id r) = Some (hash (sr_content r))"
      "\<forall>(s, d, x) \<in> set pre. view n ?c (t, d) \<noteq> Some (hash x)"
      using Cons.IH [OF _ r] Cons.prems(1) by auto
    have "clk i \<le> clk j" using monoD [OF assms(1), of i j] p(3) by simp
    then have "view (clk j) c (t, sr_document_id r) = Some (hash (sr_content r))"
      using p(5) by (simp add: lookup_frame)
    moreover have "view n c (t, d') \<noteq> Some (hash x')"
      using False view_expires [OF le, of c "(t, d')"] by auto
    ultimately show ?thesis
      using p y lookup_frame [OF le, of c t d'] by (intro conjI exI [of _ "y # pre"] exI [of _ post] exI [of _ j]) auto
  qed
qed simp

end

lemma candidates_Inr:
  assumes "candidates entries q = Inr cs"
  shows "(score, d, x) \<in> set cs \<longleftrightarrow> (\<exists>e. (d, x, e) \<in> set entries \<and> cosine_similarity q e = Inr score)"
    and "sorted_wrt (\<lambda>a b. fst b \<le> fst a) cs" and "length cs = length entries"
    and "(d, x, e) \<in> set entries \<Longrightarrow> \<exists>score. cosine_similarity q e = Inr score"
proof -
  let ?f = "\<lambda>(d, content, e). case cosine_similarity q e of Inl x \<Rightarrow> Inl x | Inr score \<Rightarrow> Inr (score, d, content)"
  obtain ys where ys: "map ?f entries = map Inr ys" "cs = sorted_desc fst ys"
    using assms by (auto simp: candidates_def seq_results_Inr split: sum.splits)
  have s: "Inr ` set ys = ?f ` set entries" using arg_cong [OF ys(1), of set] by simp
  have "(score, d, x) \<in> set ys \<longleftrightarrow> Inr (score, d, x) \<in> ?f ` set entries"
    unfolding s [symmetric] by auto
  also have "\<dots> \<longleftrightarrow> (\<exists>e. (d, x, e) \<in> set entries \<and> cosine_similarity q e = Inr score)"
    by (force split: sum.splits)
  finally show "(score, d, x) \<in> set cs \<longleftrightarrow> (\<exists>e. (d, x, e) \<in> set entries \<and> cosine_similarity q e = Inr score)"
    unfolding ys(2) by simp
  show "sorted_wrt (\<lambda>a b. fst b \<le> fst a) cs" unfolding ys(2) by (rule sorted_desc_sorted)
  show "length cs = length entries" using arg_cong [OF ys(1), of length] ys(2) by simp
  show "\<exists>score. cosine_similarity q e = Inr score" if "(d, x, e) \<in> set entries"
  proof -
    have "?f (d, x, e) \<in> Inr ` set ys" unfolding s using that by blast
    then show ?thesis by (auto split: sum.splits)
  qed
qed

text \<open>
  Cache-warmed retrieval never serves a stale or foreign document, and serves the best
  one it may. If the match returns a document, the tenant's own memo has it with this content
  and this similarity to the query, and the cache confirmed that very content under the
  tenant's key during the call; every document of the tenant that is still confirmed at the
  end scores no higher, so a stale memo never hides a good one. If it returns nothing, no
  document of the tenant is confirmed. Either way the cache looks the same afterwards.
\<close>

theorem warmed_match_confirmed_and_best:
  assumes "mono clk" and "clk (length entries) \<le> n" and "cw_warmed s t = Some entries"
    and "best_warmed_match (expiring_ops (hf_ops sha256 prefill)) sha256 clk s c t q = (Inr m, c')"
  shows "ex_view hf_view n c' = ex_view hf_view n c \<and>
    (case m of
       None \<Rightarrow> \<forall>(d, x, e) \<in> set entries. ex_view hf_view n c (t, d) \<noteq> Some (sha256 x)
     | Some r \<Rightarrow>
         (\<exists>e. (sr_document_id r, sr_content r, e) \<in> set entries \<and> cosine_similarity q e = Inr (sr_score r)) \<and>
         sr_chunk_id r = sr_document_id r \<and>
         (\<exists>j. clk j \<le> n \<and> ex_view hf_view (clk j) c (t, sr_document_id r) = Some (sha256 (sr_content r))) \<and>
         (\<forall>(d, x, e) \<in> set entries. ex_view hf_view n c (t, d) = Some (sha256 x) \<longrightarrow>
            (\<exists>score. cosine_similarity q e = Inr score \<and> score \<le> sr_score r)))"
proof (cases "entries = []")
  case True
  with assms show ?thesis by (simp add: best_warmed_match_def)
next
  case False
  let ?o = "expiring_ops (hf_ops sha256 prefill)"
  obtain cs where cs: "candidates entries q = Inr cs" and m: "m = fst (first_confirmed ?o sha256 clk 0 c t cs)"
    and c': "c' = snd (first_confirmed ?o sha256 clk 0 c t cs)"
    using assms(3,4) False by (auto simp: best_warmed_match_def split: sum.splits prod.splits)
  note cand = candidates_Inr [OF cs]
  have n: "clk (0 + length cs) \<le> n" using assms(2) cand(3) by simp
  have fr: "ex_view hf_view n c' = ex_view hf_view n c"
    unfolding c' by (rule hfx.ex.first_confirmed_frame [OF assms(1) n])
  show ?thesis
  proof (cases m)
    case None
    have "ex_view hf_view n c (t, d) \<noteq> Some (sha256 x)" if "(d, x, e) \<in> set entries" for d x e
      using hfx.ex.first_confirmed_None [OF assms(1) n m [symmetric, unfolded None]] that cand(1,4) by blast
    with fr None show ?thesis by auto
  next
    case (Some r)
    obtain pre post j where p: "sr_chunk_id r = sr_document_id r" "cs = pre @ (sr_score r, sr_document_id r, sr_content r) # post"
      "clk j \<le> n" "ex_view hf_view (clk j) c (t, sr_document_id r) = Some (sha256 (sr_content r))"
      "\<forall>(s, d, x) \<in> set pre. ex_view hf_view n c (t, d) \<noteq> Some (sha256 x)"
      using hfx.ex.first_confirmed_Some [OF assms(1) n m [symmetric, unfolded Some]] by blast
    have best: "\<exists>score. cosine_similarity q e = Inr score \<and> score \<le> sr_score r"
      if e: "(d, x, e) \<in> set entries" "ex_view hf_view n c (t, d) = Some (sha256 x)" for d x e
    proof -
      obtain score where sc: "cosine_similarity q e = Inr score" using cand(4) e(1) by blast
      then have "(score, d, x) \<in> set cs" using cand(1) e(1) by blast
      with p(2,5) e(2) have "(score, d, x) \<in> set ((sr_score r, sr_document_id r, sr_content r) # post)" by auto
      with cand(2) p(2) have "score \<le> sr_score r" by (auto simp: sorted_wrt_append)
      with sc show ?thesis by blast
    qed
    have "\<exists>e. (sr_document_id r, sr_content r, e) \<in> set entries \<and> cosine_similarity q e = Inr (sr_score r)"
      using cand(1) [of "sr_score r" "sr_document_id r" "sr_content r"] in_set_conv_decomp [of _ cs] p(2) by blast
    with fr Some p(1,3,4) best show ?thesis by auto
  qed
qed

theorem warmed_match_confirmed_and_best_witness:
  "let c = \<lparr>ex_inner = [(7, 2) \<mapsto> (''new'', ()), (7, 3) \<mapsto> (''doc'', ())], ex_expiry = Map.empty\<rparr>;
       s = note_warmed (\<lambda>_. []) (note_warmed (\<lambda>_. []) new_cache_warmed 7 2 ''old'') 7 3 ''doc'';
       r = best_warmed_match (expiring_ops (hf_ops (\<lambda>x. x) (\<lambda>_. ()))) (\<lambda>x. x) (\<lambda>_. 0) s c 7 []
   in fst r = Inr (Some \<lparr>sr_document_id = 3, sr_chunk_id = 3, sr_content = ''doc'', sr_score = 0\<rparr>) \<and>
      ex_view hf_view 5 (snd r) = ex_view hf_view 5 c"
proof -
  let ?c = "\<lparr>ex_inner = [(7, 2) \<mapsto> (''new'', ()), (7, 3) \<mapsto> (''doc'', ())], ex_expiry = Map.empty\<rparr>"
  let ?s = "note_warmed (\<lambda>_. []) (note_warmed (\<lambda>_. []) new_cache_warmed 7 2 ''old'') 7 3 ''doc''"
  have s: "cw_warmed ?s 7 = Some [(2, ''old'', []), (3, ''doc'', [])]"
    by (simp add: note_warmed_def new_cache_warmed_def Let_def)
  have cos: "cosine_similarity [] [] = Inr 0" by (simp add: cosine_similarity_def norm2_def fl_sqrt_def fsum_def)
  obtain c' where r: "best_warmed_match (expiring_ops (hf_ops (\<lambda>x. x) (\<lambda>_. ()))) (\<lambda>x. x) (\<lambda>_. 0) ?s ?c 7 [] =
      (Inr (Some \<lparr>sr_document_id = 3, sr_chunk_id = 3, sr_content = ''doc'', sr_score = 0\<rparr>), c')"
    by (simp add: best_warmed_match_def s candidates_def cos sorted_desc_def content_hash_def expiring_ops_def ex_lookup_def
        expire_if_due_def hf_ops_def hf_lookup_def)
  have "mono (\<lambda>_::nat. 0::int)" by (simp add: mono_def)
  from warmed_match_confirmed_and_best [OF this _ s r, of 5] show ?thesis by (simp add: Let_def r)
qed

subsection \<open>Answering a query\<close>

text \<open>
  A query is answered from the warmed set exactly on a confirmed match at or above the
  threshold, and otherwise by the fallback retriever with the caller's arguments; every
  query that does not raise counts once as a hit or a miss, and the memo is not changed. A
  query raises only when the fallback does, or when an embedding in the memo has another
  length than the query's.
\<close>

theorem cache_warmed_execute_correct:
  fixes cache :: "('c, 'kv, 'z) frozen_cache_ops_scheme"
  assumes "cache_warmed_execute cache sha256 emb fallback threshold clk s c t query k = (r, s', c')"
  defines "m \<equiv> fst (best_warmed_match cache sha256 clk s c t (emb query))"
  shows "(case m of
       Inl e \<Rightarrow> r = Inl e \<and> s' = s \<and> (\<exists>entries. cw_warmed s t = Some entries \<and> (\<exists>(d, x, v) \<in> set entries. length v \<noteq> length (emb query)))
     | Inr (Some h) \<Rightarrow>
         if threshold \<le> sr_score h then r = Inr [h] \<and> stats s' = (Suc (cw_hits s), cw_misses s)
         else r = fallback t query k \<and> stats s' = (cw_hits s, Suc (cw_misses s))
     | Inr None \<Rightarrow> r = fallback t query k \<and> stats s' = (cw_hits s, Suc (cw_misses s))) \<and>
    cw_warmed s' = cw_warmed s"
proof -
  have none: "cw_warmed s t = None \<Longrightarrow> m = Inr None" by (simp add: m_def best_warmed_match_def)
  have len: "\<exists>entries. cw_warmed s t = Some entries \<and> (\<exists>(d, x, v) \<in> set entries. length v \<noteq> length (emb query))"
    if me: "m = Inl e" for e
  proof -
    obtain entries where en: "cw_warmed s t = Some entries" "candidates entries (emb query) = Inl e"
      using me by (auto simp: m_def best_warmed_match_def split: option.splits if_splits sum.splits prod.splits)
    have "\<exists>y. candidates entries (emb query) = Inr y" if "\<forall>(d, x, v) \<in> set entries. length v = length (emb query)"
    proof -
      have "\<forall>(d, x, v) \<in> set entries. \<exists>score. cosine_similarity (emb query) v = Inr score"
        using that by (auto simp: cosine_similarity_def Let_def)
      then have "\<exists>ys. map (\<lambda>(d, content, e). case cosine_similarity (emb query) e of Inl x \<Rightarrow> Inl x
          | Inr score \<Rightarrow> Inr (score, d, content)) entries = map (Inr :: _ \<Rightarrow> py_error + _) ys"
        by (induction entries) (force simp: Cons_eq_map_conv)+
      then show ?thesis by (auto simp: candidates_def seq_results_map)
    qed
    with en show ?thesis by (intro exI [of _ entries]) auto
  qed
  show ?thesis
  proof (cases m)
    case (Inl e)
    then have "cw_warmed s t \<noteq> None" using none by auto
    with assms(1) Inl len [OF Inl] show ?thesis
      by (auto simp: m_def cache_warmed_execute_def match_query_def Let_def split: prod.splits)
  next
    case (Inr h)
    with assms(1) none show ?thesis
      by (cases h) (auto simp: m_def cache_warmed_execute_def match_query_def Let_def stats_def split: prod.splits if_splits)
  qed
qed

theorem cache_warmed_execute_correct_witness:
  "let r = cache_warmed_execute (hf_ops (\<lambda>x. x) (\<lambda>_. ())) (\<lambda>x. x) (\<lambda>_. []) (\<lambda>_ _ _. Inr []) (1/2) (\<lambda>_. 0)
             new_cache_warmed Map.empty 7 ''q'' 3
   in fst r = Inr [] \<and> stats (fst (snd r)) = (0, 1)"
proof -
  obtain r s' c' where e: "cache_warmed_execute (hf_ops (\<lambda>x. x) (\<lambda>_. ())) (\<lambda>x. x) (\<lambda>_. []) (\<lambda>_ _ _. Inr []) (1/2) (\<lambda>_. 0)
      new_cache_warmed Map.empty 7 ''q'' 3 = (r, s', c')" using prod_cases3 by blast
  show ?thesis unfolding Let_def e fst_conv snd_conv
    using cache_warmed_execute_correct [OF e] by (simp add: best_warmed_match_def new_cache_warmed_def)
qed

end
