(* ===== verification/Latency_Cascade.thy ===== *)
theory Latency_Cascade
  imports Cache_Warmed Paradigm_Router
begin

text \<open>
  The latency-adaptive cascade: \<^verbatim>\<open>src/orchestration/application/latency_cascade.py\<close> and the
  three tiers of \<^verbatim>\<open>cascade_tiers.py\<close>.

  What a tier does with one request within its timeout is an \<open>attempt_event\<close>: it returns a
  result, raises, exceeds the timeout (or raises \<^verbatim>\<open>TimeoutError\<close>), or its task is cancelled. A run
  takes the events, the measured times and the clock as a \<open>world\<close>. The state of the cascade
  is its background tasks, its cancelled tasks, the access tracker and the findings handed to
  the \<^verbatim>\<open>on_rag_findings\<close> callback. In a parallel run the attempts complete in any order,
  which is an argument. Logging is left out.
\<close>

subsection \<open>Timeouts and configuration\<close>

record tier_timeouts =
  tt_cag :: rat
  tt_mag :: rat
  tt_rag :: rat

definition make_tier_timeouts :: "rat \<Rightarrow> rat \<Rightarrow> rat \<Rightarrow> tier_timeouts result" where
  "make_tier_timeouts cag mag rag =
     (if min cag (min mag rag) \<le> 0 then Inl (ValueError ''tier timeouts must be positive'')
      else Inr \<lparr>tt_cag = cag, tt_mag = mag, tt_rag = rag\<rparr>)"

definition default_tier_timeouts :: tier_timeouts where
  "default_tier_timeouts = \<lparr>tt_cag = fl (1 / 100), tt_mag = fl (5 / 100), tt_rag = 2\<rparr>"

fun timeout_for_paradigm :: "tier_timeouts \<Rightarrow> paradigm \<Rightarrow> rat" where
  "timeout_for_paradigm t CAG = tt_cag t"
| "timeout_for_paradigm t MAG = tt_mag t"
| "timeout_for_paradigm t RAG = tt_rag t"

definition DEFAULT_BACKGROUND_TIMEOUT :: rat where
  "DEFAULT_BACKGROUND_TIMEOUT = 30"

definition DEFAULT_MAX_BACKGROUND :: int where
  "DEFAULT_MAX_BACKGROUND = 16"

record cascade_config =
  cc_tiers :: "paradigm set"
  cc_timeouts :: tier_timeouts
  cc_tracked :: bool
  cc_sink :: bool
  cc_background_timeout :: rat
  cc_max_background :: int

definition make_latency_cascade :: "paradigm list \<Rightarrow> tier_timeouts option \<Rightarrow> bool \<Rightarrow> bool \<Rightarrow> rat \<Rightarrow> int \<Rightarrow>
    cascade_config result" where
  "make_latency_cascade tiers timeouts tracked sink background_timeout max_background =
     (if card (set tiers) \<noteq> length tiers then Inl (ValueError ''configure at most one tier per paradigm'')
      else if RAG \<notin> set tiers then Inl (ValueError ''a RAG tier is required: it is the cascade's last resort'')
      else if background_timeout \<le> 0 then Inl (ValueError ''background_timeout must be positive'')
      else if max_background < 1 then Inl (ValueError ''max_background must be at least 1'')
      else Inr \<lparr>cc_tiers = set tiers,
                cc_timeouts = (case timeouts of None \<Rightarrow> default_tier_timeouts | Some t \<Rightarrow> t),
                cc_tracked = tracked, cc_sink = sink, cc_background_timeout = background_timeout,
                cc_max_background = max_background\<rparr>)"

subsection \<open>The collector\<close>

record collector =
  co_items :: "context_item list"
  co_attempts :: "tier_attempt list"
  co_satisfied :: "paradigm set"
  co_degraded :: bool

definition new_collector :: collector where
  "new_collector = \<lparr>co_items = [], co_attempts = [], co_satisfied = {}, co_degraded = False\<rparr>"

definition collector_add :: "collector \<Rightarrow> tier_attempt \<Rightarrow> tier_result option \<Rightarrow> collector" where
  "collector_add co attempt res =
     (let co1 = co\<lparr>co_attempts := co_attempts co @ [attempt]\<rparr> in
      case res of
        None \<Rightarrow> co1\<lparr>co_degraded := True\<rparr>
      | Some r \<Rightarrow>
          (let co2 = co1\<lparr>co_items := co_items co1 @ tres_items r\<rparr> in
           if tres_outcome r = HIT then co2\<lparr>co_satisfied := insert (ta_paradigm attempt) (co_satisfied co2)\<rparr>
           else co2))"

definition collector_result :: "collector \<Rightarrow> cascade_result" where
  "collector_result co =
     \<lparr>cr_items = co_items co, cr_attempts = co_attempts co, cr_satisfied = co_satisfied co, cr_degraded = co_degraded co\<rparr>"

subsection \<open>One attempt\<close>

datatype attempt_event = Returned tier_result | Raised | TimedOut | TaskCancelled

record world =
  w_event :: "paradigm \<Rightarrow> attempt_event"
  w_elapsed :: "paradigm \<Rightarrow> rat"
  w_now :: datetime

record 't cascade_state =
  cs_background :: "tier_request list"
  cs_cancelled :: "(paradigm \<times> tier_request) list"
  cs_tracker :: 't
  cs_findings :: "(tier_request \<times> context_item list) list"

definition cancelled_error :: py_error where
  "cancelled_error = OtherException ''CancelledError''"

definition record_rag_access :: "cascade_config \<Rightarrow> ('t, uuid) tracker_ops \<Rightarrow> datetime \<Rightarrow> tier_request \<Rightarrow>
    context_item list \<Rightarrow> 't cascade_state \<Rightarrow> 't cascade_state" where
  "record_rag_access cfg tracker now request items st =
     (if \<not> cc_tracked cfg then st
      else let document_ids = dedup (List.map_filter ci_source_id items)
           in st\<lparr>cs_tracker := fold (\<lambda>d s. tk_record_access tracker s (tr_tenant_id request) d now) document_ids (cs_tracker st)\<rparr>)"

definition cancel_tier :: "paradigm \<Rightarrow> tier_request \<Rightarrow> 't cascade_state \<Rightarrow> 't cascade_state" where
  "cancel_tier p request st = st\<lparr>cs_cancelled := cs_cancelled st @ [(p, request)]\<rparr>"

definition attempt :: "cascade_config \<Rightarrow> ('t, uuid) tracker_ops \<Rightarrow> world \<Rightarrow> 't cascade_state \<Rightarrow> paradigm \<Rightarrow> tier_request \<Rightarrow>
    (tier_attempt \<times> tier_result option) result \<times> 't cascade_state" where
  "attempt cfg tracker w st p request =
     (let report = (\<lambda>outcome. \<lparr>ta_paradigm = p, ta_outcome = outcome, ta_elapsed_ms = w_elapsed w p\<rparr>)
      in case w_event w p of
           TimedOut \<Rightarrow>
             (Inr (report TIMEOUT, None),
              if p = RAG \<and> cc_sink cfg \<and> int (length (cs_background st)) < cc_max_background cfg
              then st\<lparr>cs_background := cs_background st @ [request]\<rparr>
              else cancel_tier p request st)
         | TaskCancelled \<Rightarrow> (Inl cancelled_error, cancel_tier p request st)
         | Raised \<Rightarrow> (Inr (report ERROR, None), st)
         | Returned r \<Rightarrow>
             (Inr (report (tres_outcome r), Some r),
              if p = RAG \<and> tres_outcome r = HIT then record_rag_access cfg tracker (w_now w) request (tres_items r) st else st))"

subsection \<open>The three kinds of run\<close>

fun unrouted_from :: "cascade_config \<Rightarrow> ('t, uuid) tracker_ops \<Rightarrow> world \<Rightarrow> tier_request \<Rightarrow> paradigm list \<Rightarrow> collector \<Rightarrow>
    't cascade_state \<Rightarrow> collector result \<times> 't cascade_state" where
  "unrouted_from cfg tracker w request [] co st = (Inr co, st)"
| "unrouted_from cfg tracker w request (p # ps) co st =
     (if p \<notin> cc_tiers cfg then unrouted_from cfg tracker w request ps co st
      else case attempt cfg tracker w st p request of
             (Inl e, st1) \<Rightarrow> (Inl e, st1)
           | (Inr (a, res), st1) \<Rightarrow>
               (let co1 = collector_add co a res in
                if (case res of Some r \<Rightarrow> tres_outcome r = HIT | None \<Rightarrow> False) then (Inr co1, st1)
                else unrouted_from cfg tracker w request ps co1 st1))"

fun routed_from :: "cascade_config \<Rightarrow> ('t, uuid) tracker_ops \<Rightarrow> world \<Rightarrow> tier_request \<Rightarrow> paradigm set \<Rightarrow> paradigm list \<Rightarrow>
    collector \<Rightarrow> 't cascade_state \<Rightarrow> collector result \<times> 't cascade_state" where
  "routed_from cfg tracker w request routed [] co st = (Inr co, st)"
| "routed_from cfg tracker w request routed (p # ps) co st =
     (if routed \<subseteq> co_satisfied co then (Inr co, st)
      else case attempt cfg tracker w st p request of
             (Inl e, st1) \<Rightarrow> (Inl e, st1)
           | (Inr (a, res), st1) \<Rightarrow> routed_from cfg tracker w request routed ps (collector_add co a res) st1)"

fun parallel_attempts :: "cascade_config \<Rightarrow> ('t, uuid) tracker_ops \<Rightarrow> world \<Rightarrow> tier_request \<Rightarrow> paradigm list \<Rightarrow>
    't cascade_state \<Rightarrow> (paradigm \<times> tier_attempt \<times> tier_result option) list result \<times> 't cascade_state" where
  \<comment> \<open>the attempts in the order in which they complete; when one is cancelled, so are the rest\<close>
  "parallel_attempts cfg tracker w request [] st = (Inr [], st)"
| "parallel_attempts cfg tracker w request (p # ps) st =
     (case attempt cfg tracker w st p request of
        (Inl e, st1) \<Rightarrow> (Inl e, fold (\<lambda>q. cancel_tier q request) ps st1)
      | (Inr ar, st1) \<Rightarrow>
          (case parallel_attempts cfg tracker w request ps st1 of
             (Inl e, st2) \<Rightarrow> (Inl e, st2)
           | (Inr rest, st2) \<Rightarrow> (Inr ((p, ar) # rest), st2)))"

definition run_parallel :: "cascade_config \<Rightarrow> ('t, uuid) tracker_ops \<Rightarrow> world \<Rightarrow> paradigm list \<Rightarrow> tier_request \<Rightarrow> paradigm list \<Rightarrow>
    't cascade_state \<Rightarrow> cascade_result result \<times> 't cascade_state" where
  "run_parallel cfg tracker w order request eligible st =
     (case parallel_attempts cfg tracker w request order st of
        (Inl e, st1) \<Rightarrow> (Inl e, st1)
      | (Inr done, st1) \<Rightarrow>
          (Inr (collector_result
                 (fold (\<lambda>p co. case map_of done p of None \<Rightarrow> co | Some (a, res) \<Rightarrow> collector_add co a res)
                    eligible new_collector)), st1))"

definition run_unrouted :: "cascade_config \<Rightarrow> ('t, uuid) tracker_ops \<Rightarrow> world \<Rightarrow> tier_request \<Rightarrow> 't cascade_state \<Rightarrow>
    cascade_result result \<times> 't cascade_state" where
  "run_unrouted cfg tracker w request st =
     (case unrouted_from cfg tracker w request PARADIGM_ORDER new_collector st of
        (Inl e, st1) \<Rightarrow> (Inl e, st1)
      | (Inr co, st1) \<Rightarrow> (Inr (collector_result co), st1))"

definition run_routed :: "cascade_config \<Rightarrow> ('t, uuid) tracker_ops \<Rightarrow> world \<Rightarrow> tier_request \<Rightarrow> paradigm set \<Rightarrow> paradigm list \<Rightarrow>
    't cascade_state \<Rightarrow> cascade_result result \<times> 't cascade_state" where
  "run_routed cfg tracker w request routed eligible st =
     (case routed_from cfg tracker w request routed eligible new_collector st of
        (Inl e, st1) \<Rightarrow> (Inl e, st1)
      | (Inr co, st1) \<Rightarrow> (Inr (collector_result co), st1))"

definition eligible_tiers :: "cascade_config \<Rightarrow> routing_decision \<Rightarrow> paradigm list" where
  "eligible_tiers cfg decision =
     filter (\<lambda>p. p \<in> cc_tiers cfg \<and> (p \<in> rd_paradigms decision \<or> p = RAG)) PARADIGM_ORDER"

definition run_cascade :: "cascade_config \<Rightarrow> ('t, uuid) tracker_ops \<Rightarrow> world \<Rightarrow> (paradigm list \<Rightarrow> paradigm list) \<Rightarrow> tier_request \<Rightarrow>
    routing_decision option \<Rightarrow> 't cascade_state \<Rightarrow> cascade_result result \<times> 't cascade_state" where
  \<comment> \<open>\<open>LatencyCascade.run\<close>; \<open>order\<close> gives the order of completion of a parallel run\<close>
  "run_cascade cfg tracker w order request decision st =
     (case decision of
        None \<Rightarrow> run_unrouted cfg tracker w request st
      | Some d \<Rightarrow>
          (let eligible = eligible_tiers cfg d in
           if rd_mode d = PARALLEL then run_parallel cfg tracker w (order eligible) request eligible st
           else run_routed cfg tracker w request (rd_paradigms d) eligible st))"

subsection \<open>Background work\<close>

definition finish_background :: "cascade_config \<Rightarrow> ('t, uuid) tracker_ops \<Rightarrow> attempt_event \<Rightarrow> datetime \<Rightarrow> nat \<Rightarrow>
    't cascade_state \<Rightarrow> 't cascade_state" where
  \<comment> \<open>the \<open>i\<close>-th background task ends, within the background timeout or not\<close>
  "finish_background cfg tracker ev now i st =
     (let request = cs_background st ! i;
          st1 = st\<lparr>cs_background := take i (cs_background st) @ drop (Suc i) (cs_background st)\<rparr>
      in case ev of
           Returned r \<Rightarrow>
             if tres_outcome r \<noteq> HIT then st1
             else (let st2 = record_rag_access cfg tracker now request (tres_items r) st1
                   in st2\<lparr>cs_findings := cs_findings st2 @ [(request, tres_items r)]\<rparr>)
         | _ \<Rightarrow> st1)"

fun drain_background :: "cascade_config \<Rightarrow> ('t, uuid) tracker_ops \<Rightarrow> (tier_request \<Rightarrow> attempt_event) \<Rightarrow> datetime \<Rightarrow> nat \<Rightarrow>
    't cascade_state \<Rightarrow> 't cascade_state" where
  "drain_background cfg tracker evs now 0 st = st"
| "drain_background cfg tracker evs now (Suc n) st =
     drain_background cfg tracker evs now n (finish_background cfg tracker (evs (hd (cs_background st))) now 0 st)"

definition drain :: "cascade_config \<Rightarrow> ('t, uuid) tracker_ops \<Rightarrow> (tier_request \<Rightarrow> attempt_event) \<Rightarrow> datetime \<Rightarrow>
    't cascade_state \<Rightarrow> 't cascade_state" where
  "drain cfg tracker evs now st =
     (drain_background cfg tracker evs now (length (cs_background st)) st)\<lparr>cs_cancelled := []\<rparr>"

subsection \<open>What a run reports\<close>

definition hit :: "world \<Rightarrow> paradigm \<Rightarrow> bool" where
  "hit w p = (case w_event w p of Returned r \<Rightarrow> tres_outcome r = HIT | _ \<Rightarrow> False)"

definition hits :: "world \<Rightarrow> paradigm list \<Rightarrow> paradigm set" where
  "hits w ps = {p \<in> set ps. hit w p}"

fun outcome_of :: "attempt_event \<Rightarrow> tier_outcome" where
  "outcome_of (Returned r) = tres_outcome r"
| "outcome_of TimedOut = TIMEOUT"
| "outcome_of _ = ERROR"

fun result_of :: "attempt_event \<Rightarrow> tier_result option" where
  "result_of (Returned r) = Some r"
| "result_of _ = None"

definition report :: "world \<Rightarrow> paradigm \<Rightarrow> tier_attempt" where
  "report w p = \<lparr>ta_paradigm = p, ta_outcome = outcome_of (w_event w p), ta_elapsed_ms = w_elapsed w p\<rparr>"

definition summary :: "world \<Rightarrow> paradigm list \<Rightarrow> cascade_result" where
  "summary w ps =
     \<lparr>cr_items = concat (map (\<lambda>p. case result_of (w_event w p) of None \<Rightarrow> [] | Some r \<Rightarrow> tres_items r) ps),
      cr_attempts = map (report w) ps, cr_satisfied = hits w ps,
      cr_degraded = (\<exists>p \<in> set ps. w_event w p \<in> {Raised, TimedOut, TaskCancelled})\<rparr>"

definition until_hit :: "world \<Rightarrow> paradigm list \<Rightarrow> paradigm list" where
  "until_hit w ps = takeWhile (\<lambda>p. \<not> hit w p) ps @ take 1 (dropWhile (\<lambda>p. \<not> hit w p) ps)"

definition add_all :: "world \<Rightarrow> paradigm list \<Rightarrow> collector \<Rightarrow> collector" where
  "add_all w ps co = fold (\<lambda>p co. collector_add co (report w p) (result_of (w_event w p))) ps co"

lemma add_all_simps [simp]:
  "add_all w [] co = co"
  "add_all w (p # ps) co = add_all w ps (collector_add co (report w p) (result_of (w_event w p)))"
  by (simp_all add: add_all_def)

lemma add_all_result:
  "collector_result (add_all w ps co) =
     \<lparr>cr_items = co_items co @ cr_items (summary w ps), cr_attempts = co_attempts co @ cr_attempts (summary w ps),
      cr_satisfied = co_satisfied co \<union> hits w ps, cr_degraded = (co_degraded co \<or> cr_degraded (summary w ps))\<rparr>"
proof (induction ps arbitrary: co)
  case (Cons p ps)
  then show ?case
    by (cases "w_event w p") (auto simp: collector_result_def summary_def collector_add_def hits_def hit_def report_def Let_def)
qed (simp add: collector_result_def summary_def hits_def)

lemma add_all_new: "collector_result (add_all w ps new_collector) = summary w ps"
  by (simp add: add_all_result new_collector_def) (simp add: summary_def)

lemma add_all_satisfied: "co_satisfied (add_all w ps co) = co_satisfied co \<union> hits w ps"
  using add_all_result [of w ps co] by (simp add: collector_result_def)

lemma attempt_result:
  "w_event w p \<noteq> TaskCancelled \<Longrightarrow> fst (attempt cfg tk w st p rq) = Inr (report w p, result_of (w_event w p))"
  by (cases "w_event w p") (simp_all add: attempt_def report_def)

lemma attempt_Inl: "fst (attempt cfg tk w st p rq) = Inl e \<Longrightarrow> e = cancelled_error \<and> w_event w p = TaskCancelled"
  by (cases "w_event w p") (simp_all add: attempt_def)

lemma result_of_hit: "(case result_of (w_event w p) of Some r \<Rightarrow> tres_outcome r = HIT | None \<Rightarrow> False) = hit w p"
  by (cases "w_event w p") (simp_all add: hit_def)

lemma attempt_pair:
  "w_event w p \<noteq> TaskCancelled \<Longrightarrow>
     attempt cfg tk w st p rq = (Inr (report w p, result_of (w_event w p)), snd (attempt cfg tk w st p rq))"
  using attempt_result by (metis prod.collapse)

lemma unrouted_from_result:
  assumes "\<forall>p. w_event w p \<noteq> TaskCancelled"
  shows "fst (unrouted_from cfg tk w rq ps co st) = Inr (add_all w (until_hit w (filter (\<lambda>p. p \<in> cc_tiers cfg) ps)) co)"
proof (induction ps arbitrary: co st)
  case (Cons p ps)
  have a: "attempt cfg tk w st p rq = (Inr (report w p, result_of (w_event w p)), snd (attempt cfg tk w st p rq))"
    using assms by (intro attempt_pair) simp
  show ?case
  proof (cases "p \<in> cc_tiers cfg")
    case True
    then show ?thesis
      unfolding unrouted_from.simps by (subst a) (simp add: result_of_hit Let_def Cons.IH, simp add: until_hit_def)
  next
    case False
    then show ?thesis by (simp add: Cons.IH)
  qed
qed (simp add: until_hit_def)

lemma routed_from_result:
  assumes "\<forall>p. w_event w p \<noteq> TaskCancelled"
  shows "\<exists>ps' rest. ps = ps' @ rest \<and> fst (routed_from cfg tk w rq routed ps co st) = Inr (add_all w ps' co) \<and>
      (rest = [] \<or> routed \<subseteq> co_satisfied co \<union> hits w ps') \<and>
      (\<forall>k < length ps'. \<not> routed \<subseteq> co_satisfied co \<union> hits w (take k ps'))"
proof (induction ps arbitrary: co st)
  case (Cons p ps)
  let ?co = "collector_add co (report w p) (result_of (w_event w p))" and ?st = "snd (attempt cfg tk w st p rq)"
  have a: "attempt cfg tk w st p rq = (Inr (report w p, result_of (w_event w p)), ?st)"
    using assms by (intro attempt_pair) simp
  have sat: "co_satisfied ?co = co_satisfied co \<union> hits w [p]" using add_all_satisfied [of w "[p]" co] by simp
  have hC: "hits w (p # qs) = hits w [p] \<union> hits w qs" for qs by (auto simp: hits_def)
  show ?case
  proof (cases "routed \<subseteq> co_satisfied co")
    case True
    then show ?thesis by (intro exI [of _ "[]"] exI [of _ "p # ps"]) (simp add: hits_def)
  next
    case False
    obtain ps' rest where ih: "ps = ps' @ rest" "fst (routed_from cfg tk w rq routed ps ?co ?st) = Inr (add_all w ps' ?co)"
      "rest = [] \<or> routed \<subseteq> co_satisfied ?co \<union> hits w ps'"
      "\<forall>k < length ps'. \<not> routed \<subseteq> co_satisfied ?co \<union> hits w (take k ps')"
      using Cons.IH [of ?co ?st] by blast
    have "fst (routed_from cfg tk w rq routed (p # ps) co st) = Inr (add_all w (p # ps') co)"
      using False ih(2) unfolding routed_from.simps by (subst a) simp
    moreover have "\<not> routed \<subseteq> co_satisfied co \<union> hits w (take k (p # ps'))" if "k < length (p # ps')" for k
    proof (cases k)
      case 0
      with False show ?thesis by (simp add: hits_def)
    next
      case (Suc j)
      with that ih(4) have "\<not> routed \<subseteq> co_satisfied ?co \<union> hits w (take j ps')" by simp
      then show ?thesis unfolding Suc sat hC [of "take j ps'"] by (simp add: Un_assoc hC [of "take j ps'"])
    qed
    moreover have "rest = [] \<or> routed \<subseteq> co_satisfied co \<union> hits w (p # ps')"
      using ih(3) unfolding sat hC [of ps'] by (simp add: Un_assoc)
    ultimately show ?thesis using ih(1) by (intro exI [of _ "p # ps'"] exI [of _ rest]) auto
  qed
qed (auto simp: hits_def)

lemma parallel_attempts_result:
  assumes "\<forall>p. w_event w p \<noteq> TaskCancelled"
  shows "fst (parallel_attempts cfg tk w rq ps st) = Inr (map (\<lambda>p. (p, report w p, result_of (w_event w p))) ps)"
proof (induction ps arbitrary: st)
  case (Cons p ps)
  have a: "attempt cfg tk w st p rq = (Inr (report w p, result_of (w_event w p)), snd (attempt cfg tk w st p rq))"
    using assms by (intro attempt_pair) simp
  show ?case unfolding parallel_attempts.simps by (subst a) (simp add: case_prod_unfold Cons.IH)
qed simp

lemma run_parallel_result:
  assumes "\<forall>p. w_event w p \<noteq> TaskCancelled" "set order = set eligible"
  shows "fst (run_parallel cfg tk w order rq eligible st) = Inr (summary w eligible)"
proof -
  let ?done = "map (\<lambda>p. (p, report w p, result_of (w_event w p))) order"
  have m: "map_of ?done p = (if p \<in> set order then Some (report w p, result_of (w_event w p)) else None)" for p
    by (simp add: map_of_map_restrict restrict_map_def)
  have "fold (\<lambda>p co. case map_of ?done p of None \<Rightarrow> co | Some (a, res) \<Rightarrow> collector_add co a res) eligible co =
      add_all w eligible co" for co
    unfolding add_all_def by (rule fold_cong) (simp_all add: m assms(2))
  then show ?thesis
    using parallel_attempts_result [OF assms(1), of cfg tk rq order st]
    by (simp add: run_parallel_def case_prod_unfold add_all_new)
qed

text \<open>
  C11. Which tiers a run tries, and what it reports of them, whatever the tiers do short of
  being cancelled. Without a decision the configured tiers are tried in the order CAG, MAG,
  RAG up to the first hit. With a \<open>CASCADE\<close> decision they are the routed ones and RAG, in
  this order, up to the first point where every routed paradigm has a hit; a paradigm the
  router left out is never tried, and RAG is tried whenever the others did not satisfy the route.
  With a \<open>PARALLEL\<close> decision all of these are tried, and the order in which they finish
  makes no difference. The result lists the attempts with their outcome, the items of those
  that returned, in order, the paradigms with a hit, and whether any attempt failed: a
  timeout or an exception of a tier never fails the run.
\<close>

theorem cascade_run_correct:
  assumes "\<forall>p. w_event w p \<noteq> TaskCancelled" and "\<forall>ps. set (order ps) = set ps" and "RAG \<in> cc_tiers cfg"
  shows "\<exists>ps. fst (run_cascade cfg tracker w order request decision st) = Inr (summary w ps) \<and>
    (case decision of
       None \<Rightarrow> ps = until_hit w (filter (\<lambda>p. p \<in> cc_tiers cfg) PARADIGM_ORDER)
     | Some d \<Rightarrow>
         set ps \<subseteq> (rd_paradigms d \<union> {RAG}) \<inter> cc_tiers cfg \<and>
         (if rd_mode d = PARALLEL then ps = eligible_tiers cfg d
          else (\<exists>rest. eligible_tiers cfg d = ps @ rest) \<and>
               (rd_paradigms d \<subseteq> hits w ps \<or> RAG \<in> set ps \<and> ps = eligible_tiers cfg d) \<and>
               (\<forall>k < length ps. \<not> rd_paradigms d \<subseteq> hits w (take k ps))))"
proof (cases decision)
  case None
  have "fst (run_unrouted cfg tracker w request st) =
      Inr (collector_result (add_all w (until_hit w (filter (\<lambda>p. p \<in> cc_tiers cfg) PARADIGM_ORDER)) new_collector))"
    using unrouted_from_result [OF assms(1), of cfg tracker request PARADIGM_ORDER new_collector st]
    by (simp add: run_unrouted_def case_prod_unfold)
  with None show ?thesis by (simp add: run_cascade_def add_all_new)
next
  case (Some d)
  let ?e = "eligible_tiers cfg d"
  have co0: "co_satisfied new_collector = {}" by (simp add: new_collector_def)
  have el: "set ?e \<subseteq> (rd_paradigms d \<union> {RAG}) \<inter> cc_tiers cfg" "RAG \<in> set ?e"
    using assms(3) by (auto simp: eligible_tiers_def)
  show ?thesis
  proof (cases "rd_mode d = PARALLEL")
    case True
    with Some el run_parallel_result [OF assms(1), of "order ?e" ?e] assms(2) show ?thesis
      by (auto simp: run_cascade_def Let_def)
  next
    case False
    obtain ps rest where r: "?e = ps @ rest"
      "fst (routed_from cfg tracker w request (rd_paradigms d) ?e new_collector st) = Inr (add_all w ps new_collector)"
      "rest = [] \<or> rd_paradigms d \<subseteq> hits w ps" "\<forall>k < length ps. \<not> rd_paradigms d \<subseteq> hits w (take k ps)"
      using routed_from_result [OF assms(1), of ?e cfg tracker request "rd_paradigms d" new_collector st]
      unfolding co0 Un_empty_left by blast
    have "fst (run_cascade cfg tracker w order request decision st) = Inr (summary w ps)"
      using r(2) False Some by (simp add: run_cascade_def Let_def run_routed_def case_prod_unfold add_all_new)
    with r el False Some show ?thesis by (intro exI [of _ ps]) auto
  qed
qed

definition ex_world :: world where
  "ex_world = \<lparr>w_event = (\<lambda>p. case p of CAG \<Rightarrow> TimedOut | MAG \<Rightarrow> Raised
      | RAG \<Rightarrow> Returned \<lparr>tres_outcome = HIT, tres_items = []\<rparr>), w_elapsed = (\<lambda>_. 1), w_now = 0\<rparr>"

definition ex_config :: cascade_config where
  "ex_config = \<lparr>cc_tiers = {CAG, MAG, RAG}, cc_timeouts = default_tier_timeouts, cc_tracked = True, cc_sink = True,
     cc_background_timeout = 30, cc_max_background = 1\<rparr>"

definition ex_request :: tier_request where
  "ex_request = \<lparr>tr_tenant_id = 7, tr_user_id = 8, tr_session_id = 9, tr_query = ''q'', tr_query_embedding = []\<rparr>"

definition idle_state :: "access_tracker cascade_state" where
  "idle_state = \<lparr>cs_background = [], cs_cancelled = [], cs_tracker = new_counter DEFAULT_RETENTION, cs_findings = []\<rparr>"

theorem cascade_run_correct_witness:
  "\<exists>ps. fst (run_cascade ex_config tenant_tracker_ops ex_world (\<lambda>ps. ps) ex_request None idle_state) = Inr (summary ex_world ps) \<and>
     ps = [CAG, MAG, RAG]"
proof -
  have "\<forall>p. w_event ex_world p \<noteq> TaskCancelled" by (simp add: ex_world_def split: paradigm.split)
  from cascade_run_correct [OF this, of "\<lambda>ps. ps" ex_config tenant_tracker_ops ex_request None idle_state]
  show ?thesis by (simp add: ex_config_def until_hit_def PARADIGM_ORDER_def hit_def ex_world_def)
qed

text \<open>Cancellation is the only thing a run raises.\<close>

lemma attempt_InlD: "attempt cfg tk w st p rq = (Inl e, st1) \<Longrightarrow> e = cancelled_error \<and> w_event w p = TaskCancelled"
  using attempt_Inl [of cfg tk w st p rq e] by simp

lemma unrouted_from_Inl:
  "fst (unrouted_from cfg tk w rq ps co st) = Inl e \<Longrightarrow> e = cancelled_error \<and> (\<exists>p \<in> cc_tiers cfg. w_event w p = TaskCancelled)"
proof (induction ps arbitrary: co st)
  case (Cons p ps)
  obtain r st1 where a: "attempt cfg tk w st p rq = (r, st1)" by fastforce
  with Cons attempt_InlD [of cfg tk w st p rq] show ?case
    by (cases r) (auto simp: Let_def split: if_splits prod.splits)
qed simp

lemma routed_from_Inl:
  "fst (routed_from cfg tk w rq routed ps co st) = Inl e \<Longrightarrow> e = cancelled_error \<and> (\<exists>p \<in> set ps. w_event w p = TaskCancelled)"
proof (induction ps arbitrary: co st)
  case (Cons p ps)
  obtain r st1 where a: "attempt cfg tk w st p rq = (r, st1)" by fastforce
  with Cons attempt_InlD [of cfg tk w st p rq] show ?case
    by (cases r) (auto split: if_splits prod.splits)
qed simp

lemma parallel_attempts_Inl:
  "fst (parallel_attempts cfg tk w rq ps st) = Inl e \<Longrightarrow> e = cancelled_error \<and> (\<exists>p \<in> set ps. w_event w p = TaskCancelled)"
proof (induction ps arbitrary: st)
  case (Cons p ps)
  obtain r st1 where a: "attempt cfg tk w st p rq = (r, st1)" by fastforce
  obtain r2 st2 where b: "parallel_attempts cfg tk w rq ps st1 = (r2, st2)" by fastforce
  show ?case
  proof (cases r)
    case (Inl e')
    with a Cons.prems attempt_InlD [of cfg tk w st p rq] show ?thesis by auto
  next
    case (Inr ar)
    with a b Cons.prems have "r2 = Inl e" by (auto split: sum.splits)
    with Cons.IH [of st1] b show ?thesis by auto
  qed
qed simp

text \<open>
  The only exception a run can raise is a cancellation: if it raises, the exception is
  \<^verbatim>\<open>CancelledError\<close> and the task of one of the configured tiers was cancelled.
\<close>

theorem cascade_raises_only_cancellation:
  assumes "fst (run_cascade cfg tracker w order request decision st) = Inl e" and "\<forall>ps. set (order ps) = set ps"
  shows "e = cancelled_error \<and> (\<exists>p \<in> cc_tiers cfg. w_event w p = TaskCancelled)"
proof (cases decision)
  case None
  with assms(1) have "fst (unrouted_from cfg tracker w request PARADIGM_ORDER new_collector st) = Inl e"
    by (auto simp: run_cascade_def run_unrouted_def case_prod_unfold split: sum.splits)
  then show ?thesis by (rule unrouted_from_Inl)
next
  case (Some d)
  have el: "p \<in> set (eligible_tiers cfg d) \<Longrightarrow> p \<in> cc_tiers cfg" for p by (simp add: eligible_tiers_def)
  show ?thesis
  proof (cases "rd_mode d = PARALLEL")
    case True
    with Some assms(1) have "fst (parallel_attempts cfg tracker w request (order (eligible_tiers cfg d)) st) = Inl e"
      by (auto simp: run_cascade_def run_parallel_def Let_def case_prod_unfold split: sum.splits)
    from parallel_attempts_Inl [OF this] assms(2) el show ?thesis by auto
  next
    case False
    with Some assms(1) have "fst (routed_from cfg tracker w request (rd_paradigms d) (eligible_tiers cfg d) new_collector st) = Inl e"
      by (auto simp: run_cascade_def run_routed_def Let_def case_prod_unfold split: sum.splits)
    from routed_from_Inl [OF this] el show ?thesis by auto
  qed
qed

theorem cascade_raises_only_cancellation_witness:
  "let w = ex_world\<lparr>w_event := (\<lambda>_. TaskCancelled)\<rparr>;
       r = run_cascade ex_config tenant_tracker_ops w (\<lambda>ps. ps) ex_request None idle_state
   in fst r = Inl cancelled_error"
proof -
  let ?w = "ex_world\<lparr>w_event := (\<lambda>_. TaskCancelled)\<rparr>"
  have "\<exists>e. fst (run_cascade ex_config tenant_tracker_ops ?w (\<lambda>ps. ps) ex_request None idle_state) = Inl e"
    by (simp add: run_cascade_def run_unrouted_def PARADIGM_ORDER_def attempt_def ex_config_def)
  then show ?thesis using cascade_raises_only_cancellation by (metis (no_types, lifting))
qed

subsection \<open>Background work is bounded and delivered\<close>

text \<open>
  The steps of the cascade as a running service: an attempt of some request ends, a background
  task ends, the clean-up of a cancelled tier ends. Any number of requests interleave.
\<close>

inductive cascade_step :: "cascade_config \<Rightarrow> ('t, uuid) tracker_ops \<Rightarrow> 't cascade_state \<Rightarrow> 't cascade_state \<Rightarrow> bool"
  for cfg tracker where
  attempt_ends: "cascade_step cfg tracker st (snd (attempt cfg tracker w st p request))"
| background_ends: "i < length (cs_background st) \<Longrightarrow> cascade_step cfg tracker st (finish_background cfg tracker ev now i st)"
| cleanup_ends: "cs_cancelled st = xs @ c # ys \<Longrightarrow> cascade_step cfg tracker st (st\<lparr>cs_cancelled := xs @ ys\<rparr>)"

inductive cascade_reachable :: "cascade_config \<Rightarrow> ('t, uuid) tracker_ops \<Rightarrow> 't cascade_state \<Rightarrow> bool"
  for cfg tracker where
  start: "cascade_reachable cfg tracker \<lparr>cs_background = [], cs_cancelled = [], cs_tracker = s, cs_findings = []\<rparr>"
| step: "cascade_reachable cfg tracker st \<Longrightarrow> cascade_step cfg tracker st st' \<Longrightarrow> cascade_reachable cfg tracker st'"

lemma record_rag_access_frame [simp]:
  "cs_background (record_rag_access cfg tk now rq items st) = cs_background st"
  "cs_cancelled (record_rag_access cfg tk now rq items st) = cs_cancelled st"
  "cs_findings (record_rag_access cfg tk now rq items st) = cs_findings st"
  by (simp_all add: record_rag_access_def Let_def)

lemma finish_background_frame:
  "cs_background (finish_background cfg tk ev now i st) = take i (cs_background st) @ drop (Suc i) (cs_background st)"
  "cs_cancelled (finish_background cfg tk ev now i st) = cs_cancelled st"
  by (simp_all add: finish_background_def Let_def split: attempt_event.split)

lemma attempt_background:
  "cs_background (snd (attempt cfg tk w st p rq)) =
     cs_background st @ (if p = RAG \<and> w_event w p = TimedOut \<and> cc_sink cfg \<and>
       int (length (cs_background st)) < cc_max_background cfg then [rq] else [])"
  by (simp add: attempt_def Let_def cancel_tier_def split: attempt_event.split)

text \<open>
  C7. However many requests run, whatever the RAG backend does, at most \<open>max_background\<close>
  retrievals continue in the background at any moment.
\<close>

theorem background_bounded:
  assumes "cascade_reachable cfg tracker st" and "1 \<le> cc_max_background cfg"
  shows "int (length (cs_background st)) \<le> cc_max_background cfg"
  using assms(1)
proof (induction rule: cascade_reachable.induct)
  case (step st st')
  from step.hyps(2) show ?case
  proof (cases rule: cascade_step.cases)
    case (attempt_ends w p request)
    with step.IH show ?thesis by (auto simp: attempt_background)
  next
    case (background_ends i ev now)
    with step.IH show ?thesis by (simp add: finish_background_frame)
  next
    case (cleanup_ends xs c ys)
    with step.IH show ?thesis by simp
  qed
qed (use assms(2) in simp)

theorem background_bounded_witness:
  "let w = ex_world\<lparr>w_event := (\<lambda>_. TimedOut)\<rparr>;
       st = snd (attempt ex_config tenant_tracker_ops w idle_state RAG ex_request)
   in length (cs_background st) = 1 \<and> int (length (cs_background st)) \<le> cc_max_background ex_config"
proof -
  let ?w = "ex_world\<lparr>w_event := (\<lambda>_. TimedOut)\<rparr>"
  let ?st = "snd (attempt ex_config tenant_tracker_ops ?w idle_state RAG ex_request)"
  have "cascade_reachable ex_config tenant_tracker_ops ?st"
    unfolding idle_state_def by (rule cascade_reachable.step [OF cascade_reachable.start cascade_step.attempt_ends])
  from background_bounded [OF this] show ?thesis
    by (simp add: Let_def attempt_background ex_config_def idle_state_def)
qed

lemma drain_background_result:
  assumes "n = length (cs_background st)"
  shows "cs_background (drain_background cfg tk evs now n st) = [] \<and>
    cs_findings (drain_background cfg tk evs now n st) = cs_findings st @
      List.map_filter (\<lambda>rq. case evs rq of Returned r \<Rightarrow> if tres_outcome r = HIT then Some (rq, tres_items r) else None | _ \<Rightarrow> None)
        (cs_background st)"
  using assms
proof (induction n arbitrary: st)
  case (Suc n)
  then obtain rq bs where b: "cs_background st = rq # bs" by (cases "cs_background st") auto
  let ?st = "finish_background cfg tk (evs rq) now 0 st"
  have bs: "cs_background ?st = bs" using b by (simp add: finish_background_frame)
  moreover have "cs_findings ?st = cs_findings st @
      (case evs rq of Returned r \<Rightarrow> if tres_outcome r = HIT then [(rq, tres_items r)] else [] | _ \<Rightarrow> [])"
    using b by (simp add: finish_background_def Let_def split: attempt_event.split)
  ultimately show ?case using Suc.IH [of ?st] Suc.prems b
    by (auto simp: List.map_filter_simps split: attempt_event.splits)
qed (simp add: List.map_filter_simps)

text \<open>
  Draining finishes everything and loses no finding. After \<^verbatim>\<open>drain\<close> no background task and no
  cancelled tier is left, and the callback has received, in order and once each, the
  items of exactly those background retrievals that ended with a hit.
\<close>

theorem drain_delivers:
  "let st' = drain cfg tracker evs now st in
   cs_background st' = [] \<and> cs_cancelled st' = [] \<and>
   cs_findings st' = cs_findings st @
     List.map_filter (\<lambda>rq. case evs rq of Returned r \<Rightarrow> if tres_outcome r = HIT then Some (rq, tres_items r) else None | _ \<Rightarrow> None)
       (cs_background st)"
  using drain_background_result [OF refl, where st = st and cfg = cfg and tk = tracker and evs = evs and now = now] by (simp add: drain_def Let_def)

end
