(* ===== verification/Cascade_Tiers.thy ===== *)
theory Cascade_Tiers
  imports Latency_Cascade
begin

text \<open>
  The three tiers of \<^verbatim>\<open>src/orchestration/application/cascade_tiers.py\<close> and the fact search
  behind the MAG tier, \<^verbatim>\<open>session_scoped_semantic_fact_search.py\<close>.

  The RAG retriever is a parameter. The database session of the fact search is the list of the
  calls made on it; what each call does is a \<open>session_world\<close>. A fact whose score is \<open>+inf\<close>,
  which a cosine similarity never is, counts as irrelevant.
\<close>

subsection \<open>Configuration\<close>

definition check_thresholds :: "rat \<Rightarrow> rat \<Rightarrow> unit result" where
  "check_thresholds hit_threshold partial_threshold =
     (if hit_threshold < partial_threshold
      then Inl (ValueError ''partial_threshold cannot exceed hit_threshold'') else Inr ())"

definition check_top_k :: "int \<Rightarrow> unit result" where
  "check_top_k top_k = (if top_k < 1 then Inl (ValueError ''top_k must be at least 1'') else Inr ())"

record cag_tier =
  ct_hit :: rat
  ct_partial :: rat

definition make_cag_tier :: "rat \<Rightarrow> rat \<Rightarrow> cag_tier result" where
  "make_cag_tier hit_threshold partial_threshold =
     (case check_thresholds hit_threshold partial_threshold of
        Inl e \<Rightarrow> Inl e
      | Inr _ \<Rightarrow> Inr \<lparr>ct_hit = hit_threshold, ct_partial = partial_threshold\<rparr>)"

record mag_tier =
  mt_hit :: rat
  mt_partial :: rat
  mt_top_k :: int

definition make_mag_tier :: "rat \<Rightarrow> rat \<Rightarrow> int \<Rightarrow> mag_tier result" where
  "make_mag_tier hit_threshold partial_threshold top_k =
     (case check_thresholds hit_threshold partial_threshold of
        Inl e \<Rightarrow> Inl e
      | Inr _ \<Rightarrow>
          (case check_top_k top_k of
             Inl e \<Rightarrow> Inl e
           | Inr _ \<Rightarrow> Inr \<lparr>mt_hit = hit_threshold, mt_partial = partial_threshold, mt_top_k = top_k\<rparr>))"

definition make_rag_tier :: "int \<Rightarrow> int result" where
  "make_rag_tier top_k = (case check_top_k top_k of Inl e \<Rightarrow> Inl e | Inr _ \<Rightarrow> Inr top_k)"

subsection \<open>Attempts\<close>

definition cag_attempt :: "cag_tier \<Rightarrow> (uuid \<Rightarrow> embedding \<Rightarrow> search_result option result) \<Rightarrow> tier_request \<Rightarrow>
    tier_result result" where
  \<comment> \<open>\<open>match\<close> is \<open>best_warmed_match\<close> of the retriever, run on a worker thread\<close>
  "cag_attempt t match request =
     (case match (tr_tenant_id request) (tr_query_embedding request) of
        Inl e \<Rightarrow> Inl e
      | Inr None \<Rightarrow> make_tier_result MISS []
      | Inr (Some r) \<Rightarrow>
          if sr_score r < ct_partial t then make_tier_result MISS []
          else make_tier_result (if ct_hit t \<le> sr_score r then HIT else PARTIAL)
                 [\<lparr>ci_paradigm = CAG, ci_content = sr_content r, ci_score = sr_score r,
                   ci_source_id = Some (sr_document_id r)\<rparr>])"

fun score_ge :: "pyfloat \<Rightarrow> rat \<Rightarrow> bool" where
  "score_ge (Fin x) y = (y \<le> x)"
| "score_ge _ y = False"

definition fact_item :: "scored_fact \<Rightarrow> context_item" where
  "fact_item scored =
     \<lparr>ci_paradigm = MAG,
      ci_content = sm_fact_key (sf_fact scored) @ '': '' @ sm_fact_value (sf_fact scored),
      ci_score = fin_val (sf_score scored), ci_source_id = Some (sm_fact_id (sf_fact scored))\<rparr>"

definition mag_attempt :: "mag_tier \<Rightarrow> (uuid \<Rightarrow> uuid \<Rightarrow> embedding \<Rightarrow> int \<Rightarrow> scored_fact list result) \<Rightarrow> tier_request \<Rightarrow>
    tier_result result" where
  "mag_attempt t search request =
     (case search (tr_tenant_id request) (tr_user_id request) (tr_query_embedding request) (mt_top_k t) of
        Inl e \<Rightarrow> Inl e
      | Inr facts \<Rightarrow>
          (let relevant = filter (\<lambda>s. score_ge (sf_score s) (mt_partial t)) facts in
           if relevant = [] then make_tier_result MISS []
           else let best = Max (set (map (\<lambda>s. fin_val (sf_score s)) relevant))
                in make_tier_result (if mt_hit t \<le> best then HIT else PARTIAL) (map fact_item relevant)))"

definition rag_attempt :: "int \<Rightarrow> (uuid \<Rightarrow> string \<Rightarrow> int \<Rightarrow> search_result list result) \<Rightarrow> tier_request \<Rightarrow>
    tier_result result" where
  "rag_attempt top_k retriever request =
     (case retriever (tr_tenant_id request) (tr_query request) top_k of
        Inl e \<Rightarrow> Inl e
      | Inr results \<Rightarrow>
          if results = [] then make_tier_result MISS []
          else make_tier_result HIT
                 (map (\<lambda>r. \<lparr>ci_paradigm = RAG, ci_content = sr_content r, ci_score = sr_score r,
                            ci_source_id = Some (sr_document_id r)\<rparr>) results))"

subsection \<open>The session of a fact search\<close>

datatype session_call = SetTenantContext uuid | SearchCall | CloseCall | InvalidateCall

record session_world =
  ss_context :: "py_error option"
  ss_search :: "embedding \<Rightarrow> uuid \<Rightarrow> uuid \<Rightarrow> nat \<Rightarrow> scored_fact list result"
  ss_close :: "py_error option"
  ss_invalidate :: "py_error option"
  ss_cancelled_again :: bool  \<comment> \<open>the caller is cancelled while it waits for the shielded clean-up\<close>

definition is_exception :: "py_error \<Rightarrow> bool" where
  \<comment> \<open>an \<open>Exception\<close>, as opposed to a \<open>BaseException\<close> that is none\<close>
  "is_exception e \<longleftrightarrow>
     e \<noteq> cancelled_error \<and> e \<noteq> OtherException ''KeyboardInterrupt'' \<and> e \<noteq> OtherException ''SystemExit''"

definition discard :: "session_world \<Rightarrow> py_error option" where
  \<comment> \<open>\<open>await asyncio.shield(_discard(session))\<close>: what the wait raises\<close>
  "discard w =
     (if ss_cancelled_again w then Some cancelled_error
      else case ss_invalidate w of
             None \<Rightarrow> None
           | Some e \<Rightarrow> if is_exception e then None else Some e)"

definition scoped_search :: "session_world \<Rightarrow> uuid \<Rightarrow> uuid \<Rightarrow> embedding \<Rightarrow> int \<Rightarrow> scored_fact list result \<times> session_call list" where
  "scoped_search w tenant_id user_id query_embedding top_k =
     (let or_raise = (\<lambda>r. case discard w of None \<Rightarrow> r | Some e \<Rightarrow> Inl e) in
      case ss_context w of
        Some e \<Rightarrow> (or_raise (Inl e), [SetTenantContext tenant_id, InvalidateCall])
      | None \<Rightarrow>
          (case ss_search w query_embedding user_id tenant_id (nat top_k) of
             Inl e \<Rightarrow> (or_raise (Inl e), [SetTenantContext tenant_id, SearchCall, InvalidateCall])
           | Inr facts \<Rightarrow>
               (case ss_close w of
                  None \<Rightarrow> (Inr facts, [SetTenantContext tenant_id, SearchCall, CloseCall])
                | Some e \<Rightarrow>
                    (or_raise (if is_exception e then Inr facts else Inl e),
                     [SetTenantContext tenant_id, SearchCall, CloseCall, InvalidateCall]))))"

subsection \<open>Properties\<close>

definition reports :: "paradigm \<Rightarrow> rat \<Rightarrow> rat \<Rightarrow> tier_result \<Rightarrow> bool" where
  "reports p low high tr \<longleftrightarrow>
     (\<forall>x \<in> set (tres_items tr). ci_paradigm x = p \<and> low \<le> ci_score x) \<and>
     (tres_outcome tr = MISS \<longleftrightarrow> tres_items tr = []) \<and>
     (tres_outcome tr = HIT \<longleftrightarrow> (\<exists>x \<in> set (tres_items tr). high \<le> ci_score x)) \<and>
     tres_outcome tr \<in> {HIT, PARTIAL, MISS}"

lemma cag_reports:
  "case cag_attempt c match request of
     Inl e \<Rightarrow> match (tr_tenant_id request) (tr_query_embedding request) = Inl e
   | Inr tr \<Rightarrow> reports CAG (ct_partial c) (ct_hit c) tr"
  by (auto simp: cag_attempt_def make_tier_result_def TIER_REPORTABLE_OUTCOMES_def reports_def split: sum.split option.split)

lemma Max_map_ge: "xs \<noteq> [] \<Longrightarrow> h \<le> Max (set (map f xs)) \<longleftrightarrow> (\<exists>x \<in> set xs. h \<le> f x)" for h :: rat
  by (subst Max_ge_iff) auto

lemma score_geD: "score_ge s y \<Longrightarrow> y \<le> fin_val s"
  by (cases s) simp_all

lemma mag_reports:
  "case mag_attempt m search request of
     Inl e \<Rightarrow> search (tr_tenant_id request) (tr_user_id request) (tr_query_embedding request) (mt_top_k m) = Inl e
   | Inr tr \<Rightarrow> reports MAG (mt_partial m) (mt_hit m) tr"
proof (cases "search (tr_tenant_id request) (tr_user_id request) (tr_query_embedding request) (mt_top_k m)")
  case (Inr facts)
  let ?rel = "filter (\<lambda>s. score_ge (sf_score s) (mt_partial m)) facts"
  show ?thesis
  proof (cases "?rel = []")
    case True
    then have "mag_attempt m search request = Inr \<lparr>tres_outcome = MISS, tres_items = []\<rparr>"
      using Inr by (simp add: mag_attempt_def make_tier_result_def TIER_REPORTABLE_OUTCOMES_def Let_def)
    then show ?thesis by (simp add: reports_def)
  next
    case False
    then have r: "mag_attempt m search request =
        Inr \<lparr>tres_outcome = (if mt_hit m \<le> Max (set (map (\<lambda>s. fin_val (sf_score s)) ?rel)) then HIT else PARTIAL),
             tres_items = map fact_item ?rel\<rparr>"
      using Inr by (auto simp: mag_attempt_def make_tier_result_def TIER_REPORTABLE_OUTCOMES_def Let_def)
    show ?thesis unfolding r Max_map_ge [OF False] using False score_geD
      by (auto simp: reports_def fact_item_def filter_empty_conv)
  qed
qed (simp add: mag_attempt_def)

text \<open>
  What each tier reports. No attempt fails in the constructor of \<^verbatim>\<open>TierResult\<close>: it raises only
  what the retriever or the search raised. The items are of the tier's own paradigm; there is
  none exactly on a miss; every item of the CAG and the MAG tier reaches the partial threshold,
  the outcome is a hit exactly when some item reaches the hit threshold, and the RAG tier never
  reports a partial hit.
\<close>

theorem tiers_report:
  "(case cag_attempt c match request of
      Inl e \<Rightarrow> match (tr_tenant_id request) (tr_query_embedding request) = Inl e
    | Inr tr \<Rightarrow> reports CAG (ct_partial c) (ct_hit c) tr) \<and>
   (case mag_attempt m search request of
      Inl e \<Rightarrow> search (tr_tenant_id request) (tr_user_id request) (tr_query_embedding request) (mt_top_k m) = Inl e
    | Inr tr \<Rightarrow> reports MAG (mt_partial m) (mt_hit m) tr) \<and>
   (case rag_attempt top_k retriever request of
      Inl e \<Rightarrow> retriever (tr_tenant_id request) (tr_query request) top_k = Inl e
    | Inr tr \<Rightarrow> ci_paradigm ` set (tres_items tr) \<subseteq> {RAG} \<and> tres_outcome tr = (if tres_items tr = [] then MISS else HIT))"
proof (intro conjI)
  show "case rag_attempt top_k retriever request of
      Inl e \<Rightarrow> retriever (tr_tenant_id request) (tr_query request) top_k = Inl e
    | Inr tr \<Rightarrow> ci_paradigm ` set (tres_items tr) \<subseteq> {RAG} \<and> tres_outcome tr = (if tres_items tr = [] then MISS else HIT)"
    by (auto simp: rag_attempt_def make_tier_result_def TIER_REPORTABLE_OUTCOMES_def split: sum.split)
qed (fact cag_reports mag_reports)+

definition ex_fact :: scored_fact where
  "ex_fact = \<lparr>sf_fact = \<lparr>sm_fact_id = 31, sm_user_id = 8, sm_fact_key = ''city'', sm_fact_value = ''Oslo'', sm_embedding = [],
      sm_confidence = Fin 1, sm_source = ''chat'', sm_valid_until = None, sm_archived_at = None\<rparr>, sf_score = Fin (3 / 4)\<rparr>"

theorem tiers_report_witness:
  "let m = \<lparr>mt_hit = 9 / 10, mt_partial = 1 / 2, mt_top_k = 5\<rparr>;
       search = (\<lambda>_ _ _ _. Inr [ex_fact, ex_fact\<lparr>sf_score := NaN\<rparr>, ex_fact\<lparr>sf_score := Fin (1 / 4)\<rparr>])
   in \<exists>tr. mag_attempt m search ex_request = Inr tr \<and> tres_outcome tr = PARTIAL \<and>
        map ci_content (tres_items tr) = [''city: Oslo''] \<and>
        (\<forall>x \<in> set (tres_items tr). ci_paradigm x = MAG \<and> 1 / 2 \<le> ci_score x)"
proof -
  let ?m = "\<lparr>mt_hit = 9 / 10, mt_partial = 1 / 2, mt_top_k = 5\<rparr>"
  let ?s = "\<lambda>_ _ _ _. Inr [ex_fact, ex_fact\<lparr>sf_score := NaN\<rparr>, ex_fact\<lparr>sf_score := Fin (1 / 4)\<rparr>]"
  have r: "mag_attempt ?m ?s ex_request = Inr \<lparr>tres_outcome = PARTIAL, tres_items = [fact_item ex_fact]\<rparr>"
    by (simp add: mag_attempt_def ex_fact_def make_tier_result_def TIER_REPORTABLE_OUTCOMES_def)
  from tiers_report [where request = ex_request and m = ?m and search = ?s]
  show ?thesis unfolding r Let_def by (simp add: reports_def fact_item_def ex_fact_def)
qed

text \<open>
  A fact search owns its session. The tenant is set on the session before the query runs, the
  last call on the session always closes or invalidates it, and it is invalidated whenever the
  search or the closing failed. A failed search raises. Facts that were found are returned even
  when closing the session fails, unless the caller itself was cancelled or interrupted.
\<close>

theorem scoped_search_owns_session:
  "case scoped_search w tenant_id user_id emb top_k of (r, calls) \<Rightarrow>
     hd calls = SetTenantContext tenant_id \<and> distinct calls \<and>
     last calls \<in> {CloseCall, InvalidateCall} \<and>
     (last calls = CloseCall \<longleftrightarrow> ss_context w = None \<and> ss_close w = None \<and> SearchCall \<in> set calls \<and> (\<exists>fs. r = Inr fs)) \<and>
     (\<forall>facts. r = Inr facts \<longrightarrow> ss_context w = None \<and> ss_search w emb user_id tenant_id (nat top_k) = Inr facts) \<and>
     (case ss_search w emb user_id tenant_id (nat top_k) of
        Inl e \<Rightarrow> \<exists>e'. r = Inl e'
      | Inr facts \<Rightarrow>
          ss_context w = None \<and> (\<forall>e. ss_close w = Some e \<longrightarrow> is_exception e) \<and> \<not> ss_cancelled_again w \<and>
          (\<forall>e. ss_invalidate w = Some e \<longrightarrow> is_exception e) \<longrightarrow> r = Inr facts)"
  by (simp add: scoped_search_def discard_def Let_def split: option.split sum.split)

theorem scoped_search_owns_session_witness:
  "let w = \<lparr>ss_context = None, ss_search = (\<lambda>_ _ _ _. Inr [ex_fact]), ss_close = Some (OtherException ''InterfaceError''),
            ss_invalidate = Some (OtherException ''InterfaceError''), ss_cancelled_again = False\<rparr>
   in fst (scoped_search w 7 8 [] 5) = Inr [ex_fact] \<and> last (snd (scoped_search w 7 8 [] 5)) = InvalidateCall"
proof -
  let ?w = "\<lparr>ss_context = None, ss_search = (\<lambda>_ _ _ _. Inr [ex_fact]), ss_close = Some (OtherException ''InterfaceError''),
            ss_invalidate = Some (OtherException ''InterfaceError''), ss_cancelled_again = False\<rparr>"
  from scoped_search_owns_session [where w = ?w and tenant_id = 7 and user_id = 8 and emb = "[]" and top_k = 5] show ?thesis
    by (auto simp: case_prod_unfold is_exception_def cancelled_error_def)
qed

text \<open>
  C22. What the MAG tier puts into a context belongs to the caller and is current: with the fact search over
  the database, every item is the text of a fact of the request's own user in the request's own
  tenant that is neither expired nor archived at the time of the search; and there are at most
  \<open>top_k\<close> of them.
\<close>

theorem mag_tier_serves_own_live_facts:
  assumes "\<And>e u t k. ss_search w e u t k = Inr (search_by_similarity distance db_now repo e u t k)"
    and "mag_attempt m (\<lambda>t u e k. fst (scoped_search w t u e k)) request = Inr tr"
  shows "length (tres_items tr) \<le> nat (mt_top_k m) \<and>
    (\<forall>x \<in> set (tres_items tr). \<exists>row \<in> snd ` set (sr_facts repo).
       fr_tenant row = tr_tenant_id request \<and> sm_user_id (fr_fact row) = tr_user_id request \<and>
       sql_live db_now (fr_fact row) \<and>
       ci_content x = sm_fact_key (fr_fact row) @ '': '' @ sm_fact_value (fr_fact row) \<and>
       ci_source_id x = Some (sm_fact_id (fr_fact row)))"
proof -
  let ?fs = "search_by_similarity distance db_now repo (tr_query_embedding request) (tr_user_id request)
      (tr_tenant_id request) (nat (mt_top_k m))"
  have s: "fst (scoped_search w t u e k) = Inr fs \<Longrightarrow> fs = search_by_similarity distance db_now repo e u t (nat k)" for t u e k fs
    by (auto simp: scoped_search_def assms(1) Let_def split: option.splits if_splits)
  obtain facts where f: "fst (scoped_search w (tr_tenant_id request) (tr_user_id request) (tr_query_embedding request) (mt_top_k m)) = Inr facts"
    using assms(2) by (auto simp: mag_attempt_def split: sum.splits)
  have fs: "facts = ?fs" using s [OF f] .
  have items: "tres_items tr = map fact_item (filter (\<lambda>s. score_ge (sf_score s) (mt_partial m)) facts)"
    using assms(2) f by (auto simp: mag_attempt_def make_tier_result_def Let_def simp flip: filter_empty_conv split: if_splits)
  have "length facts \<le> nat (mt_top_k m)" unfolding fs by (simp add: search_by_similarity_def Let_def)
  then have "length (tres_items tr) \<le> nat (mt_top_k m)" unfolding items using length_filter_le order_trans by (metis length_map)
  moreover have "\<exists>row \<in> snd ` set (sr_facts repo). fr_tenant row = tr_tenant_id request \<and>
      sm_user_id (fr_fact row) = tr_user_id request \<and> sql_live db_now (fr_fact row) \<and> sf_fact s = row_to_fact row" if "s \<in> set ?fs" for s
    using that by (auto simp: search_by_similarity_def Let_def dest!: in_set_takeD)
  ultimately show ?thesis unfolding items fs by (fastforce simp: fact_item_def row_to_fact_def)
qed

theorem mag_tier_serves_own_live_facts_witness:
  "let f = sf_fact ex_fact;
       repo = \<lparr>sr_facts = [((8, ''city''), \<lparr>fr_tenant = 7, fr_fact = f\<rparr>),
                           ((8, ''old''), \<lparr>fr_tenant = 7, fr_fact = f\<lparr>sm_archived_at := Some 1\<rparr>\<rparr>)], sr_history = []\<rparr>;
       w = \<lparr>ss_context = None, ss_search = (\<lambda>e u t k. Inr (search_by_similarity (\<lambda>_ _. 1 / 4) 5 repo e u t k)),
            ss_close = None, ss_invalidate = None, ss_cancelled_again = False\<rparr>;
       m = \<lparr>mt_hit = 1 / 2, mt_partial = 1 / 2, mt_top_k = 5\<rparr>
   in \<exists>tr. mag_attempt m (\<lambda>t u e k. fst (scoped_search w t u e k)) ex_request = Inr tr \<and>
        tres_outcome tr = HIT \<and> map ci_content (tres_items tr) = [''city: Oslo''] \<and> length (tres_items tr) \<le> 5"
proof -
  let ?f = "sf_fact ex_fact"
  let ?repo = "\<lparr>sr_facts = [((8, ''city''), \<lparr>fr_tenant = 7, fr_fact = ?f\<rparr>),
                           ((8, ''old''), \<lparr>fr_tenant = 7, fr_fact = ?f\<lparr>sm_archived_at := Some 1\<rparr>\<rparr>)], sr_history = []\<rparr>"
  let ?w = "\<lparr>ss_context = None, ss_search = (\<lambda>e u t k. Inr (search_by_similarity (\<lambda>_ _. 1 / 4) 5 ?repo e u t k)),
            ss_close = None, ss_invalidate = None, ss_cancelled_again = False\<rparr>"
  let ?m = "\<lparr>mt_hit = 1 / 2, mt_partial = 1 / 2, mt_top_k = 5\<rparr>"
  have q: "fl (3 / 4) = 3 / 4" by code_simp
  have s: "fst (scoped_search ?w 7 8 [] 5) = Inr [ex_fact]"
    by (simp add: scoped_search_def search_by_similarity_def Let_def sql_live_def row_to_fact_def ex_fact_def q)
  have r: "mag_attempt ?m (\<lambda>t u e k. fst (scoped_search ?w t u e k)) ex_request = Inr \<lparr>tres_outcome = HIT, tres_items = [fact_item ex_fact]\<rparr>"
    using s by (simp add: mag_attempt_def ex_request_def ex_fact_def make_tier_result_def TIER_REPORTABLE_OUTCOMES_def)
  from mag_tier_serves_own_live_facts [OF _ r, of "\<lambda>_ _. 1 / 4" 5 ?repo] show ?thesis
    unfolding Let_def r by (simp add: fact_item_def ex_fact_def)
qed

end
