(* ===== verification/Chat_Sessions.thy ===== *)
theory Chat_Sessions
  imports Orch_Entities Mag_Entities "HOL-Library.Product_Lexorder"
begin

text \<open>
  Chat sessions: the \<^verbatim>\<open>sessions\<close> table with its row-level security, \<^verbatim>\<open>ChatSession\<close>,
  \<^verbatim>\<open>PostgresChatSessionRepository\<close>, \<^verbatim>\<open>StartChatSession\<close> and \<^verbatim>\<open>ListChatSessions\<close> of
  \<^verbatim>\<open>src/identity\<close>, and \<^verbatim>\<open>PostgresSessionBudgetRecorder\<close> of \<^verbatim>\<open>src/orchestration\<close>, which writes
  the column \<^verbatim>\<open>context_budget\<close>.

  The table is the list of its rows. A transaction under \<^verbatim>\<open>set_tenant_context\<close> sees the rows of
  its tenant. What the database generates (the identifier and the creation time of a new row)
  is an argument, and so are the users that exist and \<^verbatim>\<open>datetime.isoformat\<close>.
\<close>

definition MAX_SESSION_TITLE_CHARS :: nat where
  "MAX_SESSION_TITLE_CHARS = 200"

definition MAX_SESSIONS_PER_PAGE :: int where
  "MAX_SESSIONS_PER_PAGE = 100"

record chat_session =
  ch_id :: uuid
  ch_tenant_id :: uuid
  ch_user_id :: uuid
  ch_title :: "string option"
  ch_context_budget :: "(string \<times> json) list option"
  ch_created_at :: datetime

definition title_ok :: "string option \<Rightarrow> bool" where
  "title_ok title = (case title of None \<Rightarrow> True | Some t \<Rightarrow> length t \<le> MAX_SESSION_TITLE_CHARS)"

definition make_chat_session :: "chat_session \<Rightarrow> chat_session result" where
  \<comment> \<open>\<open>_chat_session(row)\<close>: the constructor checks the title\<close>
  "make_chat_session row =
     (if title_ok (ch_title row) then Inr row
      else Inl (ValueError ''a session title is at most 200 characters''))"

definition owns :: "uuid \<Rightarrow> uuid \<Rightarrow> uuid \<Rightarrow> chat_session \<Rightarrow> bool" where
  \<comment> \<open>the tenant policy and \<open>WHERE id = :id AND user_id = :user_id\<close>\<close>
  "owns tenant_id user_id session_id row \<longleftrightarrow>
     ch_tenant_id row = tenant_id \<and> ch_id row = session_id \<and> ch_user_id row = user_id"

definition create_session :: "uuid set \<Rightarrow> uuid \<Rightarrow> datetime \<Rightarrow> chat_session list \<Rightarrow> uuid \<Rightarrow> uuid \<Rightarrow> string option \<Rightarrow>
    chat_session result \<times> chat_session list" where
  "create_session users new_id db_now rows tenant_id user_id title =
     (if user_id \<notin> users \<or> new_id \<in> ch_id ` set rows then (Inl (OtherException ''IntegrityError''), rows)
      else let row = \<lparr>ch_id = new_id, ch_tenant_id = tenant_id, ch_user_id = user_id, ch_title = title,
                      ch_context_budget = None, ch_created_at = db_now\<rparr>
           in (make_chat_session row, rows @ [row]))"

definition find_owned :: "chat_session list \<Rightarrow> uuid \<Rightarrow> uuid \<Rightarrow> uuid \<Rightarrow> chat_session option result" where
  "find_owned rows tenant_id user_id session_id =
     (case filter (owns tenant_id user_id session_id) rows of
        [] \<Rightarrow> Inr None
      | [row] \<Rightarrow> (case make_chat_session row of Inl e \<Rightarrow> Inl e | Inr s \<Rightarrow> Inr (Some s))
      | _ \<Rightarrow> Inl (OtherException ''MultipleResultsFound''))"

definition list_owned :: "chat_session list \<Rightarrow> uuid \<Rightarrow> uuid \<Rightarrow> int \<Rightarrow> chat_session list result" where
  "list_owned rows tenant_id user_id limit =
     (let mine = filter (\<lambda>r. ch_tenant_id r = tenant_id \<and> ch_user_id r = user_id) rows
      in seq_results (map make_chat_session
           (take (nat limit) (sort_key (\<lambda>r. (- ch_created_at r, - int (ch_id r))) mine))))"

definition start_chat_session :: "uuid set \<Rightarrow> uuid \<Rightarrow> datetime \<Rightarrow> chat_session list \<Rightarrow> uuid \<Rightarrow> uuid \<Rightarrow> string option \<Rightarrow>
    chat_session result \<times> chat_session list" where
  "start_chat_session users new_id db_now rows tenant_id user_id title =
     (let stripped = py_strip (case title of None \<Rightarrow> [] | Some t \<Rightarrow> t) in
      if MAX_SESSION_TITLE_CHARS < length stripped
      then (Inl (ValueError ''a session title is at most 200 characters''), rows)
      else create_session users new_id db_now rows tenant_id user_id (if stripped = [] then None else Some stripped))"

definition list_chat_sessions :: "chat_session list \<Rightarrow> uuid \<Rightarrow> uuid \<Rightarrow> int \<Rightarrow> chat_session list result" where
  "list_chat_sessions rows tenant_id user_id limit =
     (if \<not> (1 \<le> limit \<and> limit \<le> MAX_SESSIONS_PER_PAGE) then Inl (ValueError ''limit must be between 1 and 100'')
      else list_owned rows tenant_id user_id limit)"

subsection \<open>PostgresSessionBudgetRecorder\<close>

definition budget_record :: "(datetime \<Rightarrow> string) \<Rightarrow> budget_allocation \<Rightarrow> paradigm set \<Rightarrow> datetime \<Rightarrow> (string \<times> json) list" where
  "budget_record isoformat allocation contrib recorded_at =
     [(''total'', JInt (allocation_total allocation)),
      (''slices'', JObj [(''cag'', JInt (ba_cag allocation)), (''mag'', JInt (ba_mag allocation)),
                       (''rag'', JInt (ba_rag allocation)), (''query'', JInt (ba_query allocation)),
                       (''reserve'', JInt (ba_reserve allocation))]),
      (''contributing'', JList (map (\<lambda>p. JStr (paradigm_value p)) (filter (\<lambda>p. p \<in> contrib) PARADIGM_ORDER))),
      (''recorded_at'', JStr (isoformat recorded_at))]"

definition record_budget :: "(datetime \<Rightarrow> string) \<Rightarrow> datetime \<Rightarrow> chat_session list \<Rightarrow> uuid \<Rightarrow> uuid \<Rightarrow> uuid \<Rightarrow>
    budget_allocation \<Rightarrow> paradigm set \<Rightarrow> unit result \<times> chat_session list" where
  \<comment> \<open>the update and, unless exactly one row matched, the rollback\<close>
  "record_budget isoformat now rows tenant_id user_id session_id allocation contrib =
     (let updated = map (\<lambda>r. if owns tenant_id user_id session_id r
                             then r\<lparr>ch_context_budget := Some (budget_record isoformat allocation contrib now)\<rparr>
                             else r) rows
      in if length (filter (owns tenant_id user_id session_id) rows) \<noteq> 1 then (Inl (SessionNotFound session_id), rows)
         else (Inr (), updated))"

subsection \<open>Lookup in a well-formed table\<close>

definition sessions_ok :: "chat_session list \<Rightarrow> bool" where
  "sessions_ok rows \<longleftrightarrow> distinct (map ch_id rows) \<and> (\<forall>r \<in> set rows. title_ok (ch_title r))"

lemma filter_unique:
  assumes "distinct (map f xs)" "x \<in> set xs" "P x" "\<And>y. y \<in> set xs \<Longrightarrow> P y \<Longrightarrow> f y = f x"
  shows "filter P xs = [x]"
proof -
  obtain ys zs where xs: "xs = ys @ x # zs" using assms(2) by (auto simp: in_set_conv_decomp)
  have "f y \<noteq> f x" if "y \<in> set ys \<union> set zs" for y using assms(1) that unfolding xs by (auto simp: image_iff)
  then have "\<not> P y" if "y \<in> set ys \<union> set zs" for y using assms(4) [of y] that unfolding xs by auto
  then have "filter P ys = []" "filter P zs = []" by (auto simp: filter_empty_conv)
  with assms(3) show ?thesis unfolding xs by simp
qed

lemma owned_row: "sessions_ok rows \<Longrightarrow> row \<in> set rows \<Longrightarrow> owns t u i row \<Longrightarrow> filter (owns t u i) rows = [row]"
  by (rule filter_unique [of ch_id]) (auto simp: sessions_ok_def owns_def)

lemma not_owned: "filter (owns t u i) rows = [] \<longleftrightarrow> (\<forall>r \<in> set rows. \<not> owns t u i r)"
  by (simp add: filter_empty_conv)

lemma find_owned_Some:
  "sessions_ok rows \<Longrightarrow> row \<in> set rows \<Longrightarrow> owns t u i row \<Longrightarrow> find_owned rows t u i = Inr (Some row)"
  by (simp add: find_owned_def owned_row make_chat_session_def) (auto simp: sessions_ok_def)

lemma find_owned_None: "\<forall>r \<in> set rows. \<not> owns t u i r \<Longrightarrow> find_owned rows t u i = Inr None"
  by (simp add: find_owned_def not_owned [symmetric])

lemma find_owned_iff:
  assumes "sessions_ok rows"
  shows "find_owned rows t u i = Inr (Some row) \<longleftrightarrow> row \<in> set rows \<and> owns t u i row"
    and "find_owned rows t u i = Inr None \<longleftrightarrow> (\<forall>r \<in> set rows. \<not> owns t u i r)"
    and "find_owned rows t u i \<noteq> Inl e"
  using find_owned_Some [OF assms] find_owned_None [of rows t u i]
  by (metis Inr_inject option.inject option.distinct(1) Inl_Inr_False)+

subsection \<open>Properties\<close>

text \<open>
  Starting a session. A title longer than the limit after stripping is refused and leaves no
  row behind; otherwise, for a user that exists and a fresh identifier, the call returns the new
  session, its owner finds exactly it, nobody else finds it, every other lookup is as before,
  and the table stays well-formed.
\<close>

theorem start_chat_session_correct:
  assumes "sessions_ok rows" and "user_id \<in> users" and "new_id \<notin> ch_id ` set rows"
  shows "case start_chat_session users new_id db_now rows tenant_id user_id title of (r, rows') \<Rightarrow>
    if 200 < length (py_strip (case title of None \<Rightarrow> [] | Some t \<Rightarrow> t))
    then r = Inl (ValueError ''a session title is at most 200 characters'') \<and> rows' = rows
    else sessions_ok rows' \<and>
         (\<exists>s. r = Inr s \<and> ch_id s = new_id \<and> ch_context_budget s = None \<and>
            (\<forall>t u i. find_owned rows' t u i =
               (if i = new_id then (if t = tenant_id \<and> u = user_id then Inr (Some s) else Inr None) else find_owned rows t u i)))"
proof (cases "200 < length (py_strip (case title of None \<Rightarrow> [] | Some t \<Rightarrow> t))")
  case True
  then show ?thesis by (simp add: start_chat_session_def MAX_SESSION_TITLE_CHARS_def)
next
  case False
  let ?str = "py_strip (case title of None \<Rightarrow> [] | Some t \<Rightarrow> t)"
  let ?t = "if ?str = [] then None else Some ?str"
  let ?s = "\<lparr>ch_id = new_id, ch_tenant_id = tenant_id, ch_user_id = user_id, ch_title = ?t,
             ch_context_budget = None, ch_created_at = db_now\<rparr>"
  have t: "title_ok ?t" using False by (simp add: title_ok_def MAX_SESSION_TITLE_CHARS_def)
  have st: "start_chat_session users new_id db_now rows tenant_id user_id title = (Inr ?s, rows @ [?s])"
    using False assms(2,3) t unfolding start_chat_session_def create_session_def make_chat_session_def MAX_SESSION_TITLE_CHARS_def Let_def
    by simp
  have ok: "sessions_ok (rows @ [?s])" using assms t by (simp add: sessions_ok_def)
  have fr: "filter (owns t' u' i) (rows @ [?s]) = (if i = new_id then (if t' = tenant_id \<and> u' = user_id then [?s] else [])
      else filter (owns t' u' i) rows)" for t' u' i
    using assms(3) by (auto simp: owns_def filter_empty_conv)
  have "find_owned (rows @ [?s]) t' u' i =
      (if i = new_id then (if t' = tenant_id \<and> u' = user_id then Inr (Some ?s) else Inr None) else find_owned rows t' u' i)" for t' u' i
    unfolding find_owned_def fr using t by (simp add: make_chat_session_def)
  with False st ok show ?thesis by simp
qed

theorem start_chat_session_correct_witness:
  "let r = start_chat_session {8} 9 100 [] 7 8 (Some ''  plans '') in
   sessions_ok (snd r) \<and> (\<exists>s. fst r = Inr s \<and> ch_title s = Some ''plans'' \<and>
     find_owned (snd r) 7 8 9 = Inr (Some s) \<and> find_owned (snd r) 7 6 9 = Inr None \<and> find_owned (snd r) 5 8 9 = Inr None)"
proof -
  have h: "sessions_ok []" "8 \<in> {8 :: nat}" "9 \<notin> ch_id ` set []" by (simp_all add: sessions_ok_def)
  have s: "py_strip ''  plans '' = ''plans''" by code_simp
  then have t: "fst (start_chat_session {8} 9 100 [] 7 8 (Some ''  plans '')) =
      Inr \<lparr>ch_id = 9, ch_tenant_id = 7, ch_user_id = 8, ch_title = Some ''plans'', ch_context_budget = None, ch_created_at = 100\<rparr>"
    by (simp add: start_chat_session_def create_session_def make_chat_session_def title_ok_def MAX_SESSION_TITLE_CHARS_def Let_def)
  from start_chat_session_correct [OF h, where db_now = 100 and tenant_id = 7 and title = "Some ''  plans ''"] t s show ?thesis
    by (auto simp: case_prod_unfold Let_def)
qed

text \<open>
  Listing. A limit outside 1 to 100 is refused. Otherwise the result has the caller's own
  sessions in the caller's tenant and no others, newest first, as many as the limit allows; a
  session left out is not newer than one returned.
\<close>

theorem list_chat_sessions_correct:
  assumes "sessions_ok rows"
  shows "if limit < 1 \<or> 100 < limit then list_chat_sessions rows tenant_id user_id limit = Inl (ValueError ''limit must be between 1 and 100'')
    else let mine = {r \<in> set rows. ch_tenant_id r = tenant_id \<and> ch_user_id r = user_id} in
      \<exists>ss. list_chat_sessions rows tenant_id user_id limit = Inr ss \<and> set ss \<subseteq> mine \<and> distinct ss \<and>
        length ss = min (nat limit) (card mine) \<and>
        sorted_wrt (\<lambda>a b. ch_created_at b \<le> ch_created_at a) ss \<and>
        (\<forall>a \<in> set ss. \<forall>b \<in> mine - set ss. ch_created_at b \<le> ch_created_at a)"
proof (cases "limit < 1 \<or> 100 < limit")
  case False
  let ?P = "\<lambda>r. ch_tenant_id r = tenant_id \<and> ch_user_id r = user_id"
  let ?key = "\<lambda>r. (- ch_created_at r, - int (ch_id r))"
  let ?all = "sort_key ?key (filter ?P rows)"
  let ?ss = "take (nat limit) ?all"
  have d: "distinct (filter ?P rows)" using assms by (simp add: sessions_ok_def distinct_map)
  then have da: "distinct ?all" by simp
  have so: "sorted (map ?key ?all)" by simp
  then have sw: "sorted_wrt (\<lambda>a b. ch_created_at b \<le> ch_created_at a) ?all"
    unfolding sorted_map by (rule sorted_wrt_mono_rel [rotated]) (auto simp: less_eq_prod_def)
  then have app: "sorted_wrt (\<lambda>a b. ch_created_at b \<le> ch_created_at a) (?ss @ drop (nat limit) ?all)" by simp
  have "make_chat_session r = Inr r" if "r \<in> set ?ss" for r
    using that assms in_set_takeD [OF that] by (auto simp: make_chat_session_def sessions_ok_def)
  then have "map make_chat_session ?ss = map Inr ?ss" by simp
  then have r: "list_chat_sessions rows tenant_id user_id limit = Inr ?ss"
    using False by (simp add: list_chat_sessions_def list_owned_def MAX_SESSIONS_PER_PAGE_def seq_results_map del: map_eq_conv)
  have c: "card {r \<in> set rows. ?P r} = length ?all" using distinct_card [OF d] by simp
  have rest: "b \<in> set (drop (nat limit) ?all)" if "b \<in> {r \<in> set rows. ?P r} - set ?ss" for b
  proof -
    have "b \<in> set (?ss @ drop (nat limit) ?all)" using that by simp
    with that show ?thesis unfolding set_append by blast
  qed
  have "ch_created_at b \<le> ch_created_at a" if "a \<in> set ?ss" "b \<in> {r \<in> set rows. ?P r} - set ?ss" for a b
    using app that(1) rest [OF that(2)] unfolding sorted_wrt_append by blast
  moreover have "set ?ss \<subseteq> {r \<in> set rows. ?P r}" by (auto dest: in_set_takeD)
  ultimately show ?thesis using False r c da app
    by (simp add: Let_def min.commute sorted_wrt_append)
qed (simp add: list_chat_sessions_def MAX_SESSIONS_PER_PAGE_def not_le)

definition ex_sessions :: "chat_session list" where
  "ex_sessions = [\<lparr>ch_id = 9, ch_tenant_id = 7, ch_user_id = 8, ch_title = None, ch_context_budget = None, ch_created_at = 100\<rparr>,
     \<lparr>ch_id = 10, ch_tenant_id = 7, ch_user_id = 6, ch_title = None, ch_context_budget = None, ch_created_at = 110\<rparr>,
     \<lparr>ch_id = 11, ch_tenant_id = 7, ch_user_id = 8, ch_title = None, ch_context_budget = None, ch_created_at = 120\<rparr>]"

lemma ex_sessions_ok: "sessions_ok ex_sessions"
  by (simp add: sessions_ok_def ex_sessions_def title_ok_def)

theorem list_chat_sessions_correct_witness:
  "\<exists>ss. list_chat_sessions ex_sessions 7 8 5 = Inr ss \<and> length ss = 2 \<and>
     sorted_wrt (\<lambda>a b. ch_created_at b \<le> ch_created_at a) ss"
proof -
  have c: "{r \<in> set ex_sessions. ch_tenant_id r = 7 \<and> ch_user_id r = 8} = {ex_sessions ! 0, ex_sessions ! 2}"
    by (auto simp: ex_sessions_def)
  have "card {ex_sessions ! 0, ex_sessions ! 2} = 2" by (simp add: ex_sessions_def)
  with list_chat_sessions_correct [OF ex_sessions_ok, of 5 7 8] c show ?thesis by (auto simp: Let_def)
qed

subsection \<open>The contract of a session store\<close>

text \<open>
  What a client of the budget recorder relies on: recording for a session that is not the
  caller's raises \<^verbatim>\<open>SessionNotFound\<close> and changes nothing; recording for one that is succeeds and
  changes no one's ownership.
\<close>

locale session_store =
  fixes record_in :: "datetime \<Rightarrow> 's \<Rightarrow> uuid \<Rightarrow> uuid \<Rightarrow> uuid \<Rightarrow> budget_allocation \<Rightarrow> paradigm set \<Rightarrow> unit result \<times> 's"
    and owned :: "'s \<Rightarrow> uuid \<Rightarrow> uuid \<Rightarrow> uuid \<Rightarrow> bool"
    and ok :: "'s \<Rightarrow> bool"
  assumes record_unowned: "ok s \<Longrightarrow> \<not> owned s t u i \<Longrightarrow> record_in n s t u i a c = (Inl (SessionNotFound i), s)"
    and record_owned: "ok s \<Longrightarrow> owned s t u i \<Longrightarrow> fst (record_in n s t u i a c) = Inr ()"
    and record_ok: "ok s \<Longrightarrow> ok (snd (record_in n s t u i a c))"
    and record_owned_frame: "ok s \<Longrightarrow> owned (snd (record_in n s t u i a c)) = owned s"
begin

lemma record_outcome:
  "ok s \<Longrightarrow> fst (record_in n s t u i a c) = (if owned s t u i then Inr () else Inl (SessionNotFound i))"
  by (simp add: record_unowned record_owned)

end

definition is_owned :: "chat_session list \<Rightarrow> uuid \<Rightarrow> uuid \<Rightarrow> uuid \<Rightarrow> bool" where
  "is_owned rows t u i \<longleftrightarrow> (\<exists>r \<in> set rows. owns t u i r)"

lemma record_budget_owned:
  assumes "sessions_ok rows" "is_owned rows t u i"
  shows "record_budget fmt n rows t u i a c =
    (Inr (), map (\<lambda>r. if owns t u i r then r\<lparr>ch_context_budget := Some (budget_record fmt a c n)\<rparr> else r) rows)"
proof -
  obtain r where "r \<in> set rows" "owns t u i r" using assms(2) by (auto simp: is_owned_def)
  with owned_row [OF assms(1)] show ?thesis by (simp add: record_budget_def Let_def)
qed

lemma record_budget_unowned: "\<not> is_owned rows t u i \<Longrightarrow> record_budget fmt n rows t u i a c = (Inl (SessionNotFound i), rows)"
proof -
  assume "\<not> is_owned rows t u i"
  then have "filter (owns t u i) rows = []" by (simp add: not_owned is_owned_def)
  then show ?thesis by (simp add: record_budget_def)
qed

lemma owns_set_budget [simp]: "owns t u i (r\<lparr>ch_context_budget := b\<rparr>) = owns t u i r"
  by (simp add: owns_def)

lemma sessions_ok_map:
  assumes "sessions_ok rows" "\<And>r. ch_id (f r) = ch_id r" "\<And>r. ch_title (f r) = ch_title r"
  shows "sessions_ok (map f rows)"
  using assms by (auto simp: sessions_ok_def comp_def)

interpretation postgres_sessions: session_store "record_budget fmt" is_owned sessions_ok for fmt
proof unfold_locales
  fix s t u i n a c
  assume s: "sessions_ok s"
  show "sessions_ok (snd (record_budget fmt n s t u i a c))"
    using s by (cases "is_owned s t u i") (auto simp: record_budget_owned record_budget_unowned intro!: sessions_ok_map)
  have "is_owned (map f s) t' u' i' = is_owned s t' u' i'" if "\<And>r. owns t' u' i' (f r) = owns t' u' i' r" for f t' u' i'
    using that by (simp add: is_owned_def)
  then show "is_owned (snd (record_budget fmt n s t u i a c)) = is_owned s"
    using s by (cases "is_owned s t u i") (simp_all add: record_budget_owned record_budget_unowned fun_eq_iff)
qed (simp_all add: record_budget_owned record_budget_unowned)

lemma find_owned_map:
  assumes "\<And>r. owns t u i (f r) = owns t u i r" "\<And>r. ch_title (f r) = ch_title r"
  shows "find_owned (map f rows) t u i = map_sum id (map_option f) (find_owned rows t u i)"
proof -
  have "filter (owns t u i) (map f rows) = map f (filter (owns t u i) rows)" using assms(1) by (simp add: filter_map comp_def)
  then show ?thesis
    by (simp add: find_owned_def make_chat_session_def assms(2) split: list.split)
qed

text \<open>
  C23. Recording a budget. It succeeds exactly for a session of the caller in the caller's tenant;
  then the owner reads back the record, with the five slices, the contributing paradigms in
  canonical order and the total, and every other lookup is unchanged. Otherwise
  \<^verbatim>\<open>SessionNotFound\<close> is raised and the table is as before.
\<close>

theorem record_budget_isolated:
  assumes "sessions_ok rows"
  shows "case record_budget isoformat now rows tenant_id user_id session_id a contrib of (r, rows') \<Rightarrow>
    if find_owned rows tenant_id user_id session_id = Inr None then r = Inl (SessionNotFound session_id) \<and> rows' = rows
    else r = Inr () \<and> sessions_ok rows' \<and>
      (\<forall>t u i. find_owned rows' t u i =
         (if (t, u, i) = (tenant_id, user_id, session_id)
          then map_sum id (map_option (\<lambda>s. s\<lparr>ch_context_budget := Some (budget_record isoformat a contrib now)\<rparr>)) (find_owned rows t u i)
          else find_owned rows t u i))"
proof (cases "is_owned rows tenant_id user_id session_id")
  case False
  then have "find_owned rows tenant_id user_id session_id = Inr None" by (simp add: find_owned_None is_owned_def)
  with False show ?thesis by (simp add: record_budget_unowned)
next
  case True
  let ?upd = "\<lambda>s. s\<lparr>ch_context_budget := Some (budget_record isoformat a contrib now)\<rparr>"
  let ?f = "\<lambda>r. if owns tenant_id user_id session_id r then ?upd r else r"
  have n: "find_owned rows tenant_id user_id session_id \<noteq> Inr None"
    using True find_owned_iff(2) [OF assms] by (auto simp: is_owned_def)
  have r: "record_budget isoformat now rows tenant_id user_id session_id a contrib = (Inr (), map ?f rows)"
    using record_budget_owned [OF assms True] .
  have fo: "find_owned (map ?f rows) t u i = map_sum id (map_option ?f) (find_owned rows t u i)" for t u i
    by (rule find_owned_map) simp_all
  have "find_owned (map ?f rows) t u i = (if (t, u, i) = (tenant_id, user_id, session_id)
        then map_sum id (map_option ?upd) (find_owned rows t u i) else find_owned rows t u i)" for t u i
  proof (cases "find_owned rows t u i")
    case (Inl e)
    then show ?thesis using find_owned_iff(3) [OF assms] by blast
  next
    case (Inr s)
    show ?thesis
    proof (cases s)
      case None
      with Inr show ?thesis by (auto simp: fo)
    next
      case (Some x)
      with Inr find_owned_iff(1) [OF assms, of t u i x] have x: "owns t u i x" by simp
      then have "owns tenant_id user_id session_id x \<longleftrightarrow> (t, u, i) = (tenant_id, user_id, session_id)" by (auto simp: owns_def)
      with Some Inr show ?thesis by (auto simp: fo)
    qed
  qed
  moreover have "sessions_ok (map ?f rows)" using assms by (rule sessions_ok_map) simp_all
  ultimately show ?thesis using n unfolding r by simp
qed

theorem record_budget_isolated_witness:
  "let a = \<lparr>ba_cag = 4, ba_mag = 0, ba_rag = 3, ba_query = 2, ba_reserve = 1\<rparr>;
       r = record_budget (\<lambda>_. ''2026'') 130 ex_sessions 7 8 9 a {CAG};
       r' = record_budget (\<lambda>_. ''2026'') 130 ex_sessions 7 8 10 a {CAG}
   in fst r = Inr () \<and> find_owned (snd r) 7 6 10 = find_owned ex_sessions 7 6 10 \<and>
      fst r' = Inl (SessionNotFound 10) \<and> snd r' = ex_sessions"
proof -
  let ?a = "\<lparr>ba_cag = 4, ba_mag = 0, ba_rag = 3, ba_query = 2, ba_reserve = 1\<rparr>"
  have "find_owned ex_sessions 7 8 9 \<noteq> Inr None" "find_owned ex_sessions 7 8 10 = Inr None"
    by (simp_all add: find_owned_def ex_sessions_def owns_def make_chat_session_def title_ok_def)
  with record_budget_isolated [OF ex_sessions_ok, where isoformat = "\<lambda>_. ''2026''" and now = 130 and tenant_id = 7 and user_id = 8 and session_id = 9 and a = ?a and contrib = "{CAG}"]
    record_budget_isolated [OF ex_sessions_ok, where isoformat = "\<lambda>_. ''2026''" and now = 130 and tenant_id = 7 and user_id = 8 and session_id = 10 and a = ?a and contrib = "{CAG}"]
  show ?thesis by (simp add: case_prod_unfold Let_def)
qed

end
