(* ===== verification/Unified_Answer.thy ===== *)
theory Unified_Answer
  imports Cascade_Tiers Budget_Allocator Chat_Sessions
begin

text \<open>
  Answering a question: \<^verbatim>\<open>UnifiedAnswerQuestion\<close> of
  \<^verbatim>\<open>src/orchestration/application/unified_answer_question.py\<close> (route, cascade, budget, record,
  generate) and \<^verbatim>\<open>AnswerInSession\<close>.

  The tokenizer, the embedding model, the classifier and the chat model are parameters. What
  the classifier does within its timeout is a \<open>classifier_event\<close>. The state has the cascade,
  the session table and the prompts given to the chat model. \<open>tick i\<close> is the \<open>i\<close>-th reading
  of \<^verbatim>\<open>time.perf_counter\<close>.
\<close>

definition DEFAULT_CONTEXT_TOKENS :: int where
  "DEFAULT_CONTEXT_TOKENS = 128000"

definition DEFAULT_CLASSIFIER_TIMEOUT :: rat where
  "DEFAULT_CLASSIFIER_TIMEOUT = 2"

datatype routing_fallback = CLASSIFIER_TIMEOUT | CLASSIFIER_ERROR

record stage_timings =
  st_embed_ms :: rat
  st_route_ms :: rat
  st_cascade_ms :: rat
  st_assemble_ms :: rat
  st_record_ms :: rat
  st_generate_ms :: rat

record unified_answer =
  ua_answer :: string
  ua_sources :: "context_item list"
  ua_decision :: "routing_decision option"
  ua_routing_fallback :: "routing_fallback option"
  ua_attempts :: "tier_attempt list"
  ua_allocation :: budget_allocation
  ua_dropped :: "paradigm \<Rightarrow> nat"
  ua_degraded :: bool
  ua_timings :: stage_timings

definition ms :: "rat \<Rightarrow> rat \<Rightarrow> rat" where
  "ms start finish = fl (fl (finish - start) * 1000)"

record unified_config =
  uc_total :: int
  uc_shares :: budget_shares
  uc_select_threshold :: rat
  uc_uncertainty_margin :: rat
  uc_classifier_timeout :: rat

definition make_unified_config :: "int \<Rightarrow> budget_shares \<Rightarrow> rat \<Rightarrow> rat \<Rightarrow> rat \<Rightarrow> unified_config result" where
  "make_unified_config total_tokens shares threshold margin timeout =
     (if total_tokens \<le> 0 then Inl (ValueError ''total_context_tokens must be positive'')
      else if timeout \<le> 0 then Inl (ValueError ''classifier_timeout must be positive'')
      else Inr \<lparr>uc_total = total_tokens, uc_shares = shares, uc_select_threshold = threshold,
                uc_uncertainty_margin = margin, uc_classifier_timeout = timeout\<rparr>)"

datatype classifier_event = Scored "paradigm \<rightharpoonup> pyfloat" | ScoringTimedOut | ScoringRaised py_error | ScoringCancelled

definition route :: "unified_config \<Rightarrow> classifier_event \<Rightarrow> (routing_decision \<times> routing_fallback option) result" where
  "route cfg ev =
     (case ev of
        Scored scores \<Rightarrow>
          (case decide scores (uc_select_threshold cfg) (uc_uncertainty_margin cfg) of
             Inl e \<Rightarrow> Inr (fallback_decision None, Some CLASSIFIER_ERROR)
           | Inr d \<Rightarrow> Inr (d, None))
      | ScoringTimedOut \<Rightarrow> Inr (fallback_decision None, Some CLASSIFIER_TIMEOUT)
      | ScoringRaised e \<Rightarrow> Inr (fallback_decision None, Some CLASSIFIER_ERROR)
      | ScoringCancelled \<Rightarrow> Inl cancelled_error)"

record ('t, 's) answer_state =
  an_cascade :: "'t cascade_state"
  an_sessions :: 's
  an_prompts :: "(string \<times> string) list"

record ('t, 's) services =
  sv_count_tokens :: "string \<Rightarrow> nat"
  sv_embed :: "string \<Rightarrow> embedding result"
  sv_classifier :: "(string \<Rightarrow> embedding \<Rightarrow> classifier_event) option"
  sv_cascade :: cascade_config
  sv_tracker :: "('t, uuid) tracker_ops"
  sv_recorder :: "(datetime \<Rightarrow> 's \<Rightarrow> uuid \<Rightarrow> uuid \<Rightarrow> uuid \<Rightarrow> budget_allocation \<Rightarrow> paradigm set \<Rightarrow> unit result \<times> 's) option"
  sv_chat :: "string \<Rightarrow> string \<Rightarrow> string result"

record run_inputs =
  ri_world :: world
  ri_order :: "paradigm list \<Rightarrow> paradigm list"
  ri_now :: datetime
  ri_tick :: "nat \<Rightarrow> rat"

definition timings :: "run_inputs \<Rightarrow> bool \<Rightarrow> stage_timings" where
  "timings ri recorded =
     \<lparr>st_embed_ms = ms (ri_tick ri 0) (ri_tick ri 1), st_route_ms = ms (ri_tick ri 1) (ri_tick ri 2),
      st_cascade_ms = ms (ri_tick ri 2) (ri_tick ri 3), st_assemble_ms = ms (ri_tick ri 3) (ri_tick ri 4),
      st_record_ms = (if recorded then ms (ri_tick ri 4) (ri_tick ri 5) else 0),
      st_generate_ms = ms (ri_tick ri 5) (ri_tick ri 6)\<rparr>"

definition route_stage :: "unified_config \<Rightarrow> ('t, 's) services \<Rightarrow> string \<Rightarrow> embedding \<Rightarrow>
    (routing_decision option \<times> routing_fallback option) result" where
  "route_stage cfg sv question emb =
     (case sv_classifier sv of
        None \<Rightarrow> Inr (None, None)
      | Some classifier \<Rightarrow>
          (case route cfg (classifier question emb) of Inl e \<Rightarrow> Inl e | Inr (d, fb) \<Rightarrow> Inr (Some d, fb)))"

definition record_stage :: "('t, 's) services \<Rightarrow> datetime \<Rightarrow> uuid \<Rightarrow> uuid \<Rightarrow> uuid \<Rightarrow> budget_allocation \<Rightarrow> paradigm set \<Rightarrow> 's \<Rightarrow>
    unit result \<times> 's" where
  "record_stage sv now tenant_id user_id session_id a contrib s =
     (case sv_recorder sv of None \<Rightarrow> (Inr (), s) | Some rec \<Rightarrow> rec now s tenant_id user_id session_id a contrib)"

definition answer_stage :: "unified_config \<Rightarrow> ('t, 's) services \<Rightarrow> run_inputs \<Rightarrow> uuid \<Rightarrow> uuid \<Rightarrow> uuid \<Rightarrow> string \<Rightarrow>
    routing_decision option \<Rightarrow> routing_fallback option \<Rightarrow> cascade_result \<Rightarrow> ('t, 's) answer_state \<Rightarrow>
    unified_answer result \<times> ('t, 's) answer_state" where
  \<comment> \<open>\<open>execute\<close> after the cascade: allocate, assemble, record, generate\<close>
  "answer_stage cfg sv ri tenant_id user_id session_id question decision fallback cr s =
     (case allocate (uc_total cfg) (contributing cr) (uc_shares cfg) of
        Inl e \<Rightarrow> (Inl e, s)
      | Inr allocation \<Rightarrow>
          (let assembled = assemble_context (sv_count_tokens sv) (cr_items cr) allocation in
           case record_stage sv (ri_now ri) tenant_id user_id session_id allocation (contributing cr) (an_sessions s) of
             (Inl e, ss) \<Rightarrow> (Inl e, s\<lparr>an_sessions := ss\<rparr>)
           | (Inr _, ss) \<Rightarrow>
               (let s1 = s\<lparr>an_sessions := ss, an_prompts := an_prompts s @ [(question, ac_text assembled)]\<rparr> in
                case sv_chat sv question (ac_text assembled) of
                  Inl e \<Rightarrow> (Inl e, s1)
                | Inr answer \<Rightarrow>
                    (Inr \<lparr>ua_answer = answer, ua_sources = ac_included assembled, ua_decision = decision,
                          ua_routing_fallback = fallback, ua_attempts = cr_attempts cr, ua_allocation = allocation,
                          ua_dropped = ac_dropped assembled, ua_degraded = cr_degraded cr,
                          ua_timings = timings ri (sv_recorder sv \<noteq> None)\<rparr>, s1))))"

definition unified_execute :: "unified_config \<Rightarrow> ('t, 's) services \<Rightarrow> run_inputs \<Rightarrow> uuid \<Rightarrow> uuid \<Rightarrow> uuid \<Rightarrow> string \<Rightarrow>
    ('t, 's) answer_state \<Rightarrow> unified_answer result \<times> ('t, 's) answer_state" where
  "unified_execute cfg sv ri tenant_id user_id session_id question s =
     (let query_slice = floor_share (uc_total cfg) (bs_query (uc_shares cfg));
          query_tokens = int (sv_count_tokens sv question) in
      if query_slice < query_tokens then (Inl (QueryExceedsBudget query_tokens query_slice), s)
      else case sv_embed sv question of
             Inl e \<Rightarrow> (Inl e, s)
           | Inr emb \<Rightarrow>
               (case route_stage cfg sv question emb of
                  Inl e \<Rightarrow> (Inl e, s)
                | Inr (decision, fallback) \<Rightarrow>
                    (let request = \<lparr>tr_tenant_id = tenant_id, tr_user_id = user_id, tr_session_id = session_id,
                                    tr_query = question, tr_query_embedding = emb\<rparr> in
                     case run_cascade (sv_cascade sv) (sv_tracker sv) (ri_world ri) (ri_order ri) request decision (an_cascade s) of
                       (Inl e, cs) \<Rightarrow> (Inl e, s\<lparr>an_cascade := cs\<rparr>)
                     | (Inr cr, cs) \<Rightarrow>
                         answer_stage cfg sv ri tenant_id user_id session_id question decision fallback cr
                           (s\<lparr>an_cascade := cs\<rparr>))))"

definition answer_in_session :: "unified_config \<Rightarrow> ('t, chat_session list) services \<Rightarrow> run_inputs \<Rightarrow> uuid \<Rightarrow> uuid \<Rightarrow> uuid \<Rightarrow> string \<Rightarrow>
    ('t, chat_session list) answer_state \<Rightarrow> unified_answer result \<times> ('t, chat_session list) answer_state" where
  "answer_in_session cfg sv ri tenant_id user_id session_id question s =
     (case find_owned (an_sessions s) tenant_id user_id session_id of
        Inl e \<Rightarrow> (Inl e, s)
      | Inr None \<Rightarrow> (Inl (SessionNotFound session_id), s)
      | Inr (Some _) \<Rightarrow> unified_execute cfg sv ri tenant_id user_id session_id question s)"

subsection \<open>What a returned answer went through\<close>

lemma unified_execute_Inr:
  assumes "unified_execute cfg sv ri t u i q s = (Inr ans, s')"
  obtains emb d fb cr cs where
    "int (sv_count_tokens sv q) \<le> floor_share (uc_total cfg) (bs_query (uc_shares cfg))"
    "sv_embed sv q = Inr emb" "route_stage cfg sv q emb = Inr (d, fb)"
    "run_cascade (sv_cascade sv) (sv_tracker sv) (ri_world ri) (ri_order ri)
       \<lparr>tr_tenant_id = t, tr_user_id = u, tr_session_id = i, tr_query = q, tr_query_embedding = emb\<rparr> d (an_cascade s) = (Inr cr, cs)"
    "answer_stage cfg sv ri t u i q d fb cr (s\<lparr>an_cascade := cs\<rparr>) = (Inr ans, s')"
  using assms by (auto simp: unified_execute_def Let_def not_less split: if_splits sum.splits prod.splits)

lemma answer_stage_Inr:
  assumes "answer_stage cfg sv ri t u i q d fb cr s = (Inr ans, s')"
  obtains a where "allocate (uc_total cfg) (contributing cr) (uc_shares cfg) = Inr a" "ua_allocation ans = a"
    "ua_sources ans = ac_included (assemble_context (sv_count_tokens sv) (cr_items cr) a)"
    "ua_decision ans = d" "ua_routing_fallback ans = fb" "ua_attempts ans = cr_attempts cr" "ua_degraded ans = cr_degraded cr"
    "sv_chat sv q (ac_text (assemble_context (sv_count_tokens sv) (cr_items cr) a)) = Inr (ua_answer ans)"
    "an_prompts s' = an_prompts s @ [(q, ac_text (assemble_context (sv_count_tokens sv) (cr_items cr) a))]"
  using assms by (auto simp: answer_stage_def Let_def split: sum.splits prod.splits)

lemma cost_by_paradigm:
  "cost_of ct xs = cost_of ct (filter (\<lambda>x. ci_paradigm x = CAG) xs) + cost_of ct (filter (\<lambda>x. ci_paradigm x = MAG) xs) +
     cost_of ct (filter (\<lambda>x. ci_paradigm x = RAG) xs)"
proof (induction xs)
  case (Cons x xs)
  then show ?case by (cases "ci_paradigm x") (simp_all add: cost_of_def)
qed (simp add: cost_of_def)

text \<open>
  C1. Every answer fits its context window. Whatever the tiers return, for accepted shares and a
  window of up to \<open>2 ^ 38\<close> tokens: the question fits the query slice, the sources of each paradigm
  fit the slice of that paradigm, the slices and the non-negative reserve sum to the window, and so
  the question and all sources together leave at least the reserve free. (The section titles
  of the prompt are not counted by the code, and not here.)
\<close>

theorem answer_fits_window:
  assumes "make_budget_shares c m g qs v = Inr (uc_shares cfg)" and "0 < uc_total cfg" and "uc_total cfg \<le> 2 ^ 38"
    and "unified_execute cfg sv ri tenant_id user_id session_id question s = (Inr ans, s')"
  shows "let a = ua_allocation ans; cost = (\<lambda>xs. int (cost_of (sv_count_tokens sv) xs)) in
    int (sv_count_tokens sv question) \<le> ba_query a \<and>
    (\<forall>p. cost (filter (\<lambda>x. ci_paradigm x = p) (ua_sources ans)) \<le> allocation_for_paradigm a p) \<and>
    allocation_total a = uc_total cfg \<and> 0 \<le> ba_reserve a \<and>
    int (sv_count_tokens sv question) + cost (ua_sources ans) \<le> uc_total cfg - ba_reserve a"
proof -
  from assms(4) obtain emb d fb cr cs where
    q: "int (sv_count_tokens sv question) \<le> floor_share (uc_total cfg) (bs_query (uc_shares cfg))"
    and st: "answer_stage cfg sv ri tenant_id user_id session_id question d fb cr (s\<lparr>an_cascade := cs\<rparr>) = (Inr ans, s')"
    by (rule unified_execute_Inr)
  from st obtain a where al: "allocate (uc_total cfg) (contributing cr) (uc_shares cfg) = Inr a" and a: "ua_allocation ans = a"
    and src: "ua_sources ans = ac_included (assemble_context (sv_count_tokens sv) (cr_items cr) a)"
    by (rule answer_stage_Inr)
  have tot: "allocation_total a = uc_total cfg" by (rule allocate_total_eq [OF al])
  have b: "0 \<le> ba_reserve a" "0 \<le> allocation_for_paradigm a p" for p
    using allocate_bounds [OF assms(1) _ assms(3) al] assms(2) by (auto split: if_splits)
  have qa: "ba_query a = floor_share (uc_total cfg) (bs_query (uc_shares cfg))"
    using al by (rule allocate_Inr) simp
  have slice: "int (cost_of (sv_count_tokens sv) (filter (\<lambda>x. ci_paradigm x = p) (ua_sources ans))) \<le> allocation_for_paradigm a p" for p
    using assemble_packs [OF b(2) [of p], where ct = "sv_count_tokens sv" and items = "cr_items cr"] unfolding src Let_def by metis
  from slice [of CAG] slice [of MAG] slice [of RAG] q qa tot slice b(1) show ?thesis
    unfolding Let_def a cost_by_paradigm [of "sv_count_tokens sv" "ua_sources ans"]
    by (simp add: allocation_total_def)
qed

definition ex_shares :: budget_shares where
  "ex_shares = \<lparr>bs_cag = 1 / 2, bs_mag = 1 / 4, bs_rag = 1 / 8, bs_query = 1 / 8, bs_reserve = 0\<rparr>"

definition ex_unified :: unified_config where
  "ex_unified = \<lparr>uc_total = 64, uc_shares = ex_shares, uc_select_threshold = DEFAULT_SELECT_THRESHOLD,
     uc_uncertainty_margin = DEFAULT_UNCERTAINTY_MARGIN, uc_classifier_timeout = DEFAULT_CLASSIFIER_TIMEOUT\<rparr>"

definition ex_item :: context_item where
  "ex_item = \<lparr>ci_paradigm = RAG, ci_content = ''abc'', ci_score = 1, ci_source_id = Some 40\<rparr>"

definition ex_services :: "(access_tracker, chat_session list) services" where
  "ex_services = \<lparr>sv_count_tokens = length, sv_embed = (\<lambda>_. Inr []), sv_classifier = Some (\<lambda>_ _. ScoringTimedOut),
     sv_cascade = ex_config, sv_tracker = tenant_tracker_ops, sv_recorder = Some (record_budget (\<lambda>_. ''2026'')),
     sv_chat = (\<lambda>q c. Inr ''yes'')\<rparr>"

definition ex_inputs :: run_inputs where
  "ex_inputs = \<lparr>ri_world = \<lparr>w_event = (\<lambda>p. case p of CAG \<Rightarrow> TimedOut | MAG \<Rightarrow> Raised
      | RAG \<Rightarrow> Returned \<lparr>tres_outcome = HIT, tres_items = [ex_item]\<rparr>), w_elapsed = (\<lambda>_. 1), w_now = 0\<rparr>,
     ri_order = rev, ri_now = 130, ri_tick = of_nat\<rparr>"

definition ex_answer_state :: "(access_tracker, chat_session list) answer_state" where
  "ex_answer_state = \<lparr>an_cascade = idle_state, an_sessions = ex_sessions, an_prompts = []\<rparr>"

lemma ex_shares_made: "make_budget_shares (Fin (1 / 2)) (Fin (1 / 4)) (Fin (1 / 8)) (Fin (1 / 8)) (Fin 0) = Inr ex_shares"
  by code_simp

lemma ex_answer_evaluated:
  "case fst (unified_execute ex_unified ex_services ex_inputs 7 8 9 ''ok?'' ex_answer_state) of
     Inl e \<Rightarrow> False
   | Inr ans \<Rightarrow> ua_answer ans = ''yes'' \<and> ua_sources ans = [ex_item] \<and> ba_rag (ua_allocation ans) = 56 \<and> ba_reserve (ua_allocation ans) = 0"
  by code_simp

theorem answer_fits_window_witness:
  "\<exists>ans s'. unified_execute ex_unified ex_services ex_inputs 7 8 9 ''ok?'' ex_answer_state = (Inr ans, s') \<and>
     ua_sources ans = [ex_item] \<and> ba_rag (ua_allocation ans) = 56 \<and>
     int (length ''ok?'') + int (cost_of length (ua_sources ans)) \<le> 64"
proof -
  obtain ans s' where e: "unified_execute ex_unified ex_services ex_inputs 7 8 9 ''ok?'' ex_answer_state = (Inr ans, s')"
    and a: "ua_sources ans = [ex_item]" "ba_rag (ua_allocation ans) = 56" "ba_reserve (ua_allocation ans) = 0"
    using ex_answer_evaluated by (auto simp: prod_eq_iff split: sum.splits)
  have "make_budget_shares (Fin (1 / 2)) (Fin (1 / 4)) (Fin (1 / 8)) (Fin (1 / 8)) (Fin 0) = Inr (uc_shares ex_unified)"
    by (simp add: ex_unified_def ex_shares_made)
  from answer_fits_window [OF this _ _ e] a e show ?thesis
    by (intro exI [of _ ans] exI [of _ s']) (simp add: Let_def ex_unified_def ex_services_def)
qed

subsection \<open>A failing classifier does not fail the request\<close>

definition scoring_fails :: "unified_config \<Rightarrow> classifier_event \<Rightarrow> bool" where
  "scoring_fails cfg ev =
     (case ev of
        Scored scores \<Rightarrow> (\<exists>e. decide scores (uc_select_threshold cfg) (uc_uncertainty_margin cfg) = Inl e)
      | ScoringTimedOut \<Rightarrow> True | ScoringRaised e \<Rightarrow> True | ScoringCancelled \<Rightarrow> False)"

lemma route_failing:
  "scoring_fails cfg ev \<Longrightarrow> \<exists>fb. route cfg ev = Inr (fallback_decision None, Some fb)"
  by (auto simp: scoring_fails_def route_def split: classifier_event.splits)

lemma eligible_fallback: "eligible_tiers c (fallback_decision x) = filter (\<lambda>p. p \<in> cc_tiers c) PARADIGM_ORDER"
  by (simp add: eligible_tiers_def fallback_decision_def)

lemma contributing_of_total: "0 \<le> n \<Longrightarrow> \<exists>a. allocate n act shares = Inr a"
  by (simp add: allocate_def Let_def case_prod_unfold)

text \<open>
  C19. A classifier that times out, raises or returns unusable scores does not fail the request.
  When the question fits, the embedding works, no task is cancelled, the budget is recorded and the chat model
  replies, the request is answered, with the routing of the fallback and its reason,
  after an attempt of every configured tier.
\<close>

theorem classifier_failure_degrades:
  assumes "sv_classifier sv = Some classifier" and "sv_embed sv question = Inr emb"
    and "scoring_fails cfg (classifier question emb)"
    and "0 < uc_total cfg" and "int (sv_count_tokens sv question) \<le> floor_share (uc_total cfg) (bs_query (uc_shares cfg))"
    and "\<forall>p. w_event (ri_world ri) p \<noteq> TaskCancelled" and "\<forall>ps. set (ri_order ri ps) = set ps"
    and "\<forall>a act. fst (record_stage sv (ri_now ri) tenant_id user_id session_id a act (an_sessions s)) = Inr ()"
    and "\<forall>ctx. \<exists>r. sv_chat sv question ctx = Inr r"
  shows "\<exists>ans s'. unified_execute cfg sv ri tenant_id user_id session_id question s = (Inr ans, s') \<and>
    ua_decision ans = Some (fallback_decision None) \<and> ua_routing_fallback ans \<noteq> None \<and>
    map ta_paradigm (ua_attempts ans) = filter (\<lambda>p. p \<in> cc_tiers (sv_cascade sv)) PARADIGM_ORDER"
proof -
  obtain fb where r: "route cfg (classifier question emb) = Inr (fallback_decision None, Some fb)"
    using route_failing [OF assms(3)] by blast
  let ?rq = "\<lparr>tr_tenant_id = tenant_id, tr_user_id = user_id, tr_session_id = session_id, tr_query = question, tr_query_embedding = emb\<rparr>"
  let ?e = "filter (\<lambda>p. p \<in> cc_tiers (sv_cascade sv)) PARADIGM_ORDER"
  let ?cr = "summary (ri_world ri) ?e"
  have "fst (run_cascade (sv_cascade sv) (sv_tracker sv) (ri_world ri) (ri_order ri) ?rq (Some (fallback_decision None)) (an_cascade s)) =
      fst (run_parallel (sv_cascade sv) (sv_tracker sv) (ri_world ri) (ri_order ri ?e) ?rq ?e (an_cascade s))"
    by (simp add: run_cascade_def Let_def eligible_fallback) (simp add: fallback_decision_def)
  also have "\<dots> = Inr ?cr" using assms(6,7) by (intro run_parallel_result) auto
  finally obtain cs where c: "run_cascade (sv_cascade sv) (sv_tracker sv) (ri_world ri) (ri_order ri) ?rq
      (Some (fallback_decision None)) (an_cascade s) = (Inr ?cr, cs)" by (metis prod.collapse)
  obtain a where a: "allocate (uc_total cfg) (contributing ?cr) (uc_shares cfg) = Inr a"
    using contributing_of_total assms(4) less_imp_le by blast
  let ?ac = "assemble_context (sv_count_tokens sv) (cr_items ?cr) a"
  obtain ss where rec: "record_stage sv (ri_now ri) tenant_id user_id session_id a (contributing ?cr) (an_sessions s) = (Inr (), ss)"
    using assms(8) by (metis prod.collapse)
  obtain ans where ch: "sv_chat sv question (ac_text ?ac) = Inr ans" using assms(9) by blast
  have "map ta_paradigm (cr_attempts ?cr) = ?e" by (simp add: summary_def report_def comp_def)
  with assms(1,2,5) r c a rec ch show ?thesis
    by (simp add: unified_execute_def route_stage_def answer_stage_def Let_def not_less [symmetric])
qed

theorem classifier_failure_degrades_witness:
  "\<exists>ans s'. unified_execute ex_unified ex_services ex_inputs 7 8 9 ''ok?'' ex_answer_state = (Inr ans, s') \<and>
     ua_routing_fallback ans \<noteq> None \<and> map ta_paradigm (ua_attempts ans) = [CAG, MAG, RAG]"
proof -
  have own: "is_owned ex_sessions 7 8 9" by (simp add: is_owned_def ex_sessions_def owns_def)
  have "sv_classifier ex_services = Some (\<lambda>_ _. ScoringTimedOut)" "sv_embed ex_services ''ok?'' = Inr []"
    "scoring_fails ex_unified ((\<lambda>_ _. ScoringTimedOut) ''ok?'' [])" "0 < uc_total ex_unified"
    "\<forall>p. w_event (ri_world ex_inputs) p \<noteq> TaskCancelled" "\<forall>ps. set (ri_order ex_inputs ps) = set ps"
    "\<forall>a act. fst (record_stage ex_services (ri_now ex_inputs) 7 8 9 a act (an_sessions ex_answer_state)) = Inr ()"
    "\<forall>ctx. \<exists>r. sv_chat ex_services ''ok?'' ctx = Inr r"
    using own ex_sessions_ok
    by (simp_all add: ex_services_def scoring_fails_def ex_unified_def ex_inputs_def ex_answer_state_def record_stage_def
        record_budget_owned split: paradigm.split)
  moreover have "int (sv_count_tokens ex_services ''ok?'') \<le> floor_share (uc_total ex_unified) (bs_query (uc_shares ex_unified))"
    by code_simp
  ultimately have "\<exists>ans s'. unified_execute ex_unified ex_services ex_inputs 7 8 9 ''ok?'' ex_answer_state = (Inr ans, s') \<and>
    ua_decision ans = Some (fallback_decision None) \<and> ua_routing_fallback ans \<noteq> None \<and>
    map ta_paradigm (ua_attempts ans) = filter (\<lambda>p. p \<in> cc_tiers (sv_cascade ex_services)) PARADIGM_ORDER"
    by (intro classifier_failure_degrades) assumption+
  moreover have "filter (\<lambda>p. p \<in> cc_tiers (sv_cascade ex_services)) PARADIGM_ORDER = [CAG, MAG, RAG]"
    by (simp add: ex_services_def ex_config_def PARADIGM_ORDER_def)
  ultimately show ?thesis by auto
qed

subsection \<open>Nothing is generated for a session that is not the caller's\<close>

definition turn :: "(datetime \<Rightarrow> 's \<Rightarrow> uuid \<Rightarrow> uuid \<Rightarrow> uuid \<Rightarrow> budget_allocation \<Rightarrow> paradigm set \<Rightarrow> unit result \<times> 's) \<Rightarrow>
    datetime \<Rightarrow> uuid \<Rightarrow> uuid \<Rightarrow> uuid \<Rightarrow> string \<Rightarrow> ('t, 's) answer_state \<Rightarrow> unified_answer result \<Rightarrow> ('t, 's) answer_state \<Rightarrow> bool" where
  \<comment> \<open>either nothing was recorded or generated, or the recorder ran and, if it succeeded, one prompt was given\<close>
  "turn rec now t u i q s r s' \<longleftrightarrow>
     an_sessions s' = an_sessions s \<and> an_prompts s' = an_prompts s \<and> (\<exists>e. r = Inl e) \<or>
     (\<exists>a act ctx. an_sessions s' = snd (rec now (an_sessions s) t u i a act) \<and>
        (if isl (fst (rec now (an_sessions s) t u i a act)) then an_prompts s' = an_prompts s \<and> (\<exists>e. r = Inl e)
         else an_prompts s' = an_prompts s @ [(q, ctx)]))"

lemma turn_cascade [simp]: "turn rec now t u i q (s\<lparr>an_cascade := cs\<rparr>) = turn rec now t u i q s"
  by (simp add: turn_def fun_eq_iff)

lemma turn_raises: "turn rec now t u i q s (Inl e) s" "turn rec now t u i q s (Inl e) (s\<lparr>an_cascade := cs\<rparr>)"
  by (simp_all add: turn_def)

lemma answer_stage_turn:
  assumes "sv_recorder sv = Some rec" "answer_stage cfg sv ri t u i q d fb cr s = (r, s')"
  shows "turn rec (ri_now ri) t u i q s r s'"
proof (cases "allocate (uc_total cfg) (contributing cr) (uc_shares cfg)")
  case (Inl e)
  with assms(2) show ?thesis by (auto simp: answer_stage_def turn_raises)
next
  case (Inr a)
  obtain x ss where x: "rec (ri_now ri) (an_sessions s) t u i a (contributing cr) = (x, ss)" by fastforce
  show ?thesis unfolding turn_def
    by (rule disjI2, rule exI [of _ a], rule exI [of _ "contributing cr"],
        rule exI [of _ "ac_text (assemble_context (sv_count_tokens sv) (cr_items cr) a)"])
      (use assms Inr x in \<open>auto simp: answer_stage_def record_stage_def Let_def split: sum.splits\<close>)
qed

lemma unified_execute_turn:
  assumes "sv_recorder sv = Some rec" "unified_execute cfg sv ri t u i q s = (r, s')"
  shows "turn rec (ri_now ri) t u i q s r s'"
    and "an_prompts s' \<noteq> an_prompts s \<Longrightarrow> int (sv_count_tokens sv q) \<le> floor_share (uc_total cfg) (bs_query (uc_shares cfg))"
proof -
  show "turn rec (ri_now ri) t u i q s r s'"
    using assms(2) answer_stage_turn [OF assms(1), of cfg ri t u i q]
    by (fastforce simp: unified_execute_def Let_def turn_raises split: if_splits sum.splits prod.splits)
qed (use assms(2) in \<open>auto simp: unified_execute_def Let_def split: if_splits\<close>)

context session_store
begin

lemma unified_execute_owned:
  assumes "sv_recorder sv = Some record_in" "ok (an_sessions s)" "unified_execute cfg sv ri t u i q s = (r, s')"
  shows "ok (an_sessions s')" "owned (an_sessions s') = owned (an_sessions s)"
    "\<not> owned (an_sessions s) t u i \<Longrightarrow> an_sessions s' = an_sessions s"
    "an_prompts s' = an_prompts s \<and> (\<exists>e. r = Inl e) \<or>
     int (sv_count_tokens sv q) \<le> floor_share (uc_total cfg) (bs_query (uc_shares cfg)) \<and> owned (an_sessions s) t u i \<and>
     (\<exists>ctx a act. an_prompts s' = an_prompts s @ [(q, ctx)] \<and>
        an_sessions s' = snd (record_in (ri_now ri) (an_sessions s) t u i a act))"
  using unified_execute_turn [OF assms(1,3)] assms(2)
  by (auto simp: turn_def record_outcome record_ok record_owned_frame record_unowned split: if_splits)

end

text \<open>
  C3. The chat model is called only for a recorded turn of the caller's own session. With the
  Postgres recorder, a run either generates nothing and raises, or makes exactly one call,
  with the question; then the question fits the query slice, the session is the caller's and the
  turn's budget has been written before. When the session is not the caller's the table is unchanged.
\<close>

theorem generation_only_after_record:
  assumes "sessions_ok (an_sessions s)" and "sv_recorder sv = Some (record_budget isoformat)"
  shows "case unified_execute cfg sv ri tenant_id user_id session_id question s of (r, s') \<Rightarrow>
    sessions_ok (an_sessions s') \<and>
    (an_prompts s' = an_prompts s \<and> (\<exists>e. r = Inl e) \<or>
     int (sv_count_tokens sv question) \<le> floor_share (uc_total cfg) (bs_query (uc_shares cfg)) \<and>
     is_owned (an_sessions s) tenant_id user_id session_id \<and>
     (\<exists>ctx a act. an_prompts s' = an_prompts s @ [(question, ctx)] \<and>
        an_sessions s' = snd (record_budget isoformat (ri_now ri) (an_sessions s) tenant_id user_id session_id a act))) \<and>
    (\<not> is_owned (an_sessions s) tenant_id user_id session_id \<longrightarrow> an_sessions s' = an_sessions s)"
  using postgres_sessions.unified_execute_owned [OF assms(2,1) prod.collapse [symmetric], where cfg = cfg and ri = ri and
      t = tenant_id and u = user_id and i = session_id and q = question]
  by (auto simp: case_prod_unfold)

theorem generation_only_after_record_witness:
  "let r = unified_execute ex_unified ex_services ex_inputs 7 8 10 ''ok?'' ex_answer_state in
   (\<exists>e. fst r = Inl e) \<and> an_prompts (snd r) = [] \<and> an_sessions (snd r) = ex_sessions"
proof -
  have "\<not> is_owned (an_sessions ex_answer_state) 7 8 10" by (simp add: is_owned_def ex_answer_state_def ex_sessions_def owns_def)
  moreover have "sessions_ok (an_sessions ex_answer_state)" "sv_recorder ex_services = Some (record_budget (\<lambda>_. ''2026''))"
    by (simp_all add: ex_answer_state_def ex_sessions_ok ex_services_def)
  ultimately show ?thesis
    using generation_only_after_record [where s = ex_answer_state and sv = ex_services and cfg = ex_unified and ri = ex_inputs
        and tenant_id = 7 and user_id = 8 and session_id = 10 and question = "''ok?''" and isoformat = "\<lambda>_. ''2026''"]
    by (simp add: case_prod_unfold Let_def ex_answer_state_def)
qed

text \<open>
  C10. Answering in a session is isolated. For a session that does not exist, belongs to another
  user or lives in another tenant, the answer is the same \<^verbatim>\<open>SessionNotFound\<close> and nothing at all
  changes: nothing is retrieved, recorded or generated. For the caller's own session, no lookup of
  any other session changes, and the caller still owns it afterwards.
\<close>

theorem answer_in_session_isolated:
  assumes "sessions_ok (an_sessions s)" and "sv_recorder sv = Some (record_budget isoformat)"
  shows "case answer_in_session cfg sv ri tenant_id user_id session_id question s of (r, s') \<Rightarrow>
    if \<not> is_owned (an_sessions s) tenant_id user_id session_id then r = Inl (SessionNotFound session_id) \<and> s' = s
    else (\<forall>t u i. i \<noteq> session_id \<longrightarrow> find_owned (an_sessions s') t u i = find_owned (an_sessions s) t u i) \<and>
         (\<exists>row. find_owned (an_sessions s') tenant_id user_id session_id = Inr (Some row))"
proof (cases "is_owned (an_sessions s) tenant_id user_id session_id")
  case False
  then have "find_owned (an_sessions s) tenant_id user_id session_id = Inr None" by (simp add: find_owned_None is_owned_def)
  with False show ?thesis by (simp add: answer_in_session_def)
next
  case True
  then obtain row where row: "find_owned (an_sessions s) tenant_id user_id session_id = Inr (Some row)"
    using find_owned_iff(1) [OF assms(1)] by (auto simp: is_owned_def)
  let ?x = "unified_execute cfg sv ri tenant_id user_id session_id question s"
  have e: "answer_in_session cfg sv ri tenant_id user_id session_id question s = ?x" using row by (simp add: answer_in_session_def)
  have own: "is_owned (an_sessions (snd ?x)) tenant_id user_id session_id" "sessions_ok (an_sessions (snd ?x))"
    using postgres_sessions.unified_execute_owned [OF assms(2,1) prod.collapse [symmetric], where cfg = cfg and ri = ri and
        t = tenant_id and u = user_id and i = session_id and q = question] True by simp_all
  then have "\<exists>row. find_owned (an_sessions (snd ?x)) tenant_id user_id session_id = Inr (Some row)"
    using find_owned_iff(1) [OF own(2)] by (auto simp: is_owned_def)
  moreover have "find_owned (snd (record_budget isoformat n rows tenant_id user_id session_id a act)) t u i = find_owned rows t u i"
    if "i \<noteq> session_id" for n rows a act t u i
  proof -
    have "filter (owns t u i) (map f rows) = filter (owns t u i) rows"
      if "\<And>r. f r = r \<or> owns tenant_id user_id session_id r \<and> owns t u i (f r) = owns t u i r" for f
      using that \<open>i \<noteq> session_id\<close> by (induction rows) (auto simp: owns_def, metis+)
    then show ?thesis by (simp add: record_budget_def Let_def find_owned_def)
  qed
  ultimately show ?thesis
    using unified_execute_turn(1) [OF assms(2) prod.collapse [symmetric], where cfg = cfg and ri = ri and
        t = tenant_id and u = user_id and i = session_id and q = question and s = s] True
    unfolding e turn_def by (auto simp: case_prod_unfold)
qed

theorem answer_in_session_isolated_witness:
  "let r = answer_in_session ex_unified ex_services ex_inputs 7 8 10 ''ok?'' ex_answer_state in
   fst r = Inl (SessionNotFound 10) \<and> snd r = ex_answer_state"
proof -
  have "\<not> is_owned (an_sessions ex_answer_state) 7 8 10" by (simp add: is_owned_def ex_answer_state_def ex_sessions_def owns_def)
  moreover have "sessions_ok (an_sessions ex_answer_state)" "sv_recorder ex_services = Some (record_budget (\<lambda>_. ''2026''))"
    by (simp_all add: ex_answer_state_def ex_sessions_ok ex_services_def)
  ultimately show ?thesis
    using answer_in_session_isolated [where s = ex_answer_state and sv = ex_services and cfg = ex_unified and ri = ex_inputs
        and tenant_id = 7 and user_id = 8 and session_id = 10 and question = "''ok?''" and isoformat = "\<lambda>_. ''2026''"]
    by (simp add: case_prod_unfold Let_def)
qed

end
