(* ===== verification/Freshness_Router.thy ===== *)
theory Freshness_Router
  imports Orch_Entities
begin

text \<open>
  The rules of the freshness-aware router, \<^verbatim>\<open>src/orchestration/domain/freshness_router.py\<close>: the
  identifier of a source, its route, the lifetime of a cached copy, and when observed
  change moves a source. Instants and durations count microseconds; dividing a
  \<^verbatim>\<open>timedelta\<close> by an integer rounds half to even. \<open>uuid5\<close> is the name-based UUID in the
  module's namespace, a parameter.
\<close>

definition MIN_INTERVAL :: timedelta where
  "MIN_INTERVAL = 1000000"

definition source_name :: "uuid \<Rightarrow> string \<Rightarrow> uuid option \<Rightarrow> string" where
  "source_name tenant_id source_key user_id =
     uuid_str tenant_id @ '':'' @ (case user_id of None \<Rightarrow> [] | Some u \<Rightarrow> uuid_str u) @ '':'' @ source_key"

definition source_id_for :: "(string \<Rightarrow> uuid) \<Rightarrow> uuid \<Rightarrow> string \<Rightarrow> uuid option \<Rightarrow> uuid" where
  "source_id_for uuid5 tenant_id source_key user_id = uuid5 (source_name tenant_id source_key user_id)"

definition route_for :: "data_source_profile \<Rightarrow> freshness_policy \<Rightarrow> ingestion_route" where
  "route_for profile policy =
     (if dp_scope profile = USER then MAG_ROUTE
      else if dp_expected_change_interval profile < fp_volatile_below policy then RAG_ONLY
      else CAG_WITH_RAG_BACKUP)"

definition cache_ttl :: "timedelta \<Rightarrow> freshness_policy \<Rightarrow> timedelta option" where
  "cache_ttl interval policy = map_option (td_mul_float interval) (fp_ttl_factor policy)"

definition observed_change_interval :: "datetime list \<Rightarrow> timedelta option" where
  "observed_change_interval ts =
     (if length ts < 2 then None
      else let ordered = sort ts
           in Some (td_div_int (last ordered - hd ordered) (int (length ordered) - 1)))"

definition last_n :: "int \<Rightarrow> 'a list \<Rightarrow> 'a list" where
  \<comment> \<open>\<open>xs[-n:]\<close> for a positive \<open>n\<close>\<close>
  "last_n n xs = drop (length xs - nat n) xs"

definition decide_migration :: "data_source \<Rightarrow> datetime list \<Rightarrow> datetime \<Rightarrow> freshness_policy \<Rightarrow>
    migration_decision option" where
  "decide_migration source version_times now policy =
     (if ds_route source = MAG_ROUTE then None
      else let history = sort (filter (\<lambda>t. t \<le> now) version_times) in
        if history = [] then None
        else let boundary = fp_volatile_below policy in
          if ds_route source = CAG_WITH_RAG_BACKUP
          then let needed = fp_demote_after_changes policy + 1;
                   recent = last_n needed history in
               if int (length recent) < needed \<or> hd recent \<le> now - boundary * fp_demote_after_changes policy then None
               else (case observed_change_interval recent of
                       None \<Rightarrow> None
                     | Some interval \<Rightarrow> Some \<lparr>md_to_route = RAG_ONLY, md_interval = max interval MIN_INTERVAL\<rparr>)
          else let quiet = now - last history in
               if boundary * fp_promote_after_quiet_multiple policy \<le> quiet
               then Some \<lparr>md_to_route = CAG_WITH_RAG_BACKUP, md_interval = quiet\<rparr>
               else None)"

subsection \<open>Identifiers\<close>

lemma uuid_str_no_colon: "CHR '':'' \<notin> set (uuid_str n)"
  using subsetD [OF uuid_str_chars] by (force simp: hex_digits_def)

lemma source_name_inj: "source_name t k u = source_name t' k' u' \<longleftrightarrow> t = t' \<and> k = k' \<and> u = u'"
proof
  assume n: "source_name t k u = source_name t' k' u'"
  let ?us = "\<lambda>u. case u of None \<Rightarrow> [] | Some x \<Rightarrow> uuid_str x"
  have c: "CHR '':'' \<notin> set (?us u)" for u by (cases u) (simp_all add: uuid_str_no_colon)
  have "uuid_str t = uuid_str t' \<and> ?us u @ CHR '':'' # k = ?us u' @ CHR '':'' # k'"
    using n by (intro split_at_char [where c = "CHR '':''"]) (simp_all add: source_name_def uuid_str_no_colon)
  moreover from this have "?us u = ?us u' \<and> k = k'" by (intro split_at_char [OF _ c c]) blast
  moreover have "uuid_str x \<noteq> []" for x using uuid_str_digits [of x] by (auto simp: uuid_str_def Let_def)
  ultimately show "t = t' \<and> k = k' \<and> u = u'" by (cases u; cases u') auto
qed simp

text \<open>
  A source has its own identifier: the name from which the identifier is derived determines
  the tenant, the user and the key, whatever characters the key has, so with a collision-free
  \<^verbatim>\<open>uuid5\<close> two sources share an identifier only if they are the same source.
\<close>

theorem source_id_injective:
  assumes "inj uuid5" and "source_id_for uuid5 t k u = source_id_for uuid5 t' k' u'"
  shows "t = t' \<and> k = k' \<and> u = u'"
  using assms by (simp add: source_id_for_def inj_eq source_name_inj)

definition name_code :: "string \<Rightarrow> nat" where
  \<comment> \<open>a collision-free function for examples: the characters as digits, after a leading one\<close>
  "name_code s = foldr (\<lambda>c n. of_char c + 256 * n) s 1"

lemma name_code_pos: "0 < name_code s"
  by (induction s) (simp_all add: name_code_def)

lemma inj_name_code: "inj name_code"
proof (rule injI)
  fix s r assume "name_code s = name_code r"
  then show "s = r"
  proof (induction s arbitrary: r)
    case Nil
    then show ?case
    proof (cases r)
      case (Cons d ds)
      with Nil have "of_char d + 256 * name_code ds = 1" by (simp add: name_code_def)
      with name_code_pos [of ds] show ?thesis by simp
    qed simp
  next
    case (Cons c cs)
    show ?case
    proof (cases r)
      case Nil
      with Cons.prems name_code_pos [of cs] show ?thesis by (simp add: name_code_def)
    next
      case (Cons d ds)
      with Cons.prems have eq: "of_char c + 256 * name_code cs = of_char d + 256 * name_code ds" by (simp add: name_code_def)
      have lt: "of_char x < (256 :: nat)" for x by (simp add: of_char_def)
      from arg_cong [OF eq, of "\<lambda>n. n mod 256"] have m: "of_char c = (of_char d :: nat)" using lt by simp
      with eq have "name_code cs = name_code ds" by simp
      with Cons.IH m Cons show ?thesis by auto
    qed
  qed
qed

theorem source_id_injective_witness:
  "source_id_for name_code 7 ''a:b'' None \<noteq> source_id_for name_code 7 ''b'' (Some 10)"
  using source_id_injective [OF inj_name_code, of 7 "''a:b''" None 7 "''b''" "Some 10"] by auto

subsection \<open>Migration\<close>

lemma decide_migration_cases:
  assumes "decide_migration s ts now policy = Some d"
  obtains (demote) recent i where "ds_route s = CAG_WITH_RAG_BACKUP" "md_to_route d = RAG_ONLY"
      "recent = last_n (fp_demote_after_changes policy + 1) (sort (filter (\<lambda>t. t \<le> now) ts))"
      "int (length recent) \<ge> fp_demote_after_changes policy + 1"
      "now - fp_volatile_below policy * fp_demote_after_changes policy < hd recent"
      "observed_change_interval recent = Some i" "md_interval d = max i MIN_INTERVAL"
      "sort (filter (\<lambda>t. t \<le> now) ts) \<noteq> []"
    | (promote) "ds_route s = RAG_ONLY" "md_to_route d = CAG_WITH_RAG_BACKUP"
      "md_interval d = now - last (sort (filter (\<lambda>t. t \<le> now) ts))"
      "fp_volatile_below policy * fp_promote_after_quiet_multiple policy \<le> md_interval d"
      "sort (filter (\<lambda>t. t \<le> now) ts) \<noteq> []"
proof (cases "ds_route s")
  case CAG_WITH_RAG_BACKUP
  with assms demote show ?thesis
    by (auto simp: decide_migration_def Let_def not_less not_le split: if_splits option.splits)
next
  case RAG_ONLY
  with assms promote show ?thesis by (auto simp: decide_migration_def Let_def split: if_splits)
qed (use assms in \<open>simp add: decide_migration_def\<close>)

lemma sorted_last_max: "sorted xs \<Longrightarrow> x \<in> set xs \<Longrightarrow> x \<le> last xs"
  by (induction xs) (use last_in_set in \<open>fastforce split: if_splits\<close>)+

lemma last_n_last: "0 < n \<Longrightarrow> xs \<noteq> [] \<Longrightarrow> last_n n xs \<noteq> [] \<and> last (last_n n xs) = last xs"
proof -
  assume "0 < n" "xs \<noteq> []"
  then have "length xs - nat n < length xs" by (simp add: length_greater_0_conv [symmetric] del: length_greater_0_conv)
  then show ?thesis by (simp add: last_n_def)
qed

lemma sorted_last_n: "sorted xs \<Longrightarrow> sorted (last_n n xs)"
  by (simp add: last_n_def sorted_wrt_drop)

definition policy_ok :: "freshness_policy \<Rightarrow> bool" where
  "policy_ok p \<longleftrightarrow> 0 < fp_volatile_below p \<and> 1 \<le> fp_demote_after_changes p \<and>
     fp_demote_after_changes p < fp_promote_after_quiet_multiple p"

lemma make_freshness_policy_ok: "make_freshness_policy v d p t = Inr policy \<Longrightarrow> policy_ok policy"
  by (auto simp: make_freshness_policy_def policy_ok_def split: if_splits)

lemma quiet_after_demotion:
  assumes "policy_ok policy" "decide_migration s ts now policy = Some d" "md_to_route d = RAG_ONLY"
  shows "now - fp_volatile_below policy * fp_demote_after_changes policy < last (sort (filter (\<lambda>t. t \<le> now) ts))"
  using assms(2)
proof (cases rule: decide_migration_cases)
  case (demote recent i)
  let ?h = "sort (filter (\<lambda>t. t \<le> now) ts)"
  have l: "recent \<noteq> []" "last recent = last ?h"
    using last_n_last [of "fp_demote_after_changes policy + 1" ?h] demote(3,8) assms(1) by (simp_all add: policy_ok_def)
  have "hd recent \<le> last recent"
    using l(1) sorted_last_max [of recent "hd recent"] sorted_last_n [of ?h] demote(3) by simp
  with demote(5) l(2) show ?thesis by simp
qed (use assms(3) in simp)

text \<open>
  Migrations do not flap. A decision always changes the route. If it is carried out and no new
  version arrives, a later review never demotes the source again, and promotes a demoted one
  only after at least \<open>promote_after_quiet_multiple - demote_after_changes\<close> further boundaries
  have passed, whatever time it runs.
\<close>

theorem migration_does_not_flap:
  assumes "make_freshness_policy v dem pro ttl = Inr policy"
    and "decide_migration s ts now policy = Some d" and "\<forall>t \<in> set ts. t \<le> now" and "now \<le> now'"
    and "decide_migration (s\<lparr>ds_route := md_to_route d, ds_expected_change_interval := md_interval d\<rparr>) ts now' policy = Some d'"
  shows "md_to_route d \<noteq> ds_route s \<and> md_to_route d = RAG_ONLY \<and> md_to_route d' = CAG_WITH_RAG_BACKUP \<and>
    now + fp_volatile_below policy * (fp_promote_after_quiet_multiple policy - fp_demote_after_changes policy) < now'"
proof -
  have ok: "policy_ok policy" using assms(1) by (rule make_freshness_policy_ok)
  have f: "filter (\<lambda>t. t \<le> now) ts = ts" "filter (\<lambda>t. t \<le> now') ts = ts"
    using assms(3,4) by (auto intro!: filter_True)
  from assms(2) show ?thesis
  proof (cases rule: decide_migration_cases)
    case demote
    have q: "now - fp_volatile_below policy * fp_demote_after_changes policy < last (sort ts)"
      using quiet_after_demotion [OF ok assms(2) demote(2)] f by simp
    from assms(5) show ?thesis
    proof (cases rule: decide_migration_cases)
      case promote
      with q f demote show ?thesis by (simp add: right_diff_distrib)
    qed (use demote in simp)
  next
    case promote
    have d': "ds_route (s\<lparr>ds_route := md_to_route d, ds_expected_change_interval := md_interval d\<rparr>) = CAG_WITH_RAG_BACKUP"
      using promote by simp
    from assms(5) have "md_to_route d' = RAG_ONLY"
      by (cases rule: decide_migration_cases) (use d' in simp_all)
    from quiet_after_demotion [OF ok assms(5) this] f
    have "now' - fp_volatile_below policy * fp_demote_after_changes policy < last (sort ts)" by simp
    moreover have "last (sort ts) \<le> now - fp_volatile_below policy * fp_promote_after_quiet_multiple policy"
      using promote f by simp
    moreover have "fp_volatile_below policy * fp_demote_after_changes policy \<le> fp_volatile_below policy * fp_promote_after_quiet_multiple policy"
      using ok by (simp add: policy_ok_def)
    ultimately show ?thesis using assms(4) by simp
  qed
qed

definition ex_source :: data_source where
  "ex_source = \<lparr>ds_id = 40, ds_tenant_id = 7, ds_user_id = None, ds_source_key = ''prices'', ds_scope = TENANT,
     ds_expected_change_interval = days 30, ds_route = CAG_WITH_RAG_BACKUP, ds_content_hash = ''h'', ds_last_changed_at = 0,
     ds_last_ingested_at = 0, ds_cached_until = None, ds_pending_hash = None\<rparr>"

lemma default_policy_made:
  "make_freshness_policy (days 1) 3 7 (Some (1 / 2)) = Inr default_freshness_policy"
  by (simp add: make_freshness_policy_def default_freshness_policy_def days_def seconds_def)

theorem migration_does_not_flap_witness:
  "\<exists>d d'. decide_migration ex_source [days 7, days 8, days 9, days 9] (days 9) default_freshness_policy = Some d \<and>
     decide_migration (ex_source\<lparr>ds_route := md_to_route d, ds_expected_change_interval := md_interval d\<rparr>)
       [days 7, days 8, days 9, days 9] (days 16) default_freshness_policy = Some d' \<and>
     md_to_route d = RAG_ONLY \<and> md_to_route d' = CAG_WITH_RAG_BACKUP \<and> days 9 + days 1 * (7 - 3) < days 16"
proof -
  let ?ts = "[days 7, days 8, days 9, days 9]"
  let ?d = "\<lparr>md_to_route = RAG_ONLY, md_interval = 57600000000\<rparr>"
  let ?d' = "\<lparr>md_to_route = CAG_WITH_RAG_BACKUP, md_interval = days 7\<rparr>"
  have 1: "decide_migration ex_source ?ts (days 9) default_freshness_policy = Some ?d" by code_simp
  have 2: "decide_migration (ex_source\<lparr>ds_route := md_to_route ?d, ds_expected_change_interval := md_interval ?d\<rparr>) ?ts (days 16)
      default_freshness_policy = Some ?d'" by code_simp
  have "\<forall>t \<in> set ?ts. t \<le> days 9" "days 9 \<le> days 16" by (simp_all add: days_def seconds_def)
  from migration_does_not_flap [OF default_policy_made 1 this 2] 1 2 show ?thesis
    by (intro exI [of _ ?d] exI [of _ ?d']) (simp add: default_freshness_policy_def)
qed

text \<open>
  The interval learned by a demotion need not route the source to RAG. Four versions, the first
  one microsecond after the start of the window of three boundaries and the last at its end, demote
  a cached source; their mean gap is below the boundary but rounds to it, and a source declared
  with the learned interval is routed to the cache again.
\<close>

theorem demotion_learns_boundary:
  "decide_migration ex_source [1, days 1, days 2, days 3] (days 3) default_freshness_policy =
     Some \<lparr>md_to_route = RAG_ONLY, md_interval = fp_volatile_below default_freshness_policy\<rparr> \<and>
   route_for \<lparr>dp_source_key = ''prices'', dp_scope = TENANT, dp_expected_change_interval = fp_volatile_below default_freshness_policy\<rparr>
     default_freshness_policy = CAG_WITH_RAG_BACKUP"
  by code_simp

end
