(* ===== verification/Data_Sources.thy ===== *)
theory Data_Sources
  imports Freshness_Router Cache_Warmed
begin

text \<open>
  Data sources: \<^verbatim>\<open>PostgresDataSourceRepository\<close>, and the three use cases \<^verbatim>\<open>IngestDataSource\<close>,
  \<^verbatim>\<open>RefreshCachedSources\<close> and \<^verbatim>\<open>ReviewSourceFreshness\<close> of \<^verbatim>\<open>src/orchestration/application\<close>.

  The two tables are the lists of their rows, the versions in the order of \<^verbatim>\<open>seq\<close>. A use case is
  written as the pieces that run without giving up control, one for each \<^verbatim>\<open>await\<close>, and their
  composition. The RAG index, the fact writer, the cache and the embedding model are
  the operations of a record \<open>ports\<close>. A database call that raises is a flag of \<open>db_faults\<close>
  for ingestion and refresh; the review is modelled with a database that answers. The
  order in which \<^verbatim>\<open>list_sources\<close> returns the rows depends on the collation of the database: it is
  the parameter \<open>order\<close>. \<open>clk\<close> is what the cache reads from its own clock.
\<close>

subsection \<open>PostgresDataSourceRepository\<close>

record version_row =
  vr_source_id :: uuid
  vr_tenant_id :: uuid
  vr_content_hash :: string
  vr_content :: "string option"
  vr_ingested_at :: datetime

record source_repo =
  dr_sources :: "data_source list"
  dr_versions :: "version_row list"

definition source_get :: "source_repo \<Rightarrow> uuid \<Rightarrow> string \<Rightarrow> uuid option \<Rightarrow> data_source option" where
  "source_get r tenant_id source_key user_id =
     List.find (\<lambda>s. ds_tenant_id s = tenant_id \<and> ds_source_key s = source_key \<and> ds_user_id s = user_id) (dr_sources r)"

definition insert_ok :: "source_repo \<Rightarrow> data_source \<Rightarrow> bool" where
  \<comment> \<open>the unique index and the check constraints of the table\<close>
  "insert_ok r s \<longleftrightarrow>
     source_get r (ds_tenant_id s) (ds_source_key s) (ds_user_id s) = None \<and>
     0 < ds_expected_change_interval s \<and> (ds_scope s = USER \<longleftrightarrow> ds_user_id s \<noteq> None)"

definition save_columns :: "data_source \<Rightarrow> data_source \<Rightarrow> data_source" where
  \<comment> \<open>\<open>ON CONFLICT (id) DO UPDATE\<close>: the columns an existing row takes from the new one\<close>
  "save_columns new old =
     old\<lparr>ds_content_hash := ds_content_hash new, ds_last_changed_at := ds_last_changed_at new,
         ds_last_ingested_at := ds_last_ingested_at new, ds_cached_until := ds_cached_until new,
         ds_pending_hash := ds_pending_hash new\<rparr>"

definition source_save :: "source_repo \<Rightarrow> data_source \<Rightarrow> source_version option \<Rightarrow> unit result \<times> source_repo" where
  "source_save r s version =
     (let versions = (case version of
            None \<Rightarrow> dr_versions r
          | Some v \<Rightarrow> dr_versions r @ [\<lparr>vr_source_id = ds_id s, vr_tenant_id = ds_tenant_id s,
              vr_content_hash = ds_content_hash s, vr_content = sv_content v, vr_ingested_at = ds_last_changed_at s\<rparr>])
      in case List.find (\<lambda>x. ds_id x = ds_id s) (dr_sources r) of
           None \<Rightarrow>
             if insert_ok r s then (Inr (), \<lparr>dr_sources = dr_sources r @ [s], dr_versions = versions\<rparr>)
             else (Inl (OtherException ''IntegrityError''), r)
         | Some old \<Rightarrow>
             if ds_tenant_id old \<noteq> ds_tenant_id s then (Inl (OtherException ''InsufficientPrivilegeError''), r)
             else (Inr (), \<lparr>dr_sources = map (\<lambda>x. if ds_id x = ds_id s then save_columns s x else x) (dr_sources r),
                            dr_versions = versions\<rparr>))"

definition mark_pending :: "source_repo \<Rightarrow> uuid \<Rightarrow> uuid \<Rightarrow> string \<Rightarrow> source_repo" where
  "mark_pending r tenant_id source_id digest =
     r\<lparr>dr_sources := map (\<lambda>s. if ds_id s = source_id \<and> ds_tenant_id s = tenant_id
                              then s\<lparr>ds_pending_hash := Some digest\<rparr> else s) (dr_sources r)\<rparr>"

definition unchanged :: "uuid \<Rightarrow> uuid \<Rightarrow> string \<Rightarrow> data_source \<Rightarrow> bool" where
  "unchanged tenant_id source_id expected_hash s \<longleftrightarrow>
     ds_id s = source_id \<and> ds_tenant_id s = tenant_id \<and> ds_content_hash s = expected_hash \<and> ds_pending_hash s = None"

definition conditional_update :: "(data_source \<Rightarrow> data_source) \<Rightarrow> source_repo \<Rightarrow> uuid \<Rightarrow> uuid \<Rightarrow> string \<Rightarrow> bool \<times> source_repo" where
  \<comment> \<open>\<open>UPDATE .. WHERE unchanged\<close> and \<open>_matched_one\<close>\<close>
  "conditional_update f r tenant_id source_id expected_hash =
     (length (filter (unchanged tenant_id source_id expected_hash) (dr_sources r)) = 1,
      r\<lparr>dr_sources := map (\<lambda>s. if unchanged tenant_id source_id expected_hash s then f s else s) (dr_sources r)\<rparr>)"

definition record_cached_until :: "source_repo \<Rightarrow> uuid \<Rightarrow> uuid \<Rightarrow> string \<Rightarrow> datetime option \<Rightarrow> bool \<times> source_repo" where
  "record_cached_until r tenant_id source_id expected_hash cached_until =
     conditional_update (\<lambda>s. s\<lparr>ds_cached_until := cached_until\<rparr>) r tenant_id source_id expected_hash"

definition migrate :: "source_repo \<Rightarrow> uuid \<Rightarrow> uuid \<Rightarrow> string \<Rightarrow> ingestion_route \<Rightarrow> timedelta \<Rightarrow> datetime option \<Rightarrow>
    bool \<times> source_repo" where
  "migrate r tenant_id source_id expected_hash route interval cached_until =
     conditional_update (\<lambda>s. s\<lparr>ds_route := route, ds_expected_change_interval := interval, ds_cached_until := cached_until\<rparr>)
       r tenant_id source_id expected_hash"

definition source_versions :: "source_repo \<Rightarrow> uuid \<Rightarrow> uuid \<Rightarrow> version_row list" where
  "source_versions r tenant_id source_id =
     filter (\<lambda>v. vr_tenant_id v = tenant_id \<and> vr_source_id v = source_id) (dr_versions r)"

definition version_times :: "source_repo \<Rightarrow> uuid \<Rightarrow> uuid \<Rightarrow> datetime list" where
  "version_times r tenant_id source_id = sort (map vr_ingested_at (source_versions r tenant_id source_id))"

definition current_content :: "source_repo \<Rightarrow> uuid \<Rightarrow> uuid \<Rightarrow> string option" where
  "current_content r tenant_id source_id =
     (case rev (List.map_filter vr_content (source_versions r tenant_id source_id)) of [] \<Rightarrow> None | x # _ \<Rightarrow> Some x)"

definition list_sources :: "(data_source list \<Rightarrow> data_source list) \<Rightarrow> source_repo \<Rightarrow> uuid \<Rightarrow> data_source list" where
  "list_sources order r tenant_id = order (filter (\<lambda>s. ds_tenant_id s = tenant_id) (dr_sources r))"

subsection \<open>Ports, state and faults\<close>

record ('r, 'm, 'c, 'kv) ports =
  pt_replace :: "'r \<Rightarrow> uuid \<Rightarrow> uuid \<Rightarrow> string \<Rightarrow> string \<Rightarrow> unit result \<times> 'r"
  pt_write_fact :: "'m \<Rightarrow> uuid \<Rightarrow> uuid \<Rightarrow> string \<Rightarrow> string \<Rightarrow> unit result \<times> 'm"
  pt_cache :: "('c, 'kv) expiring_cache_ops"
  pt_embed :: "string \<Rightarrow> embedding"
  pt_sha256 :: "string \<Rightarrow> string"
  pt_uuid5 :: "string \<Rightarrow> uuid"

record ('r, 'm, 'c) fresh_state =
  fs_repo :: source_repo
  fs_rag :: 'r
  fs_mag :: 'm
  fs_cache :: 'c
  fs_warmed :: cache_warmed

record db_faults =
  df_get :: bool
  df_mark :: bool
  df_save :: bool
  df_content :: "uuid \<Rightarrow> bool"
  df_record :: "uuid \<Rightarrow> bool"

definition db_error :: py_error where
  "db_error = OtherException ''DBAPIError''"

definition drop_copy :: "('r, 'm, 'c, 'kv) ports \<Rightarrow> datetime \<Rightarrow> data_source \<Rightarrow> ('r, 'm, 'c) fresh_state \<Rightarrow> ('r, 'm, 'c) fresh_state" where
  \<comment> \<open>evict the cached copy and forget the memo\<close>
  "drop_copy pt clk s st =
     st\<lparr>fs_cache := fc_evict (pt_cache pt) clk (fs_cache st) (ds_tenant_id s) (ds_id s),
        fs_warmed := forget (fs_warmed st) (ds_tenant_id s) (ds_id s)\<rparr>"

subsection \<open>IngestDataSource\<close>

definition scope_value :: "source_scope \<Rightarrow> string" where
  "scope_value s = (case s of TENANT \<Rightarrow> ''tenant'' | USER \<Rightarrow> ''user'')"

record ingest_config =
  ic_policy :: freshness_policy
  ic_route_policy :: "data_source_profile \<Rightarrow> freshness_policy \<Rightarrow> ingestion_route"
  ic_permit_user_scope_outside_mag :: bool

definition new_source :: "('r, 'm, 'c, 'kv) ports \<Rightarrow> ingest_config \<Rightarrow> uuid \<Rightarrow> data_source_profile \<Rightarrow> string \<Rightarrow> datetime \<Rightarrow>
    uuid option \<Rightarrow> data_source result" where
  "new_source pt cfg tenant_id profile digest now user_id =
     (let route = ic_route_policy cfg profile (ic_policy cfg) in
      if route = MAG_ROUTE \<and> dp_scope profile = TENANT then Inl (ValueError ''a tenant-scoped source cannot route to MAG'')
      else if dp_scope profile = USER \<and> route \<noteq> MAG_ROUTE \<and> \<not> ic_permit_user_scope_outside_mag cfg
      then Inl (ValueError ''a user-scoped source routes to MAG; placing it elsewhere puts personal data in tenant-wide stores and must be permitted explicitly'')
      else Inr \<lparr>ds_id = source_id_for (pt_uuid5 pt) tenant_id (dp_source_key profile) user_id, ds_tenant_id = tenant_id,
                ds_user_id = user_id, ds_source_key = dp_source_key profile, ds_scope = dp_scope profile,
                ds_expected_change_interval = dp_expected_change_interval profile, ds_route = route,
                ds_content_hash = digest, ds_last_changed_at = now, ds_last_ingested_at = now,
                ds_cached_until = None, ds_pending_hash = None\<rparr>)"

record ingest_job =
  ij_source :: data_source
  ij_content :: string
  ij_exists :: bool
  ij_changed :: bool
  ij_reapply :: bool
  ij_now :: datetime

definition plan_ingest :: "('r, 'm, 'c, 'kv) ports \<Rightarrow> ingest_config \<Rightarrow> source_repo \<Rightarrow> uuid \<Rightarrow> data_source_profile \<Rightarrow> string \<Rightarrow>
    datetime \<Rightarrow> uuid option \<Rightarrow> ingest_job result" where
  \<comment> \<open>the scope check, the lookup of the source and what is to be done\<close>
  "plan_ingest pt cfg r tenant_id profile content now user_id =
     (if (dp_scope profile = USER) \<noteq> (user_id \<noteq> None)
      then Inl (ScopeMismatch (dp_source_key profile) (scope_value (dp_scope profile)) (user_id \<noteq> None))
      else let digest = content_hash (pt_sha256 pt) content in
        case source_get r tenant_id (dp_source_key profile) user_id of
          None \<Rightarrow>
            (case new_source pt cfg tenant_id profile digest now user_id of
               Inl e \<Rightarrow> Inl e
             | Inr s \<Rightarrow> Inr \<lparr>ij_source = s, ij_content = content, ij_exists = False, ij_changed = True, ij_reapply = True, ij_now = now\<rparr>)
        | Some existing \<Rightarrow>
            (let changed = (ds_content_hash existing \<noteq> digest)
             in Inr \<lparr>ij_source = existing\<lparr>ds_content_hash := digest, ds_last_ingested_at := now,
                       ds_last_changed_at := (if changed then now else ds_last_changed_at existing), ds_pending_hash := None\<rparr>,
                     ij_content = content, ij_exists = True, ij_changed = changed,
                     ij_reapply = (changed \<or> ds_pending_hash existing \<noteq> None), ij_now = now\<rparr>))"

definition ingest_mark :: "ingest_job \<Rightarrow> source_repo \<Rightarrow> source_repo" where
  "ingest_mark j r =
     (if ij_exists j \<and> ij_reapply j
      then mark_pending r (ds_tenant_id (ij_source j)) (ds_id (ij_source j)) (ds_content_hash (ij_source j)) else r)"

definition apply_stores :: "('r, 'm, 'c, 'kv) ports \<Rightarrow> ingest_job \<Rightarrow> ('r, 'm, 'c) fresh_state \<Rightarrow> unit result \<times> ('r, 'm, 'c) fresh_state" where
  \<comment> \<open>the awaited half of \<open>_apply_route\<close>: the fact writer or the RAG index\<close>
  "apply_stores pt j st =
     (let s = ij_source j in
      if ds_route s = MAG_ROUTE
      then (if ij_reapply j
            then (case ds_user_id s of
                    None \<Rightarrow> (Inr (), st)
                  | Some u \<Rightarrow>
                      (case pt_write_fact pt (fs_mag st) (ds_tenant_id s) u (ds_source_key s) (ij_content j) of
                         (x, m) \<Rightarrow> (x, st\<lparr>fs_mag := m\<rparr>)))
            else (Inr (), st))
      else if ij_reapply j
      then (case pt_replace pt (fs_rag st) (ds_tenant_id s) (ds_id s) (ds_source_key s) (ij_content j) of
              (x, g) \<Rightarrow> (x, st\<lparr>fs_rag := g\<rparr>))
      else (Inr (), st))"

definition apply_cache :: "('r, 'm, 'c, 'kv) ports \<Rightarrow> freshness_policy \<Rightarrow> datetime \<Rightarrow> ingest_job \<Rightarrow> ('r, 'm, 'c) fresh_state \<Rightarrow>
    datetime option \<times> ('r, 'm, 'c) fresh_state" where
  \<comment> \<open>the synchronous half: what happens to the cached copy\<close>
  "apply_cache pt policy clk j st =
     (let s = ij_source j in
      if ds_route s \<noteq> CAG_WITH_RAG_BACKUP then (None, st)
      else if ij_reapply j then (None, drop_copy pt clk s st)
      else let expires_at = map_option (\<lambda>ttl. ij_now j + ttl) (cache_ttl (ds_expected_change_interval s) policy)
           in case ec_renew (pt_cache pt) clk (fs_cache st) (ds_tenant_id s) (ds_id s) expires_at of
                (renewed, c) \<Rightarrow> (if renewed then expires_at else None, st\<lparr>fs_cache := c\<rparr>))"

definition ingest_save :: "ingest_job \<Rightarrow> datetime option \<Rightarrow> source_repo \<Rightarrow> unit result \<times> source_repo" where
  "ingest_save j cached_until r =
     source_save r ((ij_source j)\<lparr>ds_cached_until := cached_until\<rparr>)
       (if ij_changed j
        then Some \<lparr>sv_content = (if ds_route (ij_source j) = MAG_ROUTE then None else Some (ij_content j))\<rparr> else None)"

definition ingest_execute :: "('r, 'm, 'c, 'kv) ports \<Rightarrow> ingest_config \<Rightarrow> db_faults \<Rightarrow> datetime \<Rightarrow> uuid \<Rightarrow> data_source_profile \<Rightarrow>
    string \<Rightarrow> datetime \<Rightarrow> uuid option \<Rightarrow> ('r, 'm, 'c) fresh_state \<Rightarrow> ingestion_result result \<times> ('r, 'm, 'c) fresh_state" where
  "ingest_execute pt cfg flt clk tenant_id profile content now user_id st =
     (case plan_ingest pt cfg (fs_repo st) tenant_id profile content now user_id of
        Inl (ScopeMismatch a b c) \<Rightarrow> (Inl (ScopeMismatch a b c), st)
      | p \<Rightarrow>
          if df_get flt then (Inl db_error, st)
          else case p of
            Inl e \<Rightarrow> (Inl e, st)
          | Inr j \<Rightarrow>
              if ij_exists j \<and> ij_reapply j \<and> df_mark flt then (Inl db_error, st)
              else let st1 = st\<lparr>fs_repo := ingest_mark j (fs_repo st)\<rparr> in
                case apply_stores pt j st1 of
                  (Inl e, st2) \<Rightarrow> (Inl e, st2)
                | (Inr _, st2) \<Rightarrow>
                    (case apply_cache pt (ic_policy cfg) clk j st2 of
                       (cached_until, st3) \<Rightarrow>
                         if df_save flt then (Inl db_error, st3)
                         else case ingest_save j cached_until (fs_repo st3) of
                                (Inl e, r) \<Rightarrow> (Inl e, st3\<lparr>fs_repo := r\<rparr>)
                              | (Inr _, r) \<Rightarrow>
                                  (Inr \<lparr>ir_source_id = ds_id (ij_source j), ir_route = ds_route (ij_source j), ir_changed = ij_changed j\<rparr>,
                                   st3\<lparr>fs_repo := r\<rparr>)))"

subsection \<open>RefreshCachedSources\<close>

definition refresh_check :: "('r, 'm, 'c, 'kv) ports \<Rightarrow> freshness_policy \<Rightarrow> datetime \<Rightarrow> data_source \<Rightarrow> datetime \<Rightarrow> ('r, 'm, 'c) fresh_state \<Rightarrow>
    datetime option option \<times> ('r, 'm, 'c) fresh_state" where
  \<comment> \<open>the checks before the content is read: \<open>Some e\<close> to go on, \<open>e\<close> being the expiry\<close>
  "refresh_check pt policy clk s now st =
     (if ds_route s \<noteq> CAG_WITH_RAG_BACKUP \<or> ds_pending_hash s \<noteq> None then (None, st)
      else case fc_contains (pt_cache pt) clk (fs_cache st) (ds_tenant_id s) (ds_id s) of
             (present, c) \<Rightarrow>
               (let expires_at = map_option (\<lambda>ttl. ds_last_ingested_at s + ttl) (cache_ttl (ds_expected_change_interval s) policy)
                in (if present \<or> (case expires_at of None \<Rightarrow> False | Some e \<Rightarrow> e \<le> now) then None else Some expires_at,
                    st\<lparr>fs_cache := c\<rparr>)))"

definition refresh_preload :: "('r, 'm, 'c, 'kv) ports \<Rightarrow> datetime \<Rightarrow> data_source \<Rightarrow> datetime option \<Rightarrow> string option \<Rightarrow>
    ('r, 'm, 'c) fresh_state \<Rightarrow> bool \<times> ('r, 'm, 'c) fresh_state" where
  \<comment> \<open>what follows the read of the content, up to the next \<open>await\<close>; whether to go on\<close>
  "refresh_preload pt clk s expires_at content st =
     (case content of
        None \<Rightarrow> (False, st)
      | Some x \<Rightarrow>
          if content_hash (pt_sha256 pt) x \<noteq> ds_content_hash s then (False, st)
          else (True, st\<lparr>fs_cache := ec_preload_until (pt_cache pt) clk (fs_cache st) (ds_tenant_id s) (ds_id s) x expires_at,
                         fs_warmed := note_warmed (pt_embed pt) (fs_warmed st) (ds_tenant_id s) (ds_id s) x\<rparr>))"

definition refresh_record :: "data_source \<Rightarrow> datetime option \<Rightarrow> source_repo \<Rightarrow> bool \<times> source_repo" where
  "refresh_record s expires_at r = record_cached_until r (ds_tenant_id s) (ds_id s) (ds_content_hash s) expires_at"

definition refresh_source :: "('r, 'm, 'c, 'kv) ports \<Rightarrow> freshness_policy \<Rightarrow> db_faults \<Rightarrow> datetime \<Rightarrow> data_source \<Rightarrow> datetime \<Rightarrow>
    ('r, 'm, 'c) fresh_state \<Rightarrow> bool result \<times> ('r, 'm, 'c) fresh_state" where
  \<comment> \<open>the body of the loop; whether the source was pre-loaded\<close>
  "refresh_source pt policy flt clk s now st =
     (case refresh_check pt policy clk s now st of
        (None, st1) \<Rightarrow> (Inr False, st1)
      | (Some expires_at, st1) \<Rightarrow>
          if df_content flt (ds_id s) then (Inl db_error, st1)
          else case refresh_preload pt clk s expires_at (current_content (fs_repo st1) (ds_tenant_id s) (ds_id s)) st1 of
                 (False, st2) \<Rightarrow> (Inr False, st2)
               | (True, st2) \<Rightarrow>
                   if df_record flt (ds_id s) then (Inl db_error, st2)
                   else case refresh_record s expires_at (fs_repo st2) of
                          (recorded, r) \<Rightarrow>
                            (Inr recorded, if recorded then st2\<lparr>fs_repo := r\<rparr> else drop_copy pt clk s (st2\<lparr>fs_repo := r\<rparr>)))"

fun refresh_all :: "('r, 'm, 'c, 'kv) ports \<Rightarrow> freshness_policy \<Rightarrow> db_faults \<Rightarrow> datetime \<Rightarrow> datetime \<Rightarrow> data_source list \<Rightarrow>
    ('r, 'm, 'c) fresh_state \<Rightarrow> string list result \<times> ('r, 'm, 'c) fresh_state" where
  "refresh_all pt policy flt clk now [] st = (Inr [], st)"
| "refresh_all pt policy flt clk now (s # ss) st =
     (case refresh_source pt policy flt clk s now st of
        (Inl e, st1) \<Rightarrow> (Inl e, st1)
      | (Inr preloaded, st1) \<Rightarrow>
          (case refresh_all pt policy flt clk now ss st1 of
             (Inl e, st2) \<Rightarrow> (Inl e, st2)
           | (Inr keys, st2) \<Rightarrow> (Inr (if preloaded then ds_source_key s # keys else keys), st2)))"

definition refresh_run :: "('r, 'm, 'c, 'kv) ports \<Rightarrow> freshness_policy \<Rightarrow> (data_source list \<Rightarrow> data_source list) \<Rightarrow> db_faults \<Rightarrow>
    datetime \<Rightarrow> uuid \<Rightarrow> datetime \<Rightarrow> ('r, 'm, 'c) fresh_state \<Rightarrow> string list result \<times> ('r, 'm, 'c) fresh_state" where
  "refresh_run pt policy order flt clk tenant_id now st =
     refresh_all pt policy flt clk now (list_sources order (fs_repo st) tenant_id) st"

subsection \<open>ReviewSourceFreshness\<close>

definition review_source :: "('r, 'm, 'c, 'kv) ports \<Rightarrow> freshness_policy \<Rightarrow> datetime \<Rightarrow> data_source \<Rightarrow> datetime \<Rightarrow>
    ('r, 'm, 'c) fresh_state \<Rightarrow> source_migration option \<times> ('r, 'm, 'c) fresh_state" where
  "review_source pt policy clk s now st =
     (if ds_scope s = USER \<or> ds_pending_hash s \<noteq> None then (None, st)
      else case decide_migration s (version_times (fs_repo st) (ds_tenant_id s) (ds_id s)) now policy of
             None \<Rightarrow> (None, st)
           | Some d \<Rightarrow>
               (let demoted = (md_to_route d = RAG_ONLY) in
                case migrate (fs_repo st) (ds_tenant_id s) (ds_id s) (ds_content_hash s) (md_to_route d) (md_interval d)
                       (if demoted then None else ds_cached_until s) of
                  (migrated, r) \<Rightarrow>
                    (let st1 = st\<lparr>fs_repo := r\<rparr> in
                     if \<not> migrated then (None, st1)
                     else (Some \<lparr>sm_source_key = ds_source_key s, sm_from_route = ds_route s, sm_to_route = md_to_route d,
                                 sm_observed_interval = md_interval d\<rparr>,
                           if demoted then drop_copy pt clk s st1 else st1))))"

fun review_all :: "('r, 'm, 'c, 'kv) ports \<Rightarrow> freshness_policy \<Rightarrow> datetime \<Rightarrow> datetime \<Rightarrow> data_source list \<Rightarrow>
    ('r, 'm, 'c) fresh_state \<Rightarrow> source_migration list \<times> ('r, 'm, 'c) fresh_state" where
  "review_all pt policy clk now [] st = ([], st)"
| "review_all pt policy clk now (s # ss) st =
     (case review_source pt policy clk s now st of
        (m, st1) \<Rightarrow>
          (case review_all pt policy clk now ss st1 of
             (ms, st2) \<Rightarrow> (case m of None \<Rightarrow> ms | Some x \<Rightarrow> x # ms, st2)))"

definition review_run :: "('r, 'm, 'c, 'kv) ports \<Rightarrow> freshness_policy \<Rightarrow> (data_source list \<Rightarrow> data_source list) \<Rightarrow> datetime \<Rightarrow> uuid \<Rightarrow>
    datetime \<Rightarrow> ('r, 'm, 'c) fresh_state \<Rightarrow> source_migration list \<times> ('r, 'm, 'c) fresh_state" where
  "review_run pt policy order clk tenant_id now st =
     review_all pt policy clk now (list_sources order (fs_repo st) tenant_id) st"

end
