(* ===== verification/Freshness_Safety.thy ===== *)
theory Freshness_Safety
  imports Data_Sources
begin

text \<open>
  Ingestion and refresh running concurrently: the pieces of \<open>Data_Sources\<close> as the steps of a
  transition system. The system covers runs that keep to a discipline, which the code leaves to its callers: of each source at most
  one ingestion and one refresh are under way, a refresh that has pre-loaded a copy goes on to its record (an
  exception or the end of the process may stop it before that, and an ingestion at any point), and there is no review. The
  ingestion and the refresh of a source interleave freely, with those of other sources, with the lookups of readers and with time.
  That each part of the discipline is needed is shown by an example at the end. The invariant is stated for one source and preserved by every
  step, over the contract of an expiring cache; the theorem is its instance at
  \<^verbatim>\<open>ExpiringFrozenCache\<close> around \<^verbatim>\<open>HFFrozenCache\<close>.
\<close>

subsection \<open>The rows of the repository\<close>

definition row :: "source_repo \<Rightarrow> uuid \<Rightarrow> data_source option" where
  "row r i = List.find (\<lambda>s. ds_id s = i) (dr_sources r)"

definition repo_ok :: "(string \<Rightarrow> uuid) \<Rightarrow> source_repo \<Rightarrow> bool" where
  "repo_ok uuid5 r \<longleftrightarrow> distinct (map ds_id (dr_sources r)) \<and>
     (\<forall>s \<in> set (dr_sources r). ds_id s = source_id_for uuid5 (ds_tenant_id s) (ds_source_key s) (ds_user_id s))"

lemma find_distinct:
  "distinct (map f xs) \<Longrightarrow> List.find (\<lambda>x. f x = i) xs = Some y \<longleftrightarrow> y \<in> set xs \<and> f y = i"
  by (induction xs) (auto simp: image_iff)

lemma find_None: "List.find P xs = None \<longleftrightarrow> (\<forall>x \<in> set xs. \<not> P x)"
  by (auto simp: find_None_iff)

lemma row_Some: "repo_ok h r \<Longrightarrow> row r i = Some s \<longleftrightarrow> s \<in> set (dr_sources r) \<and> ds_id s = i"
  unfolding row_def repo_ok_def by (intro find_distinct) simp

lemma row_id: "row r i = Some s \<Longrightarrow> ds_id s = i"
  by (auto simp: row_def find_Some_iff)

lemma row_None: "row r i = None \<longleftrightarrow> (\<forall>s \<in> set (dr_sources r). ds_id s \<noteq> i)"
  by (simp add: row_def find_None)

lemma find_map: "(\<And>x. P (f x) = P x) \<Longrightarrow> List.find P (map f xs) = map_option f (List.find P xs)"
  by (induction xs) simp_all

lemma row_map:
  "(\<And>s. ds_id (f s) = ds_id s) \<Longrightarrow> row (r\<lparr>dr_sources := map f (dr_sources r)\<rparr>) i = map_option f (row r i)"
  by (simp add: row_def find_map)

definition keeps_identity :: "(data_source \<Rightarrow> data_source) \<Rightarrow> bool" where
  "keeps_identity f \<longleftrightarrow> (\<forall>s. ds_id (f s) = ds_id s \<and> ds_tenant_id (f s) = ds_tenant_id s \<and>
     ds_source_key (f s) = ds_source_key s \<and> ds_user_id (f s) = ds_user_id s)"

lemma repo_ok_map:
  assumes "repo_ok h r" "keeps_identity f" "dr_sources r' = map f (dr_sources r)"
  shows "repo_ok h r'"
  using assms(1,2) unfolding repo_ok_def assms(3) keeps_identity_def by (simp add: comp_def)

lemma source_get_Some: "source_get r t k u = Some s \<Longrightarrow> s \<in> set (dr_sources r) \<and> ds_tenant_id s = t \<and> ds_source_key s = k \<and> ds_user_id s = u"
  by (auto simp: source_get_def find_Some_iff)

lemma source_get_None: "source_get r t k u = None \<Longrightarrow> s \<in> set (dr_sources r) \<Longrightarrow> \<not> (ds_tenant_id s = t \<and> ds_source_key s = k \<and> ds_user_id s = u)"
  by (auto simp: source_get_def find_None)

lemma conditional_update_row:
  assumes "repo_ok h r" "keeps_identity f" "conditional_update f r t i x = (b, r')"
  shows "repo_ok h r'" "row r' j = map_option (\<lambda>s. if unchanged t i x s then f s else s) (row r j)"
    "b \<longleftrightarrow> (\<exists>s. row r i = Some s \<and> unchanged t i x s)"
proof -
  let ?f = "\<lambda>s. if unchanged t i x s then f s else s"
  have r': "r' = r\<lparr>dr_sources := map ?f (dr_sources r)\<rparr>" using assms(3) by (simp add: conditional_update_def)
  have k: "keeps_identity ?f" using assms(2) by (simp add: keeps_identity_def)
  show "repo_ok h r'" unfolding r' by (rule repo_ok_map [OF assms(1) k]) simp
  show "row r' j = map_option ?f (row r j)" unfolding r' using k by (intro row_map) (simp add: keeps_identity_def)
  have "distinct (map ds_id (dr_sources r))" using assms(1) by (simp add: repo_ok_def)
  then have "distinct (map ds_id (filter (unchanged t i x) (dr_sources r)))"
    by (simp add: distinct_map_filter)
  moreover have "ds_id ` set (filter (unchanged t i x) (dr_sources r)) \<subseteq> {i}" by (auto simp: unchanged_def)
  ultimately have "length (filter (unchanged t i x) (dr_sources r)) \<le> 1"
    using card_mono [of "{i}" "ds_id ` set (filter (unchanged t i x) (dr_sources r))"]
    by (metis (no_types, lifting) distinct_card finite.emptyI finite_insert is_singletonI is_singleton_altdef length_map list.set_map)
  moreover have "b \<longleftrightarrow> length (filter (unchanged t i x) (dr_sources r)) = 1" using assms(3) by (simp add: conditional_update_def)
  moreover have "filter (unchanged t i x) (dr_sources r) \<noteq> [] \<longleftrightarrow> (\<exists>s. row r i = Some s \<and> unchanged t i x s)"
    using row_Some [OF assms(1), of i] by (auto simp: filter_empty_conv unchanged_def)
  ultimately show "b \<longleftrightarrow> (\<exists>s. row r i = Some s \<and> unchanged t i x s)"
    by (cases "filter (unchanged t i x) (dr_sources r)") auto
qed

lemma mark_row:
  assumes "repo_ok h r" "row r (ds_id s) = Some x" "ds_tenant_id x = ds_tenant_id s"
  shows "repo_ok h (mark_pending r (ds_tenant_id s) (ds_id s) d)"
    "row (mark_pending r (ds_tenant_id s) (ds_id s) d) j =
       (if j = ds_id s then Some (x\<lparr>ds_pending_hash := Some d\<rparr>) else row r j)"
proof -
  let ?f = "\<lambda>y. if ds_id y = ds_id s \<and> ds_tenant_id y = ds_tenant_id s then y\<lparr>ds_pending_hash := Some d\<rparr> else y"
  show "repo_ok h (mark_pending r (ds_tenant_id s) (ds_id s) d)"
    unfolding mark_pending_def by (rule repo_ok_map [OF assms(1), of ?f]) (simp_all add: keeps_identity_def)
  have "row (mark_pending r (ds_tenant_id s) (ds_id s) d) j = map_option ?f (row r j)"
    unfolding mark_pending_def by (rule row_map) simp
  moreover have "map_option ?f (row r j) = row r j" if "j \<noteq> ds_id s"
    using that row_id [of r j] by (cases "row r j") auto
  moreover have "ds_id x = ds_id s" using assms(2) by (rule row_id)
  ultimately show "row (mark_pending r (ds_tenant_id s) (ds_id s) d) j =
       (if j = ds_id s then Some (x\<lparr>ds_pending_hash := Some d\<rparr>) else row r j)"
    using assms(2,3) by auto
qed

lemma save_columns_sel [simp]:
  "ds_id (save_columns s x) = ds_id x" "ds_tenant_id (save_columns s x) = ds_tenant_id x"
  "ds_source_key (save_columns s x) = ds_source_key x" "ds_user_id (save_columns s x) = ds_user_id x"
  "ds_route (save_columns s x) = ds_route x" "ds_content_hash (save_columns s x) = ds_content_hash s"
  "ds_pending_hash (save_columns s x) = ds_pending_hash s"
  by (simp_all add: save_columns_def)

lemma save_row_update:
  assumes "repo_ok h r" "row r (ds_id s) = Some x" "ds_tenant_id x = ds_tenant_id s" "source_save r s v = (res, r')"
  shows "repo_ok h r'" "row r' j = (if j = ds_id s then Some (save_columns s x) else row r j)"
proof -
  let ?f = "\<lambda>y. if ds_id y = ds_id s then save_columns s y else y"
  have "\<exists>vs. r' = \<lparr>dr_sources = map ?f (dr_sources r), dr_versions = vs\<rparr>"
    using assms(4) unfolding source_save_def Let_def assms(2) [unfolded row_def] option.case
    by (cases v) (auto simp: assms(3))
  then have r': "dr_sources r' = map ?f (dr_sources r)" by auto
  have k: "keeps_identity ?f" by (simp add: keeps_identity_def)
  show "repo_ok h r'" by (rule repo_ok_map [OF assms(1) k r'])
  have "row r' j = map_option ?f (row r j)" unfolding row_def r' using k by (intro find_map) (simp add: keeps_identity_def)
  then show "row r' j = (if j = ds_id s then Some (save_columns s x) else row r j)"
    using row_id [OF assms(2)] row_id [of r j] assms(2) by (cases "row r j") auto
qed

lemma save_row_insert:
  assumes "repo_ok h r" "row r (ds_id s) = None" "source_save r s v = (res, r')"
    and "ds_id s = source_id_for h (ds_tenant_id s) (ds_source_key s) (ds_user_id s)"
  shows "repo_ok h r'" "row r' j = row r j \<or> j = ds_id s \<and> row r' j = Some s"
proof -
  have "r' = r \<or> dr_sources r' = dr_sources r @ [s]"
    using assms(2,3) by (auto simp: source_save_def row_def Let_def split: option.splits if_splits)
  then consider "r' = r" | "dr_sources r' = dr_sources r @ [s]" by blast
  then have "repo_ok h r' \<and> (row r' j = row r j \<or> j = ds_id s \<and> row r' j = Some s)"
  proof cases
    case 2
    have n: "ds_id s \<notin> ds_id ` set (dr_sources r)" using assms(2) by (auto simp: row_None)
    then have "repo_ok h r'" using assms(1,4) 2 by (auto simp: repo_ok_def)
    moreover have "List.find P (xs @ [y]) = (case List.find P xs of None \<Rightarrow> if P y then Some y else None | Some z \<Rightarrow> Some z)" for P xs and y :: data_source
      by (induction xs) simp_all
    ultimately show ?thesis using assms(2) by (auto simp: row_def 2 split: option.split)
  qed (use assms(1) in simp)
  then show "repo_ok h r'" "row r' j = row r j \<or> j = ds_id s \<and> row r' j = Some s" by auto
qed

subsection \<open>The transition system\<close>

datatype ing_pc =
    I_Idle
  | I_Planned ingest_job
  | I_Marked ingest_job
  | I_Stored ingest_job
  | I_Cached ingest_job "datetime option"

datatype ref_pc =
    R_Idle
  | R_Listed data_source
  | R_Checked data_source "datetime option"
  | R_Read data_source "datetime option" "string option"
  | R_Preloaded data_source "datetime option"
  | R_Unrecorded data_source

fun in_hand :: "ref_pc \<Rightarrow> bool" where
  \<comment> \<open>a refresh has put a copy into the cache and is not done with it\<close>
  "in_hand (R_Preloaded s e) = True"
| "in_hand (R_Unrecorded s) = True"
| "in_hand _ = False"

record ('r, 'm, 'c) machine =
  mc_state :: "('r, 'm, 'c) fresh_state"
  mc_clock :: datetime
  mc_ing :: "uuid \<Rightarrow> ing_pc"
  mc_ref :: "uuid \<Rightarrow> ref_pc"

abbreviation mc_repo :: "('r, 'm, 'c) machine \<Rightarrow> source_repo" where
  "mc_repo m \<equiv> fs_repo (mc_state m)"

abbreviation with_repo :: "('r, 'm, 'c) machine \<Rightarrow> source_repo \<Rightarrow> ('r, 'm, 'c) machine" where
  "with_repo m r \<equiv> m\<lparr>mc_state := (mc_state m)\<lparr>fs_repo := r\<rparr>\<rparr>"

inductive fresh_step :: "('r, 'm, 'c, 'kv) ports \<Rightarrow> ingest_config \<Rightarrow> ('r, 'm, 'c) machine \<Rightarrow> ('r, 'm, 'c) machine \<Rightarrow> bool"
  for pt cfg where
  tick: "mc_clock m \<le> n \<Longrightarrow> fresh_step pt cfg m (m\<lparr>mc_clock := n\<rparr>)"
| lookup: "fresh_step pt cfg m
    (m\<lparr>mc_state := (mc_state m)\<lparr>fs_cache := snd (fc_lookup (pt_cache pt) (mc_clock m) (fs_cache (mc_state m)) t i)\<rparr>\<rparr>)"
| ing_plan: "plan_ingest pt cfg (mc_repo m) t profile content now u = Inr j \<Longrightarrow> mc_ing m (ds_id (ij_source j)) = I_Idle \<Longrightarrow>
    fresh_step pt cfg m (m\<lparr>mc_ing := (mc_ing m)(ds_id (ij_source j) := I_Planned j)\<rparr>)"
| ing_mark: "mc_ing m i = I_Planned j \<Longrightarrow>
    fresh_step pt cfg m ((with_repo m (ingest_mark j (mc_repo m)))\<lparr>mc_ing := (mc_ing m)(i := I_Marked j)\<rparr>)"
| ing_store: "mc_ing m i = I_Marked j \<Longrightarrow> apply_stores pt j (mc_state m) = (res, st) \<Longrightarrow>
    fresh_step pt cfg m (m\<lparr>mc_state := st, mc_ing := (mc_ing m)(i := if isl res then I_Idle else I_Stored j)\<rparr>)"
| ing_cache: "mc_ing m i = I_Stored j \<Longrightarrow> apply_cache pt (ic_policy cfg) (mc_clock m) j (mc_state m) = (cu, st) \<Longrightarrow>
    fresh_step pt cfg m (m\<lparr>mc_state := st, mc_ing := (mc_ing m)(i := I_Cached j cu)\<rparr>)"
| ing_save: "mc_ing m i = I_Cached j cu \<Longrightarrow> ingest_save j cu (mc_repo m) = (res, r) \<Longrightarrow>
    fresh_step pt cfg m ((with_repo m r)\<lparr>mc_ing := (mc_ing m)(i := I_Idle)\<rparr>)"
| ing_stop: "fresh_step pt cfg m (m\<lparr>mc_ing := (mc_ing m)(i := I_Idle)\<rparr>)"
| ref_list: "s \<in> set (dr_sources (mc_repo m)) \<Longrightarrow> mc_ref m (ds_id s) = R_Idle \<Longrightarrow>
    fresh_step pt cfg m (m\<lparr>mc_ref := (mc_ref m)(ds_id s := R_Listed s)\<rparr>)"
| ref_check: "mc_ref m i = R_Listed s \<Longrightarrow> refresh_check pt (ic_policy cfg) (mc_clock m) s now (mc_state m) = (e, st) \<Longrightarrow>
    fresh_step pt cfg m (m\<lparr>mc_state := st, mc_ref := (mc_ref m)(i := case e of None \<Rightarrow> R_Idle | Some x \<Rightarrow> R_Checked s x)\<rparr>)"
| ref_read: "mc_ref m i = R_Checked s e \<Longrightarrow>
    fresh_step pt cfg m (m\<lparr>mc_ref := (mc_ref m)(i := R_Read s e (current_content (mc_repo m) (ds_tenant_id s) (ds_id s)))\<rparr>)"
| ref_preload: "mc_ref m i = R_Read s e x \<Longrightarrow> refresh_preload pt (mc_clock m) s e x (mc_state m) = (go, st) \<Longrightarrow>
    fresh_step pt cfg m (m\<lparr>mc_state := st, mc_ref := (mc_ref m)(i := if go then R_Preloaded s e else R_Idle)\<rparr>)"
| ref_record: "mc_ref m i = R_Preloaded s e \<Longrightarrow> refresh_record s e (mc_repo m) = (ok, r) \<Longrightarrow>
    fresh_step pt cfg m ((with_repo m r)\<lparr>mc_ref := (mc_ref m)(i := if ok then R_Idle else R_Unrecorded s)\<rparr>)"
| ref_drop: "mc_ref m i = R_Unrecorded s \<Longrightarrow>
    fresh_step pt cfg m (m\<lparr>mc_state := drop_copy pt (mc_clock m) s (mc_state m), mc_ref := (mc_ref m)(i := R_Idle)\<rparr>)"
| ref_stop: "\<not> in_hand (mc_ref m i) \<Longrightarrow> fresh_step pt cfg m (m\<lparr>mc_ref := (mc_ref m)(i := R_Idle)\<rparr>)"

inductive fresh_reachable :: "('r, 'm, 'c, 'kv) ports \<Rightarrow> ingest_config \<Rightarrow> ('r, 'm, 'c) machine \<Rightarrow> ('r, 'm, 'c) machine \<Rightarrow> bool"
  for pt cfg m0 where
  start: "fresh_reachable pt cfg m0 m0"
| step: "fresh_reachable pt cfg m0 m \<Longrightarrow> fresh_step pt cfg m m' \<Longrightarrow> fresh_reachable pt cfg m0 m'"

definition fresh_initial :: "(datetime \<Rightarrow> 'c \<Rightarrow> doc_key \<Rightarrow> string option) \<Rightarrow> ('r, 'm, 'c) machine \<Rightarrow> bool" where
  "fresh_initial view m \<longleftrightarrow> dr_sources (mc_repo m) = [] \<and> (\<forall>n k. view n (fs_cache (mc_state m)) k = None) \<and>
     mc_ing m = (\<lambda>_. I_Idle) \<and> mc_ref m = (\<lambda>_. R_Idle)"

subsection \<open>The invariant of one source\<close>

text \<open>
  \<open>W n t\<close> is the hash that a lookup at \<open>n\<close> finds for the source under tenant \<open>t\<close>.
\<close>

definition same_source :: "data_source \<Rightarrow> data_source \<Rightarrow> bool" where
  "same_source x s \<longleftrightarrow> ds_id s = ds_id x \<and> ds_tenant_id s = ds_tenant_id x \<and> ds_route s = ds_route x"

fun ref_ok :: "datetime \<Rightarrow> (datetime \<Rightarrow> string option) \<Rightarrow> data_source \<Rightarrow> ref_pc \<Rightarrow> bool" where
  "ref_ok clk w x R_Idle = True"
| "ref_ok clk w x (R_Listed s) = same_source x s"
| "ref_ok clk w x (R_Checked s e) = (same_source x s \<and> ds_route s = CAG_WITH_RAG_BACKUP)"
| "ref_ok clk w x (R_Read s e c) = (same_source x s \<and> ds_route s = CAG_WITH_RAG_BACKUP)"
| "ref_ok clk w x (R_Preloaded s e) =
     (same_source x s \<and> ds_route s = CAG_WITH_RAG_BACKUP \<and> (\<forall>n \<ge> clk. w n \<in> {None, Some (ds_content_hash s)}))"
| "ref_ok clk w x (R_Unrecorded s) = same_source x s"

definition job_ok :: "(string \<Rightarrow> uuid) \<Rightarrow> uuid \<Rightarrow> data_source option \<Rightarrow> ingest_job \<Rightarrow> bool" where
  "job_ok h i xo j \<longleftrightarrow> ds_id (ij_source j) = i \<and>
     (case xo of
        None \<Rightarrow> \<not> ij_exists j \<and>
          ds_id (ij_source j) = source_id_for h (ds_tenant_id (ij_source j)) (ds_source_key (ij_source j)) (ds_user_id (ij_source j))
      | Some x \<Rightarrow> ij_exists j \<and> same_source x (ij_source j) \<and> (\<not> ij_reapply j \<longrightarrow> ds_content_hash (ij_source j) = ds_content_hash x))"

definition marked_ok :: "data_source option \<Rightarrow> ingest_job \<Rightarrow> bool" where
  "marked_ok xo j \<longleftrightarrow> (\<forall>x. xo = Some x \<and> ij_reapply j \<longrightarrow> ds_pending_hash x \<noteq> None)"

fun ing_ok :: "(string \<Rightarrow> uuid) \<Rightarrow> uuid \<Rightarrow> datetime \<Rightarrow> (datetime \<Rightarrow> uuid \<Rightarrow> string option) \<Rightarrow> bool \<Rightarrow> data_source option \<Rightarrow> ing_pc \<Rightarrow> bool" where
  "ing_ok h i clk W hand xo I_Idle = True"
| "ing_ok h i clk W hand xo (I_Planned j) = job_ok h i xo j"
| "ing_ok h i clk W hand xo (I_Marked j) = (job_ok h i xo j \<and> marked_ok xo j)"
| "ing_ok h i clk W hand xo (I_Stored j) = (job_ok h i xo j \<and> marked_ok xo j)"
| "ing_ok h i clk W hand xo (I_Cached j cu) = (job_ok h i xo j \<and> marked_ok xo j \<and>
     (\<forall>x. xo = Some x \<and> ij_reapply j \<and> \<not> hand \<longrightarrow> (\<forall>n \<ge> clk. W n (ds_tenant_id x) = None)))"

definition copy_ok :: "datetime \<Rightarrow> (datetime \<Rightarrow> uuid \<Rightarrow> string option) \<Rightarrow> uuid \<Rightarrow> data_source option \<Rightarrow> ref_pc \<Rightarrow> bool" where
  "copy_ok clk W i xo rp \<longleftrightarrow>
     (case xo of
        None \<Rightarrow> rp = R_Idle \<and> (\<forall>n \<ge> clk. \<forall>t. W n t = None)
      | Some x \<Rightarrow> ds_id x = i \<and> (\<forall>n \<ge> clk. \<forall>t. t \<noteq> ds_tenant_id x \<longrightarrow> W n t = None) \<and>
          (in_hand rp \<or> (\<forall>n \<ge> clk. W n (ds_tenant_id x) \<noteq> None \<longrightarrow>
             W n (ds_tenant_id x) = Some (ds_content_hash x) \<and> ds_route x = CAG_WITH_RAG_BACKUP)) \<and>
          ref_ok clk (\<lambda>n. W n (ds_tenant_id x)) x rp)"

definition source_ok :: "(string \<Rightarrow> uuid) \<Rightarrow> datetime \<Rightarrow> (datetime \<Rightarrow> uuid \<Rightarrow> string option) \<Rightarrow> uuid \<Rightarrow> data_source option \<Rightarrow>
    ing_pc \<Rightarrow> ref_pc \<Rightarrow> bool" where
  "source_ok h clk W i xo ip rp \<longleftrightarrow> copy_ok clk W i xo rp \<and> ing_ok h i clk W (in_hand rp) xo ip"

text \<open>The invariant only bounds what the cache shows, so it survives whatever removes entries and the passing of time.\<close>

definition shrinks :: "datetime \<Rightarrow> (datetime \<Rightarrow> uuid \<Rightarrow> string option) \<Rightarrow> (datetime \<Rightarrow> uuid \<Rightarrow> string option) \<Rightarrow> bool" where
  "shrinks clk W W' \<longleftrightarrow> (\<forall>n \<ge> clk. \<forall>t. W' n t = None \<or> (\<exists>k \<ge> clk. W' n t = W k t))"

lemma shrinks_same: "(\<And>n t. clk \<le> n \<Longrightarrow> W' n t = W n t) \<Longrightarrow> shrinks clk W W'"
  by (auto simp: shrinks_def)

lemma shrinks_None: "shrinks clk W W' \<Longrightarrow> clk \<le> clk' \<Longrightarrow> (\<forall>n \<ge> clk. W n t = None) \<Longrightarrow> clk' \<le> n \<Longrightarrow> W' n t = None"
  unfolding shrinks_def by (metis order_trans)

lemma shrinks_mem:
  "shrinks clk W W' \<Longrightarrow> clk \<le> clk' \<Longrightarrow> (\<forall>n \<ge> clk. W n t \<in> {None, v}) \<Longrightarrow> clk' \<le> n \<Longrightarrow> W' n t \<in> {None, v}"
  unfolding shrinks_def by (metis insertI1 order_trans)

lemma ref_ok_shrink:
  assumes "ref_ok clk (\<lambda>n. W n t) x rp" "shrinks clk W W'" "clk \<le> clk'"
  shows "ref_ok clk' (\<lambda>n. W' n t) x rp"
  using assms(1) shrinks_mem [OF assms(2,3)] by (cases rp) auto

lemma copy_ok_shrink:
  assumes "copy_ok clk W i xo rp" "shrinks clk W W'" "clk \<le> clk'"
  shows "copy_ok clk' W' i xo rp"
proof (cases xo)
  case None
  with assms(1) shrinks_None [OF assms(2,3)] show ?thesis by (auto simp: copy_ok_def)
next
  case (Some x)
  let ?t = "ds_tenant_id x"
  have o: "W' n t = None" if "clk' \<le> n" "t \<noteq> ?t" for n t
    using shrinks_None [OF assms(2,3), of t n] assms(1) Some that by (simp add: copy_ok_def)
  have c: "in_hand rp \<or> (\<forall>n \<ge> clk'. W' n ?t \<noteq> None \<longrightarrow> W' n ?t = Some (ds_content_hash x) \<and> ds_route x = CAG_WITH_RAG_BACKUP)"
  proof (cases "in_hand rp")
    case False
    then have a: "\<forall>n \<ge> clk. W n ?t \<noteq> None \<longrightarrow> W n ?t = Some (ds_content_hash x) \<and> ds_route x = CAG_WITH_RAG_BACKUP"
      using assms(1) Some by (simp add: copy_ok_def)
    have "W' n ?t = Some (ds_content_hash x) \<and> ds_route x = CAG_WITH_RAG_BACKUP" if "clk' \<le> n" "W' n ?t \<noteq> None" for n
    proof -
      from assms(2,3) that obtain k where "clk \<le> k" "W' n ?t = W k ?t" unfolding shrinks_def by (meson order_trans)
      with a that(2) show ?thesis by metis
    qed
    then show ?thesis by blast
  qed simp
  have "ref_ok clk (\<lambda>n. W n ?t) x rp" using assms(1) Some by (simp add: copy_ok_def)
  from ref_ok_shrink [OF this assms(2,3)] assms(1) Some o c show ?thesis by (simp add: copy_ok_def)
qed

lemma ing_ok_shrink:
  assumes "ing_ok h i clk W hand xo ip" "shrinks clk W W'" "clk \<le> clk'"
  shows "ing_ok h i clk' W' hand xo ip"
  using assms(1) shrinks_None [OF assms(2,3)] by (cases ip) auto

lemma source_ok_shrink:
  "source_ok h clk W i xo ip rp \<Longrightarrow> shrinks clk W W' \<Longrightarrow> clk \<le> clk' \<Longrightarrow> source_ok h clk' W' i xo ip rp"
  unfolding source_ok_def using copy_ok_shrink ing_ok_shrink by blast

lemma ref_ok_same_source:
  "same_source x x' \<Longrightarrow> ref_ok clk w x rp \<Longrightarrow> ref_ok clk w x' rp"
  by (cases rp) (auto simp: same_source_def)

lemma copy_ok_same:
  assumes "copy_ok clk W i (Some x) rp" "same_source x x'" "ds_content_hash x' = ds_content_hash x"
  shows "copy_ok clk W i (Some x') rp"
  using assms(1,3) ref_ok_same_source [OF assms(2)] assms(2) by (auto simp: copy_ok_def same_source_def)

definition machine_ok :: "(datetime \<Rightarrow> 'c \<Rightarrow> doc_key \<Rightarrow> string option) \<Rightarrow> (string \<Rightarrow> uuid) \<Rightarrow> ('r, 'm, 'c) machine \<Rightarrow> bool" where
  "machine_ok view h m \<longleftrightarrow> repo_ok h (mc_repo m) \<and>
     (\<forall>i. source_ok h (mc_clock m) (\<lambda>n t. view n (fs_cache (mc_state m)) (t, i)) i (row (mc_repo m) i) (mc_ing m i) (mc_ref m i))"

lemma machine_ok_change:
  assumes "machine_ok view h m" "mc_clock m' = mc_clock m" "repo_ok h (mc_repo m')"
    and "\<And>j. j \<noteq> i \<Longrightarrow> row (mc_repo m') j = row (mc_repo m) j \<and> mc_ing m' j = mc_ing m j \<and> mc_ref m' j = mc_ref m j"
    and "\<And>j n t. j \<noteq> i \<Longrightarrow> mc_clock m \<le> n \<Longrightarrow> view n (fs_cache (mc_state m')) (t, j) = view n (fs_cache (mc_state m)) (t, j)"
    and "source_ok h (mc_clock m) (\<lambda>n t. view n (fs_cache (mc_state m')) (t, i)) i (row (mc_repo m') i) (mc_ing m' i) (mc_ref m' i)"
  shows "machine_ok view h m'"
proof -
  have "source_ok h (mc_clock m') (\<lambda>n t. view n (fs_cache (mc_state m')) (t, j)) j (row (mc_repo m') j) (mc_ing m' j) (mc_ref m' j)" for j
  proof (cases "j = i")
    case False
    have "source_ok h (mc_clock m) (\<lambda>n t. view n (fs_cache (mc_state m)) (t, j)) j (row (mc_repo m) j) (mc_ing m j) (mc_ref m j)"
      using assms(1) by (simp add: machine_ok_def)
    moreover have "shrinks (mc_clock m) (\<lambda>n t. view n (fs_cache (mc_state m)) (t, j)) (\<lambda>n t. view n (fs_cache (mc_state m')) (t, j))"
      using assms(5) [OF False] by (rule shrinks_same)
    ultimately have "source_ok h (mc_clock m) (\<lambda>n t. view n (fs_cache (mc_state m')) (t, j)) j (row (mc_repo m) j) (mc_ing m j) (mc_ref m j)"
      by (rule source_ok_shrink) simp
    with assms(2) assms(4) [OF False] show ?thesis by simp
  qed (use assms(2,6) in simp)
  with assms(3) show ?thesis by (simp add: machine_ok_def)
qed

lemma machine_ok_at:
  "machine_ok view h m \<Longrightarrow>
     source_ok h (mc_clock m) (\<lambda>n t. view n (fs_cache (mc_state m)) (t, i)) i (row (mc_repo m) i) (mc_ing m i) (mc_ref m i)"
  by (simp add: machine_ok_def)

lemma machine_ok_pcs:
  assumes "machine_ok view h m"
    and "source_ok h (mc_clock m) (\<lambda>n t. view n (fs_cache (mc_state m)) (t, i)) i (row (mc_repo m) i) ip rp"
  shows "machine_ok view h (m\<lparr>mc_ing := (mc_ing m)(i := ip), mc_ref := (mc_ref m)(i := rp)\<rparr>)"
  using assms(1) by (rule machine_ok_change [of _ _ _ _ i]) (use assms in \<open>simp_all add: machine_ok_def\<close>)

subsection \<open>Every step preserves it\<close>

lemma plan_job_ok:
  assumes "inj h" "pt_uuid5 pt = h" "repo_ok h r" "plan_ingest pt cfg r t profile c now u = Inr j"
  shows "job_ok h (ds_id (ij_source j)) (row r (ds_id (ij_source j))) j"
proof (cases "source_get r t (dp_source_key profile) u")
  case None
  then obtain s where s: "new_source pt cfg t profile (content_hash (pt_sha256 pt) c) now u = Inr s" and j: "ij_source j = s" "\<not> ij_exists j"
    using assms(4) by (auto simp: plan_ingest_def Let_def split: if_splits sum.splits)
  have i: "ds_id s = source_id_for h t (dp_source_key profile) u" "ds_tenant_id s = t" "ds_source_key s = dp_source_key profile" "ds_user_id s = u"
    using s assms(2) by (auto simp: new_source_def Let_def split: if_splits)
  have "row r (ds_id s) = None"
  proof (rule ccontr)
    assume "row r (ds_id s) \<noteq> None"
    then obtain x where x: "x \<in> set (dr_sources r)" "ds_id x = ds_id s" by (auto simp: row_None)
    with assms(3) have "source_id_for h (ds_tenant_id x) (ds_source_key x) (ds_user_id x) = source_id_for h t (dp_source_key profile) u"
      using i(1) by (simp add: repo_ok_def)
    with source_name_inj assms(1) have "ds_tenant_id x = t \<and> ds_source_key x = dp_source_key profile \<and> ds_user_id x = u"
      by (simp add: source_id_for_def inj_eq)
    with source_get_None [OF None x(1)] show False by blast
  qed
  with j i show ?thesis by (simp add: job_ok_def)
next
  case (Some x)
  then have j: "ij_exists j" "ds_id (ij_source j) = ds_id x" "same_source x (ij_source j)"
    "\<not> ij_reapply j \<longrightarrow> ds_content_hash (ij_source j) = ds_content_hash x"
    using assms(4) by (auto simp: plan_ingest_def Let_def same_source_def split: if_splits)
  have "row r (ds_id x) = Some x" using source_get_Some [OF Some] row_Some [OF assms(3)] by simp
  with j show ?thesis by (simp add: job_ok_def)
qed

lemma step_mark:
  assumes "machine_ok view h m" "mc_ing m i = I_Planned j"
  shows "machine_ok view h ((with_repo m (ingest_mark j (mc_repo m)))\<lparr>mc_ing := (mc_ing m)(i := I_Marked j)\<rparr>)" (is "machine_ok _ _ ?m")
proof -
  note so = machine_ok_at [OF assms(1), of i, unfolded source_ok_def assms(2)]
  have rok: "repo_ok h (mc_repo m)" using assms(1) by (simp add: machine_ok_def)
  have jo: "job_ok h i (row (mc_repo m) i) j" using so by simp
  show ?thesis
  proof (cases "ij_exists j \<and> ij_reapply j")
    case True
    then obtain x where x: "row (mc_repo m) i = Some x" "same_source x (ij_source j)" "ds_id (ij_source j) = i"
      using jo by (auto simp: job_ok_def split: option.splits)
    let ?x = "x\<lparr>ds_pending_hash := Some (ds_content_hash (ij_source j))\<rparr>"
    have mk: "repo_ok h (ingest_mark j (mc_repo m))"
      "row (ingest_mark j (mc_repo m)) k = (if k = i then Some ?x else row (mc_repo m) k)" for k
      using mark_row [OF rok, of "ij_source j" x "ds_content_hash (ij_source j)"] x True
      by (simp_all add: ingest_mark_def same_source_def)
    have ss: "same_source x ?x" by (simp add: same_source_def)
    have "copy_ok (mc_clock m) (\<lambda>n t. view n (fs_cache (mc_state m)) (t, i)) i (Some ?x) (mc_ref m i)"
      using so x(1) by (intro copy_ok_same [OF _ ss]) simp_all
    moreover have "job_ok h i (Some ?x) j" using jo x(1) by (simp add: job_ok_def same_source_def)
    ultimately show ?thesis
      by (intro machine_ok_change [OF assms(1), of _ i]) (simp_all add: mk source_ok_def marked_ok_def)
  next
    case False
    then have e: "ingest_mark j (mc_repo m) = mc_repo m" by (auto simp: ingest_mark_def)
    have "marked_ok (row (mc_repo m) i) j" using False jo by (auto simp: marked_ok_def job_ok_def)
    with so jo have "source_ok h (mc_clock m) (\<lambda>n t. view n (fs_cache (mc_state m)) (t, i)) i (row (mc_repo m) i) (I_Marked j) (mc_ref m i)"
      by (simp add: source_ok_def)
    then show ?thesis using rok by (intro machine_ok_change [OF assms(1), of _ i]) (simp_all add: e)
  qed
qed

lemma step_save:
  assumes "machine_ok view h m" "mc_ing m i = I_Cached j cu" "ingest_save j cu (mc_repo m) = (res, r)"
  shows "machine_ok view h ((with_repo m r)\<lparr>mc_ing := (mc_ing m)(i := I_Idle)\<rparr>)"
proof -
  note so = machine_ok_at [OF assms(1), of i, unfolded source_ok_def assms(2)]
  have rok: "repo_ok h (mc_repo m)" using assms(1) by (simp add: machine_ok_def)
  let ?s = "(ij_source j)\<lparr>ds_cached_until := cu\<rparr>"
  from assms(3) obtain v where sv: "source_save (mc_repo m) ?s v = (res, r)" unfolding ingest_save_def by blast
  have jo: "job_ok h i (row (mc_repo m) i) j" using so by simp
  show ?thesis
  proof (cases "row (mc_repo m) i")
    case (Some x)
    let ?x = "save_columns ?s x"
    have jx: "ds_id (ij_source j) = i" "same_source x (ij_source j)" "\<not> ij_reapply j \<longrightarrow> ds_content_hash (ij_source j) = ds_content_hash x"
      using jo Some by (simp_all add: job_ok_def)
    have r: "repo_ok h r" "row r k = (if k = i then Some ?x else row (mc_repo m) k)" for k
      using save_row_update [OF rok, of ?s x v res r] Some jx sv by (simp_all add: same_source_def)
    have sx: "same_source x ?x" by (simp add: same_source_def)
    have cx: "copy_ok (mc_clock m) (\<lambda>n t. view n (fs_cache (mc_state m)) (t, i)) i (Some x) (mc_ref m i)"
      using so Some by simp
    have "copy_ok (mc_clock m) (\<lambda>n t. view n (fs_cache (mc_state m)) (t, i)) i (Some ?x) (mc_ref m i)"
    proof (cases "ij_reapply j")
      case False
      with jx(3) have "ds_content_hash ?x = ds_content_hash x" by simp
      with cx sx show ?thesis by (rule copy_ok_same)
    next
      case True
      have "in_hand (mc_ref m i) \<or> (\<forall>n \<ge> mc_clock m. view n (fs_cache (mc_state m)) (ds_tenant_id x, i) = None)"
        using so Some True by auto
      moreover have "ref_ok (mc_clock m) (\<lambda>n. view n (fs_cache (mc_state m)) (ds_tenant_id x, i)) ?x (mc_ref m i)"
        using cx by (intro ref_ok_same_source [OF sx]) (simp add: copy_ok_def)
      ultimately show ?thesis using cx by (auto simp: copy_ok_def)
    qed
    then show ?thesis by (intro machine_ok_change [OF assms(1), of _ i]) (simp_all add: r source_ok_def)
  next
    case None
    have id: "ds_id ?s = i" "ds_id ?s = source_id_for h (ds_tenant_id ?s) (ds_source_key ?s) (ds_user_id ?s)"
      using jo None by (simp_all add: job_ok_def)
    have r: "repo_ok h r" "row r k = row (mc_repo m) k \<or> k = i \<and> row r k = Some ?s" for k
      using save_row_insert [OF rok _ sv id(2)] None id(1) by simp_all
    have "copy_ok (mc_clock m) (\<lambda>n t. view n (fs_cache (mc_state m)) (t, i)) i (row r i) (mc_ref m i)"
      using so None r(2) [of i] id(1) by (auto simp: copy_ok_def)
    moreover have "row r k = row (mc_repo m) k" if "k \<noteq> i" for k using r(2) [of k] that by simp
    ultimately show ?thesis by (intro machine_ok_change [OF assms(1), of _ i]) (simp_all add: r(1) source_ok_def)
  qed
qed

lemma step_record:
  assumes "machine_ok view h m" "mc_ref m i = R_Preloaded s e" "refresh_record s e (mc_repo m) = (ok, r)"
  shows "machine_ok view h ((with_repo m r)\<lparr>mc_ref := (mc_ref m)(i := if ok then R_Idle else R_Unrecorded s)\<rparr>)"
proof -
  note so = machine_ok_at [OF assms(1), of i, unfolded source_ok_def assms(2)]
  have rok: "repo_ok h (mc_repo m)" using assms(1) by (simp add: machine_ok_def)
  obtain x where x: "row (mc_repo m) i = Some x" using so by (auto simp: copy_ok_def split: option.splits)
  let ?f = "\<lambda>y. y\<lparr>ds_cached_until := e\<rparr>" and ?u = "unchanged (ds_tenant_id s) (ds_id s) (ds_content_hash s)"
  let ?W = "\<lambda>n t. view n (fs_cache (mc_state m)) (t, i)"
  have xs: "same_source x s" "ds_id x = i" using so x by (simp_all add: copy_ok_def)
  have cu: "conditional_update ?f (mc_repo m) (ds_tenant_id s) (ds_id s) (ds_content_hash s) = (ok, r)"
    using assms(3) by (simp add: refresh_record_def record_cached_until_def)
  have kf: "keeps_identity ?f" by (simp add: keeps_identity_def)
  note c = conditional_update_row [OF rok kf cu]
  let ?x = "if ?u x then ?f x else x"
  have ri: "row r i = Some ?x" using c(2) [of i] x by simp
  have rk: "row r k = row (mc_repo m) k" if "k \<noteq> i" for k
    using c(2) [of k] that row_id [of "mc_repo m" k] xs by (cases "row (mc_repo m) k") (auto simp: unchanged_def same_source_def)
  have sx: "same_source x ?x" "ds_content_hash ?x = ds_content_hash x" "ds_pending_hash ?x = ds_pending_hash x"
    by (simp_all add: same_source_def)
  let ?rp = "if ok then R_Idle else R_Unrecorded s"
  have ok: "ok \<longleftrightarrow> ?u x" using c(3) x xs by (simp add: same_source_def)
  have "copy_ok (mc_clock m) ?W i (Some ?x) ?rp"
  proof (cases ok)
    case True
    then have "ds_content_hash x = ds_content_hash s" using ok by (simp add: unchanged_def)
    with so x xs have "copy_ok (mc_clock m) ?W i (Some x) R_Idle" by (auto simp: copy_ok_def same_source_def)
    from copy_ok_same [OF this sx(1,2)] True show ?thesis by simp
  next
    case False
    with so x xs have "copy_ok (mc_clock m) ?W i (Some x) (R_Unrecorded s)" by (simp add: copy_ok_def)
    from copy_ok_same [OF this sx(1,2)] False show ?thesis by simp
  qed
  moreover have "ing_ok h i (mc_clock m) ?W (in_hand ?rp) (Some ?x) (mc_ing m i)"
  proof -
    have jo: "job_ok h i (Some ?x) j = job_ok h i (Some x) j" for j using sx by (simp add: job_ok_def same_source_def)
    have mo: "marked_ok (Some ?x) j = marked_ok (Some x) j" for j using sx(3) by (simp add: marked_ok_def)
    have np: "ok \<Longrightarrow> ds_pending_hash x = None" using ok by (simp add: unchanged_def)
    have "ing_ok h i (mc_clock m) ?W True (Some x) (mc_ing m i)" using so x by simp
    then show ?thesis
      by (cases "mc_ing m i") (use np in \<open>auto simp: jo mo simp del: if_split_asm simp: marked_ok_def\<close>)
  qed
  ultimately show ?thesis
    by (intro machine_ok_change [OF assms(1), of _ i]) (simp_all add: c(1) ri rk source_ok_def del: if_split)
qed

lemma machine_ok_cache:
  \<comment> \<open>a step at the cache entry of one source\<close>
  assumes "machine_ok view h m" "fs_repo st = mc_repo m"
    and "\<And>j n t. j \<noteq> i \<Longrightarrow> mc_clock m \<le> n \<Longrightarrow> view n (fs_cache st) (t, j) = view n (fs_cache (mc_state m)) (t, j)"
    and "source_ok h (mc_clock m) (\<lambda>n t. view n (fs_cache st) (t, i)) i (row (mc_repo m) i) ip rp"
  shows "machine_ok view h (m\<lparr>mc_state := st, mc_ing := (mc_ing m)(i := ip), mc_ref := (mc_ref m)(i := rp)\<rparr>)"
  using assms(1) by (rule machine_ok_change [of _ _ _ _ i]) (use assms in \<open>simp_all add: machine_ok_def\<close>)

lemma machine_fun_upd [simp]:
  "m\<lparr>mc_state := st, mc_ing := f, mc_ref := (mc_ref m)(i := mc_ref m i)\<rparr> = m\<lparr>mc_state := st, mc_ing := f\<rparr>"
  "m\<lparr>mc_state := st, mc_ing := (mc_ing m)(i := mc_ing m i), mc_ref := g\<rparr> = m\<lparr>mc_state := st, mc_ref := g\<rparr>"
  "m\<lparr>mc_ing := f, mc_ref := (mc_ref m)(i := mc_ref m i)\<rparr> = m\<lparr>mc_ing := f\<rparr>"
  "m\<lparr>mc_ing := (mc_ing m)(i := mc_ing m i), mc_ref := g\<rparr> = m\<lparr>mc_ref := g\<rparr>"
  by (simp_all only: fun_upd_triv) (cases m; simp)+

locale fresh_cache = expiring_cache ops view hash
  for ops :: "('c, 'kv) expiring_cache_ops" and view and hash
begin

lemma step_drop:
  assumes "machine_ok view h m" "pt_cache pt = ops" "mc_ref m i = R_Unrecorded s"
  shows "machine_ok view h (m\<lparr>mc_state := drop_copy pt (mc_clock m) s (mc_state m), mc_ref := (mc_ref m)(i := R_Idle)\<rparr>)"
proof -
  note so = machine_ok_at [OF assms(1), of i, unfolded source_ok_def assms(3)]
  obtain x where x: "row (mc_repo m) i = Some x" "same_source x s" "ds_id x = i"
    using so by (auto simp: copy_ok_def split: option.splits)
  let ?st = "drop_copy pt (mc_clock m) s (mc_state m)"
  have v: "view n (fs_cache ?st) = (view n (fs_cache (mc_state m)))((ds_tenant_id x, i) := None)" if "mc_clock m \<le> n" for n
    using evict_view [OF that] x assms(2) by (simp add: drop_copy_def same_source_def)
  have "source_ok h (mc_clock m) (\<lambda>n t. view n (fs_cache ?st) (t, i)) i (row (mc_repo m) i) (mc_ing m i) R_Idle"
  proof -
    have "copy_ok (mc_clock m) (\<lambda>n t. view n (fs_cache ?st) (t, i)) i (Some x) R_Idle"
      using so x v by (auto simp: copy_ok_def)
    moreover have "ing_ok h i (mc_clock m) (\<lambda>n t. view n (fs_cache ?st) (t, i)) False (Some x) (mc_ing m i)"
      using so x v by (cases "mc_ing m i") auto
    ultimately show ?thesis using x by (simp add: source_ok_def)
  qed
  then have "machine_ok view h (m\<lparr>mc_state := ?st, mc_ing := (mc_ing m)(i := mc_ing m i), mc_ref := (mc_ref m)(i := R_Idle)\<rparr>)"
    by (intro machine_ok_cache [OF assms(1)]) (simp_all add: v, simp add: drop_copy_def)
  then show ?thesis by simp
qed

lemma step_preload:
  assumes "machine_ok view h m" "pt_cache pt = ops" "pt_sha256 pt = hash" "mc_ref m i = R_Read s e x"
    and "refresh_preload pt (mc_clock m) s e x (mc_state m) = (go, st)"
  shows "machine_ok view h (m\<lparr>mc_state := st, mc_ref := (mc_ref m)(i := if go then R_Preloaded s e else R_Idle)\<rparr>)"
proof (cases go)
  case False
  then have st: "st = mc_state m" using assms(5) by (auto simp: refresh_preload_def split: option.splits if_splits)
  have "source_ok h (mc_clock m) (\<lambda>n t. view n (fs_cache (mc_state m)) (t, i)) i (row (mc_repo m) i) (mc_ing m i) R_Idle"
    using machine_ok_at [OF assms(1), of i] assms(4) by (auto simp: source_ok_def copy_ok_def split: option.splits)
  from machine_ok_pcs [OF assms(1) this] False st show ?thesis by simp
next
  case True
  note so = machine_ok_at [OF assms(1), of i, unfolded source_ok_def assms(4)]
  obtain y where y: "row (mc_repo m) i = Some y" "same_source y s" "ds_id y = i" "ds_route s = CAG_WITH_RAG_BACKUP"
    using so by (auto simp: copy_ok_def split: option.splits)
  obtain c where c: "x = Some c" "hash c = ds_content_hash s"
      "fs_cache st = ec_preload_until ops (mc_clock m) (fs_cache (mc_state m)) (ds_tenant_id s) (ds_id s) c e" "fs_repo st = mc_repo m"
    using assms(2,3,5) True by (auto simp: refresh_preload_def content_hash_def split: option.splits if_splits)
  have own: "view n (fs_cache st) (ds_tenant_id y, i) \<in> {None, Some (ds_content_hash s)}" if "mc_clock m \<le> n" for n
    using until_own [OF that, of "fs_cache (mc_state m)" "ds_tenant_id s" "ds_id s" c e] y(2,3) c by (auto simp: same_source_def split: if_splits)
  have oth: "view n (fs_cache st) k = view n (fs_cache (mc_state m)) k" if "mc_clock m \<le> n" "k \<noteq> (ds_tenant_id y, i)" for n k
    using until_frame [OF that(1)] that(2) y(2,3) c(3) by (simp add: same_source_def)
  have "source_ok h (mc_clock m) (\<lambda>n t. view n (fs_cache st) (t, i)) i (row (mc_repo m) i) (mc_ing m i) (R_Preloaded s e)"
  proof -
    have "copy_ok (mc_clock m) (\<lambda>n t. view n (fs_cache st) (t, i)) i (Some y) (R_Preloaded s e)"
      using so y own oth by (auto simp: copy_ok_def)
    moreover have "ing_ok h i (mc_clock m) (\<lambda>n t. view n (fs_cache st) (t, i)) True (Some y) (mc_ing m i)"
      using so y by (cases "mc_ing m i") auto
    ultimately show ?thesis using y by (simp add: source_ok_def)
  qed
  then have "machine_ok view h (m\<lparr>mc_state := st, mc_ing := (mc_ing m)(i := mc_ing m i), mc_ref := (mc_ref m)(i := R_Preloaded s e)\<rparr>)"
    by (intro machine_ok_cache [OF assms(1) c(4)]) (simp_all add: oth)
  with True show ?thesis by simp
qed

lemma step_cache:
  assumes "machine_ok view h m" "pt_cache pt = ops" "mc_ing m i = I_Stored j"
    and "apply_cache pt policy (mc_clock m) j (mc_state m) = (cu, st)"
  shows "machine_ok view h (m\<lparr>mc_state := st, mc_ing := (mc_ing m)(i := I_Cached j cu)\<rparr>)"
proof -
  note so = machine_ok_at [OF assms(1), of i, unfolded source_ok_def assms(3)]
  let ?s = "ij_source j" and ?c = "fs_cache (mc_state m)" and ?xo = "row (mc_repo m) i"
  have id: "ds_id ?s = i" using so by (simp add: job_ok_def)
  have rep: "fs_repo st = mc_repo m"
    using assms(4) by (auto simp: apply_cache_def drop_copy_def Let_def split: if_splits prod.splits)
  have oth: "view n (fs_cache st) k = view n ?c k" if "mc_clock m \<le> n" "k \<noteq> (ds_tenant_id ?s, i)" for n k
    using assms(2,4) id that evict_view [OF that(1)] renew_frame [OF that(1), of k "ds_tenant_id ?s" i ?c]
    by (auto simp: apply_cache_def drop_copy_def Let_def split: if_splits prod.splits) (metis snd_conv)+
  have own: "view n (fs_cache st) (ds_tenant_id ?s, i) = None \<or> (\<exists>k \<ge> mc_clock m. view n (fs_cache st) (ds_tenant_id ?s, i) = view k ?c (ds_tenant_id ?s, i))"
    if "mc_clock m \<le> n" for n
  proof (cases "ds_route ?s \<noteq> CAG_WITH_RAG_BACKUP \<or> ij_reapply j")
    case True
    with assms(2,4) id that evict_view [OF that] show ?thesis
      by (auto simp: apply_cache_def drop_copy_def Let_def split: if_splits)
  next
    case False
    then obtain e b where r: "ec_renew ops (mc_clock m) ?c (ds_tenant_id ?s) i e = (b, fs_cache st)"
      using assms(2,4) id by (auto simp: apply_cache_def Let_def split: prod.splits)
    show ?thesis
      using renew_view [OF that, of ?c "ds_tenant_id ?s" i e] renew_frame [OF that, of "(ds_tenant_id ?s, i)" "ds_tenant_id ?s" i ?c e] r that
      by (cases "view (mc_clock m) ?c (ds_tenant_id ?s, i) = None") (auto split: if_splits)
  qed
  have sh: "shrinks (mc_clock m) (\<lambda>n t. view n ?c (t, i)) (\<lambda>n t. view n (fs_cache st) (t, i))"
    unfolding shrinks_def
  proof (intro allI impI)
    fix n t assume n: "mc_clock m \<le> n"
    show "view n (fs_cache st) (t, i) = None \<or> (\<exists>k \<ge> mc_clock m. view n (fs_cache st) (t, i) = view k ?c (t, i))"
      using own [OF n] oth [OF n, of "(t, i)"] n by (cases "t = ds_tenant_id ?s") auto
  qed
  have "copy_ok (mc_clock m) (\<lambda>n t. view n (fs_cache st) (t, i)) i ?xo (mc_ref m i)"
    using so by (intro copy_ok_shrink [OF _ sh]) simp_all
  moreover have "view n (fs_cache st) (ds_tenant_id x, i) = None"
    if "?xo = Some x" "ij_reapply j" "\<not> in_hand (mc_ref m i)" "mc_clock m \<le> n" for x n
  proof (cases "ds_route ?s = CAG_WITH_RAG_BACKUP")
    case True
    have "ds_tenant_id x = ds_tenant_id ?s" using so that(1) by (simp add: job_ok_def same_source_def)
    with True that assms(2,4) id evict_view [OF that(4)] show ?thesis
      by (auto simp: apply_cache_def drop_copy_def Let_def)
  next
    case False
    then have st: "st = mc_state m" using assms(4) by (simp add: apply_cache_def Let_def)
    have "ds_route x \<noteq> CAG_WITH_RAG_BACKUP" using so that(1) False by (simp add: job_ok_def same_source_def)
    then show ?thesis using so that st by (auto simp: copy_ok_def)
  qed
  ultimately have "source_ok h (mc_clock m) (\<lambda>n t. view n (fs_cache st) (t, i)) i ?xo (I_Cached j cu) (mc_ref m i)"
    using so by (simp add: source_ok_def)
  then have "machine_ok view h (m\<lparr>mc_state := st, mc_ing := (mc_ing m)(i := I_Cached j cu), mc_ref := (mc_ref m)(i := mc_ref m i)\<rparr>)"
    by (intro machine_ok_cache [OF assms(1) rep]) (simp_all add: oth)
  then show ?thesis by simp
qed

lemma step_same_view:
  assumes "machine_ok view h m" "fs_repo st = mc_repo m"
    and "\<And>n. mc_clock m \<le> n \<Longrightarrow> view n (fs_cache st) = view n (fs_cache (mc_state m))"
    and "source_ok h (mc_clock m) (\<lambda>n t. view n (fs_cache (mc_state m)) (t, i)) i (row (mc_repo m) i) ip rp"
  shows "machine_ok view h (m\<lparr>mc_state := st, mc_ing := (mc_ing m)(i := ip), mc_ref := (mc_ref m)(i := rp)\<rparr>)"
proof (rule machine_ok_cache [OF assms(1,2)])
  show "source_ok h (mc_clock m) (\<lambda>n t. view n (fs_cache st) (t, i)) i (row (mc_repo m) i) ip rp"
    using assms(4) by (rule source_ok_shrink [OF _ shrinks_same]) (simp_all add: assms(3))
qed (simp add: assms(3))

lemma step_check:
  assumes "machine_ok view h m" "pt_cache pt = ops" "mc_ref m i = R_Listed s"
    and "refresh_check pt policy (mc_clock m) s now (mc_state m) = (e, st)"
  shows "machine_ok view h (m\<lparr>mc_state := st, mc_ref := (mc_ref m)(i := case e of None \<Rightarrow> R_Idle | Some x \<Rightarrow> R_Checked s x)\<rparr>)"
proof -
  note so = machine_ok_at [OF assms(1), of i, unfolded source_ok_def assms(3)]
  have r: "fs_repo st = mc_repo m" "e \<noteq> None \<Longrightarrow> ds_route s = CAG_WITH_RAG_BACKUP"
    using assms(4) by (auto simp: refresh_check_def Let_def split: if_splits prod.splits)
  have v: "view n (fs_cache st) = view n (fs_cache (mc_state m))" if "mc_clock m \<le> n" for n
    using assms(2,4) contains_frame [OF that, of "fs_cache (mc_state m)" "ds_tenant_id s" "ds_id s"]
    by (auto simp: refresh_check_def Let_def split: if_splits prod.splits)
  have "source_ok h (mc_clock m) (\<lambda>n t. view n (fs_cache (mc_state m)) (t, i)) i (row (mc_repo m) i) (mc_ing m i)
      (case e of None \<Rightarrow> R_Idle | Some x \<Rightarrow> R_Checked s x)"
    using so r(2) by (cases e) (auto simp: source_ok_def copy_ok_def split: option.splits)
  from step_same_view [OF assms(1) r(1) v this] show ?thesis by simp
qed

lemma step_ok:
  assumes "machine_ok view h m" "pt_cache pt = ops" "pt_sha256 pt = hash" "pt_uuid5 pt = h" "inj h" "fresh_step pt cfg m m'"
  shows "machine_ok view h m'"
  using assms(6)
proof (cases rule: fresh_step.cases)
  case (tick n)
  have "source_ok h n (\<lambda>n t. view n (fs_cache (mc_state m)) (t, i)) i (row (mc_repo m) i) (mc_ing m i) (mc_ref m i)" for i
    by (rule source_ok_shrink [OF machine_ok_at [OF assms(1)] shrinks_same]) (simp_all add: tick(2))
  with assms(1) tick show ?thesis by (simp add: machine_ok_def)
next
  case (lookup t i)
  have v: "view n (snd (fc_lookup ops (mc_clock m) c t i)) = view n c" if "mc_clock m \<le> n" for n c
    using that by (rule lookup_frame)
  from step_same_view [OF assms(1) _ _ machine_ok_at [OF assms(1)], of "(mc_state m)\<lparr>fs_cache := snd (fc_lookup ops (mc_clock m) (fs_cache (mc_state m)) t i)\<rparr>" i]
  show ?thesis using v lookup assms(2) by simp
next
  case (ing_plan t profile content now u j)
  let ?i = "ds_id (ij_source j)"
  have "source_ok h (mc_clock m) (\<lambda>n t. view n (fs_cache (mc_state m)) (t, ?i)) ?i (row (mc_repo m) ?i) (I_Planned j) (mc_ref m ?i)"
    using machine_ok_at [OF assms(1), of ?i] plan_job_ok [OF assms(5,4) _ ing_plan(2)] assms(1) by (simp add: source_ok_def machine_ok_def)
  from machine_ok_pcs [OF assms(1) this] ing_plan show ?thesis by simp
next
  case (ing_mark i j)
  with step_mark [OF assms(1)] show ?thesis by simp
next
  case (ing_store i j res st)
  have st: "fs_repo st = mc_repo m" "fs_cache st = fs_cache (mc_state m)"
    using ing_store(3) by (auto simp: apply_stores_def Let_def split: if_splits option.splits prod.splits)
  have "source_ok h (mc_clock m) (\<lambda>n t. view n (fs_cache (mc_state m)) (t, i)) i (row (mc_repo m) i) (if isl res then I_Idle else I_Stored j) (mc_ref m i)"
    using machine_ok_at [OF assms(1), of i] ing_store(2) by (auto simp: source_ok_def)
  from step_same_view [OF assms(1) st(1) _ this] st(2) ing_store show ?thesis by simp
next
  case (ing_cache i j cu st)
  with step_cache [OF assms(1,2)] show ?thesis by simp
next
  case (ing_save i j cu res r)
  with step_save [OF assms(1)] show ?thesis by simp
next
  case (ing_stop i)
  have "source_ok h (mc_clock m) (\<lambda>n t. view n (fs_cache (mc_state m)) (t, i)) i (row (mc_repo m) i) I_Idle (mc_ref m i)"
    using machine_ok_at [OF assms(1), of i] by (simp add: source_ok_def)
  from machine_ok_pcs [OF assms(1) this] ing_stop show ?thesis by simp
next
  case (ref_list s)
  have "repo_ok h (mc_repo m)" using assms(1) by (simp add: machine_ok_def)
  from row_Some [OF this] ref_list(2) have "row (mc_repo m) (ds_id s) = Some s" by simp
  then have "source_ok h (mc_clock m) (\<lambda>n t. view n (fs_cache (mc_state m)) (t, ds_id s)) (ds_id s) (row (mc_repo m) (ds_id s)) (mc_ing m (ds_id s)) (R_Listed s)"
    using machine_ok_at [OF assms(1), of "ds_id s"] ref_list(3) by (simp add: source_ok_def copy_ok_def same_source_def)
  from machine_ok_pcs [OF assms(1) this] ref_list show ?thesis by simp
next
  case (ref_check i s now e st)
  with step_check [OF assms(1,2)] show ?thesis by simp
next
  case (ref_read i s e)
  have "source_ok h (mc_clock m) (\<lambda>n t. view n (fs_cache (mc_state m)) (t, i)) i (row (mc_repo m) i) (mc_ing m i)
      (R_Read s e (current_content (mc_repo m) (ds_tenant_id s) (ds_id s)))"
    using machine_ok_at [OF assms(1), of i] ref_read(2) by (auto simp: source_ok_def copy_ok_def split: option.splits)
  from machine_ok_pcs [OF assms(1) this] ref_read show ?thesis by simp
next
  case (ref_preload i s e x go st)
  with step_preload [OF assms(1-3)] show ?thesis by simp
next
  case (ref_record i s e ok r)
  with step_record [OF assms(1)] show ?thesis by simp
next
  case (ref_drop i s)
  with step_drop [OF assms(1,2)] show ?thesis by simp
next
  case (ref_stop i)
  have "source_ok h (mc_clock m) (\<lambda>n t. view n (fs_cache (mc_state m)) (t, i)) i (row (mc_repo m) i) (mc_ing m i) R_Idle"
    using machine_ok_at [OF assms(1), of i] ref_stop(2) by (auto simp: source_ok_def copy_ok_def split: option.splits)
  from machine_ok_pcs [OF assms(1) this] ref_stop show ?thesis by simp
qed

lemma reachable_ok:
  assumes "fresh_reachable pt cfg m0 m" "fresh_initial view m0" "pt_cache pt = ops" "pt_sha256 pt = hash" "pt_uuid5 pt = h" "inj h"
  shows "machine_ok view h m"
  using assms(1)
proof (induction rule: fresh_reachable.induct)
  case start
  then show ?case
    using assms(2) by (simp add: machine_ok_def fresh_initial_def repo_ok_def source_ok_def copy_ok_def row_def)
next
  case (step m m')
  with step_ok [OF _ assms(3-6)] show ?case by blast
qed

end

interpretation fresh_hf: fresh_cache "expiring_ops (hf_ops sha256 prefill)" "ex_view hf_view" sha256
  for sha256 :: "string \<Rightarrow> string" and prefill :: "string \<Rightarrow> 'kv"
  by unfold_locales


subsection \<open>The use cases are runs of the system\<close>

lemma reachable_trans: "fresh_reachable pt cfg a b \<Longrightarrow> fresh_reachable pt cfg b c \<Longrightarrow> fresh_reachable pt cfg a c"
  by (rotate_tac, induction rule: fresh_reachable.induct) (auto intro: fresh_reachable.step)

lemma reachable_one: "fresh_step pt cfg a b \<Longrightarrow> fresh_reachable pt cfg a b"
  by (rule fresh_reachable.step [OF fresh_reachable.start])

definition no_db_faults :: db_faults where
  "no_db_faults = \<lparr>df_get = False, df_mark = False, df_save = False, df_content = (\<lambda>_. False), df_record = (\<lambda>_. False)\<rparr>"

lemma ingest_is_run:
  assumes "ingest_execute pt cfg no_db_faults (mc_clock m) t profile x now u (mc_state m) = (Inr res, st')" "mc_ing m = (\<lambda>_. I_Idle)"
  shows "fresh_reachable pt cfg m (m\<lparr>mc_state := st'\<rparr>)"
proof -
  obtain j where j: "plan_ingest pt cfg (mc_repo m) t profile x now u = Inr j"
    using assms(1) by (auto simp: ingest_execute_def no_db_faults_def split: sum.splits py_error.splits)
  let ?st1 = "(mc_state m)\<lparr>fs_repo := ingest_mark j (mc_repo m)\<rparr>" and ?i = "ds_id (ij_source j)"
  obtain a st2 where 2: "apply_stores pt j ?st1 = (Inr a, st2)"
    using assms(1) j by (auto simp: ingest_execute_def no_db_faults_def Let_def split: sum.splits prod.splits)
  obtain cu st3 where 3: "apply_cache pt (ic_policy cfg) (mc_clock m) j st2 = (cu, st3)" by fastforce
  obtain b r where 4: "ingest_save j cu (fs_repo st3) = (Inr b, r)" "st' = st3\<lparr>fs_repo := r\<rparr>"
    using assms(1) j 2 3 by (auto simp: ingest_execute_def no_db_faults_def Let_def split: sum.splits prod.splits)
  let ?pc = "\<lambda>p. (mc_ing m)(?i := p)"
  have "fresh_step pt cfg m (m\<lparr>mc_ing := ?pc (I_Planned j)\<rparr>)"
    using fresh_step.ing_plan [OF j] assms(2) by simp
  moreover have "fresh_step pt cfg (m\<lparr>mc_ing := ?pc (I_Planned j)\<rparr>) (m\<lparr>mc_state := ?st1, mc_ing := ?pc (I_Marked j)\<rparr>)"
    using fresh_step.ing_mark [of "m\<lparr>mc_ing := ?pc (I_Planned j)\<rparr>" ?i j] by simp
  moreover have "fresh_step pt cfg (m\<lparr>mc_state := ?st1, mc_ing := ?pc (I_Marked j)\<rparr>) (m\<lparr>mc_state := st2, mc_ing := ?pc (I_Stored j)\<rparr>)"
    using fresh_step.ing_store [of "m\<lparr>mc_state := ?st1, mc_ing := ?pc (I_Marked j)\<rparr>" ?i j pt "Inr a" st2] 2 by simp
  moreover have "fresh_step pt cfg (m\<lparr>mc_state := st2, mc_ing := ?pc (I_Stored j)\<rparr>) (m\<lparr>mc_state := st3, mc_ing := ?pc (I_Cached j cu)\<rparr>)"
    using fresh_step.ing_cache [of "m\<lparr>mc_state := st2, mc_ing := ?pc (I_Stored j)\<rparr>" ?i j pt cfg cu st3] 3 by simp
  moreover have "fresh_step pt cfg (m\<lparr>mc_state := st3, mc_ing := ?pc (I_Cached j cu)\<rparr>) (m\<lparr>mc_state := st', mc_ing := ?pc I_Idle\<rparr>)"
    using fresh_step.ing_save [of "m\<lparr>mc_state := st3, mc_ing := ?pc (I_Cached j cu)\<rparr>" ?i j cu "Inr b" r] 4 by simp
  moreover have "?pc I_Idle = mc_ing m" using assms(2) by auto
  ultimately show ?thesis
    by (simp add: fresh_reachable.step [OF fresh_reachable.step [OF fresh_reachable.step [OF fresh_reachable.step [OF reachable_one]]]])
qed

lemma refresh_is_run:
  assumes "refresh_source pt (ic_policy cfg) no_db_faults (mc_clock m) s now (mc_state m) = (Inr b, st')" "mc_ref m = (\<lambda>_. R_Idle)"
    and "s \<in> set (dr_sources (mc_repo m))"
  shows "fresh_reachable pt cfg m (m\<lparr>mc_state := st'\<rparr>)"
proof -
  let ?pc = "\<lambda>p. (mc_ref m)(ds_id s := p)"
  have idle: "m\<lparr>mc_state := st, mc_ref := ?pc R_Idle\<rparr> = m\<lparr>mc_state := st\<rparr>" for st using assms(2) by (cases m) auto
  obtain eo st1 where 1: "refresh_check pt (ic_policy cfg) (mc_clock m) s now (mc_state m) = (eo, st1)" by fastforce
  have "fresh_reachable pt cfg m (m\<lparr>mc_ref := ?pc (R_Listed s)\<rparr>)"
    using fresh_step.ref_list [OF assms(3)] assms(2) by (intro reachable_one) simp
  moreover have "fresh_step pt cfg (m\<lparr>mc_ref := ?pc (R_Listed s)\<rparr>)
      (m\<lparr>mc_state := st1, mc_ref := ?pc (case eo of None \<Rightarrow> R_Idle | Some x \<Rightarrow> R_Checked s x)\<rparr>)"
    using fresh_step.ref_check [of "m\<lparr>mc_ref := ?pc (R_Listed s)\<rparr>" "ds_id s" s pt cfg now eo st1] 1 by simp
  ultimately have r1: "fresh_reachable pt cfg m (m\<lparr>mc_state := st1, mc_ref := ?pc (case eo of None \<Rightarrow> R_Idle | Some x \<Rightarrow> R_Checked s x)\<rparr>)"
    by (rule fresh_reachable.step)
  show ?thesis
  proof (cases eo)
    case None
    with assms(1) 1 r1 idle show ?thesis by (simp add: refresh_source_def)
  next
    case (Some e)
    let ?c = "current_content (fs_repo st1) (ds_tenant_id s) (ds_id s)"
    obtain go st2 where 2: "refresh_preload pt (mc_clock m) s e ?c st1 = (go, st2)" by fastforce
    have "fresh_reachable pt cfg m (m\<lparr>mc_state := st1, mc_ref := ?pc (R_Read s e ?c)\<rparr>)"
      using r1 fresh_step.ref_read [of "m\<lparr>mc_state := st1, mc_ref := ?pc (R_Checked s e)\<rparr>" "ds_id s" s e pt cfg] Some
      by (auto intro: fresh_reachable.step)
    moreover have "fresh_step pt cfg (m\<lparr>mc_state := st1, mc_ref := ?pc (R_Read s e ?c)\<rparr>)
        (m\<lparr>mc_state := st2, mc_ref := ?pc (if go then R_Preloaded s e else R_Idle)\<rparr>)"
      using fresh_step.ref_preload [of "m\<lparr>mc_state := st1, mc_ref := ?pc (R_Read s e ?c)\<rparr>" "ds_id s" s e ?c pt go st2] 2 by simp
    ultimately have r2: "fresh_reachable pt cfg m (m\<lparr>mc_state := st2, mc_ref := ?pc (if go then R_Preloaded s e else R_Idle)\<rparr>)"
      by (rule fresh_reachable.step)
    show ?thesis
    proof (cases go)
      case False
      with assms(1) 1 2 Some r2 idle show ?thesis by (simp add: refresh_source_def no_db_faults_def)
    next
      case True
      obtain ok r where 3: "refresh_record s e (fs_repo st2) = (ok, r)" by fastforce
      let ?st3 = "st2\<lparr>fs_repo := r\<rparr>"
      have "fresh_step pt cfg (m\<lparr>mc_state := st2, mc_ref := ?pc (R_Preloaded s e)\<rparr>)
          (m\<lparr>mc_state := ?st3, mc_ref := ?pc (if ok then R_Idle else R_Unrecorded s)\<rparr>)"
        using fresh_step.ref_record [of "m\<lparr>mc_state := st2, mc_ref := ?pc (R_Preloaded s e)\<rparr>" "ds_id s" s e ok r pt cfg] 3 by simp
      with r2 True have r3: "fresh_reachable pt cfg m (m\<lparr>mc_state := ?st3, mc_ref := ?pc (if ok then R_Idle else R_Unrecorded s)\<rparr>)"
        by (auto intro: fresh_reachable.step)
      show ?thesis
      proof (cases ok)
        case True
        with assms(1) 1 2 3 Some \<open>go\<close> r3 idle show ?thesis by (simp add: refresh_source_def no_db_faults_def)
      next
        case False
        have "fresh_step pt cfg (m\<lparr>mc_state := ?st3, mc_ref := ?pc (R_Unrecorded s)\<rparr>)
            (m\<lparr>mc_state := drop_copy pt (mc_clock m) s ?st3, mc_ref := ?pc R_Idle\<rparr>)"
          using fresh_step.ref_drop [of "m\<lparr>mc_state := ?st3, mc_ref := ?pc (R_Unrecorded s)\<rparr>" "ds_id s" s pt cfg] by simp
        with r3 False assms(1) 1 2 3 Some \<open>go\<close> idle show ?thesis
          by (auto simp: refresh_source_def no_db_faults_def intro: fresh_reachable.step)
      qed
    qed
  qed
qed

subsection \<open>Examples\<close>

definition ex_ports :: "(unit, unit, unit hf_cache expiring_frozen_cache, unit) ports" where
  "ex_ports = \<lparr>pt_replace = (\<lambda>r _ _ _ _. (Inr (), r)), pt_write_fact = (\<lambda>m _ _ _ _. (Inr (), m)),
     pt_cache = expiring_ops (hf_ops (\<lambda>s. s) (\<lambda>_. ())), pt_embed = (\<lambda>_. []), pt_sha256 = (\<lambda>s. s), pt_uuid5 = name_code\<rparr>"

definition ex_ingest_config :: ingest_config where
  "ex_ingest_config = \<lparr>ic_policy = default_freshness_policy, ic_route_policy = route_for, ic_permit_user_scope_outside_mag = False\<rparr>"

definition ex_empty :: "(unit, unit, unit hf_cache expiring_frozen_cache) fresh_state" where
  "ex_empty = \<lparr>fs_repo = \<lparr>dr_sources = [], dr_versions = []\<rparr>, fs_rag = (), fs_mag = (),
     fs_cache = \<lparr>ex_inner = Map.empty, ex_expiry = Map.empty\<rparr>, fs_warmed = new_cache_warmed\<rparr>"

definition ex_profile :: data_source_profile where
  "ex_profile = \<lparr>dp_source_key = ''p'', dp_scope = TENANT, dp_expected_change_interval = days 30\<rparr>"

definition ex_ingested :: "ingestion_result result \<times> (unit, unit, unit hf_cache expiring_frozen_cache) fresh_state" where
  "ex_ingested = ingest_execute ex_ports ex_ingest_config no_db_faults 0 7 ex_profile ''v1'' 0 None ex_empty"

definition ex_id :: uuid where
  "ex_id = source_id_for name_code 7 ''p'' None"

definition ex_row :: data_source where
  "ex_row = \<lparr>ds_id = ex_id, ds_tenant_id = 7, ds_user_id = None, ds_source_key = ''p'', ds_scope = TENANT,
     ds_expected_change_interval = days 30, ds_route = CAG_WITH_RAG_BACKUP, ds_content_hash = ''v1'', ds_last_changed_at = 0,
     ds_last_ingested_at = 0, ds_cached_until = None, ds_pending_hash = None\<rparr>"

lemmas ex_eval = ex_id_def [symmetric] ex_ports_def ex_ingest_config_def ex_empty_def ex_profile_def no_db_faults_def
  default_freshness_policy_def content_hash_def

lemma ex_ttl: "cache_ttl (days 30) default_freshness_policy = Some (days 15)"
  by code_simp

definition ex_state :: "data_source list \<Rightarrow> version_row list \<Rightarrow> (doc_key \<Rightarrow> (string \<times> unit) option) \<Rightarrow> (doc_key \<Rightarrow> datetime option option) \<Rightarrow>
    (unit, unit, unit hf_cache expiring_frozen_cache) fresh_state" where
  "ex_state rows vs entries expiry = ex_empty\<lparr>fs_repo := \<lparr>dr_sources = rows, dr_versions = vs\<rparr>,
     fs_cache := \<lparr>ex_inner = entries, ex_expiry = expiry\<rparr>\<rparr>"

definition ex_version :: version_row where
  "ex_version = \<lparr>vr_source_id = ex_id, vr_tenant_id = 7, vr_content_hash = ''v1'', vr_content = Some ''v1'', vr_ingested_at = 0\<rparr>"

lemma ex_ingested_eval:
  "ex_ingested = (Inr \<lparr>ir_source_id = ex_id, ir_route = CAG_WITH_RAG_BACKUP, ir_changed = True\<rparr>,
     ex_state [ex_row] [ex_version] Map.empty Map.empty)"
proof -
  have e: "ds_route ex_row = CAG_WITH_RAG_BACKUP" "ds_id ex_row = ex_id" "ds_tenant_id ex_row = 7" "ds_user_id ex_row = None"
    "ds_source_key ex_row = ''p''" "ds_content_hash ex_row = ''v1''" "ds_last_changed_at ex_row = 0"
    "ex_row\<lparr>ds_cached_until := None\<rparr> = ex_row" "ds_scope ex_row = TENANT" "0 < ds_expected_change_interval ex_row"
    by (simp_all add: ex_row_def days_def seconds_def)
  let ?j = "\<lparr>ij_source = ex_row, ij_content = ''v1'', ij_exists = False, ij_changed = True, ij_reapply = True, ij_now = 0\<rparr>"
  have p: "plan_ingest ex_ports ex_ingest_config (fs_repo ex_empty) 7 ex_profile ''v1'' 0 None = Inr ?j"
    by (simp add: plan_ingest_def new_source_def source_get_def route_for_def ex_eval ex_row_def days_def seconds_def)
  have 1: "apply_stores ex_ports ?j ex_empty = (Inr (), ex_empty)"
    by (simp add: apply_stores_def e) (simp add: ex_ports_def ex_empty_def)
  have 2: "apply_cache ex_ports (ic_policy ex_ingest_config) 0 ?j ex_empty = (None, ex_empty)"
    by (simp add: apply_cache_def drop_copy_def e)
      (simp add: ex_ports_def ex_empty_def expiring_ops_def hf_ops_def ex_evict_def hf_evict_def forget_def new_cache_warmed_def)
  have 3: "ingest_save ?j None (fs_repo ex_empty) = (Inr (), \<lparr>dr_sources = [ex_row], dr_versions = [ex_version]\<rparr>)"
    by (simp add: ingest_save_def source_save_def e insert_ok_def source_get_def ex_empty_def ex_version_def)
  show ?thesis
    by (simp add: ex_ingested_def ingest_execute_def p no_db_faults_def ingest_mark_def 1 2 3 e ex_state_def)
      (simp add: ex_empty_def)
qed


lemmas cache_eval = expiring_ops_def hf_ops_def ex_evict_def hf_evict_def ex_contains_def hf_contains_def ex_lookup_def hf_lookup_def
  expire_if_due_def preload_until_def ex_set_expiry_def ex_inner_preload_def hf_preload_def

lemma ex_refresh_step:
  assumes "ds_route s = CAG_WITH_RAG_BACKUP" "ds_pending_hash s = None" "ds_id s = ex_id" "ds_tenant_id s = 7" "ds_content_hash s = ''v1''"
    and "cache_ttl (ds_expected_change_interval s) default_freshness_policy = Some ttl" "now < ds_last_ingested_at s + ttl"
  shows "\<exists>w. refresh_source ex_ports default_freshness_policy no_db_faults now s now (ex_state [s] [ex_version] Map.empty Map.empty) =
    (Inr True, (ex_state [s\<lparr>ds_cached_until := Some (ds_last_ingested_at s + ttl)\<rparr>] [ex_version] [(7, ex_id) \<mapsto> (''v1'', ())]
       [(7, ex_id) \<mapsto> Some (ds_last_ingested_at s + ttl)])\<lparr>fs_warmed := w\<rparr>)"
proof -
  let ?st = "ex_state [s] [ex_version] Map.empty Map.empty" and ?e = "ds_last_ingested_at s + ttl"
  have 1: "refresh_check ex_ports default_freshness_policy now s now ?st = (Some (Some ?e), ?st)"
    using assms by (simp add: refresh_check_def ex_ports_def ex_state_def cache_eval ex_empty_def)
  have c: "current_content (fs_repo ?st) 7 ex_id = Some ''v1''"
    by (simp add: current_content_def source_versions_def ex_state_def ex_version_def List.map_filter_def)
  obtain w where 2: "refresh_preload ex_ports now s (Some ?e) (Some ''v1'') ?st = (True, ?st\<lparr>fs_cache :=
      \<lparr>ex_inner = [(7, ex_id) \<mapsto> (''v1'', ())], ex_expiry = [(7, ex_id) \<mapsto> Some ?e]\<rparr>, fs_warmed := w\<rparr>)"
    using assms by (simp add: refresh_preload_def content_hash_def ex_ports_def ex_state_def cache_eval ex_empty_def)
  have 3: "refresh_record s (Some ?e) (fs_repo ?st) = (True, \<lparr>dr_sources = [s\<lparr>ds_cached_until := Some ?e\<rparr>], dr_versions = [ex_version]\<rparr>)"
    using assms by (simp add: refresh_record_def record_cached_until_def conditional_update_def unchanged_def ex_state_def)
  from assms(3,4) 1 2 3 c show ?thesis
    by (intro exI [of _ w]) (simp add: refresh_source_def no_db_faults_def, simp add: ex_state_def)
qed

lemma ex_lookup_found:
  assumes "n < e"
  shows "fst (fc_lookup (pt_cache ex_ports) n (fs_cache ((ex_state rows vs [(7, ex_id) \<mapsto> (''v1'', ())] [(7, ex_id) \<mapsto> Some e])\<lparr>fs_warmed := w\<rparr>)) 7 ex_id) =
    Some \<lparr>ch_content_hash = ''v1'', ch_kv_cache = ()\<rparr>"
  using assms by (simp add: ex_ports_def ex_state_def cache_eval)


subsection \<open>A promotion during an ingestion\<close>

definition ex_volatile :: data_source where
  \<comment> \<open>a source on the RAG route, unchanged since \<open>0\<close> and last ingested on the seventh day\<close>
  "ex_volatile = ex_row\<lparr>ds_route := RAG_ONLY, ds_expected_change_interval := seconds 3600, ds_last_ingested_at := days 7\<rparr>"

definition ex_race :: "(unit, unit, unit hf_cache expiring_frozen_cache) fresh_state" where
  "ex_race = ex_state [ex_volatile] [ex_version] Map.empty Map.empty"

text \<open>
  A review can undo an ingestion. A source on the RAG route has its new content planned, which fixes
  its route; before the ingestion marks the source, a review promotes it to the cache
  and a refresh pre-loads the old text. The ingestion then follows the route it read: it evicts
  nothing, and saves the new content. The source is now recorded as \<open>v2\<close> with nothing pending,
  and two days later a lookup still finds \<open>v1\<close>.
\<close>

theorem review_race_leaves_stale_copy:
  "\<exists>job mig st1 st2 st3 st4 cu r.
     plan_ingest ex_ports ex_ingest_config (fs_repo ex_race) 7 ex_profile ''v2'' (days 8) None = Inr job \<and>
     review_source ex_ports default_freshness_policy (days 8) ex_volatile (days 8) ex_race = (Some mig, st1) \<and>
     refresh_run ex_ports default_freshness_policy (\<lambda>xs. xs) no_db_faults (days 8) 7 (days 8) st1 = (Inr [''p''], st2) \<and>
     apply_stores ex_ports job (st2\<lparr>fs_repo := ingest_mark job (fs_repo st2)\<rparr>) = (Inr (), st3) \<and>
     apply_cache ex_ports default_freshness_policy (days 8) job st3 = (cu, st4) \<and>
     ingest_save job cu (fs_repo st4) = (Inr (), r) \<and>
     map (\<lambda>s. (ds_content_hash s, ds_pending_hash s)) (dr_sources r) = [(''v2'', None)] \<and>
     map_option ch_content_hash (fst (fc_lookup (pt_cache ex_ports) (days 10) (fs_cache st4) 7 ex_id)) = Some ''v1''"
proof -
  let ?row1 = "ex_volatile\<lparr>ds_route := CAG_WITH_RAG_BACKUP, ds_expected_change_interval := days 8\<rparr>"
  let ?src = "ex_volatile\<lparr>ds_content_hash := ''v2'', ds_last_ingested_at := days 8, ds_last_changed_at := days 8\<rparr>"
  let ?job = "\<lparr>ij_source = ?src, ij_content = ''v2'', ij_exists = True, ij_changed = True, ij_reapply = True, ij_now = days 8\<rparr>"
  let ?st1 = "ex_state [?row1] [ex_version] Map.empty Map.empty"
  have v: "ds_scope ex_volatile = TENANT" "ds_pending_hash ex_volatile = None" "ds_id ex_volatile = ex_id" "ds_tenant_id ex_volatile = 7"
      "ds_route ex_volatile = RAG_ONLY" "ds_cached_until ex_volatile = None" "ds_content_hash ex_volatile = ''v1''"
      "ds_user_id ex_volatile = None" "ds_source_key ex_volatile = ''p''" "ds_last_ingested_at ex_volatile = days 7"
    by (simp_all add: ex_volatile_def ex_row_def)
  have row: "ex_volatile\<lparr>ds_cached_until := None\<rparr> = ex_volatile" "ex_volatile\<lparr>ds_pending_hash := None\<rparr> = ex_volatile"
    by (simp_all add: ex_volatile_def ex_row_def)
  have 1: "plan_ingest ex_ports ex_ingest_config (fs_repo ex_race) 7 ex_profile ''v2'' (days 8) None = Inr ?job"
    by (simp add: plan_ingest_def source_get_def ex_race_def ex_state_def ex_profile_def v content_hash_def ex_ports_def row Let_def)
  have "decide_migration ex_volatile [0] (days 8) default_freshness_policy = Some \<lparr>md_to_route = CAG_WITH_RAG_BACKUP, md_interval = days 8\<rparr>"
    by (simp add: decide_migration_def v) (simp add: days_def seconds_def default_freshness_policy_def)
  moreover have "version_times (fs_repo ex_race) 7 ex_id = [0]"
    by (simp add: version_times_def source_versions_def ex_race_def ex_state_def ex_version_def)
  moreover have "migrate (fs_repo ex_race) 7 ex_id ''v1'' CAG_WITH_RAG_BACKUP (days 8) None = (True, fs_repo ?st1)"
    by (simp add: migrate_def conditional_update_def unchanged_def v ex_race_def ex_state_def row)
  ultimately obtain mig where 2: "review_source ex_ports default_freshness_policy (days 8) ex_volatile (days 8) ex_race = (Some mig, ?st1)"
    by (simp add: review_source_def v ex_race_def ex_state_def)
  have "cache_ttl (days 8) default_freshness_policy = Some (days 4)" by code_simp
  moreover have d: "days 8 < days 7 + days 4" "days 10 < days 7 + days 4" by (simp_all add: days_def seconds_def)
  ultimately obtain w where "refresh_source ex_ports default_freshness_policy no_db_faults (days 8) ?row1 (days 8) ?st1 =
      (Inr True, (ex_state [?row1\<lparr>ds_cached_until := Some (days 7 + days 4)\<rparr>] [ex_version] [(7, ex_id) \<mapsto> (''v1'', ())]
        [(7, ex_id) \<mapsto> Some (days 7 + days 4)])\<lparr>fs_warmed := w\<rparr>)" (is "_ = (_, ?st2)")
    using ex_refresh_step [of ?row1 "days 4" "days 8"] v by auto
  then have 3: "refresh_run ex_ports default_freshness_policy (\<lambda>xs. xs) no_db_faults (days 8) 7 (days 8) ?st1 = (Inr [''p''], ?st2)"
    by (simp add: refresh_run_def list_sources_def v, simp add: ex_state_def v)
  let ?st3 = "?st2\<lparr>fs_repo := ingest_mark ?job (fs_repo ?st2)\<rparr>"
  have 4: "apply_stores ex_ports ?job ?st3 = (Inr (), ?st3)"
    by (simp add: apply_stores_def v) (simp add: ex_ports_def ex_empty_def ex_state_def)
  have 5: "apply_cache ex_ports default_freshness_policy (days 8) ?job ?st3 = (None, ?st3)"
    by (simp add: apply_cache_def v)
  obtain r where 6: "ingest_save ?job None (fs_repo ?st3) = (Inr (), r)"
      "map (\<lambda>s. (ds_content_hash s, ds_pending_hash s)) (dr_sources r) = [(''v2'', None)]"
    by (simp add: ingest_save_def source_save_def ingest_mark_def mark_pending_def ex_state_def v)
  have 7: "map_option ch_content_hash (fst (fc_lookup (pt_cache ex_ports) (days 10) (fs_cache ?st3) 7 ex_id)) = Some ''v1''"
    using ex_lookup_found [OF d(2)] by simp
  show ?thesis by (intro exI conjI) (rule 1, rule 2, rule 3, rule 4, rule 5, rule 6, rule 6, rule 7)
qed

subsection \<open>Crossing ingestions and interrupted refreshes\<close>

definition ex_held :: "data_source \<Rightarrow> (unit, unit, unit hf_cache expiring_frozen_cache) fresh_state" where
  \<comment> \<open>the tenant has the source in a row of the table, its text is \<open>v1\<close>, and nothing is cached\<close>
  "ex_held r = ex_state [r] [ex_version] Map.empty Map.empty"


lemma ex_ttl_row:
  "ds_route ex_row = CAG_WITH_RAG_BACKUP" "ds_pending_hash ex_row = None" "ds_id ex_row = ex_id" "ds_tenant_id ex_row = 7"
  "ds_content_hash ex_row = ''v1''" "ds_last_ingested_at ex_row = 0" "ds_user_id ex_row = None" "ds_source_key ex_row = ''p''"
  "cache_ttl (ds_expected_change_interval ex_row) default_freshness_policy = Some (days 15)"
  using ex_ttl by (simp_all add: ex_row_def)

lemma ex_drop: "drop_copy ex_ports n ex_row (ex_held x) = ex_held x"
  by (simp add: drop_copy_def ex_ports_def ex_held_def ex_state_def ex_empty_def expiring_ops_def hf_ops_def ex_evict_def hf_evict_def
      forget_def new_cache_warmed_def)

text \<open>
  Two deliveries of one source can cross. The ingestion of \<open>v2\<close> has marked the source and evicted the copy; before it saves, a
  second one delivers \<open>v1\<close> again, is applied and saved, which clears the marker of the first, and a refresh pre-loads \<open>v1\<close>. The first
  then saves \<open>v2\<close>: nothing is pending, and a lookup finds \<open>v1\<close>.
\<close>
lemma crossing_ingestions_leave_stale_copy:
  "\<exists>job st1 st2 st3 r. 
     plan_ingest ex_ports ex_ingest_config (fs_repo (ex_held ex_row)) 7 ex_profile ''v2'' (days 1) None = Inr job \<and>
     apply_cache ex_ports default_freshness_policy (days 1) job
       ((ex_held ex_row)\<lparr>fs_repo := ingest_mark job (fs_repo (ex_held ex_row))\<rparr>) = (None, st1) \<and>
     ingest_execute ex_ports ex_ingest_config no_db_faults (days 1) 7 ex_profile ''v1'' (days 1) None st1 =
       (Inr \<lparr>ir_source_id = ex_id, ir_route = CAG_WITH_RAG_BACKUP, ir_changed = False\<rparr>, st2) \<and>
     refresh_run ex_ports default_freshness_policy (\<lambda>xs. xs) no_db_faults (days 1) 7 (days 1) st2 = (Inr [''p''], st3) \<and>
     ingest_save job None (fs_repo st3) = (Inr (), r) \<and>
     map (\<lambda>s. (ds_content_hash s, ds_pending_hash s)) (dr_sources r) = [(''v2'', None)] \<and>
     map_option ch_content_hash (fst (fc_lookup (pt_cache ex_ports) (days 2) (fs_cache st3) 7 ex_id)) = Some ''v1''"
proof -
  let ?src = "ex_row\<lparr>ds_content_hash := ''v2'', ds_last_ingested_at := days 1, ds_last_changed_at := days 1\<rparr>"
  let ?job = "\<lparr>ij_source = ?src, ij_content = ''v2'', ij_exists = True, ij_changed = True, ij_reapply = True, ij_now = days 1\<rparr>"
  let ?marked = "ex_row\<lparr>ds_pending_hash := Some ''v2''\<rparr>"
  let ?row1 = "ex_row\<lparr>ds_last_ingested_at := days 1\<rparr>"
  let ?job1 = "\<lparr>ij_source = ?row1, ij_content = ''v1'', ij_exists = True, ij_changed = False, ij_reapply = True, ij_now = days 1\<rparr>"
  have row: "ex_row\<lparr>ds_pending_hash := None\<rparr> = ex_row" "ex_row\<lparr>ds_cached_until := None\<rparr> = ex_row" by (simp_all add: ex_row_def)
  have 1: "plan_ingest ex_ports ex_ingest_config (fs_repo (ex_held ex_row)) 7 ex_profile ''v2'' (days 1) None = Inr ?job"
    by (simp add: plan_ingest_def source_get_def ex_held_def ex_state_def ex_profile_def ex_ttl_row content_hash_def ex_ports_def Let_def row)
  have m: "(ex_held ex_row)\<lparr>fs_repo := ingest_mark ?job (fs_repo (ex_held ex_row))\<rparr> = ex_held ?marked"
    by (simp add: ingest_mark_def mark_pending_def ex_held_def ex_state_def ex_ttl_row)
  have 2: "apply_cache ex_ports default_freshness_policy (days 1) ?job (ex_held ?marked) = (None, ex_held ?marked)"
    using ex_drop [of "days 1" ?marked] by (simp add: apply_cache_def ex_ttl_row drop_copy_def)
  have 3: "ingest_execute ex_ports ex_ingest_config no_db_faults (days 1) 7 ex_profile ''v1'' (days 1) None (ex_held ?marked) =
      (Inr \<lparr>ir_source_id = ex_id, ir_route = CAG_WITH_RAG_BACKUP, ir_changed = False\<rparr>, ex_held ?row1)"
  proof -
    have p: "plan_ingest ex_ports ex_ingest_config (fs_repo (ex_held ?marked)) 7 ex_profile ''v1'' (days 1) None = Inr ?job1"
      by (simp add: plan_ingest_def source_get_def ex_held_def ex_state_def ex_profile_def ex_ttl_row content_hash_def ex_ports_def Let_def row)
    have k: "(ex_held ?marked)\<lparr>fs_repo := ingest_mark ?job1 (fs_repo (ex_held ?marked))\<rparr> = ex_held (ex_row\<lparr>ds_pending_hash := Some ''v1''\<rparr>)"
      by (simp add: ingest_mark_def mark_pending_def ex_held_def ex_state_def ex_ttl_row)
    let ?again = "ex_row\<lparr>ds_pending_hash := Some ''v1''\<rparr>"
    have s: "apply_stores ex_ports ?job1 (ex_held ?again) = (Inr (), ex_held ?again)"
      by (simp add: apply_stores_def ex_ttl_row) (simp add: ex_ports_def ex_held_def ex_state_def ex_empty_def)
    have c: "apply_cache ex_ports (ic_policy ex_ingest_config) (days 1) ?job1 (ex_held ?again) = (None, ex_held ?again)"
      using ex_drop [of "days 1" ?again] by (simp add: apply_cache_def ex_ttl_row drop_copy_def)
    have v: "ingest_save ?job1 None (fs_repo (ex_held ?again)) = (Inr (), fs_repo (ex_held ?row1))"
      by (simp add: ingest_save_def source_save_def ex_held_def ex_state_def ex_ttl_row save_columns_def) (simp add: ex_row_def)
    show ?thesis
      by (simp add: ingest_execute_def p no_db_faults_def k s c v ex_ttl_row) (simp add: ex_held_def ex_state_def)
  qed
  have d: "days 1 < days 1 + days 15" "days 2 < days 1 + days 15" by (simp_all add: days_def seconds_def)
  obtain w where "refresh_source ex_ports default_freshness_policy no_db_faults (days 1) ?row1 (days 1) (ex_held ?row1) =
      (Inr True, (ex_state [?row1\<lparr>ds_cached_until := Some (days 1 + days 15)\<rparr>] [ex_version] [(7, ex_id) \<mapsto> (''v1'', ())]
        [(7, ex_id) \<mapsto> Some (days 1 + days 15)])\<lparr>fs_warmed := w\<rparr>)" (is "_ = (_, ?st3)")
    using ex_refresh_step [of ?row1 "days 15" "days 1"] d ex_ttl_row unfolding ex_held_def by auto
  then have 4: "refresh_run ex_ports default_freshness_policy (\<lambda>xs. xs) no_db_faults (days 1) 7 (days 1) (ex_held ?row1) = (Inr [''p''], ?st3)"
    by (simp add: refresh_run_def list_sources_def ex_ttl_row ex_held_def, simp add: ex_state_def ex_ttl_row)
  obtain r where 5: "ingest_save ?job None (fs_repo ?st3) = (Inr (), r)"
      "map (\<lambda>s. (ds_content_hash s, ds_pending_hash s)) (dr_sources r) = [(''v2'', None)]"
    by (simp add: ingest_save_def source_save_def ex_state_def ex_ttl_row)
  have 6: "map_option ch_content_hash (fst (fc_lookup (pt_cache ex_ports) (days 2) (fs_cache ?st3) 7 ex_id)) = Some ''v1''"
    using ex_lookup_found [OF d(2)] by simp
  show ?thesis by (intro exI conjI) (rule 1, unfold m, rule 2, rule 3, rule 4, rule 5, rule 5, rule 6)
qed

text \<open>
  A refresh that ends between its pre-load and its record leaves what it pre-loaded: it has read \<open>v1\<close>, an ingestion replaces it by \<open>v2\<close>, and
  when the record of the expiry raises, nothing evicts the copy.
\<close>
lemma interrupted_refresh_leaves_stale_copy:
  "\<exists>st1 st2.
     refresh_check ex_ports default_freshness_policy (days 1) ex_row (days 1) (ex_held ex_row) = (Some (Some (days 15)), ex_held ex_row) \<and>
     current_content (fs_repo (ex_held ex_row)) 7 ex_id = Some ''v1'' \<and>
     ingest_execute ex_ports ex_ingest_config no_db_faults (days 1) 7 ex_profile ''v2'' (days 1) None (ex_held ex_row) =
       (Inr \<lparr>ir_source_id = ex_id, ir_route = CAG_WITH_RAG_BACKUP, ir_changed = True\<rparr>, st1) \<and>
     refresh_preload ex_ports (days 1) ex_row (Some (days 15)) (Some ''v1'') st1 = (True, st2) \<and>
     map (\<lambda>s. (ds_content_hash s, ds_pending_hash s)) (dr_sources (fs_repo st2)) = [(''v2'', None)] \<and>
     map_option ch_content_hash (fst (fc_lookup (pt_cache ex_ports) (days 2) (fs_cache st2) 7 ex_id)) = Some ''v1''"
proof -
  let ?src = "ex_row\<lparr>ds_content_hash := ''v2'', ds_last_ingested_at := days 1, ds_last_changed_at := days 1\<rparr>"
  let ?job = "\<lparr>ij_source = ?src, ij_content = ''v2'', ij_exists = True, ij_changed = True, ij_reapply = True, ij_now = days 1\<rparr>"
  let ?marked = "ex_row\<lparr>ds_pending_hash := Some ''v2''\<rparr>"
  have row: "ex_row\<lparr>ds_pending_hash := None\<rparr> = ex_row" "ex_row\<lparr>ds_cached_until := None\<rparr> = ex_row" by (simp_all add: ex_row_def)
  have d: "days 1 < days 15" "days 2 < days 15" by (simp_all add: days_def seconds_def)
  have 1: "refresh_check ex_ports default_freshness_policy (days 1) ex_row (days 1) (ex_held ex_row) = (Some (Some (days 15)), ex_held ex_row)"
    using d by (simp add: refresh_check_def ex_ports_def ex_held_def ex_state_def cache_eval ex_empty_def ex_ttl_row)
  have 2: "current_content (fs_repo (ex_held ex_row)) 7 ex_id = Some ''v1''"
    by (simp add: current_content_def source_versions_def ex_held_def ex_state_def ex_version_def List.map_filter_def)
  have p: "plan_ingest ex_ports ex_ingest_config (fs_repo (ex_held ex_row)) 7 ex_profile ''v2'' (days 1) None = Inr ?job"
    by (simp add: plan_ingest_def source_get_def ex_held_def ex_state_def ex_profile_def ex_ttl_row content_hash_def ex_ports_def Let_def row)
  have m: "(ex_held ex_row)\<lparr>fs_repo := ingest_mark ?job (fs_repo (ex_held ex_row))\<rparr> = ex_held ?marked"
    by (simp add: ingest_mark_def mark_pending_def ex_held_def ex_state_def ex_ttl_row)
  have s: "apply_stores ex_ports ?job (ex_held ?marked) = (Inr (), ex_held ?marked)"
    by (simp add: apply_stores_def ex_ttl_row) (simp add: ex_ports_def ex_held_def ex_state_def ex_empty_def)
  have c: "apply_cache ex_ports (ic_policy ex_ingest_config) (days 1) ?job (ex_held ?marked) = (None, ex_held ?marked)"
    using ex_drop [of "days 1" ?marked] by (simp add: apply_cache_def ex_ttl_row drop_copy_def)
  obtain r where v: "ingest_save ?job None (fs_repo (ex_held ?marked)) = (Inr (), r)"
      "map (\<lambda>s. (ds_content_hash s, ds_pending_hash s)) (dr_sources r) = [(''v2'', None)]"
    by (simp add: ingest_save_def source_save_def ex_held_def ex_state_def ex_ttl_row)
  let ?st1 = "(ex_held ?marked)\<lparr>fs_repo := r\<rparr>"
  have 3: "ingest_execute ex_ports ex_ingest_config no_db_faults (days 1) 7 ex_profile ''v2'' (days 1) None (ex_held ex_row) =
      (Inr \<lparr>ir_source_id = ex_id, ir_route = CAG_WITH_RAG_BACKUP, ir_changed = True\<rparr>, ?st1)"
    by (simp add: ingest_execute_def p no_db_faults_def m s c v(1) ex_ttl_row)
  obtain w where 4: "refresh_preload ex_ports (days 1) ex_row (Some (days 15)) (Some ''v1'') ?st1 = (True, ?st1\<lparr>fs_cache :=
      \<lparr>ex_inner = [(7, ex_id) \<mapsto> (''v1'', ())], ex_expiry = [(7, ex_id) \<mapsto> Some (days 15)]\<rparr>, fs_warmed := w\<rparr>)" (is "_ = (True, ?st2)")
    by (simp add: refresh_preload_def content_hash_def ex_ports_def ex_held_def ex_state_def cache_eval ex_empty_def ex_ttl_row)
  have 5: "map (\<lambda>s. (ds_content_hash s, ds_pending_hash s)) (dr_sources (fs_repo ?st2)) = [(''v2'', None)]" using v(2) by simp
  have 6: "map_option ch_content_hash (fst (fc_lookup (pt_cache ex_ports) (days 2) (fs_cache ?st2) 7 ex_id)) = Some ''v1''"
    using d(2) by (simp add: ex_ports_def cache_eval)
  show ?thesis by (intro exI conjI) (rule 1, rule 2, rule 3, rule 4, rule 5, rule 6)
qed

end
