(* ===== verification/Cag_Entities.thy ===== *)
theory Cag_Entities
  imports Py_Prelude
begin

text \<open>
  The data of CAG, \<^verbatim>\<open>src/cag/domain/entities.py\<close>, and the Python indexing and slicing its
  code uses. Tokens are integers. Two groups of entities are left out: \<^verbatim>\<open>CompressedKV\<close>, whose payload holds
  tensors, and \<^verbatim>\<open>OffloadWorkload\<close> and \<^verbatim>\<open>OffloadRun\<close>, the data of the offloaders.
\<close>

subsection \<open>Indexing and slicing\<close>

definition py_pos :: "int \<Rightarrow> 'a list \<Rightarrow> nat" where
  \<comment> \<open>a slice bound: a negative one counts from the end\<close>
  "py_pos i xs = nat (if i < 0 then int (length xs) + i else i)"

definition py_slice :: "int \<Rightarrow> int \<Rightarrow> 'a list \<Rightarrow> 'a list" where
  \<comment> \<open>\<open>xs[i:j]\<close>\<close>
  "py_slice i j xs = take (py_pos j xs - py_pos i xs) (drop (py_pos i xs) xs)"

definition py_from :: "int \<Rightarrow> 'a list \<Rightarrow> 'a list" where
  \<comment> \<open>\<open>xs[i:]\<close>\<close>
  "py_from i xs = drop (py_pos i xs) xs"

definition py_nth :: "'a list \<Rightarrow> int \<Rightarrow> 'a result" where
  \<comment> \<open>\<open>xs[i]\<close>\<close>
  "py_nth xs i =
     (if - int (length xs) \<le> i \<and> i < int (length xs) then Inr (xs ! py_pos i xs)
      else Inl (OtherException ''IndexError''))"

lemma py_slice_nonneg: "0 \<le> i \<Longrightarrow> 0 \<le> j \<Longrightarrow> py_slice i j xs = take (nat j - nat i) (drop (nat i) xs)"
  by (simp add: py_slice_def py_pos_def)

lemma py_from_neg: "0 < n \<Longrightarrow> py_from (- n) xs = drop (length xs - nat n) xs"
  by (cases "nat n \<le> length xs") (auto simp: py_from_def py_pos_def nat_diff_distrib')

lemma py_nth_nonneg: "i < length xs \<Longrightarrow> py_nth xs (int i) = Inr (xs ! i)"
  by (simp add: py_nth_def py_pos_def)

lemma py_nth_last: "xs \<noteq> [] \<Longrightarrow> py_nth xs (- 1) = Inr (last xs)"
  by (simp add: py_nth_def py_pos_def last_conv_nth nat_diff_distrib' Suc_le_eq)

subsection \<open>Entities\<close>

record verification_result =
  vr_accepted_tokens :: "int list"
  vr_bonus_token :: "int option"

record eviction_decision =
  ed_method :: string
  ed_keep_indices :: "nat list"
  ed_evicted_count :: int

record conversation_turn =
  ct_turn_id :: string
  ct_new_tokens :: int
  ct_parent_turn_id :: "string option"

record session_run =
  sr_strategy :: string
  sr_per_turn_recompute :: "int list"
  sr_tokens_recomputed :: int
  sr_peak_tokens_held :: int
  sr_transfer_tokens :: int

record batch_request =
  br_request_id :: string
  br_tokens :: "int list"

record speculative_decoding_run =
  sd_generated_tokens :: "int list"
  sd_forward_passes :: nat
  sd_tokens_accepted_from_candidates :: nat
  sd_tokens_proposed :: nat

end
