(* ===== verification/Speculative_Decode.thy ===== *)
theory Speculative_Decode
  imports Cag_Entities
begin

text \<open>
  Speculative decoding: the loop of \<^verbatim>\<open>src/cag/application/speculative_decode.py\<close>, the target model
  \<^verbatim>\<open>HFTargetModel\<close>, the n-gram search and the three candidate generators. The language model is the
  parameter \<open>lm\<close>: for a sequence of tokens, the most likely next token at each position, or the
  exception of the forward pass.
\<close>

subsection \<open>HFTargetModel\<close>

fun verify_from :: "int list \<Rightarrow> int \<Rightarrow> int list \<Rightarrow> int list \<Rightarrow> verification_result result" where
  \<comment> \<open>the loop over the candidates: the predictions, the position, what is accepted so far\<close>
  "verify_from predictions i accepted [] =
     (case py_nth predictions (- 1) of
        Inl e \<Rightarrow> Inl e
      | Inr bonus \<Rightarrow> Inr \<lparr>vr_accepted_tokens = accepted, vr_bonus_token = Some bonus\<rparr>)"
| "verify_from predictions i accepted (candidate # cs) =
     (case py_nth predictions i of
        Inl e \<Rightarrow> Inl e
      | Inr predicted \<Rightarrow>
          if predicted \<noteq> candidate then Inr \<lparr>vr_accepted_tokens = accepted, vr_bonus_token = Some predicted\<rparr>
          else verify_from predictions (i + 1) (accepted @ [candidate]) cs)"

definition verify_candidates :: "(int list \<Rightarrow> int list result) \<Rightarrow> int list \<Rightarrow> int list \<Rightarrow> verification_result result" where
  "verify_candidates lm tokens candidates =
     (case lm (tokens @ candidates) of
        Inl e \<Rightarrow> Inl e
      | Inr predictions \<Rightarrow> verify_from predictions (int (length tokens) - 1) [] candidates)"

subsection \<open>Candidate generators\<close>

definition find_ngram_continuation :: "int list \<Rightarrow> int list \<Rightarrow> int \<Rightarrow> int \<Rightarrow> int \<Rightarrow> int option \<Rightarrow> int list" where
  \<comment> \<open>the two loops as the pairs they visit, in their order\<close>
  "find_ngram_continuation tail haystack num_candidates max_ngram_size min_ngram_size max_start =
     (if tail = [] \<or> haystack = [] then []
      else let largest = min max_ngram_size (int (length tail));
               search_ceiling = (case max_start of None \<Rightarrow> int (length haystack) | Some s \<Rightarrow> min s (int (length haystack)))
           in case List.find (\<lambda>(ngram_size, start). py_slice start (start + ngram_size) haystack = py_from (- ngram_size) tail)
                     (concat (map (\<lambda>ngram_size. map (Pair ngram_size) (rev [0..search_ceiling - ngram_size])) (rev [min_ngram_size..largest]))) of
                None \<Rightarrow> []
              | Some (ngram_size, start) \<Rightarrow>
                  py_slice (start + ngram_size) (start + ngram_size + num_candidates) haystack)"

definition prompt_lookup_propose :: "int \<Rightarrow> int \<Rightarrow> int list \<Rightarrow> int list \<Rightarrow> int \<Rightarrow> int list result" where
  "prompt_lookup_propose max_ngram_size min_ngram_size prompt_tokens generated_tokens num_candidates =
     Inr (let context_tokens = prompt_tokens @ generated_tokens
          in if context_tokens = [] then []
             else find_ngram_continuation (py_from (- max_ngram_size) context_tokens) prompt_tokens num_candidates
                    max_ngram_size min_ngram_size (Some (int (length prompt_tokens) - 1)))"

definition lookahead_propose :: "int \<Rightarrow> int \<Rightarrow> int list \<Rightarrow> int list \<Rightarrow> int \<Rightarrow> int list result" where
  "lookahead_propose max_ngram_size min_ngram_size prompt_tokens generated_tokens num_candidates =
     Inr (find_ngram_continuation (py_from (- max_ngram_size) generated_tokens) generated_tokens num_candidates
            max_ngram_size min_ngram_size (Some (int (length generated_tokens) - 1)))"

definition medusa_propose :: "(int list \<Rightarrow> int list result) \<Rightarrow> nat \<Rightarrow> int list \<Rightarrow> int list \<Rightarrow> int \<Rightarrow> int list result" where
  \<comment> \<open>every head is a copy of the output layer, so on the last hidden state it predicts what the model does\<close>
  "medusa_propose lm num_heads prompt_tokens generated_tokens num_candidates =
     (let context_tokens = prompt_tokens @ generated_tokens in
      if context_tokens = [] then Inr []
      else case lm context_tokens of
             Inl e \<Rightarrow> Inl e
           | Inr predictions \<Rightarrow>
               seq_results (map (\<lambda>head. py_nth predictions (- 1)) (py_take (min num_candidates (int num_heads)) [0..<num_heads])))"

subsection \<open>SpeculativeDecode\<close>

definition no_progress :: py_error where
  "no_progress = RuntimeError ''speculative decoding made no progress this round -- TargetModel.verify_candidates returned no accepted tokens and no bonus_token while still under max_new_tokens, violating its own contract''"

definition within_budget :: "int \<Rightarrow> int list \<Rightarrow> verification_result \<Rightarrow> int list" where
  "within_budget max_new_tokens generated result =
     py_take (max_new_tokens - int (length generated)) (vr_accepted_tokens result)"

definition grow :: "int \<Rightarrow> int list \<Rightarrow> verification_result \<Rightarrow> int list" where
  \<comment> \<open>the tokens after a round\<close>
  "grow max_new_tokens generated result =
     (let generated_tokens = generated @ within_budget max_new_tokens generated result
      in case vr_bonus_token result of
           None \<Rightarrow> generated_tokens
         | Some bonus \<Rightarrow>
             if int (length generated_tokens) < max_new_tokens then generated_tokens @ [bonus] else generated_tokens)"

function speculate :: "(int list \<Rightarrow> int list \<Rightarrow> verification_result result) \<Rightarrow> (int list \<Rightarrow> int list \<Rightarrow> int \<Rightarrow> int list result) \<Rightarrow>
    int list \<Rightarrow> int \<Rightarrow> int \<Rightarrow> speculative_decoding_run \<Rightarrow> speculative_decoding_run result" where
  \<comment> \<open>the loop, on the four variables it updates\<close>
  "speculate verify propose prompt_tokens max_new_tokens num_candidates run =
     (let generated = sd_generated_tokens run in
      if \<not> int (length generated) < max_new_tokens then Inr run
      else case propose prompt_tokens generated num_candidates of
             Inl e \<Rightarrow> Inl e
           | Inr candidates \<Rightarrow>
               (case verify (prompt_tokens @ generated) candidates of
                  Inl e \<Rightarrow> Inl e
                | Inr result \<Rightarrow>
                    if length (grow max_new_tokens generated result) = length generated then Inl no_progress
                    else speculate verify propose prompt_tokens max_new_tokens num_candidates
                           \<lparr>sd_generated_tokens = grow max_new_tokens generated result,
                            sd_forward_passes = Suc (sd_forward_passes run),
                            sd_tokens_accepted_from_candidates =
                              sd_tokens_accepted_from_candidates run + length (within_budget max_new_tokens generated result),
                            sd_tokens_proposed = sd_tokens_proposed run + length candidates\<rparr>))"
  by pat_completeness auto

lemma grow_length: "length generated \<le> length (grow k generated r)"
  by (auto simp: grow_def Let_def split: option.splits)

termination speculate
proof (relation "measure (\<lambda>(verify, propose, prompt, k, n, run). nat (k - int (length (sd_generated_tokens run))))")
  fix verify :: "int list \<Rightarrow> int list \<Rightarrow> verification_result result" and propose :: "int list \<Rightarrow> int list \<Rightarrow> int \<Rightarrow> int list result"
    and prompt :: "int list" and k n :: int and run :: speculative_decoding_run and generated candidates result
  assume "\<not> \<not> int (length generated) < k" "length (grow k generated result) \<noteq> length generated" "generated = sd_generated_tokens run"
  then show "((verify, propose, prompt, k, n, \<lparr>sd_generated_tokens = grow k generated result, sd_forward_passes = Suc (sd_forward_passes run),
      sd_tokens_accepted_from_candidates = sd_tokens_accepted_from_candidates run + length (within_budget k generated result),
      sd_tokens_proposed = sd_tokens_proposed run + length candidates\<rparr>), (verify, propose, prompt, k, n, run))
    \<in> measure (\<lambda>(verify, propose, prompt, k, n, run). nat (k - int (length (sd_generated_tokens run))))"
    using grow_length [of generated k result] by simp
qed simp

declare speculate.simps [simp del]

definition speculative_decode :: "(int list \<Rightarrow> int list \<Rightarrow> verification_result result) \<Rightarrow> (int list \<Rightarrow> int list \<Rightarrow> int \<Rightarrow> int list result) \<Rightarrow>
    int list \<Rightarrow> int \<Rightarrow> int \<Rightarrow> speculative_decoding_run result" where
  "speculative_decode verify propose prompt_tokens max_new_tokens num_candidates =
     speculate verify propose prompt_tokens max_new_tokens num_candidates
       \<lparr>sd_generated_tokens = [], sd_forward_passes = 0, sd_tokens_accepted_from_candidates = 0, sd_tokens_proposed = 0\<rparr>"

subsection \<open>Any target model: the loop returns\<close>

lemma speculate_step:
  assumes "int (length (sd_generated_tokens run)) < k" "propose p (sd_generated_tokens run) n = Inr cs"
    "verify (p @ sd_generated_tokens run) cs = Inr r" "length (grow k (sd_generated_tokens run) r) \<noteq> length (sd_generated_tokens run)"
  shows "speculate verify propose p k n run = speculate verify propose p k n
    \<lparr>sd_generated_tokens = grow k (sd_generated_tokens run) r, sd_forward_passes = Suc (sd_forward_passes run),
     sd_tokens_accepted_from_candidates = sd_tokens_accepted_from_candidates run + length (within_budget k (sd_generated_tokens run) r),
     sd_tokens_proposed = sd_tokens_proposed run + length cs\<rparr>"
  using assms by (subst speculate.simps) (simp add: Let_def)

lemma within_budget_take: "int (length g) \<le> k \<Longrightarrow> within_budget k g r = take (nat k - length g) (vr_accepted_tokens r)"
  by (simp add: within_budget_def py_take_def nat_diff_distrib')

lemma grow_bounds:
  assumes "int (length g) < k"
  shows "length (grow k g r) \<le> nat k" "length g + length (within_budget k g r) \<le> length (grow k g r)"
    "length (grow k g r) \<le> Suc (length g + length (within_budget k g r))"
  using assms by (auto simp: grow_def Let_def within_budget_take split: option.splits)

lemma speculate_Inr:
  assumes "speculate verify propose p k n run = Inr run'"
  shows "length (sd_generated_tokens run') = max (length (sd_generated_tokens run)) (nat k) \<and>
    sd_forward_passes run' + length (sd_generated_tokens run) \<le> sd_forward_passes run + length (sd_generated_tokens run') \<and>
    sd_tokens_accepted_from_candidates run' + length (sd_generated_tokens run) \<le> sd_tokens_accepted_from_candidates run + length (sd_generated_tokens run') \<and>
    length (sd_generated_tokens run') + sd_tokens_accepted_from_candidates run + sd_forward_passes run \<le>
      length (sd_generated_tokens run) + sd_tokens_accepted_from_candidates run' + sd_forward_passes run'"
  using assms
proof (induction verify propose p k n run rule: speculate.induct)
  case (1 verify propose p k n run)
  let ?g = "sd_generated_tokens run"
  show ?case
  proof (cases "int (length ?g) < k")
    case True
    with "1.prems" obtain cs r where r: "propose p ?g n = Inr cs" "verify (p @ ?g) cs = Inr r" "length (grow k ?g r) \<noteq> length ?g"
      by (subst (asm) speculate.simps) (auto simp: Let_def split: sum.splits if_splits)
    have step: "speculate verify propose p k n run = speculate verify propose p k n
        \<lparr>sd_generated_tokens = grow k ?g r, sd_forward_passes = Suc (sd_forward_passes run),
         sd_tokens_accepted_from_candidates = sd_tokens_accepted_from_candidates run + length (within_budget k ?g r),
         sd_tokens_proposed = sd_tokens_proposed run + length cs\<rparr>"
      using True r by (rule speculate_step)
    from True grow_bounds [OF True, of r] grow_length [of ?g k r] r(3)
      "1.IH" [OF refl _ r] "1.prems" show ?thesis unfolding step by simp
  next
    case False
    with "1.prems" show ?thesis by (subst (asm) speculate.simps) (auto simp: max_def)
  qed
qed

lemma speculate_Inl:
  assumes "speculate verify propose p k n run = Inl e" "\<And>g. \<exists>cs. propose p g n = Inr cs" "\<And>ts cs. \<exists>r. verify ts cs = Inr r"
  shows "e = no_progress \<and> (\<exists>ts cs r. verify ts cs = Inr r \<and> vr_accepted_tokens r = [] \<and> vr_bonus_token r = None)"
  using assms
proof (induction verify propose p k n run rule: speculate.induct)
  case (1 verify propose p k n run)
  let ?g = "sd_generated_tokens run"
  obtain cs where cs: "propose p ?g n = Inr cs" using "1.prems"(2) by blast
  obtain r where r: "verify (p @ ?g) cs = Inr r" using "1.prems"(3) by blast
  have lt: "int (length ?g) < k" using "1.prems"(1) by (subst (asm) speculate.simps) (auto simp: Let_def split: if_splits)
  show ?case
  proof (cases "length (grow k ?g r) = length ?g")
    case True
    with "1.prems"(1) lt cs r have "e = no_progress" by (subst (asm) speculate.simps) simp
    moreover have "within_budget k ?g r = []" using grow_bounds [OF lt, of r] True by simp
    moreover from this lt have "vr_accepted_tokens r = []" by (auto simp: within_budget_take)
    ultimately show ?thesis using True lt r by (auto simp: grow_def Let_def split: option.splits)
  next
    case False
    have step: "speculate verify propose p k n run = speculate verify propose p k n
        \<lparr>sd_generated_tokens = grow k ?g r, sd_forward_passes = Suc (sd_forward_passes run),
         sd_tokens_accepted_from_candidates = sd_tokens_accepted_from_candidates run + length (within_budget k ?g r),
         sd_tokens_proposed = sd_tokens_proposed run + length cs\<rparr>"
      using lt cs r False by (rule speculate_step)
    from "1.IH" [OF refl _ cs r False] "1.prems" lt show ?thesis unfolding step by blast
  qed
qed

text \<open>
  C24. Speculative decoding terminates for any target model and any candidate generator: it returns exactly
  \<open>max_new_tokens\<close> tokens after at most as many forward passes, with the counts of accepted tokens
  and passes accounting for the output, or reports that a verification made no progress, which happens
  only when the model returned neither an accepted token nor a bonus.
\<close>

theorem speculative_decode_returns:
  assumes "\<And>g. \<exists>cs. propose prompt g n = Inr cs" and "\<And>ts cs. \<exists>r. verify ts cs = Inr r"
  shows "case speculative_decode verify propose prompt k n of
      Inr run \<Rightarrow> length (sd_generated_tokens run) = nat k \<and> sd_forward_passes run \<le> nat k \<and>
        sd_tokens_accepted_from_candidates run \<le> nat k \<and> nat k \<le> sd_tokens_accepted_from_candidates run + sd_forward_passes run
    | Inl e \<Rightarrow> e = no_progress \<and> (\<exists>ts cs r. verify ts cs = Inr r \<and> vr_accepted_tokens r = [] \<and> vr_bonus_token r = None)"
proof (cases "speculative_decode verify propose prompt k n")
  case (Inl e)
  with speculate_Inl assms show ?thesis unfolding speculative_decode_def by fastforce
next
  case (Inr run)
  from speculate_Inr [OF Inr [unfolded speculative_decode_def]] Inr show ?thesis by simp
qed

subsection \<open>Greedy decoding\<close>

primrec greedy :: "(int list \<Rightarrow> int) \<Rightarrow> int list \<Rightarrow> nat \<Rightarrow> int list" where
  \<comment> \<open>the specification: one token after the other\<close>
  "greedy nxt prompt 0 = []"
| "greedy nxt prompt (Suc n) = greedy nxt prompt n @ [nxt (prompt @ greedy nxt prompt n)]"

lemma length_greedy [simp]: "length (greedy nxt p n) = n"
  by (induction n) simp_all

lemma greedy_add: "greedy nxt p (m + n) = greedy nxt p m @ greedy nxt (p @ greedy nxt p m) n"
  by (induction n) simp_all

lemma take_greedy: "take m (greedy nxt p n) = greedy nxt p (min m n)"
  by (metis append_take_drop_id greedy_add length_greedy append_eq_append_conv le_add_diff_inverse min.cobounded2 length_take min.commute)

lemma half_step: "(d :: nat) + 2 \<le> e \<or> d = 0 \<and> 1 \<le> e \<Longrightarrow> Suc (Suc d div 2) \<le> Suc e div 2"
  by presburger

locale target_model =
  fixes verify :: "int list \<Rightarrow> int list \<Rightarrow> verification_result result" and nxt :: "int list \<Rightarrow> int"
  assumes verified: "tokens \<noteq> [] \<Longrightarrow> \<exists>m \<le> length cs. take m cs = greedy nxt tokens m \<and>
      verify tokens cs = Inr \<lparr>vr_accepted_tokens = greedy nxt tokens m, vr_bonus_token = Some (nxt (tokens @ greedy nxt tokens m))\<rparr> \<and>
      (m < length cs \<longrightarrow> cs ! m \<noteq> nxt (tokens @ greedy nxt tokens m))"
begin

lemma round_greedy:
  assumes "p \<noteq> []" "i < nat k"
  obtains m where "m \<le> length cs" "take m cs = greedy nxt (p @ greedy nxt p i) m"
    "m < length cs \<Longrightarrow> cs ! m \<noteq> nxt (p @ greedy nxt p (i + m))"
    "verify (p @ greedy nxt p i) cs = Inr \<lparr>vr_accepted_tokens = greedy nxt (p @ greedy nxt p i) m, vr_bonus_token = Some (nxt (p @ greedy nxt p (i + m)))\<rparr>"
    "grow k (greedy nxt p i) \<lparr>vr_accepted_tokens = greedy nxt (p @ greedy nxt p i) m, vr_bonus_token = Some (nxt (p @ greedy nxt p (i + m)))\<rparr> =
       greedy nxt p (min (nat k) (Suc (i + m)))"
    "length (within_budget k (greedy nxt p i) \<lparr>vr_accepted_tokens = greedy nxt (p @ greedy nxt p i) m, vr_bonus_token = Some (nxt (p @ greedy nxt p (i + m)))\<rparr>) =
       min (nat k - i) m"
proof -
  have "p @ greedy nxt p i \<noteq> []" using assms by simp
  from verified [OF this, of cs] obtain m where m: "m \<le> length cs" "take m cs = greedy nxt (p @ greedy nxt p i) m"
      "m < length cs \<longrightarrow> cs ! m \<noteq> nxt ((p @ greedy nxt p i) @ greedy nxt (p @ greedy nxt p i) m)"
      "verify (p @ greedy nxt p i) cs = Inr \<lparr>vr_accepted_tokens = greedy nxt (p @ greedy nxt p i) m,
         vr_bonus_token = Some (nxt ((p @ greedy nxt p i) @ greedy nxt (p @ greedy nxt p i) m))\<rparr>" by blast
  have b: "(p @ greedy nxt p i) @ greedy nxt (p @ greedy nxt p i) m = p @ greedy nxt p (i + m)" by (simp add: greedy_add)
  let ?r = "\<lparr>vr_accepted_tokens = greedy nxt (p @ greedy nxt p i) m, vr_bonus_token = Some (nxt (p @ greedy nxt p (i + m)))\<rparr>"
  have w: "within_budget k (greedy nxt p i) ?r = greedy nxt (p @ greedy nxt p i) (min (nat k - i) m)"
    using assms by (subst within_budget_take) (auto simp: take_greedy)
  have "grow k (greedy nxt p i) ?r = greedy nxt p (min (nat k) (Suc (i + m)))"
  proof (cases "i + m < nat k")
    case True
    then show ?thesis by (simp add: grow_def w Let_def flip: greedy_add)
  next
    case False
    with assms show ?thesis by (simp add: grow_def w Let_def flip: greedy_add)
  qed
  with m w that [of m] b show ?thesis by simp
qed

lemma speculate_greedy:
  assumes "p \<noteq> []" "\<And>g. \<exists>cs. propose p g n = Inr cs" "sd_generated_tokens run = greedy nxt p i" "i \<le> nat k"
  shows "\<exists>run'. speculate verify propose p k n run = Inr run' \<and> sd_generated_tokens run' = greedy nxt p (nat k) \<and>
    sd_tokens_accepted_from_candidates run' + sd_tokens_proposed run \<le> sd_tokens_accepted_from_candidates run + sd_tokens_proposed run'"
  using assms(3,4)
proof (induction "nat k - i" arbitrary: i run rule: less_induct)
  case less
  show ?case
  proof (cases "i < nat k")
    case True
    obtain cs where cs: "propose p (greedy nxt p i) n = Inr cs" using assms(2) by blast
    obtain m where m: "m \<le> length cs" "verify (p @ greedy nxt p i) cs = Inr \<lparr>vr_accepted_tokens = greedy nxt (p @ greedy nxt p i) m, vr_bonus_token = Some (nxt (p @ greedy nxt p (i + m)))\<rparr>"
        "grow k (greedy nxt p i) \<lparr>vr_accepted_tokens = greedy nxt (p @ greedy nxt p i) m, vr_bonus_token = Some (nxt (p @ greedy nxt p (i + m)))\<rparr> =
           greedy nxt p (min (nat k) (Suc (i + m)))"
        "length (within_budget k (greedy nxt p i) \<lparr>vr_accepted_tokens = greedy nxt (p @ greedy nxt p i) m, vr_bonus_token = Some (nxt (p @ greedy nxt p (i + m)))\<rparr>) =
           min (nat k - i) m"
      using round_greedy [OF assms(1) True, of cs] by metis
    have s: "speculate verify propose p k n run = speculate verify propose p k n
        \<lparr>sd_generated_tokens = greedy nxt p (min (nat k) (Suc (i + m))), sd_forward_passes = Suc (sd_forward_passes run),
         sd_tokens_accepted_from_candidates = sd_tokens_accepted_from_candidates run + min (nat k - i) m,
         sd_tokens_proposed = sd_tokens_proposed run + length cs\<rparr>" (is "_ = speculate _ _ _ _ _ ?run")
      using speculate_step [where run = run and cs = cs, OF _ _ _ _] cs m less.prems True by simp
    obtain run' where "speculate verify propose p k n ?run = Inr run'" "sd_generated_tokens run' = greedy nxt p (nat k)"
        "sd_tokens_accepted_from_candidates run' + sd_tokens_proposed ?run \<le> sd_tokens_accepted_from_candidates ?run + sd_tokens_proposed run'"
      using less.hyps [of "min (nat k) (Suc (i + m))" ?run] True by fastforce
    with s m(1) show ?thesis by auto
  next
    case False
    with less.prems show ?thesis by (subst speculate.simps) (auto simp: not_less)
  qed
qed

lemma speculate_pairs:
  \<comment> \<open>a generator whose first candidate is always right yields two tokens a pass\<close>
  assumes "p \<noteq> []" "\<And>g. \<exists>cs. propose p g n = Inr (nxt (p @ g) # cs)" "sd_generated_tokens run = greedy nxt p i" "i \<le> nat k"
  shows "\<exists>run'. speculate verify propose p k n run = Inr run' \<and> sd_forward_passes run' \<le> sd_forward_passes run + Suc (nat k - i) div 2"
  using assms(3,4)
proof (induction "nat k - i" arbitrary: i run rule: less_induct)
  case less
  show ?case
  proof (cases "i < nat k")
    case True
    obtain cs where cs: "propose p (greedy nxt p i) n = Inr (nxt (p @ greedy nxt p i) # cs)" (is "_ = Inr ?cs") using assms(2) by blast
    obtain m where m: "m < length ?cs \<Longrightarrow> ?cs ! m \<noteq> nxt (p @ greedy nxt p (i + m))"
        "verify (p @ greedy nxt p i) ?cs = Inr \<lparr>vr_accepted_tokens = greedy nxt (p @ greedy nxt p i) m, vr_bonus_token = Some (nxt (p @ greedy nxt p (i + m)))\<rparr>"
        "grow k (greedy nxt p i) \<lparr>vr_accepted_tokens = greedy nxt (p @ greedy nxt p i) m, vr_bonus_token = Some (nxt (p @ greedy nxt p (i + m)))\<rparr> =
           greedy nxt p (min (nat k) (Suc (i + m)))"
        "length (within_budget k (greedy nxt p i) \<lparr>vr_accepted_tokens = greedy nxt (p @ greedy nxt p i) m, vr_bonus_token = Some (nxt (p @ greedy nxt p (i + m)))\<rparr>) =
           min (nat k - i) m"
      using round_greedy [OF assms(1) True, of ?cs] by metis
    have "m \<noteq> 0" using m(1) by (cases m) simp_all
    have "speculate verify propose p k n run = speculate verify propose p k n
        \<lparr>sd_generated_tokens = greedy nxt p (min (nat k) (Suc (i + m))), sd_forward_passes = Suc (sd_forward_passes run),
         sd_tokens_accepted_from_candidates = sd_tokens_accepted_from_candidates run + min (nat k - i) m,
         sd_tokens_proposed = sd_tokens_proposed run + length ?cs\<rparr>" (is "_ = speculate _ _ _ _ _ ?run")
      using speculate_step [where run = run and cs = ?cs, OF _ _ _ _] cs m less.prems True by simp
    moreover obtain run' where "speculate verify propose p k n ?run = Inr run'"
        "sd_forward_passes run' \<le> sd_forward_passes ?run + Suc (nat k - min (nat k) (Suc (i + m))) div 2"
      using less.hyps [of "min (nat k) (Suc (i + m))" ?run] True by fastforce
    moreover have "Suc (Suc (nat k - min (nat k) (Suc (i + m))) div 2) \<le> Suc (nat k - i) div 2" 
    proof -
      have "nat k - min (nat k) (Suc (i + m)) + 2 \<le> nat k - i \<or> nat k - min (nat k) (Suc (i + m)) = 0 \<and> 1 \<le> nat k - i"
        using \<open>m \<noteq> 0\<close> True by auto
      then show ?thesis by (rule half_step)
    qed
    ultimately show ?thesis by (intro exI [of _ run']) simp
  next
    case False
    with less.prems show ?thesis by (subst speculate.simps) (auto simp: Let_def not_less)
  qed
qed

end

subsection \<open>HFTargetModel is such a model\<close>

definition causal :: "(int list \<Rightarrow> int list result) \<Rightarrow> (int list \<Rightarrow> int) \<Rightarrow> bool" where
  \<comment> \<open>a causal language model: the prediction at a position depends on the tokens up to it, and a
      forward pass over tokens does not fail\<close>
  "causal lm nxt \<longleftrightarrow> (\<forall>xs. xs \<noteq> [] \<longrightarrow> lm xs = Inr (map (\<lambda>j. nxt (take (Suc j) xs)) [0..<length xs]))"

lemma verify_from_greedy:
  assumes "tokens \<noteq> []" "acc = greedy nxt tokens (length acc)"
  shows "\<exists>m \<le> length cs. take m cs = greedy nxt (tokens @ acc) m \<and>
    verify_from (map (\<lambda>j. nxt (take (Suc j) (tokens @ acc @ cs))) [0..<length (tokens @ acc @ cs)]) (int (length (tokens @ acc)) - 1) acc cs =
      Inr \<lparr>vr_accepted_tokens = acc @ take m cs, vr_bonus_token = Some (nxt (tokens @ acc @ take m cs))\<rparr> \<and>
    (m < length cs \<longrightarrow> cs ! m \<noteq> nxt (tokens @ acc @ take m cs))"
  using assms(2)
proof (induction cs arbitrary: acc)
  case Nil
  have "last (map (\<lambda>j. nxt (take (Suc j) (tokens @ acc))) [0..<length (tokens @ acc)]) = nxt (tokens @ acc)"
    using assms(1) by (simp add: last_map)
  with assms(1) show ?case by (simp add: py_nth_last)
next
  case (Cons c cs)
  let ?xs = "tokens @ acc @ c # cs"
  let ?ps = "map (\<lambda>j. nxt (take (Suc j) ?xs)) [0..<length ?xs]"
  define i where "i = length (tokens @ acc) - 1"
  have i: "int (length (tokens @ acc)) - 1 = int i" "i < length ?xs" "Suc i = length (tokens @ acc)"
    using assms(1) by (auto simp: i_def Suc_le_eq)
  have "?ps ! i = nxt (take (Suc i) ?xs)" using i(2) by (subst nth_map) (simp_all del: upt_Suc)
  then have p: "py_nth ?ps (int (length (tokens @ acc)) - 1) = Inr (nxt (tokens @ acc))"
    unfolding i(1) using i(2,3) by (subst py_nth_nonneg) (simp_all del: upt_Suc)
  show ?case
  proof (cases "nxt (tokens @ acc) = c")
    case True
    have "acc @ [c] = greedy nxt tokens (length (acc @ [c]))" using Cons.prems True by simp
    from Cons.IH [OF this] obtain m where m: "m \<le> length cs" "take m cs = greedy nxt (tokens @ acc @ [c]) m"
      "verify_from (map (\<lambda>j. nxt (take (Suc j) (tokens @ (acc @ [c]) @ cs))) [0..<length (tokens @ (acc @ [c]) @ cs)])
         (int (length (tokens @ acc @ [c])) - 1) (acc @ [c]) cs =
        Inr \<lparr>vr_accepted_tokens = (acc @ [c]) @ take m cs, vr_bonus_token = Some (nxt (tokens @ (acc @ [c]) @ take m cs))\<rparr>"
      "m < length cs \<longrightarrow> cs ! m \<noteq> nxt (tokens @ (acc @ [c]) @ take m cs)"
      by blast
    have "tokens @ (acc @ [c]) @ cs = ?xs" "int (length (tokens @ acc @ [c])) - 1 = int (length (tokens @ acc)) - 1 + 1" by simp_all
    note v = m(3) [unfolded this]
    have "greedy nxt (tokens @ acc) (Suc m) = c # greedy nxt (tokens @ acc @ [c]) m"
      using greedy_add [of nxt "tokens @ acc" 1 m] True by simp
    with m(1,2,4) v p True show ?thesis by (intro exI [of _ "Suc m"]) (simp del: upt_Suc)
  next
    case False
    with p show ?thesis by (intro exI [of _ 0]) (simp del: upt_Suc)
  qed
qed

lemma hf_target_model: "causal lm nxt \<Longrightarrow> target_model (verify_candidates lm) nxt"
proof
  fix tokens cs :: "int list"
  assume "causal lm nxt" "tokens \<noteq> []"
  with verify_from_greedy [of tokens "[]" nxt cs]
  show "\<exists>m \<le> length cs. take m cs = greedy nxt tokens m \<and>
      verify_candidates lm tokens cs = Inr \<lparr>vr_accepted_tokens = greedy nxt tokens m, vr_bonus_token = Some (nxt (tokens @ greedy nxt tokens m))\<rparr> \<and>
      (m < length cs \<longrightarrow> cs ! m \<noteq> nxt (tokens @ greedy nxt tokens m))"
    by (fastforce simp: causal_def verify_candidates_def)
qed

definition predictions_of :: "(int list \<Rightarrow> int) \<Rightarrow> int list \<Rightarrow> int list result" where
  "predictions_of nxt xs =
     (if xs = [] then Inl (OtherException ''IndexError'') else Inr (map (\<lambda>j. nxt (take (Suc j) xs)) [0..<length xs]))"

lemma causal_predictions_of: "causal (predictions_of nxt) nxt"
  by (simp add: causal_def predictions_of_def)

interpretation hf_target: target_model "verify_candidates (predictions_of nxt)" nxt for nxt
  by (rule hf_target_model [OF causal_predictions_of])

text \<open>
  C15. Speculative decoding is greedy decoding. On a causal language model and a prompt that is not empty, whatever
  the candidate generator proposes, the loop returns the tokens that decoding one token at a time
  would, in at most as many forward passes, and reports no more accepted tokens than were proposed.
\<close>

theorem speculative_decode_is_greedy:
  assumes "causal lm nxt" and "prompt \<noteq> []" and "\<And>g. \<exists>cs. propose prompt g n = Inr cs"
  shows "\<exists>run. speculative_decode (verify_candidates lm) propose prompt k n = Inr run \<and>
    sd_generated_tokens run = greedy nxt prompt (nat k) \<and> sd_forward_passes run \<le> nat k \<and>
    sd_tokens_accepted_from_candidates run \<le> sd_tokens_proposed run"
proof -
  obtain run where run: "speculative_decode (verify_candidates lm) propose prompt k n = Inr run" "sd_generated_tokens run = greedy nxt prompt (nat k)"
      "sd_tokens_accepted_from_candidates run \<le> sd_tokens_proposed run"
    using target_model.speculate_greedy [where verify = "verify_candidates lm" and nxt = nxt and propose = propose and p = prompt and n = n,
      OF hf_target_model [OF assms(1)] assms(2,3), where i = 0 and run = "\<lparr>sd_generated_tokens = [],
      sd_forward_passes = 0, sd_tokens_accepted_from_candidates = 0, sd_tokens_proposed = 0\<rparr>" and k = k]
    by (auto simp: speculative_decode_def)
  with speculate_Inr [OF run(1) [unfolded speculative_decode_def]] show ?thesis by auto
qed

text \<open>
  With Medusa heads the loop needs at most half as many passes as tokens, rounded up: the first head, a
  copy of the output layer, always predicts the token the model itself would produce.
\<close>

theorem medusa_halves_passes:
  assumes "causal lm nxt" and "prompt \<noteq> []" and "0 < num_heads" and "0 < n"
  shows "\<exists>run. speculative_decode (verify_candidates lm) (medusa_propose lm num_heads) prompt k n = Inr run \<and>
    sd_generated_tokens run = greedy nxt prompt (nat k) \<and> 2 * sd_forward_passes run \<le> Suc (nat k)"
proof -
  have c: "\<exists>cs. medusa_propose lm num_heads prompt g n = Inr (nxt (prompt @ g) # cs)" for g
  proof -
    let ?xs = "prompt @ g"
    have "lm ?xs = Inr (map (\<lambda>j. nxt (take (Suc j) ?xs)) [0..<length ?xs])" using assms(1,2) by (simp add: causal_def)
    moreover have "py_nth (map (\<lambda>j. nxt (take (Suc j) ?xs)) [0..<length ?xs]) (- 1) = Inr (nxt ?xs)"
      using assms(2) by (subst py_nth_last) (simp_all add: last_map)
    moreover obtain h hs where "py_take (min n (int num_heads)) [0..<num_heads] = h # hs"
      using assms(3,4) by (cases "py_take (min n (int num_heads)) [0..<num_heads]") (auto simp: py_take_def)
    ultimately have "medusa_propose lm num_heads prompt g n = seq_results (map Inr (map (\<lambda>h. nxt ?xs) (h # hs)))"
      using assms(2) by (simp add: medusa_propose_def comp_def del: seq_results.simps list.map)
    then show ?thesis unfolding seq_results_map by simp
  qed
  have c': "\<exists>cs. medusa_propose lm num_heads prompt g n = Inr cs" for g using c by blast
  let ?run = "\<lparr>sd_generated_tokens = [], sd_forward_passes = 0, sd_tokens_accepted_from_candidates = 0, sd_tokens_proposed = 0\<rparr>"
  note model = hf_target_model [OF assms(1)]
  from target_model.speculate_pairs [where propose = "medusa_propose lm num_heads" and p = prompt and n = n, OF model assms(2) c, where i = 0 and run = ?run and k = k]
    target_model.speculate_greedy [where propose = "medusa_propose lm num_heads" and p = prompt and n = n, OF model assms(2) c', where i = 0 and run = ?run and k = k]
  show ?thesis by (auto simp: speculative_decode_def)
qed

definition ex_next :: "int list \<Rightarrow> int" where
  "ex_next xs = (if length xs mod 2 = 0 then last xs + 1 else hd xs)"

theorem speculative_decode_is_greedy_witness:
  "causal (predictions_of ex_next) ex_next \<and>
   (\<exists>run. speculative_decode (verify_candidates (predictions_of ex_next)) (prompt_lookup_propose 3 1) [4, 5, 4, 5] 3 2 = Inr run \<and>
     sd_generated_tokens run = [6, 4, 5] \<and> sd_forward_passes run \<le> 3)"
proof -
  have p: "\<exists>cs. prompt_lookup_propose 3 1 [4, 5, 4, 5] g 2 = Inr cs" for g by (simp add: prompt_lookup_propose_def)
  have "greedy ex_next [4, 5, 4, 5] (nat 3) = [6, 4, 5]" by code_simp
  with speculative_decode_is_greedy [OF causal_predictions_of, where nxt = ex_next and propose = "prompt_lookup_propose 3 1" and prompt = "[4, 5, 4, 5]"
      and n = 2 and k = 3] p causal_predictions_of
  show ?thesis by auto
qed

theorem medusa_halves_passes_witness:
  "\<exists>run. speculative_decode (verify_candidates (predictions_of ex_next)) (medusa_propose (predictions_of ex_next) 2) [4, 5] 5 3 = Inr run \<and>
     2 * sd_forward_passes run \<le> 6 \<and> length (sd_generated_tokens run) = 5"
  using medusa_halves_passes [OF causal_predictions_of, of "[4, 5]" 2 3 ex_next 5] by auto

theorem speculative_decode_returns_witness:
  "\<exists>run. speculative_decode (\<lambda>ts cs. Inr \<lparr>vr_accepted_tokens = take 1 cs, vr_bonus_token = Some 0\<rparr>) (lookahead_propose 3 1) [1] 4 2 = Inr run \<and>
     length (sd_generated_tokens run) = 4 \<and> sd_forward_passes run \<le> 4 \<and> 4 \<le> sd_tokens_accepted_from_candidates run + sd_forward_passes run"
  using speculative_decode_returns [where propose = "lookahead_propose 3 1" and prompt = "[1]" and n = 2 and k = 4
    and verify = "\<lambda>ts cs. Inr \<lparr>vr_accepted_tokens = take 1 cs, vr_bonus_token = Some 0\<rparr>"]
  by (auto simp: lookahead_propose_def split: sum.splits)

subsection \<open>The n-gram search\<close>

definition later :: "int \<times> int \<Rightarrow> int \<times> int \<Rightarrow> bool" where
  \<comment> \<open>the order of the search: larger n-grams first, and the latest start first\<close>
  "later p q \<longleftrightarrow> fst q < fst p \<or> fst q = fst p \<and> snd q < snd p"

lemma sorted_search:
  "sorted_wrt (\<lambda>a b. b < a) ns \<Longrightarrow> sorted_wrt later (concat (map (\<lambda>n. map (Pair n) (rev [0..c - n])) ns))"
proof (induction ns)
  case (Cons n ns)
  have "sorted_wrt (\<lambda>a b. b < a) (rev [0..c - n])" by (simp add: sorted_wrt_rev)
  then have "sorted_wrt later (map (Pair n) (rev [0..c - n]))"
    by (simp add: sorted_wrt_map later_def)
  moreover have "\<forall>x \<in> set (map (Pair n) (rev [0..c - n])). \<forall>y \<in> set (concat (map (\<lambda>n. map (Pair n) (rev [0..c - n])) ns)). later x y"
    using Cons.prems by (auto simp: later_def)
  ultimately show ?case using Cons by (simp add: sorted_wrt_append)
qed simp

lemma find_first_sorted:
  assumes "List.find P xs = Some x" "sorted_wrt later xs" "y \<in> set xs" "later y x"
  shows "\<not> P y"
proof -
  from assms(1) obtain i where i: "i < length xs" "x = xs ! i" "\<forall>j<i. \<not> P (xs ! j)" by (auto simp: find_Some_iff)
  from assms(3) obtain j where j: "j < length xs" "y = xs ! j" by (auto simp: in_set_conv_nth)
  have "\<not> (i \<le> j)"
  proof
    assume "i \<le> j"
    then consider "i = j" | "i < j" by linarith
    then show False
      using assms(2,4) i(2) j sorted_wrt_nth_less [OF assms(2), of i j] by cases (auto simp: later_def)
  qed
  with i j show ?thesis by simp
qed

definition occurs_at :: "int list \<Rightarrow> int list \<Rightarrow> int \<Rightarrow> int \<Rightarrow> int \<Rightarrow> int \<Rightarrow> int \<Rightarrow> bool" where
  \<comment> \<open>the last \<open>n\<close> tokens of \<open>tail\<close>, a size allowed, occur in \<open>h\<close> from \<open>s\<close> on and end before the limit\<close>
  "occurs_at tail h max_n min_n limit n s \<longleftrightarrow> min_n \<le> n \<and> n \<le> min max_n (int (length tail)) \<and> 0 \<le> s \<and>
     s + n \<le> min limit (int (length h)) \<and> take (nat n) (drop (nat s) h) = drop (length tail - nat n) tail"

text \<open>
  The search proposes what followed the latest occurrence of the longest end of the tail that
  occurs at all before the ceiling.
\<close>

theorem find_ngram_longest_latest:
  assumes "1 \<le> min_n" and "0 \<le> num"
  shows "(\<nexists>n s. occurs_at tail h max_n min_n limit n s) \<and> find_ngram_continuation tail h num max_n min_n (Some limit) = [] \<or>
    (\<exists>n s. occurs_at tail h max_n min_n limit n s \<and> (\<forall>n' s'. occurs_at tail h max_n min_n limit n' s' \<longrightarrow> n' < n \<or> n' = n \<and> s' \<le> s) \<and>
       find_ngram_continuation tail h num max_n min_n (Some limit) = take (nat num) (drop (nat (s + n)) h))"
proof -
  let ?c = "min limit (int (length h))" and ?l = "min max_n (int (length tail))"
  let ?P = "\<lambda>(n, s). py_slice s (s + n) h = py_from (- n) tail"
  let ?xs = "concat (map (\<lambda>n. map (Pair n) (rev [0..?c - n])) (rev [min_n..?l]))"
  have in_xs: "(n, s) \<in> set ?xs \<longleftrightarrow> min_n \<le> n \<and> n \<le> ?l \<and> 0 \<le> s \<and> s + n \<le> ?c" for n s by (auto simp: image_iff)
  have P: "?P (n, s) \<longleftrightarrow> take (nat n) (drop (nat s) h) = drop (length tail - nat n) tail" if "(n, s) \<in> set ?xs" for n s
  proof -
    from that in_xs assms(1) have "0 < n" "0 \<le> s" by auto
    then show ?thesis by (simp add: py_slice_nonneg py_from_neg nat_add_distrib)
  qed
  have st: "occurs_at tail h max_n min_n limit n s \<longleftrightarrow> (n, s) \<in> set ?xs \<and> ?P (n, s)" for n s
    using P [of n s] unfolding occurs_at_def in_xs by auto
  have srt: "sorted_wrt later ?xs" by (rule sorted_search) (simp add: sorted_wrt_rev)
  show ?thesis
  proof (cases "tail = [] \<or> h = []")
    case True
    then have "\<not> occurs_at tail h max_n min_n limit n s" for n s using assms(1) by (auto simp: occurs_at_def)
    with True show ?thesis by (auto simp: find_ngram_continuation_def)
  next
    case False
    show ?thesis
    proof (cases "List.find ?P ?xs")
      case None
      then have "\<not> occurs_at tail h max_n min_n limit n s" for n s unfolding st by (auto simp: find_None_iff)
      with None False show ?thesis by (auto simp: find_ngram_continuation_def)
    next
      case (Some q)
      obtain n s where q: "q = (n, s)" by (cases q)
      have ns: "occurs_at tail h max_n min_n limit n s" using Some unfolding st q by (auto simp: find_Some_iff dest: nth_mem)
      have "n' < n \<or> n' = n \<and> s' \<le> s" if "occurs_at tail h max_n min_n limit n' s'" for n' s'
      proof -
        have "\<not> later (n', s') q" using find_first_sorted [OF Some srt] that unfolding st by blast
        then show ?thesis by (auto simp: later_def q)
      qed
      moreover have "find_ngram_continuation tail h num max_n min_n (Some limit) = take (nat num) (drop (nat (s + n)) h)"
        using False Some ns assms(1,2) q
        by (simp add: find_ngram_continuation_def occurs_at_def py_slice_nonneg nat_add_distrib)
      ultimately show ?thesis using ns by blast
    qed
  qed
qed

end
