(* ===== verification/Kv_Allocation.thy ===== *)
theory Kv_Allocation
  imports Cag_Entities "HOL-Library.Product_Lexorder"
begin

text \<open>
  KV-cache allocation: the port \<^verbatim>\<open>KVCacheAllocator\<close> with its contract as a locale, the fragmentation
  measures of \<^verbatim>\<open>src/cag/domain/allocation_metrics.py\<close>, and \<^verbatim>\<open>ContiguousKVAllocator\<close>. A Python
  \<^verbatim>\<open>dict\<close> is the list of its items in insertion order.
\<close>

subsection \<open>Text of the exceptions\<close>

definition hex2 :: "char \<Rightarrow> string" where
  "hex2 c = (let n = of_char c :: nat in [''0123456789abcdef'' ! (n div 16), ''0123456789abcdef'' ! (n mod 16)])"

definition repr_char :: "char \<Rightarrow> char \<Rightarrow> string" where
  "repr_char q c =
     (let n = of_char c :: nat in
      if c = q \<or> c = CHR 0x5C then [CHR 0x5C, c]
      else if n = 9 then [CHR 0x5C, CHR ''t''] else if n = 10 then [CHR 0x5C, CHR ''n''] else if n = 13 then [CHR 0x5C, CHR ''r'']
      else if n < 32 \<or> 127 \<le> n \<and> n \<le> 160 \<or> n = 173 then [CHR 0x5C, CHR ''x''] @ hex2 c else [c])"

definition py_repr :: "string \<Rightarrow> string" where
  \<comment> \<open>\<open>repr\<close> of a string\<close>
  "py_repr s =
     (let q = (if CHR 0x27 \<in> set s \<and> CHR 0x22 \<notin> set s then CHR 0x22 else CHR 0x27)
      in [q] @ concat (map (repr_char q) s) @ [q])"

definition already_allocated :: "string \<Rightarrow> py_error" where
  "already_allocated s = ValueError (''sequence '' @ py_repr s @ '' is already allocated'')"

definition unknown_sequence :: "string \<Rightarrow> py_error" where
  "unknown_sequence s = KeyError (''unknown sequence '' @ py_repr s)"

subsection \<open>Fragmentation\<close>

definition internal_fragmentation :: "int \<Rightarrow> int \<Rightarrow> rat result" where
  "internal_fragmentation physical_slots_used logical_tokens_held =
     (if physical_slots_used < 0 \<or> logical_tokens_held < 0 then Inl (ValueError ''slot counts must be non-negative'')
      else if physical_slots_used < logical_tokens_held then Inl (ValueError ''logical tokens held cannot exceed physical slots used'')
      else if physical_slots_used = 0 then Inr 0
      else Inr (fl (of_int (physical_slots_used - logical_tokens_held) / of_int physical_slots_used)))"

definition external_fragmentation :: "int list \<Rightarrow> rat result" where
  "external_fragmentation free_runs =
     (if \<exists>r \<in> set free_runs. r < 0 then Inl (ValueError ''free run sizes must be non-negative'')
      else let total_free = sum_list free_runs
           in if total_free = 0 then Inr 0
              else Inr (fl (1 - fl (of_int (Max (set free_runs)) / of_int total_free))))"

subsection \<open>The port and its contract\<close>

record 's kv_ops =
  kv_allocate :: "'s \<Rightarrow> string \<Rightarrow> int \<Rightarrow> bool result \<times> 's"
  kv_extend :: "'s \<Rightarrow> string \<Rightarrow> int \<Rightarrow> bool result \<times> 's"
  kv_fork :: "'s \<Rightarrow> string \<Rightarrow> string \<Rightarrow> bool result \<times> 's"
  kv_free :: "'s \<Rightarrow> string \<Rightarrow> unit result \<times> 's"
  kv_physical_slots_used :: "'s \<Rightarrow> int"
  kv_logical_tokens_held :: "'s \<Rightarrow> int"
  kv_free_runs :: "'s \<Rightarrow> int list"

datatype kv_call = Allocate string int | Extend string int | Fork string string | Free string

fun kv_step :: "('s, 'z) kv_ops_scheme \<Rightarrow> kv_call \<Rightarrow> 's \<Rightarrow> bool result \<times> 's" where
  "kv_step ops (Allocate i n) s = kv_allocate ops s i n"
| "kv_step ops (Extend i n) s = kv_extend ops s i n"
| "kv_step ops (Fork p c) s = kv_fork ops s p c"
| "kv_step ops (Free i) s = (case kv_free ops s i of (r, s') \<Rightarrow> (map_sum (\<lambda>e. e) (\<lambda>_. True) r, s'))"

fun kv_run :: "('s, 'z) kv_ops_scheme \<Rightarrow> kv_call list \<Rightarrow> 's \<Rightarrow> bool result list \<times> 's" where
  "kv_run ops [] s = ([], s)"
| "kv_run ops (c # cs) s = (case kv_step ops c s of (r, s1) \<Rightarrow> (case kv_run ops cs s1 of (rs, s2) \<Rightarrow> (r # rs, s2)))"

text \<open>The specification: the number of tokens each sequence holds. A call that cannot be served says so and changes nothing.\<close>

fun spec_error :: "kv_call \<Rightarrow> (string \<rightharpoonup> int) \<Rightarrow> bool" where
  "spec_error (Allocate i n) m = (m i \<noteq> None \<or> n < 0)"
| "spec_error (Extend i n) m = (m i = None \<or> n < 0)"
| "spec_error (Fork p c) m = (m p = None \<or> m c \<noteq> None)"
| "spec_error (Free i) m = (m i = None)"

fun spec_update :: "kv_call \<Rightarrow> (string \<rightharpoonup> int) \<Rightarrow> (string \<rightharpoonup> int)" where
  "spec_update (Allocate i n) m = m(i \<mapsto> n)"
| "spec_update (Extend i n) m = m(i := map_option (\<lambda>k. k + n) (m i))"
| "spec_update (Fork p c) m = m(c := m p)"
| "spec_update (Free i) m = m(i := None)"

fun spec_run :: "kv_call list \<Rightarrow> bool result list \<Rightarrow> (string \<rightharpoonup> int) \<Rightarrow> (string \<rightharpoonup> int)" where
  "spec_run (c # cs) (r # rs) m = spec_run cs rs (if r = Inr True then spec_update c m else m)"
| "spec_run _ _ m = m"

fun spec_errors :: "kv_call list \<Rightarrow> bool result list \<Rightarrow> (string \<rightharpoonup> int) \<Rightarrow> bool" where
  \<comment> \<open>the calls that raise are those the specification rejects\<close>
  "spec_errors (c # cs) (r # rs) m = ((isl r \<longleftrightarrow> spec_error c m) \<and> spec_errors cs rs (if r = Inr True then spec_update c m else m))"
| "spec_errors [] [] m = True"
| "spec_errors _ _ m = False"

locale kv_allocator =
  fixes ops :: "'s kv_ops" and ok :: "'s \<Rightarrow> bool" and tokens :: "'s \<Rightarrow> string \<rightharpoonup> int"
  assumes step_ok: "ok s \<Longrightarrow> kv_step ops c s = (r, s') \<Longrightarrow> ok s'"
    and step_error: "ok s \<Longrightarrow> kv_step ops c s = (r, s') \<Longrightarrow> isl r \<longleftrightarrow> spec_error c (tokens s)"
    and step_tokens: "ok s \<Longrightarrow> kv_step ops c s = (r, s') \<Longrightarrow> tokens s' = (if r = Inr True then spec_update c (tokens s) else tokens s)"
    and held: "ok s \<Longrightarrow> kv_logical_tokens_held ops s = (\<Sum>i \<in> dom (tokens s). the (tokens s i))"
begin

lemma run_ok: "ok s \<Longrightarrow> kv_run ops cs s = (rs, s') \<Longrightarrow> ok s'"
  by (induction cs arbitrary: s rs) (auto split: prod.splits dest: step_ok)

lemma run_spec: "ok s \<Longrightarrow> kv_run ops cs s = (rs, s') \<Longrightarrow> tokens s' = spec_run cs rs (tokens s) \<and> spec_errors cs rs (tokens s)"
proof (induction cs arbitrary: s rs)
  case (Cons c cs)
  obtain r s1 where 1: "kv_step ops c s = (r, s1)" by fastforce
  with Cons.prems(2) obtain rs1 where 2: "kv_run ops cs s1 = (rs1, s')" "rs = r # rs1" by (auto split: prod.splits)
  from Cons.IH [OF step_ok [OF Cons.prems(1) 1] 2(1)] step_error [OF Cons.prems(1) 1] step_tokens [OF Cons.prems(1) 1] 2(2)
  show ?case by simp
qed simp

lemma run_held:
  assumes "ok s" "kv_run ops cs s = (rs, s')"
  shows "kv_logical_tokens_held ops s' = (\<Sum>i \<in> dom (spec_run cs rs (tokens s)). the (spec_run cs rs (tokens s) i))"
  using held [OF run_ok [OF assms]] run_spec [OF assms] by simp

end

subsection \<open>ContiguousKVAllocator\<close>

record contiguous_allocator =
  ca_total_slots :: int
  ca_regions :: "(string \<times> int \<times> int) list"

definition make_contiguous :: "int \<Rightarrow> contiguous_allocator result" where
  "make_contiguous total_slots =
     (if total_slots < 1 then Inl (ValueError ''total_slots must be at least 1'')
      else Inr \<lparr>ca_total_slots = total_slots, ca_regions = []\<rparr>)"

definition sorted_regions :: "contiguous_allocator \<Rightarrow> (int \<times> int) list" where
  "sorted_regions a = sort (map snd (ca_regions a))"

fun first_fit :: "int \<Rightarrow> int \<Rightarrow> int \<Rightarrow> (int \<times> int) list \<Rightarrow> int option" where
  \<comment> \<open>the loop of \<open>_find_run\<close>\<close>
  "first_fit slots needed cursor [] = (if needed \<le> slots - cursor then Some cursor else None)"
| "first_fit slots needed cursor ((start, len) # occupied) =
     (if needed \<le> start - cursor then Some cursor else first_fit slots needed (max cursor (start + len)) occupied)"

definition find_run :: "contiguous_allocator \<Rightarrow> int \<Rightarrow> string option \<Rightarrow> int option" where
  "find_run a needed ignoring =
     (if needed = 0 then Some 0
      else first_fit (ca_total_slots a) needed 0 (sort (map snd (filter (\<lambda>e. Some (fst e) \<noteq> ignoring) (ca_regions a)))))"

definition contiguous_allocate :: "contiguous_allocator \<Rightarrow> string \<Rightarrow> int \<Rightarrow> bool result \<times> contiguous_allocator" where
  "contiguous_allocate a sequence_id num_tokens =
     (if map_of (ca_regions a) sequence_id \<noteq> None then (Inl (already_allocated sequence_id), a)
      else if num_tokens < 0 then (Inl (ValueError ''num_tokens must be non-negative''), a)
      else case find_run a num_tokens None of
             None \<Rightarrow> (Inr False, a)
           | Some start \<Rightarrow> (Inr True, a\<lparr>ca_regions := dict_set sequence_id (start, num_tokens) (ca_regions a)\<rparr>))"

definition contiguous_extend :: "contiguous_allocator \<Rightarrow> string \<Rightarrow> int \<Rightarrow> bool result \<times> contiguous_allocator" where
  "contiguous_extend a sequence_id additional_tokens =
     (case map_of (ca_regions a) sequence_id of
        None \<Rightarrow> (Inl (unknown_sequence sequence_id), a)
      | Some (start, len) \<Rightarrow>
          if additional_tokens < 0 then (Inl (ValueError ''additional_tokens must be non-negative''), a)
          else let target = len + additional_tokens;
                   neighbours = map snd (filter (\<lambda>e. fst e \<noteq> sequence_id) (ca_regions a));
                   blocked = (\<exists>(other_start, other_len) \<in> set neighbours. other_start < start + target \<and> start < other_start + other_len)
               in if \<not> blocked \<and> start + target \<le> ca_total_slots a
                  then (Inr True, a\<lparr>ca_regions := dict_set sequence_id (start, target) (ca_regions a)\<rparr>)
                  else case find_run a target (Some sequence_id) of
                         None \<Rightarrow> (Inr False, a)
                       | Some relocated \<Rightarrow> (Inr True, a\<lparr>ca_regions := dict_set sequence_id (relocated, target) (ca_regions a)\<rparr>))"

definition contiguous_fork :: "contiguous_allocator \<Rightarrow> string \<Rightarrow> string \<Rightarrow> bool result \<times> contiguous_allocator" where
  "contiguous_fork a parent_id child_id =
     (case map_of (ca_regions a) parent_id of
        None \<Rightarrow> (Inl (unknown_sequence parent_id), a)
      | Some (_, len) \<Rightarrow>
          if map_of (ca_regions a) child_id \<noteq> None then (Inl (already_allocated child_id), a)
          else contiguous_allocate a child_id len)"

definition contiguous_free :: "contiguous_allocator \<Rightarrow> string \<Rightarrow> unit result \<times> contiguous_allocator" where
  "contiguous_free a sequence_id =
     (if map_of (ca_regions a) sequence_id = None then (Inl (unknown_sequence sequence_id), a)
      else (Inr (), a\<lparr>ca_regions := dict_del sequence_id (ca_regions a)\<rparr>))"

definition contiguous_slots_used :: "contiguous_allocator \<Rightarrow> int" where
  "contiguous_slots_used a = sum_list (map (\<lambda>(_, _, len). len) (ca_regions a))"

fun runs_from :: "int \<Rightarrow> int \<Rightarrow> (int \<times> int) list \<Rightarrow> int list" where
  "runs_from slots cursor [] = (if cursor < slots then [slots - cursor] else [])"
| "runs_from slots cursor ((start, len) # occupied) =
     (if cursor < start then [start - cursor] else []) @ runs_from slots (max cursor (start + len)) occupied"

definition contiguous_free_runs :: "contiguous_allocator \<Rightarrow> int list" where
  "contiguous_free_runs a = runs_from (ca_total_slots a) 0 (sorted_regions a)"

definition contiguous_ops :: "contiguous_allocator kv_ops" where
  "contiguous_ops =
     \<lparr>kv_allocate = contiguous_allocate, kv_extend = contiguous_extend, kv_fork = contiguous_fork, kv_free = contiguous_free,
      kv_physical_slots_used = contiguous_slots_used, kv_logical_tokens_held = contiguous_slots_used,
      kv_free_runs = contiguous_free_runs\<rparr>"

subsection \<open>First fit\<close>

definition apart :: "int \<Rightarrow> int \<Rightarrow> int \<times> int \<Rightarrow> bool" where
  "apart x n region \<longleftrightarrow> x + n \<le> fst region \<or> fst region + snd region \<le> x"

definition fits :: "int \<Rightarrow> (int \<times> int) set \<Rightarrow> int \<Rightarrow> int \<Rightarrow> bool" where
  "fits slots regions n x \<longleftrightarrow> 0 \<le> x \<and> x + n \<le> slots \<and> (\<forall>r \<in> regions. apart x n r)"

lemma first_fit_Some:
  assumes "first_fit slots n cursor rs = Some x" "sorted rs" "\<forall>r \<in> set rs. fst r \<le> slots"
  shows "cursor \<le> x \<and> x + n \<le> slots \<and> (\<forall>r \<in> set rs. apart x n r)"
  using assms
proof (induction slots n cursor rs rule: first_fit.induct)
  case (2 slots n cursor start len rs)
  show ?case
  proof (cases "n \<le> start - cursor")
    case True
    have "start \<le> fst r" if "r \<in> set rs" for r using "2.prems"(2) that by (auto simp: less_eq_prod_def)
    with True "2.prems" show ?thesis by (force simp: apart_def)
  next
    case False
    with "2.prems" "2.IH" show ?thesis by (fastforce simp: apart_def)
  qed
qed (auto split: if_splits)

lemma first_fit_least:
  assumes "0 < n" "cursor \<le> x" "x + n \<le> slots" "\<forall>r \<in> set rs. apart x n r"
  shows "\<exists>y \<le> x. first_fit slots n cursor rs = Some y"
  using assms by (induction slots n cursor rs rule: first_fit.induct) (auto simp: apart_def)

lemma first_fit_runs: "0 < n \<Longrightarrow> (\<exists>x. first_fit slots n cursor rs = Some x) \<longleftrightarrow> (\<exists>r \<in> set (runs_from slots cursor rs). n \<le> r)"
  by (induction slots n cursor rs rule: first_fit.induct) auto

definition regions_without :: "contiguous_allocator \<Rightarrow> string option \<Rightarrow> (int \<times> int) set" where
  "regions_without a ignoring = {r. \<exists>k. (k, r) \<in> set (ca_regions a) \<and> Some k \<noteq> ignoring}"

definition in_pool :: "contiguous_allocator \<Rightarrow> bool" where
  "in_pool a \<longleftrightarrow> 0 < ca_total_slots a \<and> (\<forall>(k, s, n) \<in> set (ca_regions a). 0 \<le> s \<and> 0 \<le> n \<and> s + n \<le> ca_total_slots a)"

lemma find_run_spec:
  assumes "in_pool a" "0 \<le> n"
  shows "case find_run a n ig of
      None \<Rightarrow> \<nexists>x. fits (ca_total_slots a) (regions_without a ig) n x
    | Some x \<Rightarrow> fits (ca_total_slots a) (regions_without a ig) n x \<and> (\<forall>y. fits (ca_total_slots a) (regions_without a ig) n y \<longrightarrow> x \<le> y)"
proof (cases "n = 0")
  case True
  with assms show ?thesis by (fastforce simp: find_run_def fits_def in_pool_def apart_def regions_without_def)
next
  case False
  let ?rs = "sort (map snd (filter (\<lambda>e. Some (fst e) \<noteq> ig) (ca_regions a)))"
  have set: "set ?rs = regions_without a ig" by (force simp: regions_without_def image_iff)
  have b: "\<forall>r \<in> set ?rs. fst r \<le> ca_total_slots a" using assms(1) by (fastforce simp: in_pool_def)
  show ?thesis
  proof (cases "first_fit (ca_total_slots a) n 0 ?rs")
    case None
    have "\<not> fits (ca_total_slots a) (set ?rs) n x" for x
      using first_fit_least [of n 0 x "ca_total_slots a" ?rs] None False assms(2) by (auto simp: fits_def)
    with None False set show ?thesis by (simp add: find_run_def)
  next
    case (Some x)
    with first_fit_Some [OF Some sorted_sort b] have "fits (ca_total_slots a) (set ?rs) n x" by (simp add: fits_def)
    moreover have "x \<le> y" if "fits (ca_total_slots a) (set ?rs) n y" for y
      using first_fit_least [of n 0 y "ca_total_slots a" ?rs] Some False assms(2) that by (auto simp: fits_def)
    ultimately show ?thesis using Some False set by (simp add: find_run_def)
  qed
qed

subsection \<open>The regions\<close>

definition contiguous_ok :: "contiguous_allocator \<Rightarrow> bool" where
  "contiguous_ok a \<longleftrightarrow> in_pool a \<and> distinct (map fst (ca_regions a)) \<and>
     (\<forall>i j r q. map_of (ca_regions a) i = Some r \<longrightarrow> map_of (ca_regions a) j = Some q \<longrightarrow> i \<noteq> j \<longrightarrow> apart (fst r) (snd r) q)"

definition contiguous_tokens :: "contiguous_allocator \<Rightarrow> string \<rightharpoonup> int" where
  "contiguous_tokens a i = map_option snd (map_of (ca_regions a) i)"

lemma in_pool_map_of:
  "distinct (map fst (ca_regions a)) \<Longrightarrow> in_pool a \<longleftrightarrow> 0 < ca_total_slots a \<and>
     (\<forall>k r. map_of (ca_regions a) k = Some r \<longrightarrow> 0 \<le> fst r \<and> 0 \<le> snd r \<and> fst r + snd r \<le> ca_total_slots a)"
  by (fastforce simp: in_pool_def map_of_eq_Some_iff)

lemma regions_without_map_of:
  "distinct (map fst (ca_regions a)) \<Longrightarrow> regions_without a ig = {r. \<exists>k. map_of (ca_regions a) k = Some r \<and> Some k \<noteq> ig}"
  by (auto simp: regions_without_def)

lemma apart_sym: "0 \<le> n \<Longrightarrow> 0 \<le> snd r \<Longrightarrow> apart x n r \<longleftrightarrow> apart (fst r) (snd r) (x, n)"
  by (auto simp: apart_def)

lemma place_ok:
  assumes "contiguous_ok a" "0 \<le> n" "fits (ca_total_slots a) {r. \<exists>k. map_of (ca_regions a) k = Some r \<and> k \<noteq> i} n x"
  shows "contiguous_ok (a\<lparr>ca_regions := dict_set i (x, n) (ca_regions a)\<rparr>)"
proof -
  have d: "distinct (map fst (ca_regions a))" using assms(1) by (simp add: contiguous_ok_def)
  have p: "\<forall>k r. map_of (ca_regions a) k = Some r \<longrightarrow> 0 \<le> fst r \<and> 0 \<le> snd r \<and> fst r + snd r \<le> ca_total_slots a" "0 < ca_total_slots a"
    using assms(1) in_pool_map_of [OF d] by (auto simp: contiguous_ok_def)
  have "in_pool (a\<lparr>ca_regions := dict_set i (x, n) (ca_regions a)\<rparr>)"
    using p assms(2,3) d by (subst in_pool_map_of) (auto simp: fits_def)
  moreover have "apart (fst r) (snd r) q"
    if "map_of (dict_set i (x, n) (ca_regions a)) j = Some r" "map_of (dict_set i (x, n) (ca_regions a)) k = Some q" "j \<noteq> k" for j k r q
  proof -
    consider "j = i" | "k = i" | "j \<noteq> i" "k \<noteq> i" by blast
    then show ?thesis
    proof cases
      case 1
      with that(2,3) have "map_of (ca_regions a) k = Some q" "k \<noteq> i" by auto
      then have "apart x n q" using assms(3) unfolding fits_def by blast
      with 1 that show ?thesis by auto
    next
      case 2
      with that(1,3) have "map_of (ca_regions a) j = Some r" "j \<noteq> i" by auto
      then have "apart x n r" using assms(3) unfolding fits_def by blast
      moreover have "0 \<le> snd r" using \<open>map_of (ca_regions a) j = Some r\<close> p(1) by blast
      ultimately have "apart (fst r) (snd r) (x, n)" using apart_sym [of n r x] assms(2) by simp
      with 2 that(2) show ?thesis by simp
    next
      case 3
      with that have "map_of (ca_regions a) j = Some r" "map_of (ca_regions a) k = Some q" by simp_all
      with that(3) assms(1) show ?thesis unfolding contiguous_ok_def by blast
    qed
  qed
  ultimately show ?thesis using d by (auto simp: contiguous_ok_def)
qed

lemma contiguous_allocate_cases:
  assumes "contiguous_ok a" "contiguous_allocate a i n = (r, a')"
  obtains (error) "map_of (ca_regions a) i \<noteq> None \<or> n < 0" "isl r" "a' = a"
  | (full) "map_of (ca_regions a) i = None" "0 \<le> n" "r = Inr False" "a' = a"
      "\<nexists>x. fits (ca_total_slots a) (snd ` set (ca_regions a)) n x"
  | (placed) x where "map_of (ca_regions a) i = None" "0 \<le> n" "r = Inr True" "a' = a\<lparr>ca_regions := dict_set i (x, n) (ca_regions a)\<rparr>"
      "fits (ca_total_slots a) (snd ` set (ca_regions a)) n x" "\<forall>y. fits (ca_total_slots a) (snd ` set (ca_regions a)) n y \<longrightarrow> x \<le> y"
proof (cases "map_of (ca_regions a) i \<noteq> None \<or> n < 0")
  case True
  with assms(2) error show ?thesis by (auto simp: contiguous_allocate_def split: if_splits)
next
  case False
  have f: "map_of (ca_regions a) i = None" "0 \<le> n" using False by force+
  have rw: "regions_without a None = snd ` set (ca_regions a)" by (force simp: regions_without_def image_iff)
  have "in_pool a" using assms(1) by (simp add: contiguous_ok_def)
  note run = find_run_spec [OF this, of n None, unfolded rw]
  show ?thesis
  proof (cases "find_run a n None")
    case None
    with run f assms(2) show ?thesis by (intro full) (simp_all add: contiguous_allocate_def)
  next
    case (Some x)
    with run f assms(2) show ?thesis by (intro placed [of x]) (simp_all add: contiguous_allocate_def)
  qed
qed

lemma fits_without:
  assumes "distinct (map fst (ca_regions a))" "map_of (ca_regions a) i = None"
  shows "{r. \<exists>k. map_of (ca_regions a) k = Some r \<and> k \<noteq> i} = snd ` set (ca_regions a)"
  using assms by (force simp: image_iff map_of_eq_None_iff)

lemma unblocked_fits:
  assumes "\<not> (\<exists>(os, ol) \<in> R. os < x + n \<and> x < os + ol)" "0 \<le> x" "x + n \<le> slots"
  shows "fits slots R n x"
proof -
  have "apart x n r" if "r \<in> R" for r using assms(1) that by (cases r) (force simp: apart_def)
  with assms(2,3) show ?thesis by (simp add: fits_def)
qed

lemma contiguous_extend_cases:
  assumes "contiguous_ok a" "contiguous_extend a i n = (r, a')"
  obtains (error) "map_of (ca_regions a) i = None \<or> n < 0" "isl r" "a' = a"
  | (full) x l where "map_of (ca_regions a) i = Some (x, l)" "0 \<le> n" "r = Inr False" "a' = a"
      "\<nexists>y. fits (ca_total_slots a) {r. \<exists>k. map_of (ca_regions a) k = Some r \<and> k \<noteq> i} (l + n) y"
  | (placed) x l y where "map_of (ca_regions a) i = Some (x, l)" "0 \<le> n" "0 \<le> l" "r = Inr True"
      "a' = a\<lparr>ca_regions := dict_set i (y, l + n) (ca_regions a)\<rparr>"
      "fits (ca_total_slots a) {r. \<exists>k. map_of (ca_regions a) k = Some r \<and> k \<noteq> i} (l + n) y"
proof -
  have d: "distinct (map fst (ca_regions a))" "in_pool a" using assms(1) by (simp_all add: contiguous_ok_def)
  let ?R = "{r. \<exists>k. map_of (ca_regions a) k = Some r \<and> k \<noteq> i}"
  consider (e) "map_of (ca_regions a) i = None \<or> n < 0" | (g) x l where "map_of (ca_regions a) i = Some (x, l)" "0 \<le> n"
    by (cases "map_of (ca_regions a) i") (force simp: not_less [symmetric])+
  then show ?thesis
  proof cases
    case e
    with assms(2) error show ?thesis by (auto simp: contiguous_extend_def split: option.splits)
  next
    case g
    have b: "0 \<le> x" "0 \<le> l" using d(2) g(1) unfolding in_pool_map_of [OF d(1)] by fastforce+
    have R: "set (map snd (filter (\<lambda>e. fst e \<noteq> i) (ca_regions a))) = ?R"
      using d(1) by (force simp: image_iff map_of_eq_Some_iff [OF d(1)])
    have rw: "regions_without a (Some i) = ?R" using regions_without_map_of [OF d(1)] by simp
    note run = find_run_spec [OF d(2), of "l + n" "Some i", unfolded rw]
    let ?blocked = "\<exists>(os, ol) \<in> ?R. os < x + (l + n) \<and> x < os + ol"
    show ?thesis
    proof (cases "\<not> ?blocked \<and> x + (l + n) \<le> ca_total_slots a")
      case True
      then have "fits (ca_total_slots a) ?R (l + n) x" using b by (intro unblocked_fits) simp_all
      moreover have "(r, a') = (Inr True, a\<lparr>ca_regions := dict_set i (x, l + n) (ca_regions a)\<rparr>)"
        using assms(2) g True unfolding contiguous_extend_def Let_def R by simp
      ultimately show ?thesis using g b placed [of x l x] by simp
    next
      case False
      have "(r, a') = (if \<not> ?blocked \<and> x + (l + n) \<le> ca_total_slots a then (Inr True, a\<lparr>ca_regions := dict_set i (x, l + n) (ca_regions a)\<rparr>)
          else case find_run a (l + n) (Some i) of None \<Rightarrow> (Inr False, a)
          | Some y \<Rightarrow> (Inr True, a\<lparr>ca_regions := dict_set i (y, l + n) (ca_regions a)\<rparr>))"
        using assms(2) g unfolding contiguous_extend_def Let_def R by simp
      note eq = this [unfolded if_not_P [OF False]]
      show ?thesis
      proof (cases "find_run a (l + n) (Some i)")
        case None
        with run g b eq show ?thesis by (intro full [of x l]) simp_all
      next
        case (Some y)
        with run g b eq show ?thesis by (intro placed [of x l y]) simp_all
      qed
    qed
  qed
qed

lemma in_pool_del: "in_pool a \<Longrightarrow> in_pool (a\<lparr>ca_regions := dict_del i (ca_regions a)\<rparr>)"
  by (auto simp: in_pool_def dict_del_def)

lemma contiguous_free_ok: "contiguous_ok a \<Longrightarrow> contiguous_ok (a\<lparr>ca_regions := dict_del i (ca_regions a)\<rparr>)"
  unfolding contiguous_ok_def using in_pool_del [of a i] by (simp split: if_splits)

lemmas contiguous_ops_sel = contiguous_ops_def kv_step.simps

lemma sum_dict:
  assumes "distinct (map fst d)"
  shows "sum_list (map (\<lambda>(_, v). f v) d) = (\<Sum>k \<in> dom (map_of d). f (the (map_of d k)))"
  using assms
proof (induction d)
  case (Cons e d)
  obtain k v where e: "e = (k, v)" by fastforce
  have k: "k \<notin> dom (map_of d)" using Cons.prems e by (simp add: dom_map_of_conv_image_fst)
  have "(\<Sum>j \<in> dom (map_of (e # d)). f (the (map_of (e # d) j))) = f v + (\<Sum>j \<in> dom (map_of d). f (the (map_of (e # d) j)))"
    using k e by (simp add: sum.insert finite_dom_map_of)
  also have "(\<Sum>j \<in> dom (map_of d). f (the (map_of (e # d) j))) = (\<Sum>j \<in> dom (map_of d). f (the (map_of d j)))"
    using k e by (intro sum.cong) auto
  finally show ?case using Cons e by simp
qed simp

interpretation contiguous: kv_allocator contiguous_ops contiguous_ok contiguous_tokens
proof
  fix a c r a'
  assume ok: "contiguous_ok a" and st: "kv_step contiguous_ops c a = (r, a')"
  have d: "distinct (map fst (ca_regions a))" using ok by (simp add: contiguous_ok_def)
  have alloc: "contiguous_ok a' \<and> (isl r \<longleftrightarrow> spec_error (Allocate i n) (contiguous_tokens a)) \<and>
      contiguous_tokens a' = (if r = Inr True then (contiguous_tokens a)(i \<mapsto> n) else contiguous_tokens a)"
    if "contiguous_allocate a i n = (r, a')" for i n
    using ok that
  proof (cases rule: contiguous_allocate_cases)
    case error
    then show ?thesis using ok by (auto simp: contiguous_tokens_def)
  next
    case full
    then show ?thesis using ok by (simp add: contiguous_tokens_def)
  next
    case (placed x)
    then show ?thesis using place_ok [OF ok, of n i x] fits_without [OF d] by (auto simp: contiguous_tokens_def)
  qed
  have "contiguous_ok a' \<and> (isl r \<longleftrightarrow> spec_error c (contiguous_tokens a)) \<and>
      contiguous_tokens a' = (if r = Inr True then spec_update c (contiguous_tokens a) else contiguous_tokens a)"
  proof (cases c)
    case (Allocate i n)
    with st alloc show ?thesis by (simp add: contiguous_ops_def)
  next
    case (Extend i n)
    with st have "contiguous_extend a i n = (r, a')" by (simp add: contiguous_ops_def)
    with ok show ?thesis
    proof (cases rule: contiguous_extend_cases)
      case error
      then show ?thesis using ok Extend by (auto simp: contiguous_tokens_def)
    next
      case (full x l)
      then show ?thesis using ok Extend by (simp add: contiguous_tokens_def)
    next
      case (placed x l y)
      then show ?thesis using place_ok [OF ok, of "l + n" i y] Extend by (auto simp: contiguous_tokens_def)
    qed
  next
    case (Fork p c')
    show ?thesis
    proof (cases "map_of (ca_regions a) p = None \<or> map_of (ca_regions a) c' \<noteq> None")
      case True
      with st ok Fork show ?thesis by (auto simp: contiguous_ops_def contiguous_fork_def contiguous_tokens_def split: option.splits)
    next
      case False
      then obtain x l where p: "map_of (ca_regions a) p = Some (x, l)" "map_of (ca_regions a) c' = None" by force
      then have "contiguous_allocate a c' l = (r, a')" using st Fork by (simp add: contiguous_ops_def contiguous_fork_def)
      moreover have "0 \<le> l" using ok p(1) in_pool_map_of [OF d] by (fastforce simp: contiguous_ok_def)
      ultimately show ?thesis using alloc [of c' l] p Fork by (simp add: contiguous_tokens_def)
    qed
  next
    case (Free i)
    with st ok contiguous_free_ok [OF ok] show ?thesis
      by (auto simp: contiguous_ops_def contiguous_free_def contiguous_tokens_def split: if_splits)
  qed
  then show "contiguous_ok a'" "isl r \<longleftrightarrow> spec_error c (contiguous_tokens a)"
      "contiguous_tokens a' = (if r = Inr True then spec_update c (contiguous_tokens a) else contiguous_tokens a)" by simp_all
next
  fix a assume "contiguous_ok a"
  then have d: "distinct (map fst (ca_regions a))" by (simp add: contiguous_ok_def)
  have "dom (contiguous_tokens a) = dom (map_of (ca_regions a))" by (auto simp: contiguous_tokens_def dom_def)
  moreover have "kv_logical_tokens_held contiguous_ops a = sum_list (map (\<lambda>(_, v). snd v) (ca_regions a))"
    by (simp add: contiguous_ops_def contiguous_slots_used_def case_prod_unfold)
  ultimately show "kv_logical_tokens_held contiguous_ops a = (\<Sum>i \<in> dom (contiguous_tokens a). the (contiguous_tokens a i))"
    unfolding sum_dict [OF d] by (auto simp: contiguous_tokens_def intro!: sum.cong)
qed

lemma make_contiguous_ok:
  assumes "make_contiguous slots = Inr a"
  shows "contiguous_ok a" "contiguous_tokens a = Map.empty" "ca_total_slots a = slots"
  using assms by (auto simp: make_contiguous_def contiguous_ok_def in_pool_def contiguous_tokens_def split: if_splits)

lemma contiguous_slots: "kv_run contiguous_ops cs a = (rs, a') \<Longrightarrow> ca_total_slots a' = ca_total_slots a"
proof (induction cs arbitrary: a rs)
  case (Cons c cs)
  obtain r a1 where 1: "kv_step contiguous_ops c a = (r, a1)" by fastforce
  have "ca_total_slots a1 = ca_total_slots a"
    using 1 by (cases c) (auto simp: contiguous_ops_def contiguous_allocate_def contiguous_extend_def contiguous_fork_def contiguous_free_def Let_def
      split: if_splits option.splits)
  with Cons 1 show ?case by (auto split: prod.splits)
qed simp

text \<open>
  C25. The contiguous allocator keeps sequences apart. After any calls on a new pool, the regions of two sequences never overlap, each
  region lies in the pool and is as long as the sequence, which has the tokens that the specification says, and the calls that raised are exactly the invalid ones.
\<close>

theorem contiguous_allocator_correct:
  assumes "make_contiguous slots = Inr a0" and "kv_run contiguous_ops cs a0 = (rs, a)"
  shows "(\<forall>i j r q. map_of (ca_regions a) i = Some r \<longrightarrow> map_of (ca_regions a) j = Some q \<longrightarrow> i \<noteq> j \<longrightarrow>
        fst r + snd r \<le> fst q \<or> fst q + snd q \<le> fst r) \<and>
    (\<forall>i r. map_of (ca_regions a) i = Some r \<longrightarrow> 0 \<le> fst r \<and> 0 \<le> snd r \<and> fst r + snd r \<le> slots) \<and>
    (\<lambda>i. map_option snd (map_of (ca_regions a) i)) = spec_run cs rs Map.empty \<and> spec_errors cs rs Map.empty"
proof -
  note m = make_contiguous_ok [OF assms(1)]
  have ok: "contiguous_ok a" using contiguous.run_ok [OF m(1) assms(2)] .
  have d: "distinct (map fst (ca_regions a))" using ok by (simp add: contiguous_ok_def)
  have "contiguous_tokens a = spec_run cs rs Map.empty \<and> spec_errors cs rs Map.empty"
    using contiguous.run_spec [OF m(1) assms(2)] m(2) by simp
  moreover have "contiguous_tokens a = (\<lambda>i. map_option snd (map_of (ca_regions a) i))" by (auto simp: contiguous_tokens_def)
  moreover have "\<forall>i r. map_of (ca_regions a) i = Some r \<longrightarrow> 0 \<le> fst r \<and> 0 \<le> snd r \<and> fst r + snd r \<le> slots"
    using ok in_pool_map_of [OF d] contiguous_slots [OF assms(2)] m(3) by (simp add: contiguous_ok_def)
  moreover have "\<forall>i j r q. map_of (ca_regions a) i = Some r \<longrightarrow> map_of (ca_regions a) j = Some q \<longrightarrow> i \<noteq> j \<longrightarrow>
        fst r + snd r \<le> fst q \<or> fst q + snd q \<le> fst r"
    using ok unfolding contiguous_ok_def apart_def by blast
  ultimately show ?thesis by simp
qed

text \<open>
  Contiguous allocation is first fit and complete. In a pool after any calls, a new sequence with at least one token is
  served exactly when one of the free runs reported is large enough, and then at the lowest address where it fits.
\<close>

theorem contiguous_allocate_first_fit:
  assumes "make_contiguous slots = Inr a0" and "kv_run contiguous_ops cs a0 = (rs, a)"
    and "map_of (ca_regions a) i = None" and "0 < n" and "contiguous_allocate a i n = (r, a')"
  shows "r = Inr (\<exists>run \<in> set (contiguous_free_runs a). n \<le> run) \<and>
    (r = Inr True \<longrightarrow> (\<exists>x. map_of (ca_regions a') i = Some (x, n) \<and> fits slots (snd ` set (ca_regions a)) n x \<and>
       (\<forall>y. fits slots (snd ` set (ca_regions a)) n y \<longrightarrow> x \<le> y)))"
proof -
  have ok: "contiguous_ok a" using contiguous.run_ok [OF make_contiguous_ok(1) [OF assms(1)] assms(2)] .
  have sl: "ca_total_slots a = slots" using contiguous_slots [OF assms(2)] make_contiguous_ok(3) [OF assms(1)] by simp
  have "find_run a n None = first_fit slots n 0 (sorted_regions a)"
    using assms(4) sl by (simp add: find_run_def sorted_regions_def)
  then have f: "(\<exists>x. find_run a n None = Some x) \<longleftrightarrow> (\<exists>run \<in> set (contiguous_free_runs a). n \<le> run)"
    using first_fit_runs [OF assms(4), of slots 0 "sorted_regions a"] sl by (simp add: contiguous_free_runs_def)
  from ok assms(5) show ?thesis
  proof (cases rule: contiguous_allocate_cases)
    case error
    with assms(3,4) show ?thesis by auto
  next
    case full
    then have "find_run a n None = None" using assms(5) by (auto simp: contiguous_allocate_def split: option.splits if_splits)
    with f full show ?thesis by auto
  next
    case (placed x)
    then have "find_run a n None \<noteq> None" using assms(5) by (auto simp: contiguous_allocate_def split: option.splits if_splits)
    with f placed sl show ?thesis by auto
  qed
qed

definition ex_calls :: "kv_call list" where
  "ex_calls = [Allocate ''a'' 3, Allocate ''b'' 2, Allocate ''a'' 1, Fork ''a'' ''c'', Free ''a'', Extend ''b'' 1, Extend ''b'' 9]"

definition ex_pool :: contiguous_allocator where
  "ex_pool = \<lparr>ca_total_slots = 10, ca_regions = []\<rparr>"

lemma ex_pool_made: "make_contiguous 10 = Inr ex_pool"
  by (simp add: make_contiguous_def ex_pool_def)

lemma ex_pool_run: "snd (kv_run contiguous_ops ex_calls ex_pool) = \<lparr>ca_total_slots = 10, ca_regions = [(''b'', 0, 3), (''c'', 5, 3)]\<rparr>"
  "map isl (fst (kv_run contiguous_ops ex_calls ex_pool)) = [False, False, True, False, False, False, False]"
  by code_simp+

theorem contiguous_allocator_correct_witness:
  "\<exists>rs a. kv_run contiguous_ops ex_calls ex_pool = (rs, a) \<and> spec_run ex_calls rs Map.empty ''b'' = Some 3 \<and>
     map_of (ca_regions a) ''b'' = Some (0, 3) \<and> map_of (ca_regions a) ''c'' = Some (5, 3) \<and> spec_errors ex_calls rs Map.empty"
proof -
  obtain rs a where r: "kv_run contiguous_ops ex_calls ex_pool = (rs, a)" by fastforce
  with ex_pool_run have a: "a = \<lparr>ca_total_slots = 10, ca_regions = [(''b'', 0, 3), (''c'', 5, 3)]\<rparr>" by simp
  from contiguous_allocator_correct [OF ex_pool_made r]
  have "(\<lambda>i. map_option snd (map_of (ca_regions a) i)) = spec_run ex_calls rs Map.empty" "spec_errors ex_calls rs Map.empty" by simp_all
  from this(2) fun_cong [OF this(1), of "''b''"] r a show ?thesis by simp
qed

theorem contiguous_allocate_first_fit_witness:
  "\<exists>rs a r a'. kv_run contiguous_ops ex_calls ex_pool = (rs, a) \<and> contiguous_allocate a ''d'' 2 = (r, a') \<and> r = Inr True \<and>
     (\<exists>x. map_of (ca_regions a') ''d'' = Some (x, 2) \<and> (\<forall>y. fits 10 (snd ` set (ca_regions a)) 2 y \<longrightarrow> x \<le> y))"
proof -
  obtain rs a where r: "kv_run contiguous_ops ex_calls ex_pool = (rs, a)" by fastforce
  with ex_pool_run have a: "a = \<lparr>ca_total_slots = 10, ca_regions = [(''b'', 0, 3), (''c'', 5, 3)]\<rparr>" by simp
  obtain x a' where 1: "contiguous_allocate a ''d'' 2 = (x, a')" by fastforce
  have "contiguous_free_runs a = [2, 2]" unfolding a by code_simp
  with contiguous_allocate_first_fit [OF ex_pool_made r _ _ 1] a r 1 show ?thesis by auto
qed

theorem contiguous_no_internal_fragmentation:
  assumes "make_contiguous slots = Inr a0" and "kv_run contiguous_ops cs a0 = (rs, a)"
  shows "internal_fragmentation (kv_physical_slots_used contiguous_ops a) (kv_logical_tokens_held contiguous_ops a) = Inr 0"
proof -
  have "in_pool a" using contiguous.run_ok [OF make_contiguous_ok(1) [OF assms(1)] assms(2)] by (simp add: contiguous_ok_def)
  then have "0 \<le> contiguous_slots_used a"
    unfolding contiguous_slots_used_def in_pool_def by (intro sum_list_nonneg) auto
  then show ?thesis by (simp add: contiguous_ops_def internal_fragmentation_def)
qed

end
