(* ===== verification/Kv_Paged.thy ===== *)
theory Kv_Paged
  imports Kv_Allocation
begin

text \<open>
  \<^verbatim>\<open>PagedKVAllocator\<close>, \<^verbatim>\<open>src/cag/infrastructure/paged_allocator.py\<close>: block tables, reference counts and
  copy on write. The list of free blocks is used as a stack from its end. A missing entry of a
  dictionary raises \<^verbatim>\<open>KeyError\<close>; the invariant shows that none is missing.
\<close>

record paged_allocator =
  pa_block_size :: int
  pa_free_blocks :: "nat list"
  pa_block_tables :: "(string \<times> nat list) list"
  pa_token_counts :: "(string \<times> int) list"
  pa_refcounts :: "(nat \<times> int) list"

definition make_paged :: "int \<Rightarrow> int \<Rightarrow> paged_allocator result" where
  "make_paged total_blocks block_size =
     (if total_blocks < 1 then Inl (ValueError ''total_blocks must be at least 1'')
      else if block_size < 1 then Inl (ValueError ''block_size must be at least 1'')
      else Inr \<lparr>pa_block_size = block_size, pa_free_blocks = [0..<nat total_blocks], pa_block_tables = [],
                pa_token_counts = [], pa_refcounts = []\<rparr>)"

definition blocks_needed :: "int \<Rightarrow> int \<Rightarrow> int" where
  "blocks_needed block_size num_tokens = \<lceil>fl (of_int num_tokens / of_int block_size)\<rceil>"

definition missing_key :: py_error where
  "missing_key = OtherException ''KeyError''"

definition take_blocks :: "int \<Rightarrow> paged_allocator \<Rightarrow> (nat list \<times> paged_allocator) option" where
  \<comment> \<open>\<open>_take\<close>\<close>
  "take_blocks n st =
     (if int (length (pa_free_blocks st)) < n then None
      else let rest = take (length (pa_free_blocks st) - nat n) (pa_free_blocks st);
               taken = rev (drop (length (pa_free_blocks st) - nat n) (pa_free_blocks st))
           in Some (taken, st\<lparr>pa_free_blocks := rest,
                              pa_refcounts := fold (\<lambda>block refs. dict_set block 1 refs) taken (pa_refcounts st)\<rparr>))"

definition paged_allocate :: "paged_allocator \<Rightarrow> string \<Rightarrow> int \<Rightarrow> bool result \<times> paged_allocator" where
  "paged_allocate st sequence_id num_tokens =
     (if map_of (pa_block_tables st) sequence_id \<noteq> None then (Inl (already_allocated sequence_id), st)
      else if num_tokens < 0 then (Inl (ValueError ''num_tokens must be non-negative''), st)
      else case take_blocks (blocks_needed (pa_block_size st) num_tokens) st of
             None \<Rightarrow> (Inr False, st)
           | Some (taken, st1) \<Rightarrow>
               (Inr True, st1\<lparr>pa_block_tables := dict_set sequence_id taken (pa_block_tables st1),
                              pa_token_counts := dict_set sequence_id num_tokens (pa_token_counts st1)\<rparr>))"

definition copy_on_write :: "paged_allocator \<Rightarrow> string \<Rightarrow> nat list \<Rightarrow> int \<Rightarrow> nat list option result \<times> paged_allocator" where
  \<comment> \<open>the first half of \<open>extend\<close>: the table with a private last block, or \<open>None\<close> when no block is left\<close>
  "copy_on_write st sequence_id table current =
     (if table = [] then (Inr (Some table), st)
      else case map_of (pa_refcounts st) (last table) of
             None \<Rightarrow> (Inl missing_key, st)
           | Some refs \<Rightarrow>
               if 1 < refs \<and> current mod pa_block_size st \<noteq> 0
               then (case take_blocks 1 st of
                       None \<Rightarrow> (Inr None, st)
                     | Some (replacement, st1) \<Rightarrow>
                         (case map_of (pa_refcounts st1) (last table) of
                            None \<Rightarrow> (Inl missing_key, st1)
                          | Some n \<Rightarrow>
                              (let table1 = butlast table @ [hd replacement]
                               in (Inr (Some table1),
                                   st1\<lparr>pa_refcounts := dict_set (last table) (n - 1) (pa_refcounts st1),
                                       pa_block_tables := dict_set sequence_id table1 (pa_block_tables st1)\<rparr>))))
               else (Inr (Some table), st))"

definition grow_table :: "paged_allocator \<Rightarrow> string \<Rightarrow> nat list \<Rightarrow> int \<Rightarrow> bool result \<times> paged_allocator" where
  \<comment> \<open>the second half: blocks for the new tokens, and the count\<close>
  "grow_table st sequence_id table target =
     (let extra_blocks = blocks_needed (pa_block_size st) target - int (length table) in
      if 0 < extra_blocks
      then (case take_blocks extra_blocks st of
              None \<Rightarrow> (Inr False, st)
            | Some (taken, st1) \<Rightarrow>
                (Inr True, st1\<lparr>pa_block_tables := dict_set sequence_id (table @ taken) (pa_block_tables st1),
                               pa_token_counts := dict_set sequence_id target (pa_token_counts st1)\<rparr>))
      else (Inr True, st\<lparr>pa_token_counts := dict_set sequence_id target (pa_token_counts st)\<rparr>))"

definition paged_extend :: "paged_allocator \<Rightarrow> string \<Rightarrow> int \<Rightarrow> bool result \<times> paged_allocator" where
  "paged_extend st sequence_id additional_tokens =
     (case map_of (pa_block_tables st) sequence_id of
        None \<Rightarrow> (Inl (unknown_sequence sequence_id), st)
      | Some table \<Rightarrow>
          if additional_tokens < 0 then (Inl (ValueError ''additional_tokens must be non-negative''), st)
          else case map_of (pa_token_counts st) sequence_id of
                 None \<Rightarrow> (Inl missing_key, st)
               | Some current \<Rightarrow>
                   (case copy_on_write st sequence_id table current of
                      (Inl e, st1) \<Rightarrow> (Inl e, st1)
                    | (Inr None, st1) \<Rightarrow> (Inr False, st1)
                    | (Inr (Some table1), st1) \<Rightarrow> grow_table st1 sequence_id table1 (current + additional_tokens)))"

fun add_references :: "nat list \<Rightarrow> (nat \<times> int) list \<Rightarrow> unit result \<times> (nat \<times> int) list" where
  "add_references [] refs = (Inr (), refs)"
| "add_references (block # table) refs =
     (case map_of refs block of
        None \<Rightarrow> (Inl missing_key, refs)
      | Some n \<Rightarrow> add_references table (dict_set block (n + 1) refs))"

definition paged_fork :: "paged_allocator \<Rightarrow> string \<Rightarrow> string \<Rightarrow> bool result \<times> paged_allocator" where
  "paged_fork st parent_id child_id =
     (case map_of (pa_block_tables st) parent_id of
        None \<Rightarrow> (Inl (unknown_sequence parent_id), st)
      | Some table \<Rightarrow>
          if map_of (pa_block_tables st) child_id \<noteq> None then (Inl (already_allocated child_id), st)
          else case add_references table (pa_refcounts st) of
                 (Inl e, refs) \<Rightarrow> (Inl e, st\<lparr>pa_refcounts := refs\<rparr>)
               | (Inr _, refs) \<Rightarrow>
                   (let st1 = st\<lparr>pa_refcounts := refs, pa_block_tables := dict_set child_id table (pa_block_tables st)\<rparr>
                    in case map_of (pa_token_counts st1) parent_id of
                         None \<Rightarrow> (Inl missing_key, st1)
                       | Some n \<Rightarrow> (Inr True, st1\<lparr>pa_token_counts := dict_set child_id n (pa_token_counts st1)\<rparr>)))"

fun drop_references :: "nat list \<Rightarrow> (nat \<times> int) list \<Rightarrow> nat list \<Rightarrow> unit result \<times> (nat \<times> int) list \<times> nat list" where
  "drop_references [] refs free = (Inr (), refs, free)"
| "drop_references (block # table) refs free =
     (case map_of refs block of
        None \<Rightarrow> (Inl missing_key, refs, free)
      | Some n \<Rightarrow>
          if n - 1 = 0 then drop_references table (dict_del block refs) (free @ [block])
          else drop_references table (dict_set block (n - 1) refs) free)"

definition paged_free :: "paged_allocator \<Rightarrow> string \<Rightarrow> unit result \<times> paged_allocator" where
  "paged_free st sequence_id =
     (case map_of (pa_block_tables st) sequence_id of
        None \<Rightarrow> (Inl (unknown_sequence sequence_id), st)
      | Some table \<Rightarrow>
          (case drop_references table (pa_refcounts st) (pa_free_blocks st) of
             (r, refs, free) \<Rightarrow>
               (let st1 = st\<lparr>pa_block_tables := dict_del sequence_id (pa_block_tables st), pa_refcounts := refs, pa_free_blocks := free\<rparr>
                in case r of
                     Inl e \<Rightarrow> (Inl e, st1)
                   | Inr _ \<Rightarrow>
                       if map_of (pa_token_counts st1) sequence_id = None then (Inl missing_key, st1)
                       else (Inr (), st1\<lparr>pa_token_counts := dict_del sequence_id (pa_token_counts st1)\<rparr>))))"

definition paged_slots_used :: "paged_allocator \<Rightarrow> int" where
  "paged_slots_used st = int (length (pa_refcounts st)) * pa_block_size st"

definition paged_tokens_held :: "paged_allocator \<Rightarrow> int" where
  "paged_tokens_held st = sum_list (map snd (pa_token_counts st))"

definition paged_free_runs :: "paged_allocator \<Rightarrow> int list" where
  "paged_free_runs st = [int (length (pa_free_blocks st)) * pa_block_size st]"

definition paged_ops :: "paged_allocator kv_ops" where
  "paged_ops =
     \<lparr>kv_allocate = paged_allocate, kv_extend = paged_extend, kv_fork = paged_fork, kv_free = paged_free,
      kv_physical_slots_used = paged_slots_used, kv_logical_tokens_held = paged_tokens_held, kv_free_runs = paged_free_runs\<rparr>"

subsection \<open>The number of blocks\<close>

lemma blocks_needed_mono: "0 < b \<Longrightarrow> m \<le> n \<Longrightarrow> blocks_needed b m \<le> blocks_needed b n"
  unfolding blocks_needed_def by (intro ceiling_mono double.rnd_mono divide_right_mono) simp_all

text \<open>Below \<open>2 ^ 53\<close> tokens the rounding of the division never changes the number of blocks.\<close>

lemma blocks_needed_exact:
  assumes "0 < b" "0 \<le> n" "n < 2 ^ 53"
  shows "blocks_needed b n = \<lceil>(of_int n / of_int b :: rat)\<rceil>"
proof -
  let ?x = "of_int n / of_int b :: rat"
  define m where "m = \<lceil>?x\<rceil>"
  have b: "(1 :: rat) \<le> of_int b" "(0 :: rat) < of_int b" using assms(1) by simp_all
  have x0: "0 \<le> ?x" using assms by simp
  have "?x \<le> of_int n" using assms b by (simp add: divide_le_eq mult_le_cancel_left1 del: of_int_1_le_iff)
  then have mn: "m \<le> n" "0 \<le> m" using x0 by (simp_all add: m_def ceiling_le_iff)
  have up: "fl ?x \<le> of_int m"
  proof (rule double.rnd_le_int)
    show "?x \<le> of_int m" unfolding m_def by (rule le_of_int_ceiling)
    show "\<bar>m\<bar> \<le> 2 ^ 53" using mn assms(3) by linarith
  qed
  have "of_int (m - 1) < ?x" by (simp add: m_def) linarith
  then have "of_int ((m - 1) * b) < (of_int n :: rat)" using b by (simp add: pos_less_divide_eq)
  then have "(m - 1) * b < n" by (simp only: of_int_less_iff)
  then have "of_int ((m - 1) * b + 1) \<le> (of_int n :: rat)" by (simp only: of_int_le_iff)
  then have "of_int ((m - 1) * b + 1) / of_int b \<le> ?x" using b by (intro divide_right_mono) simp_all
  then have gap: "of_int (m - 1) + 1 / of_int b \<le> ?x" using b by (simp add: add_divide_distrib)
  have "(of_int n :: rat) < of_int (2 ^ 53)" using assms(3) by (simp only: of_int_less_iff)
  then have "?x / 2 ^ 53 < 1 / of_int b" using b by (simp add: field_simps)
  moreover have "?x - ?x / 2 ^ 53 \<le> fl ?x" using double.rnd_error [of ?x] x0 by simp
  ultimately have "of_int (m - 1) < fl ?x" using gap by linarith
  with up have "\<lceil>fl ?x\<rceil> = m" by (intro ceiling_unique) simp_all
  then show ?thesis by (simp add: blocks_needed_def m_def)
qed

lemma blocks_needed_nonneg: "0 < b \<Longrightarrow> 0 \<le> n \<Longrightarrow> 0 \<le> blocks_needed b n"
  using blocks_needed_mono [of b 0 n] by (simp add: blocks_needed_def)

subsection \<open>The invariant\<close>

definition references :: "paged_allocator \<Rightarrow> nat \<Rightarrow> nat" where
  \<comment> \<open>how many block tables hold a block\<close>
  "references st b = sum_list (map (\<lambda>(_, t). count_list t b) (pa_block_tables st))"

definition paged_ok :: "nat \<Rightarrow> paged_allocator \<Rightarrow> bool" where
  "paged_ok total_blocks st \<longleftrightarrow> 0 < pa_block_size st \<and> distinct (map fst (pa_block_tables st)) \<and> distinct (map fst (pa_token_counts st)) \<and>
     distinct (map fst (pa_refcounts st)) \<and>
     (\<forall>b. map_of (pa_refcounts st) b = (if references st b = 0 then None else Some (int (references st b)))) \<and>
     distinct (pa_free_blocks st) \<and> (\<forall>b. b \<in> set (pa_free_blocks st) \<longleftrightarrow> b < total_blocks \<and> references st b = 0) \<and>
     (\<forall>b. 0 < references st b \<longrightarrow> b < total_blocks) \<and>
     (\<forall>i. map_of (pa_block_tables st) i = None \<longleftrightarrow> map_of (pa_token_counts st) i = None) \<and>
     (\<forall>i t n. map_of (pa_block_tables st) i = Some t \<longrightarrow> map_of (pa_token_counts st) i = Some n \<longrightarrow>
        distinct t \<and> 0 \<le> n \<and> int (length t) = blocks_needed (pa_block_size st) n)"

lemma sum_dict_set:
  fixes f :: "'v \<Rightarrow> nat"
  assumes "distinct (map fst d)"
  shows "sum_list (map (\<lambda>(_, v). f v) (dict_set k w d)) + (case map_of d k of None \<Rightarrow> 0 | Some v \<Rightarrow> f v) =
    sum_list (map (\<lambda>(_, v). f v) d) + f w"
  using assms
proof (induction d)
  case (Cons e d)
  obtain i v where e: "e = (i, v)" by fastforce
  from Cons e show ?case by (auto simp: map_of_eq_None_iff split: option.splits)
qed simp

lemma sum_dict_del:
  fixes f :: "'v \<Rightarrow> nat"
  assumes "distinct (map fst d)"
  shows "sum_list (map (\<lambda>(_, v). f v) (dict_del k d)) + (case map_of d k of None \<Rightarrow> 0 | Some v \<Rightarrow> f v) =
    sum_list (map (\<lambda>(_, v). f v) d)"
  using assms
proof (induction d)
  case (Cons e d)
  obtain i v where e: "e = (i, v)" by fastforce
  have "dict_del k d = d" if "map_of d k = None" using that by (auto simp: dict_del_def filter_id_conv map_of_eq_None_iff image_iff)
  with Cons e show ?case by (auto simp: dict_del_def map_of_eq_None_iff split: option.splits)
qed (simp add: dict_del_def)

lemma references_set:
  assumes "distinct (map fst (pa_block_tables st))" "pa_block_tables st' = dict_set i t (pa_block_tables st)"
  shows "references st' b + (case map_of (pa_block_tables st) i of None \<Rightarrow> 0 | Some t0 \<Rightarrow> count_list t0 b) = references st b + count_list t b"
  unfolding references_def assms(2) using sum_dict_set [OF assms(1), of "\<lambda>t. count_list t b" i t] by simp

lemma references_del:
  assumes "distinct (map fst (pa_block_tables st))" "pa_block_tables st' = dict_del i (pa_block_tables st)" "map_of (pa_block_tables st) i = Some t"
  shows "references st' b + count_list t b = references st b"
  unfolding references_def assms(2) using sum_dict_del [OF assms(1), of "\<lambda>t. count_list t b" i] assms(3) by simp

lemma count_distinct: "distinct t \<Longrightarrow> count_list t b = (if b \<in> set t then 1 else 0)"
  by (induction t) auto

lemma references_table:
  assumes "map_of (pa_block_tables st) i = Some t"
  shows "count_list t b \<le> references st b"
proof -
  have "count_list t b \<in> set (map (\<lambda>(_, t). count_list t b) (pa_block_tables st))"
    using map_of_SomeD [OF assms] by (force simp: image_iff)
  then show ?thesis unfolding references_def by (rule member_le_sum_list) simp
qed

lemma fold_dict_set: "map_of (fold (\<lambda>b refs. dict_set b v refs) bs refs) = (\<lambda>b. if b \<in> set bs then Some v else map_of refs b)"
  by (induction bs arbitrary: refs) (auto simp: fun_eq_iff)

lemma distinct_fold_dict_set: "distinct (map fst refs) \<Longrightarrow> distinct (map fst (fold (\<lambda>b refs. dict_set b v refs) bs refs))"
  by (induction bs arbitrary: refs) auto

lemma take_blocks_Some:
  assumes "take_blocks n st = Some (taken, st1)" "0 \<le> n" "distinct (pa_free_blocks st)" "distinct (map fst (pa_refcounts st))"
  shows "length taken = nat n" "distinct taken" "set taken \<subseteq> set (pa_free_blocks st)"
    "set (pa_free_blocks st1) = set (pa_free_blocks st) - set taken" "distinct (pa_free_blocks st1)"
    "pa_block_tables st1 = pa_block_tables st" "pa_token_counts st1 = pa_token_counts st" "pa_block_size st1 = pa_block_size st"
    "map_of (pa_refcounts st1) = (\<lambda>b. if b \<in> set taken then Some 1 else map_of (pa_refcounts st) b)"
    "distinct (map fst (pa_refcounts st1))"
proof -
  let ?f = "pa_free_blocks st" and ?k = "length (pa_free_blocks st) - nat n"
  have t: "taken = rev (drop ?k ?f)" "pa_free_blocks st1 = take ?k ?f" "nat n \<le> length ?f"
      "pa_refcounts st1 = fold (\<lambda>block refs. dict_set block 1 refs) taken (pa_refcounts st)"
      "pa_block_tables st1 = pa_block_tables st" "pa_token_counts st1 = pa_token_counts st" "pa_block_size st1 = pa_block_size st"
    using assms(1,2) by (auto simp: take_blocks_def Let_def split: if_splits)
  have sp: "set ?f = set (take ?k ?f) \<union> set (drop ?k ?f)" "set (take ?k ?f) \<inter> set (drop ?k ?f) = {}"
    using assms(3) append_take_drop_id [of ?k ?f] by (metis set_append, metis distinct_append)
  show "length taken = nat n" "distinct taken" "set taken \<subseteq> set ?f" using t assms(3) by (auto dest: in_set_dropD)
  show "set (pa_free_blocks st1) = set ?f - set taken" using sp t by auto
  show "distinct (pa_free_blocks st1)" using t assms(3) by simp
  show "map_of (pa_refcounts st1) = (\<lambda>b. if b \<in> set taken then Some 1 else map_of (pa_refcounts st) b)"
    unfolding t(4) by (rule fold_dict_set)
  show "distinct (map fst (pa_refcounts st1))" unfolding t(4) using assms(4) by (rule distinct_fold_dict_set)
qed (use assms in \<open>auto simp: take_blocks_def Let_def split: if_splits\<close>)

lemma take_blocks_None: "take_blocks n st = None \<longleftrightarrow> int (length (pa_free_blocks st)) < n"
  by (simp add: take_blocks_def Let_def)

lemma paged_okD:
  assumes "paged_ok N st"
  shows "0 < pa_block_size st" "distinct (map fst (pa_block_tables st))" "distinct (map fst (pa_token_counts st))"
    "distinct (map fst (pa_refcounts st))"
    "\<And>b. map_of (pa_refcounts st) b = (if references st b = 0 then None else Some (int (references st b)))"
    "distinct (pa_free_blocks st)" "\<And>b. b \<in> set (pa_free_blocks st) \<longleftrightarrow> b < N \<and> references st b = 0"
    "\<And>b. 0 < references st b \<Longrightarrow> b < N"
    "\<And>i. map_of (pa_block_tables st) i = None \<longleftrightarrow> map_of (pa_token_counts st) i = None"
    "\<And>i t n. map_of (pa_block_tables st) i = Some t \<Longrightarrow> map_of (pa_token_counts st) i = Some n \<Longrightarrow>
       distinct t \<and> 0 \<le> n \<and> int (length t) = blocks_needed (pa_block_size st) n"
  using assms unfolding paged_ok_def by blast+

lemma paged_okI:
  assumes "0 < pa_block_size st" "distinct (map fst (pa_block_tables st))" "distinct (map fst (pa_token_counts st))"
    "distinct (map fst (pa_refcounts st))" "distinct (pa_free_blocks st)"
    "\<And>b. map_of (pa_refcounts st) b = (if references st b = 0 then None else Some (int (references st b)))"
    "\<And>b. b \<in> set (pa_free_blocks st) \<longleftrightarrow> b < N \<and> references st b = 0" "\<And>b. 0 < references st b \<Longrightarrow> b < N"
    "\<And>i. map_of (pa_block_tables st) i = None \<longleftrightarrow> map_of (pa_token_counts st) i = None"
    "\<And>i t n. map_of (pa_block_tables st) i = Some t \<Longrightarrow> map_of (pa_token_counts st) i = Some n \<Longrightarrow>
       distinct t \<and> 0 \<le> n \<and> int (length t) = blocks_needed (pa_block_size st) n"
  shows "paged_ok N st"
  using assms unfolding paged_ok_def by blast

lemma paged_ok_table:
  assumes "paged_ok N st" "map_of (pa_block_tables st) i = Some t"
  obtains n where "distinct t" "0 \<le> n" "map_of (pa_token_counts st) i = Some n" "int (length t) = blocks_needed (pa_block_size st) n"
proof -
  have "map_of (pa_token_counts st) i \<noteq> None" unfolding paged_okD(9) [OF assms(1), symmetric] using assms(2) by simp
  then obtain n where n: "map_of (pa_token_counts st) i = Some n" by blast
  from paged_okD(10) [OF assms this] n that show ?thesis by blast
qed

lemma taken_fresh:
  assumes "paged_ok N st" "take_blocks n st = Some (taken, st1)" "0 \<le> n"
  shows "length taken = nat n" "distinct taken" "\<And>b. b \<in> set taken \<Longrightarrow> b < N \<and> references st b = 0"
    "\<And>b. b \<in> set (pa_free_blocks st1) \<longleftrightarrow> b < N \<and> references st b = 0 \<and> b \<notin> set taken" "distinct (pa_free_blocks st1)"
    "pa_block_tables st1 = pa_block_tables st" "pa_token_counts st1 = pa_token_counts st" "pa_block_size st1 = pa_block_size st"
    "map_of (pa_refcounts st1) = (\<lambda>b. if b \<in> set taken then Some 1 else map_of (pa_refcounts st) b)"
    "distinct (map fst (pa_refcounts st1))"
proof -
  note ok = paged_okD [OF assms(1)]
  note t = take_blocks_Some [OF assms(2,3) ok(6,4)]
  show "length taken = nat n" "distinct taken" "distinct (pa_free_blocks st1)"
    "pa_block_tables st1 = pa_block_tables st" "pa_token_counts st1 = pa_token_counts st" "pa_block_size st1 = pa_block_size st"
    "map_of (pa_refcounts st1) = (\<lambda>b. if b \<in> set taken then Some 1 else map_of (pa_refcounts st) b)"
    "distinct (map fst (pa_refcounts st1))" by (rule t)+
  show "b < N \<and> references st b = 0" if "b \<in> set taken" for b using t(3) ok(7) that by blast
  show "b \<in> set (pa_free_blocks st1) \<longleftrightarrow> b < N \<and> references st b = 0 \<and> b \<notin> set taken" for b using t(4) ok(7) by auto
qed

text \<open>A table that gains the blocks just taken: a new sequence, or one that grows.\<close>

lemma place_taken:
  assumes ok: "paged_ok N st" and tk: "take_blocks n st = Some (taken, st1)" "0 \<le> n"
    and base: "map_of (pa_block_tables st) i = (if new then None else Some base)" "new \<Longrightarrow> base = []"
    and m: "0 \<le> m" "int (length base) + n = blocks_needed (pa_block_size st) m"
  shows "paged_ok N (st1\<lparr>pa_block_tables := dict_set i (base @ taken) (pa_block_tables st1), pa_token_counts := dict_set i m (pa_token_counts st1)\<rparr>)"
    (is "paged_ok N ?st")
proof -
  note t = taken_fresh [OF ok tk]
  note d = paged_okD [OF ok]
  have tb: "pa_block_tables ?st = dict_set i (base @ taken) (pa_block_tables st)" using t by simp
  have refs: "references ?st b = references st b + (if b \<in> set taken then 1 else 0)" for b
    using references_set [OF d(2) tb, of b] base count_distinct [OF t(2), of b] by (auto split: if_splits)
  have db: "distinct (base @ taken)"
  proof (cases new)
    case True
    with base(2) t(2) show ?thesis by simp
  next
    case False
    then have "map_of (pa_block_tables st) i = Some base" using base(1) by simp
    from paged_ok_table [OF ok this] references_table [OF this] t(2,3) show ?thesis
      by (metis count_list_0_iff disjoint_iff distinct_append le_zero_eq)
  qed
  have "int (length (base @ taken)) = blocks_needed (pa_block_size st) m" using m tk(2) t(1) by simp
  then have tab: "distinct t \<and> 0 \<le> k \<and> int (length t) = blocks_needed (pa_block_size ?st) k"
    if "map_of (pa_block_tables ?st) j = Some t" "map_of (pa_token_counts ?st) j = Some k" for j t k
    using that db m(1) d(10) [of j t k] t(6-8) by (cases "j = i") auto
  show ?thesis
  proof (rule paged_okI)
    fix b
    show "map_of (pa_refcounts ?st) b = (if references ?st b = 0 then None else Some (int (references ?st b)))"
      using refs [of b] d(5) [of b] t(3) [of b] t(9) by simp
    show "b \<in> set (pa_free_blocks ?st) \<longleftrightarrow> b < N \<and> references ?st b = 0" using refs [of b] t(4) [of b] by simp
    show "b < N" if "0 < references ?st b" using refs [of b] that d(8) [of b] t(3) [of b] by (auto split: if_splits)
  next
    fix j
    show "map_of (pa_block_tables ?st) j = None \<longleftrightarrow> map_of (pa_token_counts ?st) j = None" using d(9) [of j] t(6,7) by simp
  qed (use tab d(1-3) t(5-8,10) in simp_all)
qed

subsection \<open>Copy on write\<close>

lemma count_butlast:
  assumes "t \<noteq> []"
  shows "count_list (butlast t @ [r]) b + (if b = last t then 1 else 0) = count_list t b + (if b = r then 1 else 0)"
proof -
  have "count_list t b = count_list (butlast t @ [last t]) b" using assms by simp
  then show ?thesis by simp
qed

lemma copy_on_write_cases:
  assumes ok: "paged_ok N st" and tb: "map_of (pa_block_tables st) i = Some t" and cw: "copy_on_write st i t current = (x, st')"
  obtains (kept) "x = Inr (Some t)" "st' = st" "t = [] \<or> references st (last t) = 1 \<or> current mod pa_block_size st = 0"
  | (full) "x = Inr None" "st' = st"
  | (copied) r where "x = Inr (Some (butlast t @ [r]))" "paged_ok N st'" "t \<noteq> []"
      "pa_block_tables st' = dict_set i (butlast t @ [r]) (pa_block_tables st)" "pa_token_counts st' = pa_token_counts st"
      "pa_block_size st' = pa_block_size st" "references st' r = 1" "r \<notin> set t" "current mod pa_block_size st \<noteq> 0"
proof (cases "t = []")
  case True
  with cw kept show ?thesis by (simp add: copy_on_write_def)
next
  case False
  note d = paged_okD [OF ok]
  obtain n where n: "distinct t" "0 \<le> n" "map_of (pa_token_counts st) i = Some n" "int (length t) = blocks_needed (pa_block_size st) n"
    using paged_ok_table [OF ok tb] by blast
  have in_t: "0 < references st b" if "b \<in> set t" for b
    using references_table [OF tb, of b] count_distinct [OF n(1), of b] that by simp
  have rc: "map_of (pa_refcounts st) (last t) = Some (int (references st (last t)))" "0 < references st (last t)"
    using in_t [of "last t"] d(5) [of "last t"] False by simp_all
  show ?thesis
  proof (cases "1 < int (references st (last t)) \<and> current mod pa_block_size st \<noteq> 0")
    case no: False
    then have "x = Inr (Some t)" "st' = st" using cw rc False by (auto simp: copy_on_write_def split: if_splits)
    with no rc(2) show ?thesis by (intro kept) auto
  next
    case shared: True
    show ?thesis
    proof (cases "take_blocks 1 st")
      case None
      with shared cw rc False show ?thesis by (intro full) (auto simp: copy_on_write_def)
    next
      case (Some q)
      obtain taken st1 where q: "take_blocks 1 st = Some (taken, st1)" using Some by (cases q) simp
      note tk = taken_fresh [OF ok q, simplified]
      obtain r where r: "taken = [r]" using tk(1) by (cases taken) auto
      have r0: "references st r = 0" "r < N" using tk(3) [of r] r by simp_all
      have nl: "r \<noteq> last t" "r \<notin> set t" using r0 rc(2) in_t [of r] by auto
      let ?t1 = "butlast t @ [r]"
      have x: "x = Inr (Some ?t1)" and st': "st' = st1\<lparr>pa_refcounts := dict_set (last t) (int (references st (last t)) - 1) (pa_refcounts st1),
          pa_block_tables := dict_set i ?t1 (pa_block_tables st1)\<rparr>"
        using shared cw rc False q r nl tk(9) by (simp_all add: copy_on_write_def Let_def)
      have tab: "pa_block_tables st' = dict_set i ?t1 (pa_block_tables st)" "pa_token_counts st' = pa_token_counts st"
          "pa_block_size st' = pa_block_size st" "pa_free_blocks st' = pa_free_blocks st1" using st' tk by simp_all
      have refs: "references st' b + (if b = last t then 1 else 0) = references st b + (if b = r then 1 else 0)" for b
        using references_set [OF d(2) tab(1), of b] tb count_butlast [OF False, of r b] references_table [OF tb, of b] by auto
      have d1: "distinct ?t1" using n(1) nl(2) by (metis distinct1_rotate distinct_butlast in_set_butlastD distinct.simps(2) distinct_singleton distinct_append rotate1.simps(2))
      have "paged_ok N st'"
      proof (rule paged_okI)
        fix b
        show "map_of (pa_refcounts st') b = (if references st' b = 0 then None else Some (int (references st' b)))"
          using refs [of b] d(5) [of b] tk(9) r r0 nl shared unfolding st' by (cases "b = last t") auto
        show "b \<in> set (pa_free_blocks st') \<longleftrightarrow> b < N \<and> references st' b = 0"
          using refs [of b] tk(4) [of b] r tab(4) shared rc by (cases "b = last t") auto
        show "b < N" if "0 < references st' b" using refs [of b] that d(8) [of b] r0 by (cases "b = r") auto
      next
        fix j
        show "map_of (pa_block_tables st') j = None \<longleftrightarrow> map_of (pa_token_counts st') j = None" using d(9) [of j] tab n(3) by simp
        fix u k assume u: "map_of (pa_block_tables st') j = Some u" "map_of (pa_token_counts st') j = Some k"
        have "length ?t1 = length t" using False by simp
        then show "distinct u \<and> 0 \<le> k \<and> int (length u) = blocks_needed (pa_block_size st') k"
          using u tab n d1 d(10) [of j u k] by (cases "j = i") auto
      qed (use d(1-3) tk(5,10) tab st' in simp_all)
      moreover have "references st' r = 1" using refs [of r] r0 nl by simp
      ultimately show ?thesis using x tab nl False shared by (intro copied [of r]) simp_all
    qed
  qed
qed

subsection \<open>Reference counts of a whole table\<close>

lemma add_references_table:
  assumes "distinct t" "\<And>b. b \<in> set t \<Longrightarrow> map_of refs b \<noteq> None" "distinct (map fst refs)"
  shows "\<exists>refs'. add_references t refs = (Inr (), refs') \<and> distinct (map fst refs') \<and>
    map_of refs' = (\<lambda>b. if b \<in> set t then map_option (\<lambda>n. n + 1) (map_of refs b) else map_of refs b)"
  using assms
proof (induction t arbitrary: refs)
  case (Cons a t)
  obtain n where n: "map_of refs a = Some n" using Cons.prems(2) [of a] by auto
  have "\<exists>refs'. add_references t (dict_set a (n + 1) refs) = (Inr (), refs') \<and> distinct (map fst refs') \<and>
      map_of refs' = (\<lambda>b. if b \<in> set t then map_option (\<lambda>n. n + 1) (map_of (dict_set a (n + 1) refs) b) else map_of (dict_set a (n + 1) refs) b)"
    using Cons.prems by (intro Cons.IH) auto
  with n Cons.prems(1) show ?case by (auto simp: fun_eq_iff)
qed simp

lemma drop_references_table:
  assumes "distinct t" "\<And>b. b \<in> set t \<Longrightarrow> map_of refs b \<noteq> None" "distinct (map fst refs)"
  shows "\<exists>refs' free'. drop_references t refs free = (Inr (), refs', free') \<and> distinct (map fst refs') \<and>
    map_of refs' = (\<lambda>b. if b \<in> set t then (if map_of refs b = Some 1 then None else map_option (\<lambda>n. n - 1) (map_of refs b)) else map_of refs b) \<and>
    free' = free @ filter (\<lambda>b. map_of refs b = Some 1) t"
  using assms
proof (induction t arbitrary: refs free)
  case (Cons a t)
  obtain n where n: "map_of refs a = Some n" using Cons.prems(2) [of a] by auto
  let ?refs = "if n = 1 then dict_del a refs else dict_set a (n - 1) refs" and ?free = "if n = 1 then free @ [a] else free"
  have m: "map_of ?refs b = map_of refs b" if "b \<noteq> a" for b using that by simp
  have "\<exists>refs' free'. drop_references t ?refs ?free = (Inr (), refs', free') \<and> distinct (map fst refs') \<and>
      map_of refs' = (\<lambda>b. if b \<in> set t then (if map_of ?refs b = Some 1 then None else map_option (\<lambda>n. n - 1) (map_of ?refs b)) else map_of ?refs b) \<and>
      free' = ?free @ filter (\<lambda>b. map_of ?refs b = Some 1) t"
  proof (rule Cons.IH)
    show "distinct t" "distinct (map fst ?refs)" using Cons.prems by simp_all
    show "map_of ?refs b \<noteq> None" if "b \<in> set t" for b using m [of b] that Cons.prems(1) Cons.prems(2) [of b] by auto
  qed
  moreover have "drop_references (a # t) refs free = drop_references t ?refs ?free" using n by simp
  moreover have "filter (\<lambda>b. map_of ?refs b = Some 1) t = filter (\<lambda>b. map_of refs b = Some 1) t"
    using Cons.prems(1) m by (intro filter_cong) auto
  ultimately show ?case using n Cons.prems(1) by (auto simp: fun_eq_iff)
qed simp

lemma paged_fork_ok:
  assumes ok: "paged_ok N st" and p: "map_of (pa_block_tables st) p = Some t" "map_of (pa_block_tables st) c = None"
  shows "\<exists>st'. paged_fork st p c = (Inr True, st') \<and> paged_ok N st' \<and> pa_free_blocks st' = pa_free_blocks st \<and>
    pa_block_tables st' = dict_set c t (pa_block_tables st) \<and> map_of (pa_token_counts st') = (map_of (pa_token_counts st))(c := map_of (pa_token_counts st) p) \<and>
    length (pa_refcounts st') = length (pa_refcounts st)"
proof -
  note d = paged_okD [OF ok]
  obtain n where n: "distinct t" "0 \<le> n" "map_of (pa_token_counts st) p = Some n" "int (length t) = blocks_needed (pa_block_size st) n"
    using paged_ok_table [OF ok p(1)] by blast
  have in_t: "0 < references st b" if "b \<in> set t" for b
    using references_table [OF p(1), of b] count_distinct [OF n(1), of b] that by simp
  have held: "map_of (pa_refcounts st) b \<noteq> None" if "b \<in> set t" for b using d(5) [of b] in_t [OF that] by simp
  obtain refs where r: "add_references t (pa_refcounts st) = (Inr (), refs)" "distinct (map fst refs)"
      "map_of refs = (\<lambda>b. if b \<in> set t then map_option (\<lambda>n. n + 1) (map_of (pa_refcounts st) b) else map_of (pa_refcounts st) b)"
    using add_references_table [OF n(1) held d(4)] by blast
  let ?st = "st\<lparr>pa_refcounts := refs, pa_block_tables := dict_set c t (pa_block_tables st), pa_token_counts := dict_set c n (pa_token_counts st)\<rparr>"
  have f: "paged_fork st p c = (Inr True, ?st)" using p n(3) r(1) by (simp add: paged_fork_def)
  have refs: "references ?st b = references st b + (if b \<in> set t then 1 else 0)" for b
    using references_set [OF d(2), of ?st c t b] p(2) count_distinct [OF n(1), of b] by simp
  have "paged_ok N ?st"
  proof (rule paged_okI)
    fix b
    show "map_of (pa_refcounts ?st) b = (if references ?st b = 0 then None else Some (int (references ?st b)))"
      using refs [of b] d(5) [of b] r(3) in_t [of b] by (cases "b \<in> set t") simp_all
    show "b \<in> set (pa_free_blocks ?st) \<longleftrightarrow> b < N \<and> references ?st b = 0" using refs [of b] d(7) [of b] in_t [of b] by auto
    show "b < N" if "0 < references ?st b" using refs [of b] that d(8) [of b] in_t [of b] by (cases "b \<in> set t") auto
  next
    fix j
    show "map_of (pa_block_tables ?st) j = None \<longleftrightarrow> map_of (pa_token_counts ?st) j = None" using d(9) [of j] by simp
    fix u k assume "map_of (pa_block_tables ?st) j = Some u" "map_of (pa_token_counts ?st) j = Some k"
    then show "distinct u \<and> 0 \<le> k \<and> int (length u) = blocks_needed (pa_block_size ?st) k"
      using n d(10) [of j u k] by (cases "j = c") auto
  qed (use d(1-3,6) r in simp_all)
  moreover have "set (map fst refs) = set (map fst (pa_refcounts st))"
    using r(3) d(5) in_t by (simp add: dom_map_of_conv_image_fst [symmetric] dom_def)
  then have "length refs = length (pa_refcounts st)" using r(2) d(4) by (metis distinct_card length_map)
  ultimately show ?thesis using f n(3) by (intro exI [of _ ?st]) auto
qed

lemma paged_free_ok:
  assumes ok: "paged_ok N st" and p: "map_of (pa_block_tables st) i = Some t"
  shows "\<exists>st'. paged_free st i = (Inr (), st') \<and> paged_ok N st' \<and> pa_block_tables st' = dict_del i (pa_block_tables st) \<and>
    map_of (pa_token_counts st') = (map_of (pa_token_counts st))(i := None)"
proof -
  note d = paged_okD [OF ok]
  obtain n where n: "distinct t" "0 \<le> n" "map_of (pa_token_counts st) i = Some n" "int (length t) = blocks_needed (pa_block_size st) n"
    using paged_ok_table [OF ok p(1)] by blast
  have in_t: "0 < references st b" if "b \<in> set t" for b
    using references_table [OF p(1), of b] count_distinct [OF n(1), of b] that by simp
  let ?free = "pa_free_blocks st @ filter (\<lambda>b. map_of (pa_refcounts st) b = Some 1) t"
  have held: "map_of (pa_refcounts st) b \<noteq> None" if "b \<in> set t" for b using d(5) [of b] in_t [OF that] by simp
  obtain refs where r: "drop_references t (pa_refcounts st) (pa_free_blocks st) = (Inr (), refs, ?free)" "distinct (map fst refs)"
      "map_of refs = (\<lambda>b. if b \<in> set t then (if map_of (pa_refcounts st) b = Some 1 then None else map_option (\<lambda>n. n - 1) (map_of (pa_refcounts st) b))
         else map_of (pa_refcounts st) b)"
    using drop_references_table [OF n(1) held d(4)] by blast
  let ?st = "st\<lparr>pa_block_tables := dict_del i (pa_block_tables st), pa_refcounts := refs, pa_free_blocks := ?free,
    pa_token_counts := dict_del i (pa_token_counts st)\<rparr>"
  have f: "paged_free st i = (Inr (), ?st)" using p n(3) r(1) by (simp add: paged_free_def)
  have refs: "references st b = references ?st b + (if b \<in> set t then 1 else 0)" for b
    using references_del [OF d(2), of ?st i t b] p count_distinct [OF n(1), of b] by simp
  have one: "map_of (pa_refcounts st) b = Some 1 \<longleftrightarrow> references st b = 1" for b using d(5) [of b] by auto
  have "paged_ok N ?st"
  proof (rule paged_okI)
    fix b
    show "map_of (pa_refcounts ?st) b = (if references ?st b = 0 then None else Some (int (references ?st b)))"
      using refs [of b] d(5) [of b] r(3) in_t [of b] by auto
    show "b \<in> set (pa_free_blocks ?st) \<longleftrightarrow> b < N \<and> references ?st b = 0"
      using refs [of b] d(7) [of b] d(8) [of b] one [of b] by auto
    show "b < N" if "0 < references ?st b" using refs [of b] that d(8) [of b] by simp
  next
    fix j
    show "map_of (pa_block_tables ?st) j = None \<longleftrightarrow> map_of (pa_token_counts ?st) j = None" using d(9) [of j] by simp
    fix u k assume "map_of (pa_block_tables ?st) j = Some u" "map_of (pa_token_counts ?st) j = Some k"
    then show "distinct u \<and> 0 \<le> k \<and> int (length u) = blocks_needed (pa_block_size ?st) k"
      using d(10) [of j u k] by (cases "j = i") auto
  next
    show "distinct (pa_free_blocks ?st)" using d(6,7) n(1) in_t by (auto simp: one)
  qed (use d(1-3) r in simp_all)
  with f show ?thesis by (intro exI [of _ ?st]) simp
qed

lemma paged_allocate_cases:
  assumes ok: "paged_ok N st" and al: "paged_allocate st i n = (r, st')"
  obtains (error) "map_of (pa_block_tables st) i \<noteq> None \<or> n < 0" "isl r" "st' = st"
  | (full) "map_of (pa_block_tables st) i = None" "0 \<le> n" "r = Inr False" "st' = st"
      "int (length (pa_free_blocks st)) < blocks_needed (pa_block_size st) n"
  | (placed) "map_of (pa_block_tables st) i = None" "0 \<le> n" "r = Inr True" "paged_ok N st'"
      "blocks_needed (pa_block_size st) n \<le> int (length (pa_free_blocks st))"
      "map_of (pa_token_counts st') = (map_of (pa_token_counts st))(i \<mapsto> n)"
proof (cases "map_of (pa_block_tables st) i \<noteq> None \<or> n < 0")
  case True
  with al error show ?thesis by (auto simp: paged_allocate_def split: if_splits)
next
  case False
  then have f: "map_of (pa_block_tables st) i = None" "0 \<le> n" by force+
  let ?k = "blocks_needed (pa_block_size st) n"
  show ?thesis
  proof (cases "take_blocks ?k st")
    case None
    with al f show ?thesis by (intro full) (simp_all add: paged_allocate_def take_blocks_None [symmetric])
  next
    case (Some q)
    obtain taken st1 where q: "take_blocks ?k st = Some (taken, st1)" using Some by (cases q) simp
    have k: "0 \<le> ?k" using blocks_needed_nonneg paged_okD(1) [OF ok] f(2) by simp
    have "paged_ok N (st1\<lparr>pa_block_tables := dict_set i ([] @ taken) (pa_block_tables st1), pa_token_counts := dict_set i n (pa_token_counts st1)\<rparr>)"
      by (rule place_taken [OF ok q k, where new = True]) (use f in simp_all)
    moreover have "?k \<le> int (length (pa_free_blocks st))" using q take_blocks_None [of ?k st] by fastforce
    moreover have "pa_token_counts st1 = pa_token_counts st" by (rule taken_fresh(7) [OF ok q k])
    ultimately show ?thesis using al f q by (intro placed) (auto simp: paged_allocate_def)
  qed
qed

lemma grow_table_cases:
  assumes ok: "paged_ok N st" and tb: "map_of (pa_block_tables st) i = Some t" "map_of (pa_token_counts st) i = Some m" "m \<le> target"
    and gr: "grow_table st i t target = (r, st')"
  obtains (full) "r = Inr False" "st' = st"
  | (grown) taken where "r = Inr True" "paged_ok N st'" "map_of (pa_token_counts st') = (map_of (pa_token_counts st))(i \<mapsto> target)"
      "map_of (pa_block_tables st') = (map_of (pa_block_tables st))(i \<mapsto> t @ taken)"
      "\<And>b. references st' b = references st b + (if b \<in> set taken then 1 else 0)" "\<And>b. b \<in> set taken \<Longrightarrow> references st b = 0"
proof -
  note d = paged_okD [OF ok]
  have m: "distinct t" "0 \<le> m" "int (length t) = blocks_needed (pa_block_size st) m" using d(10) [OF tb(1,2)] by simp_all
  let ?k = "blocks_needed (pa_block_size st) target - int (length t)"
  have k: "0 \<le> ?k" using blocks_needed_mono [OF d(1) tb(3)] m(3) by simp
  show ?thesis
  proof (cases "take_blocks ?k st")
    case None
    then have "?k \<noteq> 0" by (auto simp: take_blocks_None)
    with None k gr show ?thesis by (intro full) (simp_all add: grow_table_def Let_def)
  next
    case (Some q)
    obtain taken st1 where q: "take_blocks ?k st = Some (taken, st1)" using Some by (cases q) simp
    note tk = taken_fresh [OF ok q k]
    let ?st = "st1\<lparr>pa_block_tables := dict_set i (t @ taken) (pa_block_tables st1), pa_token_counts := dict_set i target (pa_token_counts st1)\<rparr>"
    have okn: "paged_ok N ?st"
      by (rule place_taken [OF ok q k, where new = False]) (use tb m in simp_all)
    have refs: "references ?st b = references st b + (if b \<in> set taken then 1 else 0)" for b
      using references_set [OF d(2), of ?st i "t @ taken" b] tb(1) count_distinct [OF tk(2), of b] tk(6) by simp
    show ?thesis
    proof (cases "0 < ?k")
      case True
      then have "r = Inr True" "st' = ?st" using gr q by (auto simp: grow_table_def Let_def)
      with okn refs tk show ?thesis by (intro grown [of taken]) simp_all
    next
      case False
      with k have k0: "?k = 0" by simp
      then have "taken = []" "length (pa_free_blocks st) = length (pa_free_blocks st)" using tk(1) by simp_all
      have st': "st' = st\<lparr>pa_token_counts := dict_set i target (pa_token_counts st)\<rparr>" "r = Inr True" using gr k0 by (auto simp: grow_table_def Let_def)
      have rf: "references st' b = references st b" for b using st' by (simp add: references_def)
      have "paged_ok N st'"
      proof (rule paged_okI)
        fix j
        show "map_of (pa_block_tables st') j = None \<longleftrightarrow> map_of (pa_token_counts st') j = None" using d(9) [of j] tb st' by auto
        fix u k assume u: "map_of (pa_block_tables st') j = Some u" "map_of (pa_token_counts st') j = Some k"
        show "distinct u \<and> 0 \<le> k \<and> int (length u) = blocks_needed (pa_block_size st') k"
        proof (cases "j = i")
          case True
          with u st' tb(1) have "u = t" "k = target" by simp_all
          with m tb(3) k0 st'(1) show ?thesis by simp
        next
          case False
          with u st' have "map_of (pa_block_tables st) j = Some u" "map_of (pa_token_counts st) j = Some k" by simp_all
          from d(10) [OF this] st'(1) show ?thesis by simp
        qed
      qed (use d rf st' in simp_all)
      moreover have "map_of (pa_block_tables st') = (map_of (pa_block_tables st))(i \<mapsto> t @ [])" using st' tb(1) by (auto simp: fun_eq_iff)
      ultimately show ?thesis using st' rf by (intro grown [of "[]"]) simp_all
    qed
  qed
qed

lemma paged_extend_cases:
  assumes ok: "paged_ok N st" and ex: "paged_extend st i n = (r, st')"
  obtains (error) "map_of (pa_block_tables st) i = None \<or> n < 0" "isl r" "st' = st"
  | (refused) "map_of (pa_block_tables st) i \<noteq> None" "0 \<le> n" "r = Inr False" "paged_ok N st'" "pa_token_counts st' = pa_token_counts st"
  | (grown) t m base taken where "map_of (pa_block_tables st) i = Some t" "map_of (pa_token_counts st) i = Some m" "0 \<le> n" "r = Inr True"
      "paged_ok N st'" "map_of (pa_token_counts st') = (map_of (pa_token_counts st))(i \<mapsto> m + n)"
      "map_of (pa_block_tables st') = (map_of (pa_block_tables st))(i \<mapsto> base @ taken)"
      "length base = length t" "butlast base = butlast t" "m mod pa_block_size st = 0 \<longrightarrow> base = t"
      "t \<noteq> [] \<longrightarrow> m mod pa_block_size st \<noteq> 0 \<longrightarrow> references st' (last base) = 1" "\<forall>b \<in> set taken. references st' b = 1"
proof (cases "map_of (pa_block_tables st) i = None \<or> n < 0")
  case True
  with ex error show ?thesis by (auto simp: paged_extend_def split: option.splits)
next
  case False
  then obtain t where t: "map_of (pa_block_tables st) i = Some t" "0 \<le> n" by force
  obtain m where m: "distinct t" "0 \<le> m" "map_of (pa_token_counts st) i = Some m" "int (length t) = blocks_needed (pa_block_size st) m"
    using paged_ok_table [OF ok t(1)] by blast
  obtain x st1 where cw: "copy_on_write st i t m = (x, st1)" by fastforce
  have ex': "(r, st') = (case x of Inl e \<Rightarrow> (Inl e, st1) | Inr None \<Rightarrow> (Inr False, st1) | Inr (Some u) \<Rightarrow> grow_table st1 i u (m + n))"
    using ex t m(3) cw by (simp split: sum.splits option.splits) (auto simp: paged_extend_def)
  from ok t(1) cw show ?thesis
  proof (cases rule: copy_on_write_cases)
    case kept
    then have gr: "grow_table st i t (m + n) = (r, st')" using ex' by simp
    have "m \<le> m + n" using t by simp
    from ok t(1) m(3) this gr show ?thesis
    proof (cases rule: grow_table_cases)
      case full
      with t ok show ?thesis by (intro refused) simp_all
    next
      case g: (grown taken)
      have "0 < length t \<Longrightarrow> references st (last t) = 1 \<Longrightarrow> last t \<notin> set taken" using g(6) [of "last t"] by auto
      with kept(3) g t m show ?thesis by (intro grown [of t m t taken]) auto
    qed
  next
    case full
    with ex' t ok show ?thesis by (intro refused) simp_all
  next
    case (copied b)
    let ?u = "butlast t @ [b]"
    have gr: "grow_table st1 i ?u (m + n) = (r, st')" using ex' copied(1) by simp
    have u: "map_of (pa_block_tables st1) i = Some ?u" "map_of (pa_token_counts st1) i = Some m" "m \<le> m + n" using copied t m by simp_all
    from copied(2) u gr show ?thesis
    proof (cases rule: grow_table_cases)
      case full
      with t copied show ?thesis by (intro refused) simp_all
    next
      case g: (grown taken)
      have "b \<notin> set taken" using g(6) [of b] copied(7) by auto
      then show ?thesis using g t m copied by (intro grown [of t m ?u taken]) auto
    qed
  qed
qed

interpretation paged: kv_allocator paged_ops "paged_ok N" "\<lambda>st. map_of (pa_token_counts st)" for N
proof
  fix st c r st'
  assume ok: "paged_ok N st" and st: "kv_step paged_ops c st = (r, st')"
  note none = paged_okD(9) [OF ok]
  have "paged_ok N st' \<and> (isl r \<longleftrightarrow> spec_error c (map_of (pa_token_counts st))) \<and>
      map_of (pa_token_counts st') = (if r = Inr True then spec_update c (map_of (pa_token_counts st)) else map_of (pa_token_counts st))"
  proof (cases c)
    case (Allocate i n)
    with st have "paged_allocate st i n = (r, st')" by (simp add: paged_ops_def)
    with ok show ?thesis
      by (cases rule: paged_allocate_cases) (use ok Allocate none in auto)
  next
    case (Extend i n)
    with st have "paged_extend st i n = (r, st')" by (simp add: paged_ops_def)
    with ok show ?thesis
    proof (cases rule: paged_extend_cases)
      case error
      with ok Extend none [of i] show ?thesis by auto
    next
      case refused
      with Extend none [of i] show ?thesis by auto
    next
      case (grown t m base taken)
      with Extend show ?thesis by simp
    qed
  next
    case (Fork p k)
    show ?thesis
    proof (cases "map_of (pa_block_tables st) p = None \<or> map_of (pa_block_tables st) k \<noteq> None")
      case True
      with st ok Fork none [of p] none [of k] show ?thesis
        by (auto simp: paged_ops_def paged_fork_def split: option.splits)
    next
      case False
      then obtain t where "map_of (pa_block_tables st) p = Some t" "map_of (pa_block_tables st) k = None" by force
      from paged_fork_ok [OF ok this] st Fork none [of p] none [of k] False show ?thesis by (auto simp: paged_ops_def)
    qed
  next
    case (Free i)
    show ?thesis
    proof (cases "map_of (pa_block_tables st) i")
      case None
      with st ok Free none [of i] show ?thesis by (auto simp: paged_ops_def paged_free_def)
    next
      case (Some t)
      from paged_free_ok [OF ok this] st Free none [of i] Some show ?thesis by (auto simp: paged_ops_def)
    qed
  qed
  then show "paged_ok N st'" "isl r \<longleftrightarrow> spec_error c (map_of (pa_token_counts st))"
      "map_of (pa_token_counts st') = (if r = Inr True then spec_update c (map_of (pa_token_counts st)) else map_of (pa_token_counts st))"
    by simp_all
next
  fix st assume "paged_ok N st"
  then have d: "distinct (map fst (pa_token_counts st))" by (rule paged_okD)
  have "kv_logical_tokens_held paged_ops st = sum_list (map (\<lambda>(_, v). v) (pa_token_counts st))"
    by (simp add: paged_ops_def paged_tokens_held_def case_prod_unfold)
  then show "kv_logical_tokens_held paged_ops st = (\<Sum>i \<in> dom (map_of (pa_token_counts st)). the (map_of (pa_token_counts st) i))"
    unfolding sum_dict [OF d] .
qed

subsection \<open>The pool after any calls\<close>

lemma make_paged_ok:
  assumes "make_paged total_blocks block_size = Inr st"
  shows "paged_ok (nat total_blocks) st" "pa_token_counts st = []" "pa_block_size st = block_size" "0 < total_blocks"
  using assms by (auto simp: make_paged_def paged_ok_def references_def split: if_splits)

lemma paged_block_size: "kv_run paged_ops cs st = (rs, st') \<Longrightarrow> paged_ok N st \<Longrightarrow> pa_block_size st' = pa_block_size st"
proof (induction cs arbitrary: st rs)
  case (Cons c cs)
  obtain r st1 where 1: "kv_step paged_ops c st = (r, st1)" by fastforce
  have "pa_block_size st1 = pa_block_size st"
    using 1 by (cases c) (auto simp: paged_ops_def paged_allocate_def paged_extend_def paged_fork_def paged_free_def copy_on_write_def grow_table_def
      take_blocks_def Let_def split: if_splits option.splits prod.splits sum.splits)
  with Cons 1 paged.step_ok [OF Cons.prems(2) 1] show ?case by (auto split: prod.splits)
qed simp

lemma blocks_conserved:
  assumes "paged_ok N st"
  shows "length (pa_free_blocks st) + length (pa_refcounts st) = N"
proof -
  note d = paged_okD [OF assms]
  let ?F = "{b. b < N \<and> references st b = 0}" and ?U = "{b. b < N \<and> 0 < references st b}"
  have "set (pa_free_blocks st) = ?F" using d(7) by auto
  then have "length (pa_free_blocks st) = card ?F" using distinct_card [OF d(6)] by simp
  moreover have "set (map fst (pa_refcounts st)) = ?U"
    using d(5,8) by (auto simp: dom_map_of_conv_image_fst [symmetric] dom_def)
  then have "length (pa_refcounts st) = card ?U" using distinct_card [OF d(4)] by simp
  moreover have "?F \<union> ?U = {..<N}" "?F \<inter> ?U = {}" by auto
  then have "card ?F + card ?U = N" using card_Un_disjoint [of ?F ?U] by (metis card_lessThan finite_Collect_conjI finite_Collect_less_nat)
  ultimately show ?thesis by simp
qed

text \<open>
  C16. The paged allocator loses and invents no block. After any calls on a new pool, the reference count of a block is the number of tables that hold it,
  the free blocks are each listed once and held by nobody, free blocks and blocks in use add up to the pool, every sequence
  has the tokens that the specification says, and the calls that raised are exactly the invalid ones.
\<close>

theorem paged_allocator_correct:
  assumes "make_paged total_blocks block_size = Inr st0" and "kv_run paged_ops cs st0 = (rs, st)"
  shows "(\<forall>b. map_of (pa_refcounts st) b = (if references st b = 0 then None else Some (int (references st b)))) \<and>
    distinct (pa_free_blocks st) \<and> (\<forall>b. b \<in> set (pa_free_blocks st) \<longrightarrow> references st b = 0) \<and>
    int (length (pa_free_blocks st)) + int (length (pa_refcounts st)) = total_blocks \<and>
    map_of (pa_token_counts st) = spec_run cs rs Map.empty \<and> spec_errors cs rs Map.empty"
proof -
  note m = make_paged_ok [OF assms(1)]
  have ok: "paged_ok (nat total_blocks) st" using paged.run_ok [OF m(1) assms(2)] .
  have "int (length (pa_free_blocks st)) + int (length (pa_refcounts st)) = total_blocks"
    using blocks_conserved [OF ok] m(4) by simp
  moreover have "map_of (pa_token_counts st) = spec_run cs rs Map.empty \<and> spec_errors cs rs Map.empty"
    using paged.run_spec [OF m(1) assms(2)] m(2) by simp
  ultimately show ?thesis using paged_okD(5-7) [OF ok] by simp
qed

lemma last_block:
  assumes "0 < bs" "0 \<le> m" "m < 2 ^ 53" "int k = blocks_needed bs m"
  shows "k = (if m mod bs = 0 then nat (m div bs) else Suc (nat (m div bs)))"
proof -
  have "blocks_needed bs m = \<lceil>(of_int m / of_int bs :: rat)\<rceil>" using assms(1-3) by (rule blocks_needed_exact)
  also have "\<dots> = - ((- m) div bs)" by (simp add: ceiling_divide_eq_div)
  also have "\<dots> = (if m mod bs = 0 then m div bs else m div bs + 1)"
    using assms(1) by (simp add: zdiv_zminus1_eq_if)
  finally have "int k = (if m mod bs = 0 then m div bs else m div bs + 1)" using assms(4) by simp
  moreover have "0 \<le> m div bs" using assms(1,2) by (simp add: pos_imp_zdiv_nonneg_iff)
  ultimately show ?thesis by (simp split: if_splits)
qed

text \<open>
  Growing a sequence writes only into blocks of its own. When \<open>extend\<close> succeeds on a sequence of fewer than \<open>2 ^ 53\<close> tokens, every block from the
  one that receives the first new token on is held by no other sequence; the blocks before it stay, and the tables of all other sequences are unchanged.
\<close>

theorem extend_writes_private_blocks:
  assumes "make_paged total_blocks bs = Inr st0" and "kv_run paged_ops cs st0 = (rs, st)"
    and "map_of (pa_block_tables st) i = Some t" and "map_of (pa_token_counts st) i = Some m" and "m < 2 ^ 53"
    and "paged_extend st i n = (Inr True, st')"
  shows "\<exists>u. map_of (pa_block_tables st') = (map_of (pa_block_tables st))(i \<mapsto> u) \<and>
    (\<forall>j < length u. nat (m div bs) \<le> j \<longrightarrow> references st' (u ! j) = 1) \<and> take (nat (m div bs)) u = take (nat (m div bs)) t"
proof -
  note mk = make_paged_ok [OF assms(1)]
  have ok: "paged_ok (nat total_blocks) st" using paged.run_ok [OF mk(1) assms(2)] .
  have bs: "pa_block_size st = bs" using paged_block_size [OF assms(2) mk(1)] mk(3) by simp
  have t: "0 \<le> m" "int (length t) = blocks_needed bs m" using paged_okD(10) [OF ok assms(3,4)] bs by simp_all
  have bs0: "0 < bs" using paged_okD(1) [OF ok] bs by simp
  note k = last_block [OF bs0 t(1) assms(5) t(2)]
  from ok assms(6) show ?thesis
  proof (cases rule: paged_extend_cases)
    case (grown t' m' base taken)
    then have [simp]: "t' = t" "m' = m" using assms(3,4) by simp_all
    have "references st' ((base @ taken) ! j) = 1" if "j < length (base @ taken)" "nat (m div bs) \<le> j" for j
    proof (cases "j < length base")
      case True
      then have "m mod bs \<noteq> 0" "j = length t - 1" "t \<noteq> []" "base \<noteq> []" using that(2) k grown(8) by (auto split: if_splits)
      with grown(8,11) bs True show ?thesis by (simp add: nth_append last_conv_nth)
    next
      case False
      with that grown(12) show ?thesis by (simp add: nth_append)
    qed
    moreover have "take (nat (m div bs)) (base @ taken) = take (nat (m div bs)) t"
    proof (cases "m mod bs = 0")
      case True
      with grown(10) k bs show ?thesis by simp
    next
      case False
      then have l: "length t = Suc (nat (m div bs))" using k by simp
      then have "take (nat (m div bs)) base = butlast base" "take (nat (m div bs)) t = butlast t" using grown(8) by (simp_all add: butlast_conv_take)
      with grown(8,9) l show ?thesis by simp
    qed
    ultimately show ?thesis using grown(7) by blast
  qed simp_all
qed

text \<open>
  In a paged pool only the number of free blocks counts. A new sequence is served exactly when enough blocks are free, a fork of a sequence
  always is and takes no block, and the external fragmentation is zero.
\<close>

theorem paged_serves_by_count:
  assumes "make_paged total_blocks bs = Inr st0" and "kv_run paged_ops cs st0 = (rs, st)" and "map_of (pa_block_tables st) i = None" and "0 \<le> n"
  shows "fst (paged_allocate st i n) = Inr (blocks_needed bs n \<le> int (length (pa_free_blocks st))) \<and>
    (\<forall>p t. map_of (pa_block_tables st) p = Some t \<longrightarrow> fst (paged_fork st p i) = Inr True \<and>
       pa_free_blocks (snd (paged_fork st p i)) = pa_free_blocks st \<and> paged_slots_used (snd (paged_fork st p i)) = paged_slots_used st) \<and>
    external_fragmentation (paged_free_runs st) = Inr 0"
proof -
  note mk = make_paged_ok [OF assms(1)]
  have ok: "paged_ok (nat total_blocks) st" using paged.run_ok [OF mk(1) assms(2)] .
  have bs: "pa_block_size st = bs" using paged_block_size [OF assms(2) mk(1)] mk(3) by simp
  obtain r st' where al: "paged_allocate st i n = (r, st')" by fastforce
  from ok al have "r = Inr (blocks_needed bs n \<le> int (length (pa_free_blocks st)))"
    by (cases rule: paged_allocate_cases) (use assms(3,4) bs in auto)
  moreover have "fst (paged_fork st p i) = Inr True \<and> pa_free_blocks (snd (paged_fork st p i)) = pa_free_blocks st \<and>
      paged_slots_used (snd (paged_fork st p i)) = paged_slots_used st" if p: "map_of (pa_block_tables st) p = Some t" for p t
  proof -
    obtain st1 where f: "paged_fork st p i = (Inr True, st1)" "paged_ok (nat total_blocks) st1" "pa_free_blocks st1 = pa_free_blocks st"
        "length (pa_refcounts st1) = length (pa_refcounts st)"
      using paged_fork_ok [OF ok p assms(3)] by blast
    have "kv_run paged_ops [Fork p i] st = ([Inr True], st1)" using f(1) by (simp add: paged_ops_def)
    from paged_block_size [OF this ok] f show ?thesis by (simp add: paged_slots_used_def)
  qed
  moreover have "external_fragmentation (paged_free_runs st) = Inr 0"
    using paged_okD(1) [OF ok] by (simp add: external_fragmentation_def paged_free_runs_def Let_def mult_less_0_iff)
  ultimately show ?thesis using al by simp
qed

subsection \<open>Examples\<close>

definition ex_blocks :: paged_allocator where
  "ex_blocks = \<lparr>pa_block_size = 2, pa_free_blocks = [0, 1, 2, 3], pa_block_tables = [], pa_token_counts = [], pa_refcounts = []\<rparr>"

lemma ex_blocks_made: "make_paged 4 2 = Inr ex_blocks"
  by (simp add: make_paged_def ex_blocks_def upt_rec)

definition ex_forked :: paged_allocator where
  "ex_forked = \<lparr>pa_block_size = 2, pa_free_blocks = [0, 1], pa_block_tables = [(''a'', [3, 2]), (''b'', [3, 2])],
     pa_token_counts = [(''a'', 3), (''b'', 3)], pa_refcounts = [(3, 2), (2, 2)]\<rparr>"

lemma ex_forked_run: "kv_run paged_ops [Allocate ''a'' 3, Fork ''a'' ''b''] ex_blocks = ([Inr True, Inr True], ex_forked)"
  by code_simp

theorem paged_allocator_correct_witness:
  "kv_run paged_ops [Allocate ''a'' 3, Fork ''a'' ''b''] ex_blocks = ([Inr True, Inr True], ex_forked) \<and>
   references ex_forked 3 = 2 \<and> length (pa_free_blocks ex_forked) + length (pa_refcounts ex_forked) = 4"
proof -
  have "int (length (pa_free_blocks ex_forked)) + int (length (pa_refcounts ex_forked)) = 4"
    "map_of (pa_refcounts ex_forked) 3 = (if references ex_forked 3 = 0 then None else Some (int (references ex_forked 3)))"
    using paged_allocator_correct [OF ex_blocks_made ex_forked_run] by blast+
  then show ?thesis using ex_forked_run by (auto simp: ex_forked_def split: if_splits)
qed

theorem extend_writes_private_blocks_witness:
  "\<exists>st' u. paged_extend ex_forked ''a'' 2 = (Inr True, st') \<and> map_of (pa_block_tables st') = (map_of (pa_block_tables ex_forked))(''a'' \<mapsto> u) \<and>
     (\<forall>j < length u. 1 \<le> j \<longrightarrow> references st' (u ! j) = 1)"
proof -
  obtain st' where "paged_extend ex_forked ''a'' 2 = (Inr True, st')"
  proof (cases "paged_extend ex_forked ''a'' 2")
    case (Pair r st')
    moreover have "fst (paged_extend ex_forked ''a'' 2) = Inr True" by code_simp
    ultimately show ?thesis using that by simp
  qed
  with extend_writes_private_blocks [OF ex_blocks_made ex_forked_run _ _ _ this, of "[3, 2]" 3] show ?thesis
    by (fastforce simp: ex_forked_def)
qed

theorem paged_serves_by_count_witness:
  "fst (paged_allocate ex_forked ''c'' 5) = Inr False \<and> fst (paged_fork ex_forked ''a'' ''c'') = Inr True \<and>
   external_fragmentation (paged_free_runs ex_forked) = Inr 0"
proof -
  have "blocks_needed 2 5 = 3" by code_simp
  with paged_serves_by_count [OF ex_blocks_made ex_forked_run, of "''c''" 5] show ?thesis by (simp add: ex_forked_def)
qed

text \<open>
  An extension that fails can still take a block. Two sequences share two blocks of two slots each, and one block is free. The extension of one of them first makes
  the shared last block private, then finds too few blocks and returns \<open>False\<close>; the sequence has the
  tokens it had, but the free block is gone.
\<close>

theorem failed_extend_costs_block:
  "\<exists>st st'. kv_run paged_ops [Allocate ''a'' 3, Fork ''a'' ''b'', Allocate ''c'' 2] ex_blocks = ([Inr True, Inr True, Inr True], st) \<and>
     paged_extend st ''a'' 2 = (Inr False, st') \<and> pa_token_counts st' = pa_token_counts st \<and>
     length (pa_free_blocks st) = 1 \<and> length (pa_free_blocks st') = 0 \<and> paged_slots_used st' = paged_slots_used st + 2"
proof -
  let ?st = "\<lparr>pa_block_size = 2, pa_free_blocks = [0], pa_block_tables = [(''a'', [3, 2]), (''b'', [3, 2]), (''c'', [1])],
     pa_token_counts = [(''a'', 3), (''b'', 3), (''c'', 2)], pa_refcounts = [(3, 2), (2, 2), (1, 1)]\<rparr>"
  have 1: "kv_run paged_ops [Allocate ''a'' 3, Fork ''a'' ''b'', Allocate ''c'' 2] ex_blocks = ([Inr True, Inr True, Inr True], ?st)" by code_simp
  have 2: "fst (paged_extend ?st ''a'' 2) = Inr False" "pa_token_counts (snd (paged_extend ?st ''a'' 2)) = pa_token_counts ?st"
    "length (pa_free_blocks ?st) = 1" "length (pa_free_blocks (snd (paged_extend ?st ''a'' 2))) = 0"
    "paged_slots_used (snd (paged_extend ?st ''a'' 2)) = paged_slots_used ?st + 2" by code_simp+
  obtain r st' where 3: "paged_extend ?st ''a'' 2 = (r, st')" by fastforce
  from 2 [unfolded 3] 1 3 show ?thesis by (intro exI [of _ ?st] exI [of _ st']) simp
qed

text \<open>
  The internal fragmentation of a pool with shared blocks cannot be measured: after one fork the allocator holds more tokens than slots, because a shared
  token counts once for each sequence and its slot only once, and the measure rejects these numbers.
\<close>

theorem forked_pool_rejected_by_measure:
  "paged_slots_used ex_forked = 4 \<and> paged_tokens_held ex_forked = 6 \<and>
   internal_fragmentation (paged_slots_used ex_forked) (paged_tokens_held ex_forked) =
     Inl (ValueError ''logical tokens held cannot exceed physical slots used'') \<and>
   kv_run paged_ops [Allocate ''a'' 3, Fork ''a'' ''b''] ex_blocks = ([Inr True, Inr True], ex_forked)"
  using ex_forked_run by (simp add: paged_slots_used_def paged_tokens_held_def ex_forked_def internal_fragmentation_def)

end
