(* ===== verification/Batch_Scheduling.thy ===== *)
theory Batch_Scheduling
  imports Cag_Entities "HOL-Library.Sublist"
begin

text \<open>
  Forming batches: \<^verbatim>\<open>FIFOBatchScheduler\<close>, \<^verbatim>\<open>PrefixAwareBatchScheduler\<close> and the measures of
  \<^verbatim>\<open>src/cag/domain/batching_metrics.py\<close>. What both schedulers promise is a locale.
\<close>

subsection \<open>FIFOBatchScheduler\<close>

definition range_step :: "nat \<Rightarrow> nat \<Rightarrow> nat list" where
  \<comment> \<open>\<open>range(0, n, step)\<close>\<close>
  "range_step n step = map (\<lambda>k. k * step) [0..<(n + step - 1) div step]"

definition chunks :: "int \<Rightarrow> 'a list \<Rightarrow> 'a list list" where
  \<comment> \<open>\<open>xs[start : start + m]\<close> for every start\<close>
  "chunks m xs = map (\<lambda>start. take (nat m) (drop start xs)) (range_step (length xs) (nat m))"

definition bad_batch_size :: py_error where
  "bad_batch_size = ValueError ''max_batch_size must be at least 1''"

definition fifo_form_batches :: "batch_request list \<Rightarrow> int \<Rightarrow> batch_request list list result" where
  "fifo_form_batches pending max_batch_size =
     (if max_batch_size < 1 then Inl bad_batch_size else Inr (chunks max_batch_size pending))"

subsection \<open>PrefixAwareBatchScheduler\<close>

record prefix_scheduler =
  ps_block_size :: int
  ps_grouping_blocks :: int

definition make_prefix_scheduler :: "int \<Rightarrow> int \<Rightarrow> prefix_scheduler result" where
  "make_prefix_scheduler block_size grouping_blocks =
     (if block_size < 1 then Inl (ValueError ''block_size must be at least 1'')
      else if grouping_blocks < 1 then Inl (ValueError ''grouping_blocks must be at least 1'')
      else Inr \<lparr>ps_block_size = block_size, ps_grouping_blocks = grouping_blocks\<rparr>)"

definition signature :: "prefix_scheduler \<Rightarrow> batch_request \<Rightarrow> int list" where
  "signature s request =
     (let usable_blocks = min (int (length (br_tokens request)) div ps_block_size s) (ps_grouping_blocks s)
      in py_take (usable_blocks * ps_block_size s) (br_tokens request))"

definition group_append :: "('k \<times> 'v list) list \<Rightarrow> 'k \<Rightarrow> 'v \<Rightarrow> ('k \<times> 'v list) list" where
  \<comment> \<open>\<open>groups.setdefault(k, []).append(v)\<close>\<close>
  "group_append groups k v = dict_set k ((case map_of groups k of None \<Rightarrow> [] | Some vs \<Rightarrow> vs) @ [v]) groups"

definition group_by :: "('v \<Rightarrow> 'k) \<Rightarrow> 'v list \<Rightarrow> ('k \<times> 'v list) list" where
  "group_by f pending = fold (\<lambda>r groups. group_append groups (f r) r) pending []"

definition prefix_form_batches :: "prefix_scheduler \<Rightarrow> batch_request list \<Rightarrow> int \<Rightarrow> batch_request list list result" where
  "prefix_form_batches s pending max_batch_size =
     (if max_batch_size < 1 then Inl bad_batch_size
      else let groups = group_by (signature s) pending
           in Inr (concat (map (\<lambda>sig. chunks max_batch_size (the (map_of groups sig)))
                             (sorted_desc (\<lambda>sig. int (length sig)) (map fst groups)))))"

subsection \<open>Measures\<close>

fun agree_from :: "int list list \<Rightarrow> nat \<Rightarrow> nat \<Rightarrow> nat" where
  \<comment> \<open>the loop that counts the leading positions on which all sequences agree; the second argument is how many positions are left\<close>
  "agree_from sequences 0 matched = matched"
| "agree_from sequences (Suc left) matched =
     (if card (set (map (\<lambda>s. s ! matched) sequences)) = 1 then agree_from sequences left (Suc matched) else matched)"

definition longest_common_block_prefix :: "int list list \<Rightarrow> int \<Rightarrow> int result" where
  "longest_common_block_prefix sequences block_size =
     (if block_size < 1 then Inl (ValueError ''block_size must be at least 1'')
      else if sequences = [] then Inr 0
      else let shortest = Min (set (map length sequences)); matched = agree_from sequences shortest 0
           in Inr (int matched div block_size * block_size))"

fun prefill_of :: "int \<Rightarrow> int list list list \<Rightarrow> int result" where
  "prefill_of block_size [] = Inr 0"
| "prefill_of block_size (batch # batches) =
     (case prefill_of block_size batches of
        Inl e \<Rightarrow> Inl e
      | Inr rest \<Rightarrow>
          if batch = [] then Inr rest
          else case longest_common_block_prefix batch block_size of
                 Inl e \<Rightarrow> Inl e
               | Inr shared \<Rightarrow> Inr (shared + sum_list (map (\<lambda>s. int (length s) - shared) batch) + rest))"

definition prefill_tokens_required :: "int list list list \<Rightarrow> int \<Rightarrow> int result" where
  "prefill_tokens_required batches block_size =
     (if block_size < 1 then Inl (ValueError ''block_size must be at least 1'') else prefill_of block_size batches)"

definition unbatched_prefill_tokens :: "int list list \<Rightarrow> int" where
  "unbatched_prefill_tokens sequences = sum_list (map (\<lambda>s. int (length s)) sequences)"

subsection \<open>Chunks\<close>

lemma chunks_Nil [simp]: "0 < m \<Longrightarrow> chunks m [] = []"
  by (simp add: chunks_def range_step_def)

lemma chunks_Cons:
  assumes "0 < m" "xs \<noteq> []"
  shows "chunks m xs = take (nat m) xs # chunks m (drop (nat m) xs)"
proof -
  define n where "n = nat m"
  have n: "0 < n" using assms(1) by (simp add: n_def)
  have l: "(length xs + n - 1) div n = Suc ((length xs - n + n - 1) div n)"
  proof (cases "length xs \<le> n")
    case True
    moreover have "0 < length xs" using assms(2) by simp
    ultimately have "n \<le> length xs + n - 1" "length xs + n - 1 < n + n" by linarith+
    then have "n * 1 \<le> length xs + n - 1" "length xs + n - 1 < n * Suc 1" by simp_all
    then have "(length xs + n - 1) div n = 1" by (rule div_nat_eqI)
    with True n show ?thesis by simp
  next
    case False
    then have "length xs + n - 1 = (length xs - n + n - 1) + n" using n by simp
    then show ?thesis using n by (metis div_add_self2 Suc_eq_plus1 gr_implies_not0)
  qed
  have "range_step (length xs) n = 0 # map (\<lambda>k. k + n) (range_step (length xs - n) n)"
    unfolding range_step_def l by (simp add: upt_conv_Cons map_Suc_upt [symmetric] comp_def add.commute del: upt_Suc)
  then show ?thesis by (simp add: chunks_def n_def comp_def add.commute)
qed

lemma chunks_spec:
  assumes "0 < m"
  shows "concat (chunks m xs) = xs \<and> (\<forall>b \<in> set (chunks m xs). b \<noteq> [] \<and> int (length b) \<le> m)"
proof (induction "length xs" arbitrary: xs rule: less_induct)
  case less
  show ?case
  proof (cases "xs = []")
    case False
    then have "length (drop (nat m) xs) < length xs" using assms by simp
    from less [OF this] chunks_Cons [OF assms False] False assms show ?thesis by auto
  qed (use assms in simp)
qed

subsection \<open>Groups\<close>

lemma group_by_spec:
  "distinct (map fst (group_by f xs)) \<and>
   (\<forall>k. map_of (group_by f xs) k = (if filter (\<lambda>x. f x = k) xs = [] then None else Some (filter (\<lambda>x. f x = k) xs)))"
proof (induction xs rule: rev_induct)
  case (snoc x xs)
  have "group_by f (xs @ [x]) = group_append (group_by f xs) (f x) x" by (simp add: group_by_def)
  with snoc show ?case by (auto simp: group_append_def split: option.splits)
qed (simp add: group_by_def)

lemma mset_groups:
  "mset (concat (map (\<lambda>k. filter (\<lambda>x. f x = k) xs) ks)) = mset xs" if "distinct ks" "set ks = f ` set xs"
proof -
  have "mset (concat (map (\<lambda>k. filter (\<lambda>x. f x = k) xs) ks)) = filter_mset (\<lambda>x. f x \<in> set ks) (mset xs)" if "distinct ks" for ks
    using that
  proof (induction ks)
    case (Cons k ks)
    have "filter_mset (\<lambda>x. f x \<in> set (k # ks)) (mset xs) = filter_mset (\<lambda>x. f x = k) (mset xs) + filter_mset (\<lambda>x. f x \<in> set ks) (mset xs)"
      using Cons.prems by (intro multiset_eqI) auto
    with Cons show ?case by (simp add: mset_filter)
  qed simp
  from this [OF that(1)] have "mset (concat (map (\<lambda>k. filter (\<lambda>x. f x = k) xs) ks)) = filter_mset (\<lambda>x. f x \<in> set ks) (mset xs)" .
  also have "\<dots> = filter_mset (\<lambda>x. True) (mset xs)" by (rule filter_mset_cong) (auto simp: that(2))
  finally show ?thesis by simp
qed

locale batch_scheduler =
  fixes form_batches :: "batch_request list \<Rightarrow> int \<Rightarrow> batch_request list list result"
  assumes rejects: "m < 1 \<Longrightarrow> form_batches pending m = Inl bad_batch_size"
    and batches: "1 \<le> m \<Longrightarrow> \<exists>bs. form_batches pending m = Inr bs \<and> mset (concat bs) = mset pending \<and>
      (\<forall>b \<in> set bs. b \<noteq> [] \<and> int (length b) \<le> m \<and> subseq b pending)"
begin

lemma no_more_batches_than_requests:
  assumes "form_batches pending m = Inr bs"
  shows "length bs \<le> length pending"
proof -
  have "1 \<le> m" using assms rejects [of m pending] by (cases "m < 1") auto
  from batches [OF this, of pending] assms have b: "mset (concat bs) = mset pending" "\<forall>b \<in> set bs. b \<noteq> []" by auto
  have "length bs \<le> length (concat bs)" using b(2)
  proof (induction bs)
    case (Cons b bs)
    then show ?case by (cases b) auto
  qed simp
  with b(1) show ?thesis by (metis size_mset)
qed

end

lemma subseq_concat: "b \<in> set bs \<Longrightarrow> subseq b (concat bs)"
proof (induction bs)
  case (Cons c bs)
  then show ?case by (auto intro: list_emb_append2 subseq_rev_drop_many)
qed simp

interpretation fifo: batch_scheduler fifo_form_batches
proof
  fix m :: int and pending
  show "m < 1 \<Longrightarrow> fifo_form_batches pending m = Inl bad_batch_size" by (simp add: fifo_form_batches_def)
  assume m: "1 \<le> m"
  then have c: "concat (chunks m pending) = pending" "\<forall>b \<in> set (chunks m pending). b \<noteq> [] \<and> int (length b) \<le> m" using chunks_spec [of m pending] by auto
  have "subseq b pending" if "b \<in> set (chunks m pending)" for b using subseq_concat [OF that] c(1) by simp
  with m c show "\<exists>bs. fifo_form_batches pending m = Inr bs \<and> mset (concat bs) = mset pending \<and>
      (\<forall>b \<in> set bs. b \<noteq> [] \<and> int (length b) \<le> m \<and> subseq b pending)"
    by (intro exI [of _ "chunks m pending"]) (simp add: fifo_form_batches_def)
qed

lemma concat_concat_map: "concat (concat (map f xs)) = concat (map (\<lambda>x. concat (f x)) xs)"
  by (induction xs) simp_all

lemma prefix_batches:
  fixes s :: prefix_scheduler and pending :: "batch_request list" and m :: int
  assumes "1 \<le> m"
  defines "groups \<equiv> group_by (signature s) pending"
  defines "keys \<equiv> sorted_desc (\<lambda>sig. int (length sig)) (map fst groups)"
  defines "bs \<equiv> concat (map (\<lambda>sig. chunks m (the (map_of groups sig))) keys)"
  shows "prefix_form_batches s pending m = Inr bs" "mset (concat bs) = mset pending"
    "b \<in> set bs \<Longrightarrow> b \<noteq> [] \<and> int (length b) \<le> m \<and> (\<exists>sig. (\<forall>r \<in> set b. signature s r = sig) \<and> subseq b pending)"
proof -
  note g = group_by_spec [of "signature s" pending]
  have keys: "distinct keys" "set keys = signature s ` set pending"
  proof -
    have "distinct (map fst groups)" using g by (simp add: groups_def)
    then show "distinct keys" unfolding keys_def by (metis mset_sorted_desc mset_eq_imp_distinct_iff)
    have "set keys = dom (map_of groups)" by (simp add: keys_def dom_map_of_conv_image_fst)
    also have "\<dots> = signature s ` set pending" using g by (auto simp: groups_def dom_def filter_empty_conv split: if_splits)
    finally show "set keys = signature s ` set pending" .
  qed
  have mem: "the (map_of groups sig) = filter (\<lambda>r. signature s r = sig) pending" if "sig \<in> set keys" for sig
    using g that keys(2) by (auto simp: groups_def filter_empty_conv)
  show "prefix_form_batches s pending m = Inr bs"
    using assms(1) by (simp add: prefix_form_batches_def bs_def keys_def groups_def Let_def)
  have "concat bs = concat (map (\<lambda>sig. concat (chunks m (the (map_of groups sig)))) keys)"
    unfolding bs_def by (rule concat_concat_map)
  also have "\<dots> = concat (map (\<lambda>sig. filter (\<lambda>r. signature s r = sig) pending) keys)"
    using mem chunks_spec [of m] assms(1) by (intro arg_cong [where f = concat] map_cong) auto
  finally show "mset (concat bs) = mset pending" using mset_groups [OF keys] by simp
  assume "b \<in> set bs"
  then obtain sig where sig: "sig \<in> set keys" "b \<in> set (chunks m (filter (\<lambda>r. signature s r = sig) pending))"
    using mem by (auto simp: bs_def)
  have c: "concat (chunks m (filter (\<lambda>r. signature s r = sig) pending)) = filter (\<lambda>r. signature s r = sig) pending"
    using chunks_spec [of m "filter (\<lambda>r. signature s r = sig) pending"] assms(1) by linarith
  have "subseq b (filter (\<lambda>r. signature s r = sig) pending)" using subseq_concat [OF sig(2)] c by simp
  then have "subseq b pending" by (meson subseq_filter_left subseq_order.order_trans)
  moreover have "\<forall>r \<in> set b. signature s r = sig" 
  proof
    fix r assume "r \<in> set b"
    with sig(2) have "r \<in> set (concat (chunks m (filter (\<lambda>r. signature s r = sig) pending)))" by auto
    then show "signature s r = sig" unfolding c by simp
  qed
  ultimately show "b \<noteq> [] \<and> int (length b) \<le> m \<and> (\<exists>sig. (\<forall>r \<in> set b. signature s r = sig) \<and> subseq b pending)"
    using chunks_spec [of m] assms(1) sig(2) by auto
qed

interpretation prefix_aware: batch_scheduler "prefix_form_batches s" for s
proof
  fix m :: int and pending
  show "m < 1 \<Longrightarrow> prefix_form_batches s pending m = Inl bad_batch_size" by (simp add: prefix_form_batches_def)
  show "1 \<le> m \<Longrightarrow> \<exists>bs. prefix_form_batches s pending m = Inr bs \<and> mset (concat bs) = mset pending \<and>
      (\<forall>b \<in> set bs. b \<noteq> [] \<and> int (length b) \<le> m \<and> subseq b pending)"
    using prefix_batches [where m = m and s = s and pending = pending] by blast
qed

subsection \<open>Shared prefixes\<close>

lemma card_image_1: "xs \<noteq> [] \<Longrightarrow> card (set (map f xs)) = 1 \<longleftrightarrow> (\<forall>x \<in> set xs. \<forall>y \<in> set xs. f x = f y)"
proof
  assume "card (set (map f xs)) = 1"
  then obtain z where "set (map f xs) = {z}" by (rule card_1_singletonE)
  then have "f x = z" if "x \<in> set xs" for x using that by auto
  then show "\<forall>x \<in> set xs. \<forall>y \<in> set xs. f x = f y" by simp
next
  assume "xs \<noteq> []" "\<forall>x \<in> set xs. \<forall>y \<in> set xs. f x = f y"
  then have "f x = f (hd xs)" if "x \<in> set xs" for x using that hd_in_set [of xs] by blast
  then have "f ` set xs \<subseteq> {f (hd xs)}" by blast
  moreover have "f (hd xs) \<in> f ` set xs" using \<open>xs \<noteq> []\<close> by simp
  ultimately have "set (map f xs) = {f (hd xs)}" unfolding set_map by blast
  then show "card (set (map f xs)) = 1" by simp
qed

lemma take_shorter: "k \<le> r \<Longrightarrow> take r s = take r q \<Longrightarrow> take k s = take k q"
  by (metis min.absorb1 take_take)

definition agree :: "int list list \<Rightarrow> nat \<Rightarrow> bool" where
  "agree ss k \<longleftrightarrow> (\<forall>s \<in> set ss. \<forall>q \<in> set ss. take k s = take k q)"

lemma agree_mono: "agree ss r \<Longrightarrow> k \<le> r \<Longrightarrow> agree ss k"
  unfolding agree_def using take_shorter by blast

lemma agree_Suc:
  assumes "agree ss k" "\<forall>s \<in> set ss. k < length s" "ss \<noteq> []"
  shows "agree ss (Suc k) \<longleftrightarrow> card (set (map (\<lambda>s. s ! k) ss)) = 1"
proof -
  have "take (Suc k) s = take (Suc k) q \<longleftrightarrow> s ! k = q ! k" if "s \<in> set ss" "q \<in> set ss" for s q
  proof -
    have "take (Suc k) s = take k s @ [s ! k]" "take (Suc k) q = take k q @ [q ! k]" using assms(2) that by (simp_all add: take_Suc_conv_app_nth)
    moreover have "take k s = take k q" using assms(1) that unfolding agree_def by blast
    ultimately show ?thesis by simp
  qed
  then show ?thesis unfolding agree_def card_image_1 [OF assms(3)] by blast
qed

lemma agree_from_spec:
  assumes "\<forall>s \<in> set ss. matched + left \<le> length s" "agree ss matched" "ss \<noteq> []"
  shows "agree_from ss left matched \<le> matched + left \<and> agree ss (agree_from ss left matched) \<and>
    (agree_from ss left matched < matched + left \<longrightarrow> \<not> agree ss (Suc (agree_from ss left matched)))"
  using assms
proof (induction ss left matched rule: agree_from.induct)
  case (2 ss left matched)
  have "\<forall>s \<in> set ss. matched < length s" using "2.prems"(1) by fastforce
  note c = agree_Suc [OF "2.prems"(2) this "2.prems"(3)]
  show ?case
  proof (cases "card (set (map (\<lambda>s. s ! matched) ss)) = 1")
    case True
    have "\<forall>s \<in> set ss. Suc matched + left \<le> length s" using "2.prems"(1) by simp
    from "2.IH" [OF True this] c True "2.prems"(3) show ?thesis by simp
  next
    case False
    with c "2.prems"(2) show ?thesis by simp
  qed
qed simp

text \<open>The shared prefix of a batch is the longest prefix of whole blocks on which its members agree.\<close>

lemma longest_common_block_prefix_spec:
  assumes "1 \<le> bs" "ss \<noteq> []"
  obtains shared where "longest_common_block_prefix ss bs = Inr (int shared)" "bs dvd int shared"
    "\<forall>s \<in> set ss. shared \<le> length s" "agree ss shared"
    "\<And>k. bs dvd int k \<Longrightarrow> \<forall>s \<in> set ss. k \<le> length s \<Longrightarrow> agree ss k \<Longrightarrow> k \<le> shared"
proof -
  let ?short = "Min (set (map length ss))"
  define r where "r = agree_from ss ?short 0"
  define shared where "shared = nat (int r div bs * bs)"
  have short: "\<forall>s \<in> set ss. ?short \<le> length s" by simp
  have "agree ss 0" by (simp add: agree_def)
  with agree_from_spec [of ss 0 ?short] short assms(2)
  have r: "r \<le> ?short" "agree ss r" "r < ?short \<longrightarrow> \<not> agree ss (Suc r)" unfolding r_def by simp_all
  have sh: "int shared = int r div bs * bs" using assms(1) by (simp add: shared_def pos_imp_zdiv_nonneg_iff)
  have "int r div bs * bs \<le> int r" using assms(1) div_mult_mod_eq [of "int r" bs] pos_mod_sign [of bs "int r"] by linarith
  then have le: "shared \<le> r" using sh by linarith
  show ?thesis
  proof (rule that [of shared])
    show "longest_common_block_prefix ss bs = Inr (int shared)"
      using assms sh by (simp add: longest_common_block_prefix_def Let_def r_def)
    show "bs dvd int shared" unfolding sh by simp
    show "\<forall>s \<in> set ss. shared \<le> length s" using le r(1) short by (blast intro: order_trans)
    show "agree ss shared" using r(2) le by (rule agree_mono)
    fix k assume k: "bs dvd int k" "\<forall>s \<in> set ss. k \<le> length s" "agree ss k"
    have "k \<le> ?short" using k(2) assms(2) by simp
    have "k \<le> r"
    proof (rule ccontr)
      assume "\<not> k \<le> r"
      then have "Suc r \<le> k" by simp
      with k(3) have "agree ss (Suc r)" by (rule agree_mono)
      with r(3) \<open>k \<le> ?short\<close> \<open>\<not> k \<le> r\<close> show False by simp
    qed
    then have "int k div bs * bs \<le> int r div bs * bs" using assms(1) by (intro mult_right_mono zdiv_mono1) simp_all
    with k(1) sh show "k \<le> shared" by simp
  qed
qed

lemma longest_common_block_prefix_greatest:
  assumes "1 \<le> bs" "ss \<noteq> []"
  shows "\<exists>sh. longest_common_block_prefix ss bs = Inr (int sh) \<and>
    (\<forall>k. bs dvd int k \<longrightarrow> (\<forall>x \<in> set ss. k \<le> length x) \<longrightarrow> agree ss k \<longrightarrow> k \<le> sh)"
proof (rule longest_common_block_prefix_spec [OF assms])
  fix sh
  assume "longest_common_block_prefix ss bs = Inr (int sh)"
    "\<And>k. bs dvd int k \<Longrightarrow> \<forall>x \<in> set ss. k \<le> length x \<Longrightarrow> agree ss k \<Longrightarrow> k \<le> sh"
  then show ?thesis by (intro exI [of _ sh] conjI allI impI) simp_all
qed

lemma signature_props:
  assumes "1 \<le> ps_block_size s" "1 \<le> ps_grouping_blocks s"
  shows "ps_block_size s dvd int (length (signature s r))" "signature s r = take (length (signature s r)) (br_tokens r)"
    "length (signature s r) \<le> length (br_tokens r)"
proof -
  let ?u = "min (int (length (br_tokens r)) div ps_block_size s) (ps_grouping_blocks s)"
  have u: "0 \<le> ?u * ps_block_size s" using assms by (simp add: pos_imp_zdiv_nonneg_iff)
  have "?u * ps_block_size s \<le> int (length (br_tokens r)) div ps_block_size s * ps_block_size s" using assms by (intro mult_right_mono) simp_all
  also have "\<dots> \<le> int (length (br_tokens r))"
    using assms(1) div_mult_mod_eq [of "int (length (br_tokens r))" "ps_block_size s"] pos_mod_sign [of "ps_block_size s" "int (length (br_tokens r))"] by linarith
  finally have le: "nat (?u * ps_block_size s) \<le> length (br_tokens r)" by simp
  have sg: "signature s r = take (nat (?u * ps_block_size s)) (br_tokens r)" using u unfolding signature_def Let_def py_take_def by simp
  then have l: "length (signature s r) = nat (?u * ps_block_size s)" using le by simp
  show "ps_block_size s dvd int (length (signature s r))" using l u by simp
  show "signature s r = take (length (signature s r)) (br_tokens r)" using sg l by simp
  show "length (signature s r) \<le> length (br_tokens r)" using l le by simp
qed

lemma prefill_of_bound:
  assumes "1 \<le> block_size"
    and "\<And>b. b \<in> set batches \<Longrightarrow> b \<noteq> [] \<Longrightarrow> \<exists>shared \<ge> g b. longest_common_block_prefix b block_size = Inr shared"
  shows "\<exists>t. prefill_of block_size batches = Inr t \<and>
    t \<le> unbatched_prefill_tokens (concat batches) - sum_list (map (\<lambda>b. if b = [] then 0 else g b * (int (length b) - 1)) batches)"
  using assms(2)
proof (induction batches)
  case (Cons b batches)
  obtain t where t: "prefill_of block_size batches = Inr t"
      "t \<le> unbatched_prefill_tokens (concat batches) - sum_list (map (\<lambda>b. if b = [] then 0 else g b * (int (length b) - 1)) batches)"
    using Cons by auto
  show ?case
  proof (cases "b = []")
    case False
    then obtain sh where sh: "g b \<le> sh" "longest_common_block_prefix b block_size = Inr sh" using Cons.prems [of b] by auto
    have "sum_list (map (\<lambda>s. int (length s) - sh) b) = unbatched_prefill_tokens b - int (length b) * sh"
      by (simp add: unbatched_prefill_tokens_def sum_list_subtractf sum_list_const_mult sum_list_triv)
    moreover have "g b * (int (length b) - 1) \<le> sh * (int (length b) - 1)" using sh(1) False by (intro mult_right_mono) (simp_all add: Suc_le_eq)
    ultimately show ?thesis using t sh False by (simp add: unbatched_prefill_tokens_def algebra_simps)
  qed (use t in \<open>simp add: unbatched_prefill_tokens_def\<close>)
qed (simp add: unbatched_prefill_tokens_def)

text \<open>
  Prefix-aware batches serve every request once and share what they promise. Every pending request is in exactly one batch, a batch has between one and
  \<open>max_batch_size\<close> members in order of arrival, all with the same signature, and prefilling the batches costs at
  most the unbatched tokens less one signature for every member of a batch beyond the first.
\<close>

theorem prefix_batches_share:
  assumes "make_prefix_scheduler block_size grouping_blocks = Inr s" and "1 \<le> m"
  shows "\<exists>batches t. prefix_form_batches s pending m = Inr batches \<and> mset (concat batches) = mset pending \<and>
    (\<forall>b \<in> set batches. b \<noteq> [] \<and> int (length b) \<le> m \<and> subseq b pending \<and> (\<forall>r \<in> set b. signature s r = signature s (hd b))) \<and>
    prefill_tokens_required (map (map br_tokens) batches) block_size = Inr t \<and>
    t \<le> unbatched_prefill_tokens (map br_tokens pending) -
      sum_list (map (\<lambda>b. int (length (signature s (hd b))) * (int (length b) - 1)) batches)"
proof -
  have s: "ps_block_size s = block_size" "1 \<le> ps_block_size s" "1 \<le> ps_grouping_blocks s" "1 \<le> block_size"
    using assms(1) by (auto simp: make_prefix_scheduler_def split: if_splits)
  obtain bs where bs: "prefix_form_batches s pending m = Inr bs" "mset (concat bs) = mset pending"
      "\<And>b. b \<in> set bs \<Longrightarrow> b \<noteq> [] \<and> int (length b) \<le> m \<and> (\<exists>sig. (\<forall>r \<in> set b. signature s r = sig) \<and> subseq b pending)"
    using prefix_batches [OF assms(2), where s = s and pending = pending] by blast
  have sig: "\<forall>r \<in> set b. signature s r = signature s (hd b)" if "b \<in> set bs" for b using bs(3) [OF that] by (metis hd_in_set)
  have share: "\<exists>sh \<ge> int (length (signature s (hd q))). longest_common_block_prefix (map br_tokens q) block_size = Inr sh"
    if "q \<in> set bs" for q
  proof -
    have "map br_tokens q \<noteq> []" using bs(3) [OF that] by simp
    from longest_common_block_prefix_greatest [OF s(4) this] obtain sh where
      sh: "longest_common_block_prefix (map br_tokens q) block_size = Inr (int sh)"
        "\<And>k. block_size dvd int k \<Longrightarrow> \<forall>x \<in> set (map br_tokens q). k \<le> length x \<Longrightarrow> agree (map br_tokens q) k \<Longrightarrow> k \<le> sh"
      by metis
    let ?k = "length (signature s (hd q))"
    have k: "length (signature s r) = ?k" "take ?k (br_tokens r) = signature s (hd q)" "?k \<le> length (br_tokens r)" if "r \<in> set q" for r
      using sig [OF \<open>q \<in> set bs\<close>] that signature_props(2,3) [OF s(2,3), of r] by metis+
    have "?k \<le> sh"
      using signature_props(1) [OF s(2,3), of "hd q"] s(1) k by (intro sh(2)) (auto simp: agree_def)
    with sh(1) show ?thesis by (intro exI [of _ "int sh"]) simp
  qed
  have "\<exists>t. prefill_of block_size (map (map br_tokens) bs) = Inr t \<and> t \<le> unbatched_prefill_tokens (concat (map (map br_tokens) bs)) -
      sum_list (map (\<lambda>b. int (length (signature s (hd b))) * (int (length b) - 1)) bs)"
    using share bs(3)
  proof (induction bs)
    case (Cons q bs)
    from prefill_of_bound [OF s(4), of "[map br_tokens q]" "\<lambda>_. int (length (signature s (hd q)))"] Cons.prems(1) [of q]
    obtain u where u: "prefill_of block_size [map br_tokens q] = Inr u"
        "u \<le> unbatched_prefill_tokens (map br_tokens q) - int (length (signature s (hd q))) * (int (length q) - 1)"
      using Cons.prems(2) [of q] by auto
    with Cons show ?case by (auto simp: unbatched_prefill_tokens_def split: sum.splits if_splits)
  qed (simp add: unbatched_prefill_tokens_def)
  moreover have "unbatched_prefill_tokens (concat (map (map br_tokens) bs)) = unbatched_prefill_tokens (map br_tokens pending)"
  proof -
    have "unbatched_prefill_tokens (map br_tokens xs) = sum_mset (image_mset (\<lambda>r. int (length (br_tokens r))) (mset xs))" for xs
      by (simp add: unbatched_prefill_tokens_def comp_def flip: sum_mset_sum_list)
    from this [of "concat bs"] this [of pending] bs(2) show ?thesis by (simp add: map_concat)
  qed
  ultimately obtain t where t: "prefill_tokens_required (map (map br_tokens) bs) block_size = Inr t"
      "t \<le> unbatched_prefill_tokens (map br_tokens pending) - sum_list (map (\<lambda>b. int (length (signature s (hd b))) * (int (length b) - 1)) bs)"
    using s(4) by (auto simp: prefill_tokens_required_def)
  have "\<forall>b \<in> set bs. b \<noteq> [] \<and> int (length b) \<le> m \<and> subseq b pending \<and> (\<forall>r \<in> set b. signature s r = signature s (hd b))"
    using bs(3) sig by blast
  with bs(1,2) t show ?thesis by blast
qed

definition ex_requests :: "batch_request list" where
  "ex_requests = [\<lparr>br_request_id = ''a'', br_tokens = [1, 2, 3]\<rparr>, \<lparr>br_request_id = ''b'', br_tokens = [7, 8]\<rparr>,
     \<lparr>br_request_id = ''c'', br_tokens = [1, 2, 9]\<rparr>]"

theorem prefix_batches_share_witness:
  "\<exists>batches t. prefix_form_batches \<lparr>ps_block_size = 2, ps_grouping_blocks = 1\<rparr> ex_requests 2 = Inr batches \<and>
     map (map br_request_id) batches = [[''a'', ''c''], [''b'']] \<and> mset (concat batches) = mset ex_requests \<and>
     prefill_tokens_required (map (map br_tokens) batches) 2 = Inr t \<and> t \<le> 6"
proof -
  let ?s = "\<lparr>ps_block_size = 2, ps_grouping_blocks = 1\<rparr>"
  have "make_prefix_scheduler 2 1 = Inr ?s" by (simp add: make_prefix_scheduler_def)
  from prefix_batches_share [OF this, of 2 ex_requests] obtain bs t where b: "prefix_form_batches ?s ex_requests 2 = Inr bs"
      "mset (concat bs) = mset ex_requests" "prefill_tokens_required (map (map br_tokens) bs) 2 = Inr t"
      "t \<le> unbatched_prefill_tokens (map br_tokens ex_requests) - sum_list (map (\<lambda>b. int (length (signature ?s (hd b))) * (int (length b) - 1)) bs)"
    by auto
  let ?bs = "[[ex_requests ! 0, ex_requests ! 2], [ex_requests ! 1]]"
  have "prefix_form_batches ?s ex_requests 2 = Inr ?bs" by code_simp
  with b(1) have bs: "bs = ?bs" by simp
  have "unbatched_prefill_tokens (map br_tokens ex_requests) -
      sum_list (map (\<lambda>b. int (length (signature ?s (hd b))) * (int (length b) - 1)) ?bs) = 6" by code_simp
  with b bs show ?thesis by (intro exI [of _ ?bs] exI [of _ t]) (simp add: ex_requests_def)
qed

end
