(* ===== verification/Session_Caching.thy ===== *)
theory Session_Caching
  imports Cag_Entities
begin

text \<open>
  Caching across the turns of a session: \<^verbatim>\<open>history_tokens_before\<close> and the seven strategies of
  \<^verbatim>\<open>MultiTurnCacheStrategy\<close>, with the measures of \<^verbatim>\<open>src/cag/domain/session_metrics.py\<close>. Turns form a
  forest by their parents; the input may name missing parents, or be cyclic. Of two turns
  with one identifier the later one is found by it.
\<close>

subsection \<open>The history of a turn\<close>

definition turns_by_id :: "conversation_turn list \<Rightarrow> (string \<times> conversation_turn) list" where
  "turns_by_id turns = fold (\<lambda>t d. dict_set (ct_turn_id t) t d) turns []"

function history_from :: "(string \<times> conversation_turn) list \<Rightarrow> string option \<Rightarrow> string set \<Rightarrow> int \<Rightarrow> int" where
  \<comment> \<open>the loop: the current turn, those seen, the tokens so far\<close>
  "history_from by_id current seen n =
     (case current of
        None \<Rightarrow> n
      | Some i \<Rightarrow>
          (case map_of by_id i of
             None \<Rightarrow> n
           | Some turn \<Rightarrow>
               if i \<in> seen then n
               else history_from by_id (ct_parent_turn_id turn) (insert i seen) (n + ct_new_tokens turn)))"
  by pat_completeness auto

termination
proof (relation "measure (\<lambda>(by_id, current, seen, n). card (fst ` set by_id - seen))")
  fix by_id :: "(string \<times> conversation_turn) list" and current seen and n :: int and i turn
  assume "current = Some i" "map_of by_id i = Some turn" "i \<notin> seen"
  then have "i \<in> fst ` set by_id - seen" by (force dest: map_of_SomeD)
  then have "card (fst ` set by_id - insert i seen) < card (fst ` set by_id - seen)" by (intro psubset_card_mono) auto
  then show "((by_id, ct_parent_turn_id turn, insert i seen, n + ct_new_tokens turn), by_id, current, seen, n)
      \<in> measure (\<lambda>(by_id, current, seen, n). card (fst ` set by_id - seen))" by simp
qed simp

declare history_from.simps [simp del]

definition history_tokens_before :: "conversation_turn list \<Rightarrow> nat \<Rightarrow> int" where
  "history_tokens_before turns index = history_from (turns_by_id turns) (ct_parent_turn_id (turns ! index)) {} 0"

subsection \<open>The strategies\<close>

definition enumerate_turns :: "conversation_turn list \<Rightarrow> (nat \<times> conversation_turn) list" where
  "enumerate_turns turns = enumerate 0 turns"

definition resident :: "conversation_turn list \<Rightarrow> nat \<times> conversation_turn \<Rightarrow> int" where
  \<comment> \<open>the tokens of a turn with its history\<close>
  "resident turns e = history_tokens_before turns (fst e) + ct_new_tokens (snd e)"

definition peak_of :: "int list \<Rightarrow> int" where
  \<comment> \<open>the running maximum that starts at \<open>0\<close>\<close>
  "peak_of xs = fold (\<lambda>x peak. max peak x) xs 0"

definition naive_run :: "conversation_turn list \<Rightarrow> session_run" where
  "naive_run turns =
     (let per_turn = map (resident turns) (enumerate_turns turns)
      in \<lparr>sr_strategy = ''naive-recompute'', sr_per_turn_recompute = per_turn, sr_tokens_recomputed = sum_list per_turn,
          sr_peak_tokens_held = (if per_turn = [] then 0 else Max (set per_turn)), sr_transfer_tokens = 0\<rparr>)"

fun append_costs :: "conversation_turn list \<Rightarrow> string option \<Rightarrow> (nat \<times> conversation_turn) list \<Rightarrow> int list" where
  \<comment> \<open>the loop of \<open>IncrementalAppendSession\<close>, with the identifier of the previous turn\<close>
  "append_costs turns previous [] = []"
| "append_costs turns previous (e # es) =
     (if ct_parent_turn_id (snd e) = previous then ct_new_tokens (snd e) else resident turns e)
       # append_costs turns (Some (ct_turn_id (snd e))) es"

definition incremental_run :: "conversation_turn list \<Rightarrow> session_run" where
  "incremental_run turns =
     (let per_turn = append_costs turns None (enumerate_turns turns)
      in \<lparr>sr_strategy = ''incremental-append'', sr_per_turn_recompute = per_turn, sr_tokens_recomputed = sum_list per_turn,
          sr_peak_tokens_held = peak_of (map (resident turns) (enumerate_turns turns)), sr_transfer_tokens = 0\<rparr>)"

fun sglang_costs :: "conversation_turn list \<Rightarrow> string set \<Rightarrow> (nat \<times> conversation_turn) list \<Rightarrow> int list" where
  \<comment> \<open>the loop of \<open>SGLangSession\<close>, with the prefixes materialised so far\<close>
  "sglang_costs turns materialised [] = []"
| "sglang_costs turns materialised (e # es) =
     (case ct_parent_turn_id (snd e) of
        None \<Rightarrow> ct_new_tokens (snd e) # sglang_costs turns (insert (ct_turn_id (snd e)) materialised) es
      | Some p \<Rightarrow>
          (if p \<in> materialised then ct_new_tokens (snd e)
           else ct_new_tokens (snd e) + history_tokens_before turns (fst e))
            # sglang_costs turns (insert p (insert (ct_turn_id (snd e)) materialised)) es)"

definition sglang_run :: "conversation_turn list \<Rightarrow> session_run" where
  "sglang_run turns =
     (let per_turn = sglang_costs turns {} (enumerate_turns turns)
      in \<lparr>sr_strategy = ''sglang'', sr_per_turn_recompute = per_turn, sr_tokens_recomputed = sum_list per_turn,
          sr_peak_tokens_held = peak_of (map (resident turns) (enumerate_turns turns)), sr_transfer_tokens = 0\<rparr>)"

definition make_memserve :: "int \<Rightarrow> int result" where
  "make_memserve local_resident_tokens =
     (if local_resident_tokens < 0 then Inl (ValueError ''local_resident_tokens must be non-negative'') else Inr local_resident_tokens)"

definition memserve_run :: "int \<Rightarrow> conversation_turn list \<Rightarrow> session_run" where
  "memserve_run local_tokens turns =
     (let es = enumerate_turns turns; per_turn = map ct_new_tokens turns
      in \<lparr>sr_strategy = ''memserve'', sr_per_turn_recompute = per_turn, sr_tokens_recomputed = sum_list per_turn,
          sr_peak_tokens_held =
            peak_of (map (\<lambda>e. min (history_tokens_before turns (fst e)) local_tokens + ct_new_tokens (snd e)) es),
          sr_transfer_tokens = sum_list (map (\<lambda>e. max 0 (history_tokens_before turns (fst e) - local_tokens)) es)\<rparr>)"

definition make_rocketkv :: "int \<Rightarrow> int result" where
  "make_rocketkv current_turn_budget =
     (if current_turn_budget < 1 then Inl (ValueError ''current_turn_budget must be at least 1'') else Inr current_turn_budget)"

definition rocketkv_run :: "int \<Rightarrow> conversation_turn list \<Rightarrow> session_run" where
  "rocketkv_run budget turns =
     (let per_turn = map (\<lambda>t. min (ct_new_tokens t) budget) turns
      in \<lparr>sr_strategy = ''rocketkv-mt'', sr_per_turn_recompute = per_turn, sr_tokens_recomputed = sum_list per_turn,
          sr_peak_tokens_held = peak_of (map (resident turns) (enumerate_turns turns)), sr_transfer_tokens = 0\<rparr>)"

definition py_int :: "rat \<Rightarrow> int" where
  \<comment> \<open>\<open>int\<close> of a float: towards zero\<close>
  "py_int x = (if x < 0 then \<lceil>x\<rceil> else \<lfloor>x\<rfloor>)"

record kvzip_session =
  kz_compression_ratio :: rat
  kz_overhead :: int

definition make_kvzip :: "rat \<Rightarrow> int \<Rightarrow> kvzip_session result" where
  "make_kvzip compression_ratio compression_overhead_tokens =
     (if \<not> (0 < compression_ratio \<and> compression_ratio \<le> 1) then Inl (ValueError ''compression_ratio must be in (0.0, 1.0]'')
      else if compression_overhead_tokens < 0 then Inl (ValueError ''compression_overhead_tokens must be non-negative'')
      else Inr \<lparr>kz_compression_ratio = compression_ratio, kz_overhead = compression_overhead_tokens\<rparr>)"

definition kvzip_run :: "kvzip_session \<Rightarrow> conversation_turn list \<Rightarrow> session_run" where
  "kvzip_run k turns =
     (let new_tokens = map ct_new_tokens turns;
          per_turn = (case new_tokens of [] \<Rightarrow> [] | n # ns \<Rightarrow> (n + kz_overhead k) # ns)
      in \<lparr>sr_strategy = ''kvzip'', sr_per_turn_recompute = per_turn, sr_tokens_recomputed = sum_list per_turn,
          sr_peak_tokens_held =
            peak_of (map (\<lambda>e. py_int (fl (fl (of_int (resident turns e)) * kz_compression_ratio k))) (enumerate_turns turns)),
          sr_transfer_tokens = 0\<rparr>)"

definition make_shadowkv :: "rat \<Rightarrow> rat result" where
  "make_shadowkv subspace_reuse =
     (if \<not> (0 \<le> subspace_reuse \<and> subspace_reuse \<le> 1) then Inl (ValueError ''subspace_reuse must be between 0.0 and 1.0'') else Inr subspace_reuse)"

definition shadowkv_run :: "rat \<Rightarrow> conversation_turn list \<Rightarrow> session_run" where
  "shadowkv_run reuse turns =
     (let per_turn = map (\<lambda>e. if fst e = 0 then ct_new_tokens (snd e)
                              else max 1 (py_int (fl (fl (of_int (ct_new_tokens (snd e))) * fl (1 - reuse))))) (enumerate_turns turns)
      in \<lparr>sr_strategy = ''shadowkv'', sr_per_turn_recompute = per_turn, sr_tokens_recomputed = sum_list per_turn,
          sr_peak_tokens_held = peak_of (map (resident turns) (enumerate_turns turns)), sr_transfer_tokens = 0\<rparr>)"

subsection \<open>Measures\<close>

definition amortized_tokens_per_turn :: "int \<Rightarrow> int \<Rightarrow> rat result" where
  "amortized_tokens_per_turn tokens_recomputed num_turns =
     (if num_turns < 1 then Inl (ValueError ''num_turns must be at least 1'')
      else if tokens_recomputed < 0 then Inl (ValueError ''tokens_recomputed must be non-negative'')
      else Inr (fl (of_int tokens_recomputed / of_int num_turns)))"

definition recompute_ratio :: "int \<Rightarrow> int \<Rightarrow> rat result" where
  "recompute_ratio strategy_tokens naive_tokens =
     (if naive_tokens \<le> 0 then Inl (ValueError ''naive_tokens must be positive'')
      else if strategy_tokens < 0 then Inl (ValueError ''strategy_tokens must be non-negative'')
      else Inr (fl (of_int strategy_tokens / of_int naive_tokens)))"

definition is_flat_per_turn :: "int list \<Rightarrow> rat \<Rightarrow> bool result" where
  \<comment> \<open>an integer is compared with a float exactly\<close>
  "is_flat_per_turn per_turn_recompute tolerance =
     (case per_turn_recompute of
        [] \<Rightarrow> Inl (ValueError ''per_turn_recompute must be non-empty'')
      | first # _ \<Rightarrow>
          if tolerance < 0 then Inl (ValueError ''tolerance must be non-negative'')
          else if first = 0 then Inr (\<forall>c \<in> set per_turn_recompute. c = 0)
          else Inr (of_int (Max (set per_turn_recompute)) \<le> fl (fl (of_int first) * fl (1 + tolerance))))"

subsection \<open>Histories\<close>

lemma turns_by_id_snoc: "turns_by_id (ts @ [t]) = dict_set (ct_turn_id t) t (turns_by_id ts)"
  by (simp add: turns_by_id_def)

lemma turns_by_id_props:
  "distinct (map fst (turns_by_id ts)) \<and> snd ` set (turns_by_id ts) \<subseteq> set ts \<and> (\<forall>(i, t) \<in> set (turns_by_id ts). ct_turn_id t = i)"
proof (induction ts rule: rev_induct)
  case (snoc t ts)
  have "set (dict_set k v d) \<subseteq> insert (k, v) (set d)" for k and v :: conversation_turn and d
    by (induction k v d rule: dict_set.induct) auto
  with snoc show ?case unfolding turns_by_id_snoc by fastforce
qed (simp add: turns_by_id_def)

definition dict_tokens :: "(string \<times> conversation_turn) list \<Rightarrow> int" where
  "dict_tokens d = sum_list (map (\<lambda>e. ct_new_tokens (snd e)) d)"

lemma dict_tokens_set:
  "\<forall>e \<in> set d. 0 \<le> ct_new_tokens (snd e) \<Longrightarrow> dict_tokens (dict_set k v d) \<le> dict_tokens d + ct_new_tokens v"
  by (induction k v d rule: dict_set.induct) (auto simp: dict_tokens_def)

lemma turns_by_id_tokens: "\<forall>t \<in> set ts. 0 \<le> ct_new_tokens t \<Longrightarrow> dict_tokens (turns_by_id ts) \<le> sum_list (map ct_new_tokens ts)"
proof (induction ts rule: rev_induct)
  case (snoc t ts)
  have "\<forall>e \<in> set (turns_by_id ts). 0 \<le> ct_new_tokens (snd e)" using turns_by_id_props [of ts] snoc.prems by auto
  with snoc dict_tokens_set [of "turns_by_id ts" "ct_turn_id t" t] show ?case by (simp add: turns_by_id_snoc)
qed (simp add: turns_by_id_def dict_tokens_def)

lemma history_from_bounds:
  assumes "\<forall>e \<in> set d. 0 \<le> ct_new_tokens (snd e)" "distinct (map fst d)"
  shows "n \<le> history_from d cur seen n \<and> history_from d cur seen n \<le> n + dict_tokens (filter (\<lambda>e. fst e \<notin> seen) d)"
  using assms
proof (induction d cur seen n rule: history_from.induct)
  case (1 d cur seen n)
  have nn: "0 \<le> dict_tokens (filter (\<lambda>e. fst e \<notin> seen) d)" for seen
    using "1.prems"(1) unfolding dict_tokens_def by (intro sum_list_nonneg) auto
  show ?case
  proof (cases "\<exists>i t. cur = Some i \<and> map_of d i = Some t \<and> i \<notin> seen")
    case True
    then obtain i t where t: "cur = Some i" "map_of d i = Some t" "i \<notin> seen" by blast
    have step: "history_from d cur seen n = history_from d (ct_parent_turn_id t) (insert i seen) (n + ct_new_tokens t)"
      using t by (subst history_from.simps) simp
    have "0 \<le> ct_new_tokens t" using map_of_SomeD [OF t(2)] "1.prems"(1) by auto
    moreover have "dict_tokens (filter (\<lambda>e. fst e \<notin> seen) d) = ct_new_tokens t + dict_tokens (filter (\<lambda>e. fst e \<notin> insert i seen) d)"
      using "1.prems"(2) t(2,3)
    proof (induction d)
      case (Cons e d)
      have "filter (\<lambda>e. fst e \<notin> seen) d = filter (\<lambda>e. fst e \<notin> insert i seen) d" if "i \<notin> fst ` set d"
        using that by (intro filter_cong) auto
      with Cons show ?case by (cases e) (auto simp: dict_tokens_def)
    qed simp
    ultimately show ?thesis using "1.IH" [OF t] "1.prems" unfolding step by linarith
  next
    case False
    then have "history_from d cur seen n = n" by (subst history_from.simps) (auto split: option.splits)
    with nn show ?thesis by simp
  qed
qed

lemma history_bounds:
  assumes "\<forall>t \<in> set ts. 0 \<le> ct_new_tokens t"
  shows "0 \<le> history_tokens_before ts k \<and> history_tokens_before ts k \<le> sum_list (map ct_new_tokens ts)"
proof -
  have "\<forall>e \<in> set (turns_by_id ts). 0 \<le> ct_new_tokens (snd e)" "distinct (map fst (turns_by_id ts))"
    using turns_by_id_props [of ts] assms by auto
  from history_from_bounds [OF this, of 0 "ct_parent_turn_id (ts ! k)" "{}"] turns_by_id_tokens [OF assms]
  show ?thesis by (simp add: history_tokens_before_def)
qed

subsection \<open>The strategies compared\<close>

lemma append_le_resident:
  assumes "\<And>k. 0 \<le> history_tokens_before turns k"
  shows "list_all2 (\<le>) (append_costs turns prev es) (map (resident turns) es)"
  using assms by (induction turns prev es rule: append_costs.induct) (auto simp: resident_def)

lemma sglang_le_append:
  assumes "\<And>k. 0 \<le> history_tokens_before turns k" "case prev of None \<Rightarrow> True | Some p \<Rightarrow> p \<in> mat"
  shows "list_all2 (\<le>) (sglang_costs turns mat es) (append_costs turns prev es)"
  using assms(2) by (induction es arbitrary: mat prev) (auto simp: resident_def assms(1) split: option.splits)

text \<open>
  Sharing never costs. For any turns with non-negative token counts, whatever parents they name, missing or cyclic ones included, every turn
  costs at most as much with \<open>SGLangSession\<close> as with \<open>IncrementalAppendSession\<close>, and there at most as much as with
  \<open>NaiveRecomputeSession\<close>; and no turn is charged for more history than the session has tokens.
\<close>

theorem session_costs_ordered:
  assumes "\<forall>t \<in> set turns. 0 \<le> ct_new_tokens t"
  shows "list_all2 (\<le>) (sr_per_turn_recompute (sglang_run turns)) (sr_per_turn_recompute (incremental_run turns)) \<and>
    list_all2 (\<le>) (sr_per_turn_recompute (incremental_run turns)) (sr_per_turn_recompute (naive_run turns)) \<and>
    (\<forall>k. history_tokens_before turns k \<le> sum_list (map ct_new_tokens turns))"
proof -
  have h: "0 \<le> history_tokens_before turns k" "history_tokens_before turns k \<le> sum_list (map ct_new_tokens turns)" for k
    using history_bounds [OF assms, of k] by simp_all
  show ?thesis
    using sglang_le_append [OF h(1), where prev = None and mat = "{}" and es = "enumerate_turns turns"]
      append_le_resident [OF h(1), where prev = None and es = "enumerate_turns turns"] h(2)
    by (simp add: sglang_run_def incremental_run_def naive_run_def Let_def)
qed

subsection \<open>A conversation without branches\<close>

definition linear :: "conversation_turn list \<Rightarrow> bool" where
  "linear turns \<longleftrightarrow> distinct (map ct_turn_id turns) \<and>
     (\<forall>k < length turns. ct_parent_turn_id (turns ! k) = (if k = 0 then None else Some (ct_turn_id (turns ! (k - 1)))))"

lemma turns_by_id_distinct:
  assumes "distinct (map ct_turn_id ts)"
  shows "map_of (turns_by_id ts) = (\<lambda>i. List.find (\<lambda>t. ct_turn_id t = i) ts)"
  using assms
proof (induction ts rule: rev_induct)
  case (snoc t ts)
  have app: "List.find P (xs @ [y]) = (case List.find P xs of None \<Rightarrow> if P y then Some y else None | Some z \<Rightarrow> Some z)" for P xs and y :: conversation_turn
    by (induction xs) simp_all
  have "ct_turn_id t \<notin> ct_turn_id ` set ts" using snoc.prems by simp
  then have "List.find (\<lambda>u. ct_turn_id u = ct_turn_id t) ts = None" unfolding find_None_iff by (metis image_eqI)
  with snoc show ?case by (auto simp: turns_by_id_snoc app fun_eq_iff split: option.splits)
qed (auto simp: turns_by_id_def)

lemma linear_lookup:
  assumes "linear turns" "k < length turns"
  shows "map_of (turns_by_id turns) (ct_turn_id (turns ! k)) = Some (turns ! k)"
proof -
  have d: "distinct (map ct_turn_id turns)" using assms(1) by (simp add: linear_def)
  have "List.find (\<lambda>t. ct_turn_id t = ct_turn_id (turns ! k)) turns = Some (turns ! k)"
    using assms(2) d by (auto simp: find_Some_iff distinct_conv_nth intro!: exI [of _ k])
  then show ?thesis using turns_by_id_distinct [OF d] by simp
qed

lemma linear_history_from:
  assumes "linear turns" "k \<le> length turns" "seen \<inter> ct_turn_id ` set (take k turns) = {}"
  shows "history_from (turns_by_id turns) (if k = 0 then None else Some (ct_turn_id (turns ! (k - 1)))) seen n =
    n + sum_list (map ct_new_tokens (take k turns))"
  using assms(2,3)
proof (induction k arbitrary: seen n)
  case 0
  then show ?case by (subst history_from.simps) simp
next
  case (Suc k)
  let ?t = "turns ! k"
  have k: "k < length turns" "take (Suc k) turns = take k turns @ [?t]" using Suc.prems by (simp_all add: take_Suc_conv_app_nth)
  have "distinct (map ct_turn_id (take (Suc k) turns))" using assms(1) by (simp add: linear_def distinct_take take_map [symmetric])
  then have "insert (ct_turn_id ?t) seen \<inter> ct_turn_id ` set (take k turns) = {}" using Suc.prems(2) unfolding k(2) by auto
  note IH = Suc.IH [OF _ this, of "n + ct_new_tokens ?t"]
  have "ct_turn_id ?t \<notin> seen" using Suc.prems(2) unfolding k(2) by auto
  then have "history_from (turns_by_id turns) (Some (ct_turn_id ?t)) seen n =
      history_from (turns_by_id turns) (ct_parent_turn_id ?t) (insert (ct_turn_id ?t) seen) (n + ct_new_tokens ?t)"
    using linear_lookup [OF assms(1) k(1)] by (subst history_from.simps) simp
  also have "ct_parent_turn_id ?t = (if k = 0 then None else Some (ct_turn_id (turns ! (k - 1))))"
    using assms(1) k(1) by (simp add: linear_def)
  finally show ?case using IH k by simp
qed

lemma linear_history:
  assumes "linear turns" "k < length turns"
  shows "history_tokens_before turns k = sum_list (map ct_new_tokens (take k turns))"
proof -
  have "ct_parent_turn_id (turns ! k) = (if k = 0 then None else Some (ct_turn_id (turns ! (k - 1))))" using assms by (simp add: linear_def)
  then show ?thesis unfolding history_tokens_before_def using linear_history_from [OF assms(1), of k "{}" 0] assms(2) by simp
qed

lemma linear_append:
  assumes "linear turns" "k \<le> length turns"
  shows "append_costs turns (if k = 0 then None else Some (ct_turn_id (turns ! (k - 1)))) (drop k (enumerate_turns turns)) =
      map ct_new_tokens (drop k turns)"
  using assms(2)
proof (induction "length turns - k" arbitrary: k)
  case 0
  then show ?case by (simp add: enumerate_turns_def)
next
  case (Suc m)
  then have k: "k < length turns" by simp
  have e: "drop k (enumerate_turns turns) = (k, turns ! k) # drop (Suc k) (enumerate_turns turns)"
    using k by (subst Cons_nth_drop_Suc [symmetric]) (simp_all add: enumerate_turns_def nth_enumerate_eq)
  have "ct_parent_turn_id (turns ! k) = (if k = 0 then None else Some (ct_turn_id (turns ! (k - 1))))" using assms(1) k by (simp add: linear_def)
  with Suc.hyps(1) [of "Suc k"] Suc.hyps(2) k show ?case unfolding e by (simp add: Cons_nth_drop_Suc [symmetric])
qed

lemma linear_sglang:
  assumes "linear turns" "k \<le> length turns" "k = 0 \<or> ct_turn_id (turns ! (k - 1)) \<in> mat"
  shows "sglang_costs turns mat (drop k (enumerate_turns turns)) = map ct_new_tokens (drop k turns)"
  using assms(2,3)
proof (induction "length turns - k" arbitrary: k mat)
  case 0
  then show ?case by (simp add: enumerate_turns_def)
next
  case (Suc m)
  then have k: "k < length turns" by simp
  have e: "drop k (enumerate_turns turns) = (k, turns ! k) # drop (Suc k) (enumerate_turns turns)"
    using k by (subst Cons_nth_drop_Suc [symmetric]) (simp_all add: enumerate_turns_def nth_enumerate_eq)
  have p: "ct_parent_turn_id (turns ! k) = (if k = 0 then None else Some (ct_turn_id (turns ! (k - 1))))" using assms(1) k by (simp add: linear_def)
  have IH: "sglang_costs turns mat' (drop (Suc k) (enumerate_turns turns)) = map ct_new_tokens (drop (Suc k) turns)"
    if "ct_turn_id (turns ! k) \<in> mat'" for mat' using Suc.hyps(1) [of "Suc k" mat'] Suc.hyps(2) k that by simp
  show ?case unfolding e using p IH Suc.prems(2) k by (auto simp: Cons_nth_drop_Suc [symmetric])
qed

text \<open>
  A conversation without branches. When every turn continues the one before it, recomputing costs at each turn all the tokens up to it, while appending, and
  \<open>SGLangSession\<close> alike, cost only the new tokens, and these two hold the same tokens at their peak.
\<close>

theorem linear_session_costs:
  assumes "linear turns"
  shows "sr_per_turn_recompute (naive_run turns) = map (\<lambda>k. sum_list (map ct_new_tokens (take (Suc k) turns))) [0..<length turns] \<and>
    sr_per_turn_recompute (incremental_run turns) = map ct_new_tokens turns \<and>
    sr_per_turn_recompute (sglang_run turns) = map ct_new_tokens turns \<and>
    sr_peak_tokens_held (incremental_run turns) = sr_peak_tokens_held (sglang_run turns)"
proof -
  have "sr_per_turn_recompute (naive_run turns) = map (\<lambda>k. sum_list (map ct_new_tokens (take (Suc k) turns))) [0..<length turns]"
  proof (rule nth_equalityI)
    fix k assume "k < length (sr_per_turn_recompute (naive_run turns))"
    then have k: "k < length turns" by (simp add: naive_run_def enumerate_turns_def Let_def)
    then show "sr_per_turn_recompute (naive_run turns) ! k = map (\<lambda>k. sum_list (map ct_new_tokens (take (Suc k) turns))) [0..<length turns] ! k"
      using linear_history [OF assms k]
      by (simp add: naive_run_def Let_def enumerate_turns_def nth_enumerate_eq resident_def take_Suc_conv_app_nth)
  qed (simp add: naive_run_def enumerate_turns_def Let_def)
  moreover have "sr_per_turn_recompute (incremental_run turns) = map ct_new_tokens turns"
    using linear_append [OF assms, of 0] by (simp add: incremental_run_def Let_def)
  moreover have "sr_per_turn_recompute (sglang_run turns) = map ct_new_tokens turns"
    using linear_sglang [OF assms, of 0 "{}"] by (simp add: sglang_run_def Let_def)
  ultimately show ?thesis by (simp add: incremental_run_def sglang_run_def Let_def)
qed

definition ex_turns :: "conversation_turn list" where
  "ex_turns = [\<lparr>ct_turn_id = ''a'', ct_new_tokens = 5, ct_parent_turn_id = None\<rparr>, \<lparr>ct_turn_id = ''b'', ct_new_tokens = 2, ct_parent_turn_id = Some ''a''\<rparr>,
     \<lparr>ct_turn_id = ''c'', ct_new_tokens = 1, ct_parent_turn_id = Some ''b''\<rparr>]"

theorem linear_session_costs_witness:
  "linear ex_turns \<and> sr_per_turn_recompute (naive_run ex_turns) = [5, 7, 8] \<and> sr_per_turn_recompute (sglang_run ex_turns) = [5, 2, 1]"
proof -
  have l: "linear ex_turns" by (auto simp: linear_def ex_turns_def less_Suc_eq)
  with linear_session_costs [OF l] show ?thesis by (simp add: ex_turns_def)
qed

theorem session_costs_ordered_witness:
  "list_all2 (\<le>) (sr_per_turn_recompute (sglang_run (ex_turns @ [\<lparr>ct_turn_id = ''d'', ct_new_tokens = 3, ct_parent_turn_id = Some ''a''\<rparr>])))
     (sr_per_turn_recompute (incremental_run (ex_turns @ [\<lparr>ct_turn_id = ''d'', ct_new_tokens = 3, ct_parent_turn_id = Some ''a''\<rparr>]))) \<and>
   sr_per_turn_recompute (sglang_run (ex_turns @ [\<lparr>ct_turn_id = ''d'', ct_new_tokens = 3, ct_parent_turn_id = Some ''a''\<rparr>])) = [5, 2, 1, 3] \<and>
   sr_per_turn_recompute (incremental_run (ex_turns @ [\<lparr>ct_turn_id = ''d'', ct_new_tokens = 3, ct_parent_turn_id = Some ''a''\<rparr>])) = [5, 2, 1, 8]"
proof -
  let ?ts = "ex_turns @ [\<lparr>ct_turn_id = ''d'', ct_new_tokens = 3, ct_parent_turn_id = Some ''a''\<rparr>]"
  have "\<forall>t \<in> set ?ts. 0 \<le> ct_new_tokens t" by (simp add: ex_turns_def)
  moreover have "sr_per_turn_recompute (sglang_run ?ts) = [5, 2, 1, 3]" "sr_per_turn_recompute (incremental_run ?ts) = [5, 2, 1, 8]" by code_simp+
  ultimately show ?thesis using session_costs_ordered [of ?ts] by simp
qed

end
