(* ===== verification/Rag_Chunking.thy ===== *)
theory Rag_Chunking
  imports Cache_Warmed Cag_Entities "HOL-Library.Sublist"
begin

text \<open>
  Cutting documents into chunks: the sentence splitter and the chunkers of
  \<^verbatim>\<open>src/rag/infrastructure\<close>. The encoding of tiktoken is the parameters \<open>encode\<close> and \<open>decode\<close>, both total: a text with a special
  token such as \<^verbatim>\<open><|endoftext|>\<close>, which \<^verbatim>\<open>encode\<close> refuses, is outside the model. The
  embedding model of the semantic chunker is \<open>emb\<close>. A regular expression is the function that gives the length
  of its match at a position, from the character before it and the text from there on.
\<close>

subsection \<open>Sentences\<close>

definition lower_char :: "char \<Rightarrow> char" where
  "lower_char c =
     (let n = of_char c :: nat in
      if (65 \<le> n \<and> n \<le> 90) \<or> (192 \<le> n \<and> n \<le> 222 \<and> n \<noteq> 215) then char_of (n + 32) else c)"

definition py_lower :: "string \<Rightarrow> string" where
  "py_lower s = map lower_char s"

definition is_upper :: "char \<Rightarrow> bool" where
  "is_upper c = (65 \<le> (of_char c :: nat) \<and> of_char c \<le> (90 :: nat))"

definition ends_sentence :: "char \<Rightarrow> bool" where
  "ends_sentence c = (c \<in> {CHR ''.'', CHR ''!'', CHR ''?''})"

function split_boundary :: "string \<Rightarrow> string \<Rightarrow> string list" where
  \<comment> \<open>\<open>_SENTENCE_BOUNDARY.split\<close>: the piece so far, reversed, and the rest. A maximal run of
    whitespace after \<open>.\<close>, \<open>!\<close> or \<open>?\<close> and before a capital letter or the end is a boundary; a shorter
    run is followed by whitespace, so it never is.\<close>
  "split_boundary cur [] = [rev cur]"
| "split_boundary cur (c # cs) =
     (if cur \<noteq> [] \<and> ends_sentence (hd cur) \<and> is_space c \<and>
         (dropWhile is_space cs = [] \<or> is_upper (hd (dropWhile is_space cs)))
      then rev cur # split_boundary [] (dropWhile is_space cs)
      else split_boundary (c # cur) cs)"
  by pat_completeness auto
termination
  by (relation "measure (length \<circ> snd)") (auto simp: less_Suc_eq_le length_dropWhile_le)

definition split_sentences :: "string \<Rightarrow> string list" where
  "split_sentences text =
     (if py_strip text = [] then []
      else filter (\<lambda>s. s \<noteq> []) (map py_strip (split_boundary [] (py_strip text))))"

definition ink :: "string \<Rightarrow> string" where
  \<comment> \<open>the characters of a text that are not whitespace\<close>
  "ink s = filter (\<lambda>c. \<not> is_space c) s"

lemma ink_append [simp]: "ink (a @ b) = ink a @ ink b"
  by (simp add: ink_def)

lemma ink_Nil [simp]: "ink [] = []"
  by (simp add: ink_def)

lemma ink_Cons [simp]: "ink (c # s) = (if is_space c then ink s else c # ink s)"
  by (simp add: ink_def)

lemma ink_concat: "ink (concat xs) = concat (map ink xs)"
  by (induction xs) simp_all

lemma ink_dropWhile [simp]: "ink (dropWhile is_space s) = ink s"
  by (induction s) simp_all

lemma ink_rev: "ink (rev s) = rev (ink s)"
  by (simp add: ink_def rev_filter)

lemma ink_strip [simp]: "ink (py_strip s) = ink s"
  by (simp add: py_strip_def ink_rev)

lemma strip_empty_iff: "py_strip s = [] \<longleftrightarrow> ink s = []"
proof
  assume "ink s = []"
  then have "\<forall>c\<in>set s. is_space c" by (simp add: ink_def filter_empty_conv)
  then have "dropWhile is_space s = []" by (simp add: dropWhile_eq_Nil_conv)
  then show "py_strip s = []" unfolding py_strip_def by (simp only: rev.simps dropWhile.simps)
qed (metis ink_strip ink_Nil)

lemma concat_ink_strip: "concat (map ink (filter (\<lambda>s. s \<noteq> []) (map py_strip xs))) = concat (map ink xs)"
  by (induction xs) (auto simp: strip_empty_iff)

lemma ink_split_boundary: "concat (map ink (split_boundary cur s)) = ink (rev cur) @ ink s"
proof (induction cur s rule: split_boundary.induct)
  case (2 cur c cs)
  then show ?case by (cases "is_space c") auto
qed simp

lemma ink_split_sentences: "concat (map ink (split_sentences text)) = ink text"
  by (simp add: split_sentences_def concat_ink_strip ink_split_boundary strip_empty_iff [symmetric])
     (metis ink_Nil ink_strip)

lemma ink_join_space: "ink (join '' '' xs) = concat (map ink xs)"
  by (induction "'' ''" xs rule: join.induct) (simp_all add: is_space_def)

lemma split_sentences_nonempty: "s \<in> set (split_sentences text) \<Longrightarrow> s \<noteq> []"
  by (auto simp: split_sentences_def split: if_splits)

lemma ink_sentences_nonempty: "s \<in> set (split_sentences text) \<Longrightarrow> ink s \<noteq> []"
  by (auto simp: split_sentences_def strip_empty_iff split: if_splits)

subsection \<open>SentenceBasedChunker\<close>

fun sentence_loop :: "(string \<Rightarrow> int) \<Rightarrow> int \<Rightarrow> string list \<Rightarrow> string list \<Rightarrow> int \<Rightarrow> string list \<Rightarrow> string list" where
  \<comment> \<open>the loop: \<open>chunks\<close>, \<open>current\<close> and \<open>current_tokens\<close>, the sentences left; \<open>tok\<close> is the number of tokens of a text\<close>
  "sentence_loop tok chunk_size chunks current current_tokens [] =
     (if current \<noteq> [] then chunks @ [join '' '' current] else chunks)"
| "sentence_loop tok chunk_size chunks current current_tokens (sentence # rest) =
     (if current \<noteq> [] \<and> chunk_size < current_tokens + tok sentence
      then sentence_loop tok chunk_size (chunks @ [join '' '' current]) [sentence] (tok sentence) rest
      else sentence_loop tok chunk_size chunks (current @ [sentence]) (current_tokens + tok sentence) rest)"

definition sentence_chunk :: "(string \<Rightarrow> int) \<Rightarrow> int \<Rightarrow> string \<Rightarrow> string list" where
  "sentence_chunk tok chunk_size text =
     (let sentences = split_sentences text in
      if sentences = [] then [] else sentence_loop tok chunk_size [] [] 0 sentences)"

definition toks :: "(string \<Rightarrow> int) \<Rightarrow> string list \<Rightarrow> int" where
  "toks tok g = sum_list (map tok g)"

fun greedy_groups :: "(string \<Rightarrow> int) \<Rightarrow> int \<Rightarrow> string list list \<Rightarrow> bool" where
  \<comment> \<open>a group is left only when the next sentence does not fit in it\<close>
  "greedy_groups tok chunk_size (g # h # gs) =
     (chunk_size < toks tok g + tok (hd h) \<and> greedy_groups tok chunk_size (h # gs))"
| "greedy_groups tok chunk_size gs = True"

definition group_fits :: "(string \<Rightarrow> int) \<Rightarrow> int \<Rightarrow> string list \<Rightarrow> bool" where
  "group_fits tok chunk_size g \<longleftrightarrow> toks tok g \<le> chunk_size \<or> (\<exists>s. g = [s])"

lemma sentence_loop_groups:
  assumes "current \<noteq> []" "group_fits tok chunk_size current"
  shows "\<exists>g gs. sentence_loop tok chunk_size chunks current (toks tok current) ss
                  = chunks @ map (join '' '') ((current @ g) # gs) \<and>
                concat (g # gs) = ss \<and> [] \<notin> set gs \<and>
                (\<forall>h\<in>set ((current @ g) # gs). group_fits tok chunk_size h) \<and>
                greedy_groups tok chunk_size ((current @ g) # gs)"
  using assms
proof (induction ss arbitrary: chunks current)
  case Nil
  then show ?case by (intro exI [of _ "[]"]) simp
next
  case (Cons s ss)
  show ?case
  proof (cases "chunk_size < toks tok current + tok s")
    case True
    have "group_fits tok chunk_size [s]" by (simp add: group_fits_def)
    from Cons.IH [of "[s]" "chunks @ [join '' '' current]", OF _ this]
    obtain g gs where *: "sentence_loop tok chunk_size (chunks @ [join '' '' current]) [s] (tok s) ss
          = chunks @ [join '' '' current] @ map (join '' '') (([s] @ g) # gs)"
        "concat (g # gs) = ss" "[] \<notin> set gs" "\<forall>h\<in>set (([s] @ g) # gs). group_fits tok chunk_size h"
        "greedy_groups tok chunk_size (([s] @ g) # gs)"
      by (auto simp: toks_def)
    show ?thesis
      using True Cons.prems * by (intro exI [of _ "[]"] exI [of _ "([s] @ g) # gs"]) (auto simp: toks_def)
  next
    case False
    then have "group_fits tok chunk_size (current @ [s])" by (auto simp: group_fits_def toks_def)
    from Cons.IH [of "current @ [s]" chunks, OF _ this]
    obtain g gs where *: "sentence_loop tok chunk_size chunks (current @ [s]) (toks tok current + tok s) ss
          = chunks @ map (join '' '') ((current @ [s] @ g) # gs)"
        "concat (g # gs) = ss" "[] \<notin> set gs" "\<forall>h\<in>set ((current @ [s] @ g) # gs). group_fits tok chunk_size h"
        "greedy_groups tok chunk_size ((current @ [s] @ g) # gs)"
      by (auto simp: toks_def add.assoc)
    show ?thesis
      using False Cons.prems * by (intro exI [of _ "s # g"] exI [of _ gs]) auto
  qed
qed

lemma ink_groups: "concat gs = ss \<Longrightarrow> concat (map ink (map (join '' '') gs)) = concat (map ink ss)"
  by (induction gs arbitrary: ss) (auto simp: ink_join_space)

text \<open>
  Sentence chunking loses no text and keeps its order: the chunks are consecutive groups of the
  sentences, joined by blanks. A group has at most \<^verbatim>\<open>chunk_size_tokens\<close> tokens, counted by
  sentence, or is one sentence that is longer; and a chunk ends only where the next sentence no longer fits.
\<close>
theorem sentence_chunk_correct:
  "\<exists>groups. sentence_chunk tok chunk_size text = map (join '' '') groups \<and>
     concat groups = split_sentences text \<and> [] \<notin> set groups \<and>
     (\<forall>g\<in>set groups. group_fits tok chunk_size g) \<and> greedy_groups tok chunk_size groups \<and>
     ink (concat (sentence_chunk tok chunk_size text)) = ink text"
proof (cases "split_sentences text")
  case Nil
  then show ?thesis
    using ink_split_sentences [of "text"] by (intro exI [of _ "[]"]) (simp add: sentence_chunk_def)
next
  case (Cons s ss)
  have "group_fits tok chunk_size [s]" by (simp add: group_fits_def)
  from sentence_loop_groups [of "[s]", OF _ this, of "[]" ss]
  obtain g gs where *: "sentence_loop tok chunk_size [] [s] (tok s) ss = map (join '' '') (([s] @ g) # gs)"
      "concat (g # gs) = ss" "[] \<notin> set gs" "\<forall>h\<in>set (([s] @ g) # gs). group_fits tok chunk_size h"
      "greedy_groups tok chunk_size (([s] @ g) # gs)"
    by (auto simp: toks_def)
  have 1: "sentence_chunk tok chunk_size text = map (join '' '') (([s] @ g) # gs)"
    unfolding sentence_chunk_def by (simp add: Cons *(1))
  have 2: "concat (([s] @ g) # gs) = split_sentences text" using * Cons by simp
  have "ink (concat (sentence_chunk tok chunk_size text)) = ink text"
    using ink_groups [OF 2] ink_split_sentences [of "text"] by (simp only: ink_concat 1)
  with 1 2 * show ?thesis by (intro exI [of _ "([s] @ g) # gs"]) simp
qed

subsection \<open>FixedSizeChunker and SlidingWindowChunker\<close>

definition py_int :: "rat \<Rightarrow> int" where
  \<comment> \<open>\<open>int(x)\<close> of a float truncates\<close>
  "py_int x = (if 0 \<le> x then \<lfloor>x\<rfloor> else \<lceil>x\<rceil>)"

record fixed_size_chunker =
  fx_chunk_size :: int
  fx_overlap :: int

definition make_fixed_size_chunker :: "int \<Rightarrow> rat \<Rightarrow> fixed_size_chunker result" where
  "make_fixed_size_chunker chunk_size_tokens overlap_ratio =
     (if 1 \<le> overlap_ratio then Inl (ValueError ''overlap_ratio must be < 1.0'')
      else Inr \<lparr>fx_chunk_size = chunk_size_tokens,
                fx_overlap = py_int (fl (fl (of_int chunk_size_tokens) * overlap_ratio))\<rparr>)"

definition DEFAULT_FIXED_OVERLAP :: rat where
  "DEFAULT_FIXED_OVERLAP = fl (1 / 10)"

definition DEFAULT_SLIDING_OVERLAP :: rat where
  "DEFAULT_SLIDING_OVERLAP = 1 / 2"

partial_function (option) fixed_loop :: "(int list \<Rightarrow> string) \<Rightarrow> fixed_size_chunker \<Rightarrow> int list \<Rightarrow> string list \<Rightarrow> int \<Rightarrow> string list option" where
  \<comment> \<open>the loop from \<open>start\<close>: \<open>None\<close> when it never ends\<close>
  "fixed_loop decode s tokens chunks start =
     (if start < int (length tokens)
      then let stop = min (start + fx_chunk_size s) (int (length tokens));
               chunks' = chunks @ [decode (py_slice start stop tokens)]
           in if stop = int (length tokens) then Some chunks'
              else fixed_loop decode s tokens chunks' (start + (fx_chunk_size s - fx_overlap s))
      else Some chunks)"

definition fixed_chunk :: "(string \<Rightarrow> int list) \<Rightarrow> (int list \<Rightarrow> string) \<Rightarrow> fixed_size_chunker \<Rightarrow> string \<Rightarrow> string list option" where
  "fixed_chunk encode decode s text =
     (if text = [] then Some []
      else let tokens = encode text in
           if int (length tokens) \<le> fx_chunk_size s then Some [text]
           else fixed_loop decode s tokens [] 0)"

text \<open>Whatever the ratio below one, the overlap leaves a step of at least one token.\<close>

lemma overlap_lt:
  assumes "make_fixed_size_chunker c r = Inr s" "1 \<le> c" "c \<le> 2 ^ 53" "r \<le> 1 - 1 / 2 ^ 53"
  shows "fx_chunk_size s = c" "fx_overlap s < c" "0 \<le> r \<Longrightarrow> 0 \<le> fx_overlap s"
proof -
  have s: "s = \<lparr>fx_chunk_size = c, fx_overlap = py_int (fl (of_int c * r))\<rparr>"
    using assms double.rnd_int [of c] by (auto simp: make_fixed_size_chunker_def split: if_splits)
  then show "fx_chunk_size s = c" by simp
  let ?x = "of_int c * r"
  have "fl ?x < of_int c"
  proof (cases "0 \<le> ?x")
    case True
    have "\<bar>fl ?x - ?x\<bar> \<le> ?x / 2 ^ 53" using double.rnd_error [of ?x] True by simp
    then have "fl ?x \<le> ?x + ?x / 2 ^ 53" by linarith
    also have "\<dots> = ?x * (1 + 1 / 2 ^ 53)" by (simp add: ring_distribs)
    also have "?x * (1 + 1 / 2 ^ 53) \<le> (of_int c * (1 - 1 / 2 ^ 53)) * (1 + 1 / 2 ^ 53)"
      using assms by (intro mult_right_mono mult_left_mono) auto
    also have "\<dots> < of_int c" using assms(2) by (simp add: field_simps)
    finally show ?thesis .
  next
    case False
    then have "fl ?x \<le> 0" using double.rnd_mono [of ?x 0] by (simp only: double.rnd_0)
    also have "0 < rat_of_int c" using assms(2) by simp
    finally show ?thesis .
  qed
  moreover have "fl ?x < 0 \<Longrightarrow> \<lceil>fl ?x\<rceil> < c"
    using assms(2) by (intro le_less_trans [of "\<lceil>fl ?x\<rceil>" 0 c]) (auto simp: ceiling_le_iff)
  ultimately show "fx_overlap s < c" by (simp add: s py_int_def floor_less_iff not_le)
  show "0 \<le> fx_overlap s" if "0 \<le> r"
  proof -
    have "0 \<le> fl ?x" using double.rnd_mono [of 0 ?x] that assms(2) by simp
    then show ?thesis by (simp add: s py_int_def)
  qed
qed

definition merge_windows :: "nat \<Rightarrow> int list list \<Rightarrow> int list" where
  \<comment> \<open>the windows with each one's overlap with the one before removed\<close>
  "merge_windows n ws = (case ws of [] \<Rightarrow> [] | w # rest \<Rightarrow> w @ concat (map (drop n) rest))"

fun overlapping :: "nat \<Rightarrow> int list list \<Rightarrow> bool" where
  \<comment> \<open>each window starts with the last \<open>n\<close> tokens of the one before\<close>
  "overlapping n (v # w # ws) = (n \<le> length v \<and> drop (length v - n) v = take n w \<and> overlapping n (w # ws))"
| "overlapping n ws = True"

lemma merge_windows_Cons:
  "ws \<noteq> [] \<Longrightarrow> n \<le> length (hd ws) \<Longrightarrow> merge_windows n (w # ws) = w @ drop n (merge_windows n ws)"
  by (cases ws) (auto simp: merge_windows_def)

lemma fixed_loop_windows:
  assumes c: "fx_chunk_size s = int c" "fx_overlap s = int n" "n < c"
    and "m < length tokens" "n < length tokens - m"
  shows "\<exists>w ws. fixed_loop decode s tokens chunks (int m) = Some (chunks @ map decode (w # ws)) \<and>
           (\<forall>v\<in>set (w # ws). v \<noteq> [] \<and> length v \<le> c) \<and> n \<le> length w \<and> w = take c (drop m tokens) \<and>
           overlapping n (w # ws) \<and> merge_windows n (w # ws) = drop m tokens"
  using assms(4-)
proof (induction "length tokens - m" arbitrary: m chunks rule: less_induct)
  case less
  let ?w = "take c (drop m tokens)"
  have slice: "py_slice (int m) (min (int m + int c) (int (length tokens))) tokens = ?w"
    using less.prems(1) by (subst py_slice_nonneg) (auto simp: min_def nat_add_distrib)
  show ?case
  proof (cases "m + c < length tokens")
    case False
    then have "min (int m + int c) (int (length tokens)) = int (length tokens)" by simp
    then have "fixed_loop decode s tokens chunks (int m) = Some (chunks @ map decode [?w])"
      using less.prems(1) slice by (subst fixed_loop.simps) (simp add: Let_def c)
    then show ?thesis
      using False less.prems c by (intro exI [of _ ?w] exI [of _ "[]"]) (auto simp: merge_windows_def)
  next
    case True
    let ?k = "m + (c - n)"
    have "length tokens - ?k < length tokens - m" "?k < length tokens" "n < length tokens - ?k"
      using True c(3) less.prems by auto
    from less.hyps [OF this, of "chunks @ [decode ?w]"] obtain v vs where
      *: "fixed_loop decode s tokens (chunks @ [decode ?w]) (int ?k) = Some (chunks @ decode ?w # map decode (v # vs))"
         "\<forall>u\<in>set (v # vs). u \<noteq> [] \<and> length u \<le> c"
         "n \<le> length v" "v = take c (drop ?k tokens)" "overlapping n (v # vs)"
         "merge_windows n (v # vs) = drop ?k tokens"
      by auto
    have step: "int m + (int c - int n) = int ?k" using c(3) by auto
    have len: "length ?w = c" using True by simp
    have 1: "fixed_loop decode s tokens chunks (int m) = Some (chunks @ map decode (?w # v # vs))"
    proof -
      have "min (int m + int c) (int (length tokens)) = int m + int c" using True by simp
      with slice have "py_slice (int m) (int m + int c) tokens = ?w" by simp
      then have "fixed_loop decode s tokens chunks (int m) =
          fixed_loop decode s tokens (chunks @ [decode ?w]) (int m + (int c - int n))"
        using less.prems(1) True by (subst fixed_loop.simps) (simp add: Let_def c del: fixed_loop.simps)
      then have "fixed_loop decode s tokens chunks (int m) = fixed_loop decode s tokens (chunks @ [decode ?w]) (int ?k)"
        unfolding step .
      then show ?thesis using *(1) by simp
    qed
    have 2: "drop (length ?w - n) ?w = take n v"
      using c(3) unfolding len *(4) by (simp add: drop_take add.commute)
    have 3: "merge_windows n (?w # v # vs) = drop m tokens"
    proof -
      have "merge_windows n (?w # v # vs) = ?w @ drop n (drop ?k tokens)"
        using merge_windows_Cons [of "v # vs" n ?w] *(3,6) by simp
      also have "drop n (drop ?k tokens) = drop c (drop m tokens)" using c(3) by (simp add: add.commute)
      finally show ?thesis by (simp only: append_take_drop_id)
    qed
    have 4: "overlapping n (?w # v # vs)" using 2 *(5) len c(3) by simp
    have 5: "\<forall>u\<in>set (?w # v # vs). u \<noteq> [] \<and> length u \<le> c" using *(2) less.prems(1) c(3) by auto
    show ?thesis
      using 1 3 4 5 len c(3) by (intro exI [of _ ?w] exI [of _ "v # vs"] conjI) simp_all
  qed
qed

lemma fixed_chunk_windows:
  assumes "make_fixed_size_chunker c r = Inr s" "1 \<le> c" "c \<le> 2 ^ 53" "0 \<le> r" "r \<le> 1 - 1 / 2 ^ 53"
    and t: "t \<noteq> []" and len: "c < int (length (encode t))"
  shows "\<exists>ws. fixed_chunk encode decode s t = Some (map decode ws) \<and>
             (\<forall>w\<in>set ws. w \<noteq> [] \<and> int (length w) \<le> c) \<and>
             overlapping (nat (fx_overlap s)) ws \<and> merge_windows (nat (fx_overlap s)) ws = encode t"
proof -
  note o = overlap_lt [OF assms(1,2,3,5)]
  have n: "fx_chunk_size s = int (nat c)" "fx_overlap s = int (nat (fx_overlap s))" "nat (fx_overlap s) < nat c"
    using o assms(2,4) by auto
  have "0 < length (encode t)" "nat (fx_overlap s) < length (encode t) - 0" using n len assms(2) by auto
  from fixed_loop_windows [OF n this, of decode "[]"] obtain w ws where
    "fixed_loop decode s (encode t) [] 0 = Some (map decode (w # ws))"
    "\<forall>v\<in>set (w # ws). v \<noteq> [] \<and> length v \<le> nat c" "overlapping (nat (fx_overlap s)) (w # ws)"
    "merge_windows (nat (fx_overlap s)) (w # ws) = encode t"
    by auto
  then show ?thesis
    using t len assms(2) by (intro exI [of _ "w # ws"]) (auto simp: fixed_chunk_def o le_nat_iff)
qed

text \<open>
  C28. Chunking by tokens ends and loses nothing when the size is between one token and \<open>2 ^ 53\<close> and the ratio from 0 up to the
  largest double below one; the constructor also accepts a size of 0, with which it never ends, and negative ratios, with which
  tokens are lost (\<open>zero_chunk_size_never_returns\<close>). Within these bounds \<^verbatim>\<open>chunk\<close> returns: no text gives no chunk, a text that fits is one
  chunk, and otherwise the chunks decode windows of at most the size, each of which starts with the last
  tokens of the one before, as many as the overlap; without the overlaps the windows are the tokens of the text.
\<close>
theorem fixed_chunk_covers:
  assumes "make_fixed_size_chunker c r = Inr s" "1 \<le> c" "c \<le> 2 ^ 53" "0 \<le> r" "r \<le> 1 - 1 / 2 ^ 53"
  shows "if t = [] then fixed_chunk encode decode s t = Some []
         else if int (length (encode t)) \<le> c then fixed_chunk encode decode s t = Some [t]
         else \<exists>ws. fixed_chunk encode decode s t = Some (map decode ws) \<and>
                   (\<forall>w\<in>set ws. w \<noteq> [] \<and> int (length w) \<le> c) \<and>
                   overlapping (nat (fx_overlap s)) ws \<and> merge_windows (nat (fx_overlap s)) ws = encode t"
  using fixed_chunk_windows [OF assms, of t encode decode] overlap_lt [OF assms(1,2,3,5)]
  by (auto simp: fixed_chunk_def)

lemma ex_fixed: "make_fixed_size_chunker 4 (1 / 2) = Inr \<lparr>fx_chunk_size = 4, fx_overlap = 2\<rparr>"
  by code_simp

theorem fixed_chunk_covers_witness:
  "\<exists>ws. fixed_chunk (map of_char) (map (char_of \<circ> nat)) \<lparr>fx_chunk_size = 4, fx_overlap = 2\<rparr> ''abcdefg'' = Some (map (map (char_of \<circ> nat)) ws) \<and>
     merge_windows 2 ws = map of_char ''abcdefg''"
  using fixed_chunk_covers [OF ex_fixed, where t = "''abcdefg''" and encode = "map of_char" and decode = "map (char_of \<circ> nat)"] by auto

declare fixed_loop.simps [code]

lemma fixed_loop_stuck:
  "fixed_loop decode s tokens chunks start = Some ys \<Longrightarrow>
   \<not> (start = 0 \<and> tokens \<noteq> [] \<and> fx_chunk_size s = 0 \<and> fx_overlap s = 0)"
proof (rule fixed_loop.raw_induct [where P = "\<lambda>decode s tokens chunks start ys.
    \<not> (start = 0 \<and> tokens \<noteq> [] \<and> fx_chunk_size s = 0 \<and> fx_overlap s = 0)"], rule notI)
  fix loop decode s tokens chunks start ys
  assume ih: "\<And>decode s tokens chunks start ys. loop decode s tokens chunks start = Some ys \<Longrightarrow>
      \<not> (start = 0 \<and> tokens \<noteq> [] \<and> fx_chunk_size s = 0 \<and> fx_overlap s = 0)"
    and eq: "(if start < int (length tokens)
      then let stop = min (start + fx_chunk_size s) (int (length tokens));
               chunks' = chunks @ [decode (py_slice start stop tokens)]
           in if stop = int (length tokens) then Some chunks'
              else loop decode s tokens chunks' (start + (fx_chunk_size s - fx_overlap s))
      else Some chunks) = Some ys"
    and a: "start = 0 \<and> tokens \<noteq> [] \<and> fx_chunk_size s = 0 \<and> fx_overlap s = 0"
  from a eq have "loop decode s tokens (chunks @ [decode (py_slice 0 0 tokens)]) 0 = Some ys"
    by (simp add: Let_def)
  from ih [OF this] a show False by simp
qed

text \<open>
  The check of the ratio does not turn every hang into an error: with \<^verbatim>\<open>chunk_size_tokens\<close> 0 the
  constructor accepts the ratio and \<^verbatim>\<open>chunk\<close> never returns on a text that has a token.
\<close>
theorem zero_chunk_size_never_returns:
  assumes "make_fixed_size_chunker 0 r = Inr s" "t \<noteq> []" "encode t \<noteq> []"
  shows "fixed_chunk encode decode s t = None"
proof -
  have s: "fx_chunk_size s = 0" "fx_overlap s = 0"
    using assms(1) by (auto simp: make_fixed_size_chunker_def py_int_def split: if_splits)
  have "fixed_loop decode s (encode t) [] 0 = None"
    using fixed_loop_stuck [of decode s "encode t" "[]" 0] s assms(3) by (cases "fixed_loop decode s (encode t) [] 0") auto
  with assms(2,3) s show ?thesis by (simp add: fixed_chunk_def)
qed

text \<open>A negative ratio is accepted too, and the windows then leave tokens out.\<close>

lemma negative_overlap_loses_tokens:
  "make_fixed_size_chunker 2 (- (1 / 2)) = Inr \<lparr>fx_chunk_size = 2, fx_overlap = - 1\<rparr>"
  "fixed_chunk (map of_char) (map (char_of \<circ> nat)) \<lparr>fx_chunk_size = 2, fx_overlap = - 1\<rparr> ''abcde'' = Some [''ab'', ''de'']"
proof -
  show "make_fixed_size_chunker 2 (- (1 / 2)) = Inr \<lparr>fx_chunk_size = 2, fx_overlap = - 1\<rparr>" by code_simp
  show "fixed_chunk (map of_char) (map (char_of \<circ> nat)) \<lparr>fx_chunk_size = 2, fx_overlap = - 1\<rparr> ''abcde'' = Some [''ab'', ''de'']"
    by code_simp
qed

subsection \<open>ParentDocumentChunker\<close>

record parent_child_chunks =
  pc_parents :: "string list"
  pc_children :: "(string \<times> nat) list"

record parent_document_chunker =
  pd_parent_chunker :: fixed_size_chunker
  pd_child_chunker :: fixed_size_chunker

definition make_parent_document_chunker :: "int \<Rightarrow> int \<Rightarrow> parent_document_chunker result" where
  "make_parent_document_chunker parent_chunk_size_tokens child_chunk_size_tokens =
     (case make_fixed_size_chunker parent_chunk_size_tokens DEFAULT_FIXED_OVERLAP of
        Inl e \<Rightarrow> Inl e
      | Inr p \<Rightarrow> (case make_fixed_size_chunker child_chunk_size_tokens DEFAULT_FIXED_OVERLAP of
                   Inl e \<Rightarrow> Inl e
                 | Inr c \<Rightarrow> Inr \<lparr>pd_parent_chunker = p, pd_child_chunker = c\<rparr>))"

fun children_from :: "(string \<Rightarrow> string list option) \<Rightarrow> nat \<Rightarrow> string list \<Rightarrow> (string \<times> nat) list option" where
  "children_from child_chunk i [] = Some []"
| "children_from child_chunk i (parent # rest) =
     (case child_chunk parent of
        None \<Rightarrow> None
      | Some cs \<Rightarrow> (case children_from child_chunk (Suc i) rest of
                     None \<Rightarrow> None
                   | Some later \<Rightarrow> Some (map (\<lambda>child. (child, i)) cs @ later)))"

definition chunk_with_parents :: "(string \<Rightarrow> int list) \<Rightarrow> (int list \<Rightarrow> string) \<Rightarrow> parent_document_chunker \<Rightarrow> string \<Rightarrow>
    parent_child_chunks option" where
  "chunk_with_parents encode decode s text =
     (case fixed_chunk encode decode (pd_parent_chunker s) text of
        None \<Rightarrow> None
      | Some parents \<Rightarrow>
          (case children_from (fixed_chunk encode decode (pd_child_chunker s)) 0 parents of
             None \<Rightarrow> None
           | Some children \<Rightarrow> Some \<lparr>pc_parents = parents, pc_children = children\<rparr>))"

lemma fixed_chunk_returns:
  assumes "make_fixed_size_chunker c r = Inr s" "1 \<le> c" "c \<le> 2 ^ 53" "0 \<le> r" "r \<le> 1 - 1 / 2 ^ 53"
  obtains cs where "fixed_chunk encode decode s t = Some cs"
  using fixed_chunk_windows [OF assms, of t encode decode] overlap_lt [OF assms(1,2,3,5)]
  by (cases "t = []"; cases "int (length (encode t)) \<le> c") (auto simp: fixed_chunk_def)

lemma children_from_spec:
  assumes "\<And>p. \<exists>cs. child_chunk p = Some cs"
  shows "\<exists>cs. children_from child_chunk i parents = Some cs \<and>
           (\<forall>(child, k)\<in>set cs. i \<le> k \<and> k < i + length parents) \<and>
           (\<forall>k<length parents. child_chunk (parents ! k) = Some (map fst (filter (\<lambda>c. snd c = i + k) cs)))"
proof (induction parents arbitrary: i)
  case Nil
  then show ?case by simp
next
  case (Cons p ps)
  obtain cs where cs: "child_chunk p = Some cs" using assms by blast
  obtain later where later: "children_from child_chunk (Suc i) ps = Some later"
      "\<forall>(child, k)\<in>set later. Suc i \<le> k \<and> k < Suc i + length ps"
      "\<forall>k<length ps. child_chunk (ps ! k) = Some (map fst (filter (\<lambda>c. snd c = Suc i + k) later))"
    using Cons.IH [of "Suc i"] by blast
  have no: "filter (\<lambda>c. snd c = i) later = []" using later(2) by (fastforce simp: filter_empty_conv)
  have "child_chunk ((p # ps) ! k) = Some (map fst (filter (\<lambda>c. snd c = i + k) (map (\<lambda>child. (child, i)) cs @ later)))"
    if "k < Suc (length ps)" for k
    using that cs no later(3) by (cases k) (auto simp: filter_map o_def)
  moreover have "\<forall>(child, k)\<in>set (map (\<lambda>child. (child, i)) cs @ later). i \<le> k \<and> k < i + length (p # ps)"
    using later(2) by fastforce
  ultimately show ?case using cs later(1) by simp
qed

text \<open>
  Parent chunking returns for all sizes of at least one token. Every child names a parent that exists, and the children that
  name a parent are the chunks of that parent's text, in order.
\<close>
theorem chunk_with_parents_correct:
  assumes "make_parent_document_chunker c1 c2 = Inr s" "1 \<le> c1" "c1 \<le> 2 ^ 53" "1 \<le> c2" "c2 \<le> 2 ^ 53"
  shows "\<exists>r. chunk_with_parents encode decode s t = Some r \<and>
           fixed_chunk encode decode (pd_parent_chunker s) t = Some (pc_parents r) \<and>
           (\<forall>(child, i)\<in>set (pc_children r). i < length (pc_parents r)) \<and>
           (\<forall>i<length (pc_parents r). fixed_chunk encode decode (pd_child_chunker s) (pc_parents r ! i) =
              Some (map fst (filter (\<lambda>c. snd c = i) (pc_children r))))"
proof -
  have r: "0 \<le> DEFAULT_FIXED_OVERLAP" "DEFAULT_FIXED_OVERLAP \<le> 1 - 1 / 2 ^ 53" by code_simp+
  obtain p c where s: "s = \<lparr>pd_parent_chunker = p, pd_child_chunker = c\<rparr>"
      and p: "make_fixed_size_chunker c1 DEFAULT_FIXED_OVERLAP = Inr p"
      and c: "make_fixed_size_chunker c2 DEFAULT_FIXED_OVERLAP = Inr c"
    using assms(1) by (auto simp: make_parent_document_chunker_def split: sum.splits)
  obtain ps where ps: "fixed_chunk encode decode p t = Some ps"
    using fixed_chunk_returns [OF p assms(2,3) r] by metis
  have "\<And>q. \<exists>cs. fixed_chunk encode decode c q = Some cs"
    using fixed_chunk_returns [OF c assms(4,5) r] by metis
  from children_from_spec [where child_chunk = "fixed_chunk encode decode c" and i = 0 and parents = ps, OF this] obtain cs where
    "children_from (fixed_chunk encode decode c) 0 ps = Some cs"
    "\<forall>(child, k)\<in>set cs. k < length ps"
    "\<forall>k<length ps. fixed_chunk encode decode c (ps ! k) = Some (map fst (filter (\<lambda>c. snd c = k) cs))"
    by auto
  with ps show ?thesis by (auto simp: chunk_with_parents_def s)
qed

end
