(* ===== verification/Rag_Structure.thy ===== *)
theory Rag_Structure
  imports Rag_Chunking
begin

text \<open>
  Chunking by structure and by meaning: \<^verbatim>\<open>structure_aware_chunker.py\<close> and \<^verbatim>\<open>semantic_chunker.py\<close> of
  \<^verbatim>\<open>src/rag/infrastructure\<close>. A regular expression is the length of its match at a
  position, given the character before the position and the text from there on.
\<close>

subsection \<open>Matching\<close>

definition newline :: char where
  "newline = CHR 0x0A"

fun re_finditer :: "(char option \<Rightarrow> string \<Rightarrow> nat option) \<Rightarrow> nat \<Rightarrow> nat \<Rightarrow> char option \<Rightarrow> string \<Rightarrow> (nat \<times> nat) list" where
  \<comment> \<open>the spans of \<open>finditer\<close> from position \<open>pos\<close>; the next \<open>k\<close> characters belong to the last match\<close>
  "re_finditer m pos k prev [] = []"
| "re_finditer m pos k prev (c # cs) =
     (if 0 < k then re_finditer m (Suc pos) (k - 1) (Some c) cs
      else case m prev (c # cs) of
             None \<Rightarrow> re_finditer m (Suc pos) 0 (Some c) cs
           | Some n \<Rightarrow> (pos, pos + n) # re_finditer m (Suc pos) (n - 1) (Some c) cs)"

fun re_search :: "(char option \<Rightarrow> string \<Rightarrow> nat option) \<Rightarrow> char option \<Rightarrow> string \<Rightarrow> bool" where
  \<comment> \<open>whether \<open>search\<close> finds a match\<close>
  "re_search m prev [] = False"
| "re_search m prev (c # cs) = (m prev (c # cs) \<noteq> None \<or> re_search m (Some c) cs)"

fun find_sub :: "string \<Rightarrow> string \<Rightarrow> nat option" where
  "find_sub p [] = (if p = [] then Some 0 else None)"
| "find_sub p (c # cs) = (if startswith (c # cs) p then Some 0 else map_option Suc (find_sub p cs))"

definition fence_mark :: string where
  "fence_mark = replicate 3 (CHR 0x60)"

definition code_fence_at :: "char option \<Rightarrow> string \<Rightarrow> nat option" where
  \<comment> \<open>\<open>_CODE_FENCE\<close>: a mark, as little as possible, a mark\<close>
  "code_fence_at prev s =
     (if startswith s fence_mark
      then (case find_sub fence_mark (drop 3 s) of None \<Rightarrow> None | Some k \<Rightarrow> Some (3 + k + 3))
      else None)"

definition heading_at :: "char option \<Rightarrow> string \<Rightarrow> nat option" where
  \<comment> \<open>\<open>_HEADING\<close>: at the start of a line one to six hashes, as much whitespace as leaves a character
    other than a newline (it may span lines), and the rest of that character's line\<close>
  "heading_at prev s =
     (let n = length (takeWhile (\<lambda>c. c = CHR ''#'') s);
          rest = drop n s
      in if (prev = None \<or> prev = Some newline) \<and> 1 \<le> n \<and> n \<le> 6
         then (case List.find (\<lambda>k. k < length rest \<and> rest ! k \<noteq> newline) (rev [1..<Suc (length (takeWhile is_space rest))]) of
                 None \<Rightarrow> None
               | Some k \<Rightarrow> Some (n + k + length (takeWhile (\<lambda>c. c \<noteq> newline) (drop k rest))))
         else None)"

subsection \<open>StructureAwareChunker\<close>

definition fence_spans :: "string \<Rightarrow> (nat \<times> nat) list" where
  "fence_spans text = re_finditer code_fence_at 0 0 None text"

definition inside_a_fence :: "(nat \<times> nat) list \<Rightarrow> nat \<Rightarrow> bool" where
  "inside_a_fence spans pos = list_ex (\<lambda>(start, stop). start \<le> pos \<and> pos < stop) spans"

definition heading_starts :: "string \<Rightarrow> nat list" where
  "heading_starts text =
     filter (\<lambda>p. \<not> inside_a_fence (fence_spans text) p) (map fst (re_finditer heading_at 0 0 None text))"

fun slices_from :: "string \<Rightarrow> nat list \<Rightarrow> string list" where
  \<comment> \<open>from each position to the next, the last one to the end\<close>
  "slices_from text [] = []"
| "slices_from text [start] = [drop start text]"
| "slices_from text (start # stop # rest) = take (stop - start) (drop start text) # slices_from text (stop # rest)"

definition split_into_sections :: "string \<Rightarrow> string list" where
  "split_into_sections text =
     (let starts = heading_starts text in
      if starts = [] then [text]
      else filter (\<lambda>s. py_strip s \<noteq> [])
             ((if 0 < hd starts then [take (hd starts) text] else []) @ slices_from text starts))"

definition split_heading :: "string \<Rightarrow> string option \<times> string" where
  "split_heading section =
     (let stripped = py_strip section;
          first_line = takeWhile (\<lambda>c. c \<noteq> newline) stripped;
          rest = drop 1 (dropWhile (\<lambda>c. c \<noteq> newline) stripped)
      in if heading_at None first_line \<noteq> None then (Some first_line, rest) else (None, stripped))"

definition section_chunks :: "(string \<Rightarrow> int) \<Rightarrow> int \<Rightarrow> string \<Rightarrow> string list" where
  \<comment> \<open>the body of the loop over the sections\<close>
  "section_chunks tok chunk_size section =
     (if re_search code_fence_at None section \<or> tok section \<le> chunk_size then [py_strip section]
      else case split_heading section of (heading, body) \<Rightarrow>
             (let sub_chunks = sentence_chunk tok chunk_size body in
              case heading of
                None \<Rightarrow> sub_chunks
              | Some h \<Rightarrow> map (\<lambda>sub. h @ [newline] @ sub) sub_chunks))"

definition structure_chunk :: "(string \<Rightarrow> int) \<Rightarrow> int \<Rightarrow> string \<Rightarrow> string list" where
  "structure_chunk tok chunk_size text =
     (if py_strip text = [] then []
      else concat (map (section_chunks tok chunk_size) (split_into_sections text)))"

subsubsection \<open>Positions of the matches\<close>

lemma re_finditer_ge: "(a, b) \<in> set (re_finditer m pos k prev s) \<Longrightarrow> pos + k \<le> a"
proof (induction m pos k prev s rule: re_finditer.induct)
  case (2 m pos k prev c cs)
  then show ?case by (fastforce split: if_splits option.splits)
qed simp

lemma re_finditer_sorted: "sorted_wrt (<) (map fst (re_finditer m pos k prev s))"
proof (induction m pos k prev s rule: re_finditer.induct)
  case (2 m pos k prev c cs)
  have "pos < a" if "(a, b) \<in> set (re_finditer m (Suc pos) n (Some c) cs)" for a b n
    using re_finditer_ge [OF that] by simp
  with 2 show ?case by (auto split: option.splits)
qed simp

lemma re_finditer_match:
  assumes "(a, b) \<in> set (re_finditer m pos k prev s)"
  shows "pos \<le> a \<and> a < pos + length s \<and> (\<exists>p n. m p (drop (a - pos) s) = Some n \<and> b = a + n)"
  using assms
proof (induction s arbitrary: pos k prev)
  case (Cons c cs)
  then consider n where "m prev (c # cs) = Some n" "a = pos" "b = pos + n"
    | n where "(a, b) \<in> set (re_finditer m (Suc pos) n (Some c) cs)"
    by (auto split: if_splits option.splits)
  then show ?case
  proof cases
    case 1
    then show ?thesis by auto
  next
    case 2
    from Cons.IH [OF this] have *: "Suc pos \<le> a" "a < Suc pos + length cs"
      "\<exists>p n. m p (drop (a - Suc pos) cs) = Some n \<and> b = a + n" by auto
    have "drop (a - pos) (c # cs) = drop (a - Suc pos) cs" using *(1) by (simp add: drop_Cons')
    with * show ?thesis by auto
  qed
qed simp

subsubsection \<open>Sections\<close>

lemma slices_concat: "sorted_wrt (<) (p # ps) \<Longrightarrow> concat (slices_from s (p # ps)) = drop p s"
proof (induction s "p # ps" arbitrary: p ps rule: slices_from.induct)
  case (3 s start stop rest)
  then have "concat (slices_from s (start # stop # rest)) = take (stop - start) (drop start s) @ drop stop s"
    by simp
  also have "drop stop s = drop (stop - start) (drop start s)" using 3(2) by simp
  finally show ?case by (simp only: append_take_drop_id)
qed simp

lemma heading_starts_sorted: "sorted_wrt (<) (heading_starts s)"
  unfolding heading_starts_def by (intro sorted_wrt_filter re_finditer_sorted)

lemma sections_concat:
  "concat ((if 0 < hd (heading_starts s) then [take (hd (heading_starts s)) s] else []) @ slices_from s (heading_starts s)) = s"
  if "heading_starts s \<noteq> []"
  using that heading_starts_sorted [of s] by (cases "heading_starts s") (auto simp: slices_concat)

lemma ink_filter_blank: "concat (map ink (filter (\<lambda>s. py_strip s \<noteq> []) xs)) = concat (map ink xs)"
  by (induction xs) (auto simp: strip_empty_iff)

lemma ink_sections: "concat (map ink (split_into_sections s)) = ink s"
proof (cases "heading_starts s = []")
  case False
  let ?ps = "(if 0 < hd (heading_starts s) then [take (hd (heading_starts s)) s] else []) @ slices_from s (heading_starts s)"
  have "concat (map ink (split_into_sections s)) = concat (map ink ?ps)"
    unfolding split_into_sections_def Let_def if_not_P [OF False] by (rule ink_filter_blank)
  also have "\<dots> = ink (concat ?ps)" by (rule ink_concat [symmetric])
  finally show ?thesis unfolding sections_concat [OF False] .
qed (simp add: split_into_sections_def)

lemma slice_split: "a \<le> b \<Longrightarrow> b \<le> c \<Longrightarrow> take (c - a) (drop a s) = take (b - a) (drop a s) @ take (c - b) (drop b s)"
  using take_add [of "b - a" "c - b" "drop a s"] by simp

lemma slices_contain:
  assumes "sorted_wrt (<) (p # ps)" "p \<le> a" "a < b" "b \<le> length s" "\<forall>q\<in>set ps. \<not> (a \<le> q \<and> q < b)"
  shows "\<exists>u v. u @ take (b - a) (drop a s) @ v \<in> set (slices_from s (p # ps))"
  using assms
proof (induction s "p # ps" arbitrary: p ps rule: slices_from.induct)
  case (2 s start)
  have "drop start s = take (a - start) (drop start s) @ take (length s - a) (drop a s)"
    using slice_split [of start a "length s" s] 2 by simp
  also have "take (length s - a) (drop a s) = take (b - a) (drop a s) @ take (length s - b) (drop b s)"
    using 2 by (intro slice_split) auto
  finally show ?case by (metis slices_from.simps(2) list.set_intros(1))
next
  case (3 s start stop rest)
  show ?case
  proof (cases "stop \<le> a")
    case True
    with 3 show ?thesis by fastforce
  next
    case False
    then have ab: "b \<le> stop" using 3 by auto
    have "take (stop - start) (drop start s) = take (a - start) (drop start s) @ take (stop - a) (drop a s)"
      using 3 ab by (intro slice_split) auto
    also have "take (stop - a) (drop a s) = take (b - a) (drop a s) @ take (stop - b) (drop b s)"
      using 3 ab by (intro slice_split) auto
    finally show ?thesis by (metis slices_from.simps(3) list.set_intros(1))
  qed
qed

subsubsection \<open>Code fences\<close>

lemma find_sub_bound: "find_sub p s = Some k \<Longrightarrow> k + length p \<le> length s \<and> take (length p) (drop k s) = p"
proof (induction p s arbitrary: k rule: find_sub.induct)
  case (2 p c cs)
  then show ?case
    by (auto simp: startswith_def split: if_splits) (metis length_Cons length_take min.bounded_iff order_refl)+
qed (auto split: if_splits)

lemma find_sub_Nil [simp]: "find_sub [] v = Some 0"
  by (cases v) (simp_all add: startswith_def)

lemma find_sub_take: "find_sub p s = Some k \<Longrightarrow> find_sub p (take (k + length p) s @ v) \<noteq> None"
proof (induction p s arbitrary: k rule: find_sub.induct)
  case (2 p c cs)
  show ?case
  proof (cases "startswith (c # cs) p")
    case True
    with 2 have "k = 0" by simp
    with True 2(2) show ?thesis by (cases p) (auto simp: startswith_def)
  next
    case False
    then obtain j where j: "find_sub p cs = Some j" "k = Suc j" using 2 by auto
    with 2(1) [OF False j(1)] show ?thesis by auto
  qed
qed (auto split: if_splits)

lemma length_fence_mark [simp]: "length fence_mark = 3"
  by (simp add: fence_mark_def)

lemma fence_mark_ends: "hd (fence_mark @ u) = CHR 0x60" "last (u @ fence_mark) = CHR 0x60" "fence_mark \<noteq> []"
  by (simp_all add: fence_mark_def numeral_3_eq_3)

lemma backtick_not_space [simp]: "\<not> is_space (CHR 0x60)"
  by (simp add: is_space_def)

lemma code_fence_text:
  assumes "code_fence_at p s = Some n"
  shows "n \<le> length s" "0 < n" "hd (take n s) = CHR 0x60" "last (take n s) = CHR 0x60"
    "code_fence_at q (take n s @ v) \<noteq> None"
proof -
  from assms obtain k where k: "startswith s fence_mark" "find_sub fence_mark (drop 3 s) = Some k" "n = 3 + k + 3"
    by (auto simp: code_fence_at_def split: if_splits option.splits)
  note b = find_sub_bound [OF k(2)]
  show "n \<le> length s" using b k(3) by auto
  show "0 < n" using k(3) by simp
  have s: "s = fence_mark @ drop 3 s" using k(1) unfolding startswith_def by (metis append_take_drop_id length_fence_mark)
  have "take n s = fence_mark @ take (k + 3) (drop 3 s)"
    by (subst s) (simp add: k(3) add.commute)
  moreover have "take (k + 3) (drop 3 s) = take k (drop 3 s) @ fence_mark"
    using b by (simp add: take_add)
  ultimately have t: "take n s = fence_mark @ take k (drop 3 s) @ fence_mark" by simp
  show "hd (take n s) = CHR 0x60" "last (take n s) = CHR 0x60"
    unfolding t using fence_mark_ends(1) fence_mark_ends(2) [of "fence_mark @ take k (drop 3 s)"] by simp_all
  have "find_sub fence_mark (take (k + 3) (drop 3 s) @ v) \<noteq> None"
    using find_sub_take [OF k(2), of v] by simp
  then show "code_fence_at q (take n s @ v) \<noteq> None"
    unfolding \<open>take n s = fence_mark @ take (k + 3) (drop 3 s)\<close>
    by (auto simp: code_fence_at_def startswith_def)
qed

lemma re_search_append: "(\<And>p. m p s \<noteq> None) \<Longrightarrow> s \<noteq> [] \<Longrightarrow> re_search m prev (u @ s)"
proof (induction u arbitrary: prev)
  case Nil
  then show ?case by (cases s) auto
qed simp

lemma strip_keeps:
  assumes "u \<noteq> []" "\<not> is_space (hd u)" "\<not> is_space (last u)"
  shows "sublist u (py_strip (x @ u @ y))"
proof -
  have 1: "dropWhile is_space (x @ u @ y) = dropWhile is_space x @ u @ y"
    using assms(1,2) by (cases u) (auto simp: dropWhile_append3 dropWhile_append1 dropWhile_eq_Nil_conv dropWhile_append)
  have 2: "rev (dropWhile is_space (rev (x' @ u @ y))) = x' @ u @ rev (dropWhile is_space (rev y))" for x'
    using assms(1,3) by (cases u rule: rev_cases) (auto simp: dropWhile_append)
  have "py_strip (x @ u @ y) = dropWhile is_space x @ u @ rev (dropWhile is_space (rev y))"
    unfolding py_strip_def 1 2 ..
  then show ?thesis by (auto simp: sublist_def)
qed

text \<open>
  C29. A fenced code block is never cut: every block that \<^verbatim>\<open>_CODE_FENCE\<close> finds in the document is in one
  chunk whole, however small the chunks are to be.
\<close>
theorem fences_kept_whole:
  assumes "(a, b) \<in> set (fence_spans t)"
  shows "\<exists>chunk\<in>set (structure_chunk tok chunk_size t). sublist (take (b - a) (drop a t)) chunk"
proof -
  let ?f = "take (b - a) (drop a t)"
  obtain p where p: "code_fence_at p (drop a t) = Some (b - a)" and ab: "a < length t" "a \<le> b"
    using re_finditer_match [OF assms [unfolded fence_spans_def]] by auto
  note f = code_fence_text [OF p]
  have len: "b \<le> length t" "a < b" using f(1,2) ab by auto
  have f1: "?f \<noteq> []" using f(2) ab by simp
  have "\<exists>u v. u @ ?f @ v \<in> set (split_into_sections t)"
  proof (cases "heading_starts t")
    case Nil
    have "take a t @ ?f @ drop (b - a) (drop a t) = t" by (metis append_take_drop_id)
    then show ?thesis using Nil by (simp add: split_into_sections_def) blast
  next
    case (Cons h hs)
    let ?ps = "(if 0 < h then [take h t] else []) @ slices_from t (h # hs)"
    have out: "\<forall>q\<in>set (h # hs). \<not> (a \<le> q \<and> q < b)"
      using assms unfolding Cons [symmetric] heading_starts_def inside_a_fence_def by (auto simp: list_ex_iff)
    have "\<exists>u v. u @ ?f @ v \<in> set ?ps"
    proof (cases "h \<le> a")
      case True
      from slices_contain [of h hs a b t] heading_starts_sorted [of t] True len out
      show ?thesis unfolding Cons by auto
    next
      case False
      then have hb: "b \<le> h" using out by auto
      have "take h t = take a t @ take (h - a) (drop a t)" using slice_split [of 0 a h t] False by simp
      also have "take (h - a) (drop a t) = ?f @ take (h - b) (drop b t)"
        using hb len by (intro slice_split) auto
      finally have "take h t = take a t @ ?f @ take (h - b) (drop b t)" .
      moreover have "take h t \<in> set ?ps" using False by simp
      ultimately show ?thesis by metis
    qed
    then obtain u v where uv: "u @ ?f @ v \<in> set ?ps" by blast
    have "py_strip (u @ ?f @ v) \<noteq> []"
      using strip_keeps [OF f1, of u v] f(3,4) f1 by auto
    with uv show ?thesis unfolding split_into_sections_def Let_def Cons by auto
  qed
  then obtain u v where uv: "u @ ?f @ v \<in> set (split_into_sections t)" by blast
  have "re_search code_fence_at None (u @ ?f @ v)"
    using f(5) f1 by (intro re_search_append) auto
  then have "section_chunks tok chunk_size (u @ ?f @ v) = [py_strip (u @ ?f @ v)]"
    by (simp add: section_chunks_def)
  moreover have "py_strip t \<noteq> []"
  proof
    assume "py_strip t = []"
    then have "ink t = []" by (simp add: strip_empty_iff)
    then have "ink (u @ ?f @ v) = []"
      using ink_sections [of t] uv by auto
    then show False using f(3) f1 by (cases ?f) (auto split: if_splits)
  qed
  ultimately have "py_strip (u @ ?f @ v) \<in> set (structure_chunk tok chunk_size t)"
    using uv unfolding structure_chunk_def by force
  then show ?thesis using strip_keeps [OF f1, of u v] f(3,4) by auto
qed

subsubsection \<open>The text of the sections\<close>

lemma ink_sentence_chunk: "concat (map ink (sentence_chunk tok n t)) = ink t"
  using sentence_chunk_correct [of tok n t] by (auto simp: ink_concat [symmetric])

lemma split_heading_ink:
  "split_heading s = (Some h, body) \<Longrightarrow> ink s = ink h @ ink body"
  "split_heading s = (None, body) \<Longrightarrow> ink s = ink body"
proof -
  have *: "ink s = ink (takeWhile P (py_strip s)) @ ink (dropWhile P (py_strip s))" for P
    by (metis ink_append ink_strip takeWhile_dropWhile_id)
  have nl: "ink (drop 1 (dropWhile (\<lambda>c. c \<noteq> newline) u)) = ink (dropWhile (\<lambda>c. c \<noteq> newline) u)" for u
    by (induction u) (auto simp: newline_def is_space_def)
  show "split_heading s = (Some h, body) \<Longrightarrow> ink s = ink h @ ink body"
    using * [of "\<lambda>c. c \<noteq> newline"] nl [of "py_strip s"] by (auto simp: split_heading_def Let_def split: if_splits)
  show "split_heading s = (None, body) \<Longrightarrow> ink s = ink body"
    by (auto simp: split_heading_def Let_def split: if_splits)
qed

text \<open>
  The sections of a document have all its text in order, and so have the chunks of each section, with one addition: where a
  section is cut into several chunks, each of them starts with the heading of the section. Only a section that is
  too long and consists of a heading alone has no chunk.
\<close>
theorem structure_chunk_keeps_text:
  "concat (map ink (split_into_sections t)) = ink t \<and>
   (\<forall>s\<in>set (split_into_sections t).
      concat (map ink (section_chunks tok n s)) = ink s \<or>
      (\<exists>h subs. section_chunks tok n s = map (\<lambda>sub. h @ [newline] @ sub) subs \<and>
                ink s = ink h @ concat (map ink subs)))"
proof (intro conjI ballI ink_sections)
  fix s
  show "concat (map ink (section_chunks tok n s)) = ink s \<or>
      (\<exists>h subs. section_chunks tok n s = map (\<lambda>sub. h @ [newline] @ sub) subs \<and>
                ink s = ink h @ concat (map ink subs))"
  proof (cases "re_search code_fence_at None s \<or> tok s \<le> n")
    case True
    then show ?thesis by (simp add: section_chunks_def)
  next
    case False
    obtain heading body where hb: "split_heading s = (heading, body)" by (cases "split_heading s")
    show ?thesis
    proof (cases heading)
      case None
      then show ?thesis
        using False hb split_heading_ink(2) [of s body] by (simp add: section_chunks_def ink_sentence_chunk Let_def)
    next
      case (Some h)
      then have "section_chunks tok n s = map (\<lambda>sub. h @ [newline] @ sub) (sentence_chunk tok n body)"
        using False hb by (simp add: section_chunks_def Let_def)
      moreover have "ink s = ink h @ concat (map ink (sentence_chunk tok n body))"
        using hb Some split_heading_ink(1) [of s h body] by (simp add: ink_sentence_chunk)
      ultimately show ?thesis by blast
    qed
  qed
qed

text \<open>A heading that is longer than a chunk and has no text below it is lost.\<close>

lemma long_heading_is_dropped:
  "structure_chunk (int \<circ> length) 8 ''# Introduction'' = []"
  by code_simp

subsection \<open>SemanticChunker\<close>

definition BREAKPOINT_STDEV_MULTIPLIER :: rat where
  "BREAKPOINT_STDEV_MULTIPLIER = 1"

definition fmean :: "rat list \<Rightarrow> rat" where
  \<comment> \<open>\<open>statistics.fmean\<close>: the exact sum, rounded, divided by the number\<close>
  "fmean xs = fl (fl (sum_list xs) / of_nat (length xs))"

definition pstdev :: "rat list \<Rightarrow> rat" where
  \<comment> \<open>\<open>statistics.pstdev\<close>: the exact variance and its root, rounded once\<close>
  "pstdev xs =
     (let n = of_nat (length xs); m = sum_list xs / n
      in fl_sqrt (sum_list (map (\<lambda>x. (x - m) ^ 2) xs) / n))"

fun similarities :: "embedding list \<Rightarrow> rat list result" where
  "similarities (a # b # rest) =
     (case cosine_similarity a b of
        Inl e \<Rightarrow> Inl e
      | Inr x \<Rightarrow> (case similarities (b # rest) of Inl e \<Rightarrow> Inl e | Inr xs \<Rightarrow> Inr (x # xs)))"
| "similarities _ = Inr []"

fun semantic_loop :: "(string \<Rightarrow> int) \<Rightarrow> int \<Rightarrow> rat \<Rightarrow> string list \<Rightarrow> string list \<Rightarrow> int \<Rightarrow> (rat \<times> string) list \<Rightarrow> string list" where
  \<comment> \<open>each similarity with the sentence after it\<close>
  "semantic_loop tok chunk_size threshold chunks current current_tokens [] = chunks @ [join '' '' current]"
| "semantic_loop tok chunk_size threshold chunks current current_tokens ((similarity, next_sentence) # rest) =
     (if similarity < threshold \<or> chunk_size < current_tokens + tok next_sentence
      then semantic_loop tok chunk_size threshold (chunks @ [join '' '' current]) [next_sentence] (tok next_sentence) rest
      else semantic_loop tok chunk_size threshold chunks (current @ [next_sentence]) (current_tokens + tok next_sentence) rest)"

definition breakpoint_threshold :: "rat list \<Rightarrow> rat" where
  "breakpoint_threshold sims = fl (fmean sims - fl (BREAKPOINT_STDEV_MULTIPLIER * pstdev sims))"

definition semantic_chunk :: "(string \<Rightarrow> embedding) \<Rightarrow> (string \<Rightarrow> int) \<Rightarrow> int \<Rightarrow> string \<Rightarrow> string list result" where
  "semantic_chunk emb tok chunk_size text =
     (case split_sentences text of
        [] \<Rightarrow> Inr []
      | [s] \<Rightarrow> Inr [s]
      | s # rest \<Rightarrow>
          (case similarities (map emb (s # rest)) of
             Inl e \<Rightarrow> Inl e
           | Inr sims \<Rightarrow>
               Inr (semantic_loop tok chunk_size (breakpoint_threshold sims) [] [s] (tok s) (zip sims rest))))"

lemma length_similarities: "similarities es = Inr sims \<Longrightarrow> length sims = length es - 1"
  by (induction es arbitrary: sims rule: similarities.induct) (auto split: sum.splits)

fun semantic_groups :: "(string \<Rightarrow> int) \<Rightarrow> int \<Rightarrow> rat \<Rightarrow> rat list \<Rightarrow> string list list \<Rightarrow> bool" where
  \<comment> \<open>no similarity inside a group is below the threshold; two groups are apart because the similarity
    between them is, or because the next sentence does not fit\<close>
  "semantic_groups tok n thr sims [] = True"
| "semantic_groups tok n thr sims [g] = (\<forall>i<length g - 1. \<not> sims ! i < thr)"
| "semantic_groups tok n thr sims (g # h # gs) =
     ((\<forall>i<length g - 1. \<not> sims ! i < thr) \<and>
      (sims ! (length g - 1) < thr \<or> n < toks tok g + tok (hd h)) \<and>
      semantic_groups tok n thr (drop (length g) sims) (h # gs))"

lemma none_below_append:
  "length ys = k \<Longrightarrow> \<forall>x\<in>set ys. \<not> x < (thr :: rat) \<Longrightarrow> \<forall>i<k. \<not> (ys @ zs) ! i < thr"
  by (auto simp: nth_append)

lemma semantic_loop_groups:
  assumes "current \<noteq> []" "group_fits tok n current" "length sims = length ss"
    and "length done = length current - 1" "\<forall>x\<in>set done. \<not> x < thr"
  shows "\<exists>g gs. semantic_loop tok n thr chunks current (toks tok current) (zip sims ss)
                  = chunks @ map (join '' '') ((current @ g) # gs) \<and>
                concat (g # gs) = ss \<and> [] \<notin> set gs \<and>
                (\<forall>h\<in>set ((current @ g) # gs). group_fits tok n h) \<and>
                semantic_groups tok n thr (done @ sims) ((current @ g) # gs)"
  using assms
proof (induction ss arbitrary: chunks current sims "done")
  case Nil
  then show ?case
    using none_below_append [of "done" "length current - 1" thr "[]"] by (intro exI [of _ "[]"]) simp
next
  case (Cons s ss)
  obtain x xs where sims: "sims = x # xs" using Cons.prems(3) by (cases sims) auto
  have len: "length xs = length ss" using Cons.prems(3) sims by simp
  show ?case
  proof (cases "x < thr \<or> n < toks tok current + tok s")
    case True
    have "group_fits tok n [s]" by (simp add: group_fits_def)
    from Cons.IH [of "[s]" xs "[]" "chunks @ [join '' '' current]", OF _ this len]
    obtain g gs where *: "semantic_loop tok n thr (chunks @ [join '' '' current]) [s] (tok s) (zip xs ss)
          = chunks @ [join '' '' current] @ map (join '' '') (([s] @ g) # gs)"
        "concat (g # gs) = ss" "[] \<notin> set gs" "\<forall>h\<in>set (([s] @ g) # gs). group_fits tok n h"
        "semantic_groups tok n thr xs (([s] @ g) # gs)"
      by (auto simp: toks_def)
    have "\<forall>i<length current - 1. \<not> (done @ sims) ! i < thr"
      using none_below_append Cons.prems(4,5) by blast
    moreover have "(done @ sims) ! (length current - 1) = x" "drop (length current) (done @ sims) = xs"
      using Cons.prems(1,4) sims by (simp_all add: nth_append Suc_le_eq)
    ultimately have "semantic_groups tok n thr (done @ sims) ((current @ []) # ([s] @ g) # gs)"
      using True *(5) by simp
    then show ?thesis
      using True Cons.prems(1,2) * sims
      by (intro exI [of _ "[]"] exI [of _ "([s] @ g) # gs"]) (auto simp: toks_def)
  next
    case False
    then have fits: "group_fits tok n (current @ [s])" by (auto simp: group_fits_def toks_def)
    have d: "length (done @ [x]) = length (current @ [s]) - 1" "\<forall>y\<in>set (done @ [x]). \<not> y < thr"
      using Cons.prems(1,4,5) False by (auto simp: Suc_le_eq)
    from Cons.IH [OF _ fits len d, of chunks]
    obtain g gs where *: "semantic_loop tok n thr chunks (current @ [s]) (toks tok current + tok s) (zip xs ss)
          = chunks @ map (join '' '') ((current @ [s] @ g) # gs)"
        "concat (g # gs) = ss" "[] \<notin> set gs" "\<forall>h\<in>set ((current @ [s] @ g) # gs). group_fits tok n h"
        "semantic_groups tok n thr (done @ sims) ((current @ [s] @ g) # gs)"
      by (auto simp: toks_def add.assoc sims)
    show ?thesis
      using False Cons.prems(1) * sims by (intro exI [of _ "s # g"] exI [of _ gs]) auto
  qed
qed

text \<open>
  Semantic chunking loses no text and keeps its order. The chunks are groups of consecutive sentences
  that fit or are single; inside a chunk no similarity of neighbours is below the threshold, and a chunk ends only
  below it or where the next sentence does not fit.
\<close>
theorem semantic_chunk_correct:
  assumes "semantic_chunk emb tok n t = Inr chunks"
  shows "\<exists>groups sims. chunks = map (join '' '') groups \<and> concat groups = split_sentences t \<and> [] \<notin> set groups \<and>
     (\<forall>g\<in>set groups. group_fits tok n g) \<and>
     similarities (map emb (split_sentences t)) = Inr sims \<and>
     semantic_groups tok n (breakpoint_threshold sims) sims groups \<and> ink (concat chunks) = ink t"
proof -
  have "\<exists>groups sims. chunks = map (join '' '') groups \<and> concat groups = split_sentences t \<and> [] \<notin> set groups \<and>
     (\<forall>g\<in>set groups. group_fits tok n g) \<and>
     similarities (map emb (split_sentences t)) = Inr sims \<and>
     semantic_groups tok n (breakpoint_threshold sims) sims groups"
  proof (cases "split_sentences t")
    case Nil
    with assms show ?thesis by (intro exI [of _ "[]"]) (simp add: semantic_chunk_def)
  next
    case (Cons s ss)
    show ?thesis
    proof (cases "ss = []")
      case True
      with assms Cons have "chunks = [s]" "split_sentences t = [s]" by (auto simp: semantic_chunk_def)
      then show ?thesis
        by (intro exI [of _ "[[s]]"] exI [of _ "[]"]) (simp add: group_fits_def)
    next
      case False
      then obtain sims where sims: "similarities (map emb (s # ss)) = Inr sims"
          "chunks = semantic_loop tok n (breakpoint_threshold sims) [] [s] (tok s) (zip sims ss)"
        using assms Cons by (cases ss) (auto simp: semantic_chunk_def split: sum.splits)
      have fits: "group_fits tok n [s]" by (simp add: group_fits_def)
      have "length sims = length ss" using length_similarities [OF sims(1)] by simp
      from semantic_loop_groups [OF _ fits this, of "[]" "breakpoint_threshold sims" "[]"] obtain g gs where
        "chunks = map (join '' '') (([s] @ g) # gs)" "concat (g # gs) = ss" "[] \<notin> set gs"
        "\<forall>h\<in>set (([s] @ g) # gs). group_fits tok n h"
        "semantic_groups tok n (breakpoint_threshold sims) sims (([s] @ g) # gs)"
        by (auto simp: toks_def sims(2))
      with sims(1) Cons show ?thesis by (intro exI [of _ "([s] @ g) # gs"] exI [of _ sims]) simp
    qed
  qed
  then obtain groups sims where *: "chunks = map (join '' '') groups" "concat groups = split_sentences t" "[] \<notin> set groups"
     "\<forall>g\<in>set groups. group_fits tok n g" "similarities (map emb (split_sentences t)) = Inr sims"
     "semantic_groups tok n (breakpoint_threshold sims) sims groups" by blast
  moreover have "ink (concat chunks) = ink t"
    using ink_groups [OF *(2)] ink_split_sentences [of t] by (simp only: ink_concat *(1))
  ultimately show ?thesis by blast
qed


text \<open>
  A document whose neighbouring sentences are all equally similar can still be cut at every sentence: the mean of
  three similarities 0.8 is 0.8000000000000002, which is above each of them, and the deviation is 0.
\<close>
theorem equal_similarities_are_split:
  defines "emb \<equiv> \<lambda>s. if s = ''A.'' then [1, 0] else [4, 3]"
    and "x \<equiv> fl (4 / 5)"
  shows "similarities (map emb (split_sentences ''A. B. A. B.'')) = Inr [x, x, x] \<and>
         pstdev [x, x, x] = 0 \<and> x < breakpoint_threshold [x, x, x] \<and>
         semantic_chunk emb (int \<circ> length) 512 ''A. B. A. B.'' = Inr [''A.'', ''B.'', ''A.'', ''B.'']"
proof -
  have ss: "split_sentences ''A. B. A. B.'' = [''A.'', ''B.'', ''A.'', ''B.'']"
    by (simp add: split_sentences_def py_strip_def is_space_def ends_sentence_def is_upper_def)
  have c1: "cosine_similarity [1, 0] [4, 3] = Inr x" unfolding x_def by code_simp
  have "cosine_similarity [4, 3] [1, 0] = cosine_similarity [1, 0] [4, 3]"
    by (simp add: cosine_similarity_def Let_def mult.commute)
  note c = c1 this [unfolded c1]
  have s: "similarities [[1, 0], [4, 3], [1, 0], [4, 3]] = Inr [x, x, x]" by (simp add: c)
  have em: "map emb [''A.'', ''B.'', ''A.'', ''B.''] = [[1, 0], [4, 3], [1, 0], [4, 3]]" by (simp add: emb_def)
  have d: "pstdev [x, x, x] = 0" unfolding x_def by code_simp
  have b: "x < breakpoint_threshold [x, x, x]" unfolding breakpoint_threshold_def d unfolding x_def by code_simp
  have "semantic_chunk emb (int \<circ> length) 512 ''A. B. A. B.'' = Inr [''A.'', ''B.'', ''A.'', ''B.'']"
    unfolding semantic_chunk_def ss list.case em s sum.case using b by simp
  with s d b show ?thesis unfolding ss em by simp
qed

lemma ex_fence: "fence_spans ''# A\<newline>```\<newline># b\<newline>```\<newline># C'' = [(4, 15)]"
  by code_simp

theorem fences_kept_whole_witness:
  "\<exists>chunk\<in>set (structure_chunk (int \<circ> length) 1 ''# A\<newline>```\<newline># b\<newline>```\<newline># C''). sublist ''```\<newline># b\<newline>```'' chunk"
  using fences_kept_whole [where t = "''# A\<newline>```\<newline># b\<newline>```\<newline># C''" and a = 4 and b = 15 and tok = "int \<circ> length" and chunk_size = 1]
  by (simp add: ex_fence)

end
