(* ===== verification/Rag_Index.thy ===== *)
theory Rag_Index
  imports Data_Sources
begin

text \<open>
  The stores of RAG: \<^verbatim>\<open>PostgresDocumentRepository\<close> over the tables of migration 0002, \<^verbatim>\<open>QdrantVectorStore\<close>,
  and what writes to both of them: \<^verbatim>\<open>UploadDocument\<close>, \<^verbatim>\<open>UploadDocumentWithParents\<close> (\<^verbatim>\<open>src/rag\<close>) and \<^verbatim>\<open>ChunkedRagIndex\<close>
  (\<^verbatim>\<open>src/orchestration/infrastructure\<close>).

  A statement runs in a transaction whose tenant context is \<open>ctx\<close>: row-level security hides the rows of other tenants
  and refuses to insert any. An exception aborts the transaction, so a statement that raises has no state. A collection
  of Qdrant is an association list from point id to point. \<open>uuid4 n\<close> is the \<open>n\<close>-th identifier drawn. The calls of Qdrant and the
  commit may fail, as \<open>faults\<close> says.
\<close>

subsection \<open>Entities and tables\<close>

record document =
  dc_id :: uuid
  dc_tenant_id :: uuid
  dc_filename :: string
  dc_mime_type :: string
  dc_storage_path :: string
  dc_chunk_count :: int
  dc_status :: string

record chunk =
  ck_id :: uuid
  ck_document_id :: uuid
  ck_content :: string
  ck_embedding :: embedding
  ck_parent_id :: "uuid option"
  ck_metadata :: "(string \<times> json) list"

record document_db =
  db_documents :: "document list"
  db_chunks :: "(chunk \<times> uuid) list"

definition integrity_error :: py_error where
  "integrity_error = OtherException ''IntegrityError''"

definition EMBEDDING_DIM :: nat where
  "EMBEDDING_DIM = 384"

subsection \<open>PostgresDocumentRepository\<close>

definition save_document :: "uuid \<Rightarrow> document_db \<Rightarrow> document \<Rightarrow> document_db result" where
  "save_document ctx db d =
     (if dc_tenant_id d \<noteq> ctx then Inl (OtherException ''row-level security'')
      else if dc_id d \<in> dc_id ` set (db_documents db) then Inl integrity_error
      else Inr (db\<lparr>db_documents := db_documents db @ [d]\<rparr>))"

definition update_document_status :: "uuid \<Rightarrow> document_db \<Rightarrow> uuid \<Rightarrow> string \<Rightarrow> int \<Rightarrow> document_db" where
  "update_document_status ctx db document_id status chunk_count =
     db\<lparr>db_documents := map (\<lambda>d. if dc_id d = document_id \<and> dc_tenant_id d = ctx
                                then d\<lparr>dc_status := status, dc_chunk_count := chunk_count\<rparr> else d) (db_documents db)\<rparr>"

definition insert_chunk :: "uuid \<Rightarrow> uuid \<Rightarrow> chunk \<Rightarrow> document_db \<Rightarrow> document_db result" where
  \<comment> \<open>the primary key, the two foreign keys and the dimension of the vector\<close>
  "insert_chunk ctx tenant_id c db =
     (if tenant_id \<noteq> ctx then Inl (OtherException ''row-level security'')
      else if length (ck_embedding c) \<noteq> EMBEDDING_DIM then Inl (OtherException ''DataError'')
      else if ck_id c \<in> (ck_id \<circ> fst) ` set (db_chunks db) then Inl integrity_error
      else if ck_document_id c \<notin> dc_id ` set (db_documents db) then Inl integrity_error
      else if (case ck_parent_id c of None \<Rightarrow> False | Some p \<Rightarrow> p \<noteq> ck_id c \<and> p \<notin> (ck_id \<circ> fst) ` set (db_chunks db)) then Inl integrity_error
      else Inr (db\<lparr>db_chunks := db_chunks db @ [(c, tenant_id)]\<rparr>))"

fun save_chunks :: "uuid \<Rightarrow> document_db \<Rightarrow> chunk list \<Rightarrow> uuid \<Rightarrow> document_db result" where
  "save_chunks ctx db [] tenant_id = Inr db"
| "save_chunks ctx db (c # cs) tenant_id =
     (case insert_chunk ctx tenant_id c db of Inl e \<Rightarrow> Inl e | Inr db' \<Rightarrow> save_chunks ctx db' cs tenant_id)"

definition delete_document :: "uuid \<Rightarrow> document_db \<Rightarrow> uuid \<Rightarrow> uuid \<Rightarrow> document_db result" where
  \<comment> \<open>chunks first, then the document; a row that is still referred to is not deleted\<close>
  "delete_document ctx db document_id tenant_id =
     (let gone = (\<lambda>(c, t). ck_document_id c = document_id \<and> t = tenant_id \<and> t = ctx);
          kept = filter (\<lambda>r. \<not> gone r) (db_chunks db);
          doc = (\<lambda>d. dc_id d = document_id \<and> dc_tenant_id d = tenant_id \<and> dc_tenant_id d = ctx)
      in if \<exists>(c, t) \<in> set kept. \<exists>(g, u) \<in> set (filter gone (db_chunks db)). ck_parent_id c = Some (ck_id g)
         then Inl integrity_error
         else if (\<exists>d \<in> set (db_documents db). doc d) \<and> (\<exists>(c, t) \<in> set kept. ck_document_id c = document_id)
         then Inl integrity_error
         else Inr (db\<lparr>db_chunks := kept, db_documents := filter (\<lambda>d. \<not> doc d) (db_documents db)\<rparr>))"

definition read_chunk :: "chunk \<Rightarrow> chunk" where
  \<comment> \<open>what the two reads select: neither the embedding nor the metadata\<close>
  "read_chunk c = c\<lparr>ck_embedding := [], ck_metadata := []\<rparr>"

definition get_chunks_for_tenant :: "uuid \<Rightarrow> document_db \<Rightarrow> uuid \<Rightarrow> chunk list" where
  "get_chunks_for_tenant ctx db tenant_id =
     map (read_chunk \<circ> fst) (filter (\<lambda>(c, t). t = tenant_id \<and> t = ctx) (db_chunks db))"

definition get_chunk_by_id :: "uuid \<Rightarrow> document_db \<Rightarrow> uuid \<Rightarrow> chunk option" where
  "get_chunk_by_id ctx db chunk_id =
     map_option (read_chunk \<circ> fst) (List.find (\<lambda>(c, t). ck_id c = chunk_id \<and> t = ctx) (db_chunks db))"

subsection \<open>QdrantVectorStore\<close>

record point =
  vp_vector :: embedding
  vp_tenant_id :: uuid
  vp_document_id :: uuid
  vp_content :: string

type_synonym collection = "(uuid \<times> point) list"

definition vs_upsert :: "collection \<Rightarrow> chunk \<Rightarrow> uuid \<Rightarrow> collection result" where
  "vs_upsert ps c tenant_id =
     (if length (ck_embedding c) \<noteq> EMBEDDING_DIM then Inl (OtherException ''UnexpectedResponse'')
      else Inr (dict_set (ck_id c) \<lparr>vp_vector = ck_embedding c, vp_tenant_id = tenant_id,
                 vp_document_id = ck_document_id c, vp_content = ck_content c\<rparr> ps))"

definition vs_delete_document :: "collection \<Rightarrow> uuid \<Rightarrow> uuid \<Rightarrow> uuid list \<Rightarrow> collection" where
  \<comment> \<open>without \<open>keep_chunk_ids\<close> there is no second condition\<close>
  "vs_delete_document ps document_id tenant_id keep_chunk_ids =
     filter (\<lambda>(i, p). \<not> (vp_tenant_id p = tenant_id \<and> vp_document_id p = document_id \<and> i \<notin> set keep_chunk_ids)) ps"

definition vs_search :: "(collection \<Rightarrow> embedding \<Rightarrow> int \<Rightarrow> (uuid \<times> point \<times> rat) list) \<Rightarrow> collection \<Rightarrow> embedding \<Rightarrow> uuid \<Rightarrow> int \<Rightarrow>
    search_result list" where
  \<comment> \<open>\<open>knn\<close> is the search of the server among the points that pass the filter; every point has a payload\<close>
  "vs_search knn ps query_embedding tenant_id top_k =
     map (\<lambda>(i, p, score). \<lparr>sr_document_id = vp_document_id p, sr_chunk_id = i, sr_content = vp_content p, sr_score = score\<rparr>)
       (knn (filter (\<lambda>(i, p). vp_tenant_id p = tenant_id) ps) query_embedding top_k)"

subsection \<open>ChunkedRagIndex\<close>

record rag_stores =
  rg_db :: document_db
  rg_points :: collection
  rg_drawn :: nat

record rag_faults =
  rf_commit :: "py_error option"
  rf_upsert :: "nat \<Rightarrow> py_error option"
  rf_delete :: "py_error option"

record rag_index_config =
  ri_chunk :: "string \<Rightarrow> string list result"
  ri_embed :: "string \<Rightarrow> embedding"
  ri_uuid4 :: "nat \<Rightarrow> uuid"

definition make_chunks :: "(nat \<Rightarrow> uuid) \<Rightarrow> (string \<Rightarrow> embedding) \<Rightarrow> uuid \<Rightarrow> nat \<Rightarrow> string list \<Rightarrow> chunk list" where
  "make_chunks uuid4 emb document_id n pieces =
     map (\<lambda>(i, piece). \<lparr>ck_id = uuid4 (n + i), ck_document_id = document_id, ck_content = piece,
                         ck_embedding = emb piece, ck_parent_id = None, ck_metadata = []\<rparr>) (enumerate 0 pieces)"

fun upsert_all :: "(nat \<Rightarrow> py_error option) \<Rightarrow> nat \<Rightarrow> uuid \<Rightarrow> chunk list \<Rightarrow> collection \<Rightarrow> unit result \<times> collection" where
  "upsert_all fault i tenant_id [] ps = (Inr (), ps)"
| "upsert_all fault i tenant_id (c # cs) ps =
     (case fault i of
        Some e \<Rightarrow> (Inl e, ps)
      | None \<Rightarrow> (case vs_upsert ps c tenant_id of
                  Inl e \<Rightarrow> (Inl e, ps)
                | Inr ps' \<Rightarrow> upsert_all fault (Suc i) tenant_id cs ps'))"

definition replace_rows :: "document_db \<Rightarrow> uuid \<Rightarrow> uuid \<Rightarrow> string \<Rightarrow> chunk list \<Rightarrow> document_db result" where
  \<comment> \<open>the transaction: delete the old version, insert the new one\<close>
  "replace_rows db tenant_id document_id title chunks =
     (case delete_document tenant_id db document_id tenant_id of
        Inl e \<Rightarrow> Inl e
      | Inr db1 \<Rightarrow>
          (case save_document tenant_id db1
                  \<lparr>dc_id = document_id, dc_tenant_id = tenant_id, dc_filename = title, dc_mime_type = ''text/plain'',
                   dc_storage_path = ''data-source:'' @ title, dc_chunk_count = int (length chunks), dc_status = ''completed''\<rparr> of
             Inl e \<Rightarrow> Inl e
           | Inr db2 \<Rightarrow> save_chunks tenant_id db2 chunks tenant_id))"

definition rag_replace :: "rag_index_config \<Rightarrow> rag_faults \<Rightarrow> rag_stores \<Rightarrow> uuid \<Rightarrow> uuid \<Rightarrow> string \<Rightarrow> string \<Rightarrow> unit result \<times> rag_stores" where
  "rag_replace cfg f st tenant_id document_id title text =
     (case ri_chunk cfg text of
        Inl e \<Rightarrow> (Inl e, st)
      | Inr pieces \<Rightarrow>
          (let chunks = make_chunks (ri_uuid4 cfg) (ri_embed cfg) document_id (rg_drawn st) pieces;
               st0 = st\<lparr>rg_drawn := rg_drawn st + length pieces\<rparr>
           in case replace_rows (rg_db st) tenant_id document_id title chunks of
                Inl e \<Rightarrow> (Inl e, st0)
              | Inr db \<Rightarrow>
                  (case rf_commit f of
                     Some e \<Rightarrow> (Inl e, st0)
                   | None \<Rightarrow>
                       (case upsert_all (rf_upsert f) 0 tenant_id chunks (rg_points st) of
                          (Inl e, ps) \<Rightarrow> (Inl e, st0\<lparr>rg_db := db, rg_points := ps\<rparr>)
                        | (Inr _, ps) \<Rightarrow>
                            (case rf_delete f of
                               Some e \<Rightarrow> (Inl e, st0\<lparr>rg_db := db, rg_points := ps\<rparr>)
                             | None \<Rightarrow> (Inr (), st0\<lparr>rg_db := db,
                                 rg_points := vs_delete_document ps document_id tenant_id (map ck_id chunks)\<rparr>))))))"

subsection \<open>What the stores hold\<close>

definition rows_of :: "'z rag_stores_scheme \<Rightarrow> uuid \<Rightarrow> uuid \<Rightarrow> chunk list" where
  "rows_of st t d = map fst (filter (\<lambda>(c, u). ck_document_id c = d \<and> u = t) (db_chunks (rg_db st)))"

definition points_of :: "'z rag_stores_scheme \<Rightarrow> uuid \<Rightarrow> uuid \<Rightarrow> collection" where
  "points_of st t d = filter (\<lambda>(i, p). vp_tenant_id p = t \<and> vp_document_id p = d) (rg_points st)"

definition ids_drawn :: "(nat \<Rightarrow> uuid) \<Rightarrow> 'z rag_stores_scheme \<Rightarrow> bool" where
  \<comment> \<open>every chunk identifier was drawn\<close>
  "ids_drawn uuid4 st \<longleftrightarrow>
     (ck_id \<circ> fst) ` set (db_chunks (rg_db st)) \<union> fst ` set (rg_points st) \<subseteq> uuid4 ` {..<rg_drawn st}"

definition point_of :: "uuid \<Rightarrow> chunk \<Rightarrow> uuid \<times> point" where
  "point_of t c = (ck_id c, \<lparr>vp_vector = ck_embedding c, vp_tenant_id = t, vp_document_id = ck_document_id c, vp_content = ck_content c\<rparr>)"

lemma dict_set_fresh: "k \<notin> fst ` set d \<Longrightarrow> dict_set k v d = d @ [(k, v)]"
  by (induction k v d rule: dict_set.induct) auto

lemma upsert_all_points:
  assumes "upsert_all fault i t cs ps = (r, ps')"
    and "distinct (map ck_id cs)" "\<forall>c\<in>set cs. ck_id c \<notin> fst ` set ps"
  shows "\<exists>k\<le>length cs. ps' = ps @ map (point_of t) (take k cs) \<and> (r = Inr () \<longrightarrow> k = length cs)"
  using assms
proof (induction cs arbitrary: i ps)
  case Nil
  then show ?case by simp
next
  case (Cons c cs)
  show ?case
  proof (cases "fault i = None \<and> length (ck_embedding c) = EMBEDDING_DIM")
    case False
    with Cons.prems(1) have "r \<noteq> Inr ()" "ps' = ps" by (auto simp: vs_upsert_def split: option.splits)
    then show ?thesis by (intro exI [of _ 0]) simp
  next
    case True
    let ?ps = "ps @ [point_of t c]"
    have "vs_upsert ps c t = Inr ?ps"
      using True Cons.prems(3) by (simp add: vs_upsert_def dict_set_fresh point_of_def)
    with True Cons.prems(1) have "upsert_all fault (Suc i) t cs ?ps = (r, ps')" by simp
    moreover have "distinct (map ck_id cs)" "\<forall>x\<in>set cs. ck_id x \<notin> fst ` set ?ps"
      using Cons.prems(2,3) by (auto simp: point_of_def image_iff)
    ultimately obtain k where
      "k \<le> length cs" "ps' = ?ps @ map (point_of t) (take k cs)" "r = Inr () \<longrightarrow> k = length cs"
      using Cons.IH [of "Suc i" ?ps] by blast
    then show ?thesis by (intro exI [of _ "Suc k"]) simp
  qed
qed

lemma save_chunks_Inr:
  "save_chunks ctx db cs t = Inr db' \<Longrightarrow> db' = db\<lparr>db_chunks := db_chunks db @ map (\<lambda>c. (c, t)) cs\<rparr>"
proof (induction cs arbitrary: db)
  case (Cons c cs)
  from Cons.prems obtain db1 where "insert_chunk ctx t c db = Inr db1" "save_chunks ctx db1 cs t = Inr db'"
    by (auto split: sum.splits)
  moreover from this(1) have "db1 = db\<lparr>db_chunks := db_chunks db @ [(c, t)]\<rparr>"
    by (auto simp: insert_chunk_def split: if_splits)
  ultimately show ?case using Cons.IH [of db1] by simp
qed simp

lemma replace_rows_Inr:
  assumes "replace_rows db t d title cs = Inr db'"
  shows "db_chunks db' = filter (\<lambda>(c, u). \<not> (ck_document_id c = d \<and> u = t)) (db_chunks db) @ map (\<lambda>c. (c, t)) cs"
  using assms
  by (auto simp: replace_rows_def delete_document_def save_document_def Let_def split: sum.splits if_splits
      dest!: save_chunks_Inr intro!: filter_cong)

lemma make_chunks_simps:
  "length (make_chunks uuid4 emb d n ps) = length ps"
  "map ck_content (make_chunks uuid4 emb d n ps) = ps"
  "map ck_id (make_chunks uuid4 emb d n ps) = map uuid4 [n..<n + length ps]"
  "c \<in> set (make_chunks uuid4 emb d n ps) \<Longrightarrow> ck_document_id c = d"
proof -
  show "length (make_chunks uuid4 emb d n ps) = length ps" by (simp add: make_chunks_def)
  show "map ck_content (make_chunks uuid4 emb d n ps) = ps" by (simp add: make_chunks_def o_def split_def)
  show "map ck_id (make_chunks uuid4 emb d n ps) = map uuid4 [n..<n + length ps]"
    by (rule nth_equalityI) (simp_all add: make_chunks_def nth_enumerate_eq)
  show "c \<in> set (make_chunks uuid4 emb d n ps) \<Longrightarrow> ck_document_id c = d" by (auto simp: make_chunks_def)
qed

lemma filter_own_points:
  "\<forall>c\<in>set cs. ck_document_id c = d \<Longrightarrow>
   filter (\<lambda>(i, p). vp_tenant_id p = t' \<and> vp_document_id p = d') (map (point_of t) cs) =
   (if t' = t \<and> d' = d then map (point_of t) cs else [])"
  by (induction cs) (auto simp: point_of_def)

lemma filter_own_rows:
  "\<forall>c\<in>set cs. ck_document_id c = d \<Longrightarrow>
   map fst (filter (\<lambda>(c, u). ck_document_id c = d' \<and> u = t') (map (\<lambda>c. (c, t)) cs)) = (if t' = t \<and> d' = d then cs else [])"
  by (induction cs) auto

lemma rows_after_replace:
  assumes "replace_rows (rg_db st) t d title cs = Inr db" "\<forall>c\<in>set cs. ck_document_id c = d"
  shows "rows_of (st'\<lparr>rg_db := db, rg_points := ps\<rparr>) t' d' = (if t' = t \<and> d' = d then cs else rows_of st t' d')"
proof -
  have old: "filter (\<lambda>(c, u). ck_document_id c = d' \<and> u = t') (filter (\<lambda>(c, u). \<not> (ck_document_id c = d \<and> u = t)) xs) =
      (if t' = t \<and> d' = d then [] else filter (\<lambda>(c, u). ck_document_id c = d' \<and> u = t') xs)" for xs
    by (induction xs) auto
  have "rows_of (st'\<lparr>rg_db := db, rg_points := ps\<rparr>) t' d' = map fst (filter (\<lambda>(c, u). ck_document_id c = d' \<and> u = t') (db_chunks db))"
    by (simp add: rows_of_def)
  also have "\<dots> = map fst (filter (\<lambda>(c, u). ck_document_id c = d' \<and> u = t')
        (filter (\<lambda>(c, u). \<not> (ck_document_id c = d \<and> u = t)) (db_chunks (rg_db st)))) @
      map fst (filter (\<lambda>(c, u). ck_document_id c = d' \<and> u = t') (map (\<lambda>c. (c, t)) cs))"
    unfolding replace_rows_Inr [OF assms(1)] filter_append map_append ..
  also have "\<dots> = (if t' = t \<and> d' = d then cs else rows_of st t' d')"
    unfolding old filter_own_rows [OF assms(2)] by (simp add: rows_of_def)
  finally show ?thesis .
qed

lemma points_after_replace:
  assumes "\<forall>c\<in>set cs. ck_document_id c = d" "\<forall>c\<in>set cs. ck_id c \<notin> fst ` set ps" "ps' = ps @ map (point_of t) cs"
  shows "filter (\<lambda>(i, p). vp_tenant_id p = t' \<and> vp_document_id p = d') (vs_delete_document ps' d t (map ck_id cs)) =
     (if t' = t \<and> d' = d then map (point_of t) cs else filter (\<lambda>(i, p). vp_tenant_id p = t' \<and> vp_document_id p = d') ps)"
proof -
  have new: "vs_delete_document (map (point_of t) xs) d t (map ck_id cs) = map (point_of t) xs" if "set xs \<subseteq> set cs" for xs
    using that by (induction xs) (auto simp: vs_delete_document_def point_of_def)
  have old: "filter (\<lambda>(i, p). vp_tenant_id p = t' \<and> vp_document_id p = d') (vs_delete_document qs d t (map ck_id cs)) =
      (if t' = t \<and> d' = d then [] else filter (\<lambda>(i, p). vp_tenant_id p = t' \<and> vp_document_id p = d') qs)"
    if "\<forall>c\<in>set cs. ck_id c \<notin> fst ` set qs" for qs
    using that by (induction qs) (auto simp: vs_delete_document_def)
  have "vs_delete_document ps' d t (map ck_id cs) = vs_delete_document ps d t (map ck_id cs) @ map (point_of t) cs"
    using new [of cs] by (simp add: assms(3) vs_delete_document_def)
  then show ?thesis using old [OF assms(2)] filter_own_points [OF assms(1), of t' d' t] by simp
qed

lemma fresh_ids:
  assumes "inj uuid4" "ids_drawn uuid4 st"
  shows "distinct (map ck_id (make_chunks uuid4 emb d (rg_drawn st) ps))"
    "\<forall>c\<in>set (make_chunks uuid4 emb d (rg_drawn st) ps). ck_id c \<notin> fst ` set (rg_points st)"
proof -
  let ?cs = "make_chunks uuid4 emb d (rg_drawn st) ps"
  show "distinct (map ck_id ?cs)"
    using assms(1) unfolding make_chunks_simps by (simp add: distinct_map inj_on_subset [OF assms(1)])
  have "ck_id ` set ?cs = uuid4 ` {rg_drawn st..<rg_drawn st + length ps}"
    using arg_cong [OF make_chunks_simps(3) [of uuid4 emb d "rg_drawn st" ps], of set] by simp
  moreover have "uuid4 ` {rg_drawn st..<rg_drawn st + length ps} \<inter> uuid4 ` {..<rg_drawn st} = {}"
    using image_Int [OF assms(1), of "{rg_drawn st..<rg_drawn st + length ps}" "{..<rg_drawn st}"] by auto
  ultimately show "\<forall>c\<in>set ?cs. ck_id c \<notin> fst ` set (rg_points st)"
    using assms(2) unfolding ids_drawn_def by blast
qed

text \<open>The state after a call, whatever happened in it.\<close>

lemma rag_replace_cases:
  assumes "rag_replace cfg f st t d title body = (r, st')" "inj (ri_uuid4 cfg)" "ids_drawn (ri_uuid4 cfg) st"
  obtains (unchanged) e n where "r = Inl e" "st' = st\<lparr>rg_drawn := n\<rparr>" "rg_drawn st \<le> n"
    | (partial) e pieces cs k db where "r = Inl e" "ri_chunk cfg body = Inr pieces"
        "cs = make_chunks (ri_uuid4 cfg) (ri_embed cfg) d (rg_drawn st) pieces"
        "replace_rows (rg_db st) t d title cs = Inr db" "k \<le> length cs"
        "st' = st\<lparr>rg_drawn := rg_drawn st + length pieces, rg_db := db, rg_points := rg_points st @ map (point_of t) (take k cs)\<rparr>"
    | (success) pieces cs db where "r = Inr ()" "ri_chunk cfg body = Inr pieces"
        "cs = make_chunks (ri_uuid4 cfg) (ri_embed cfg) d (rg_drawn st) pieces"
        "replace_rows (rg_db st) t d title cs = Inr db"
        "st' = st\<lparr>rg_drawn := rg_drawn st + length pieces, rg_db := db,
            rg_points := vs_delete_document (rg_points st @ map (point_of t) cs) d t (map ck_id cs)\<rparr>"
proof (cases "ri_chunk cfg body")
  case (Inl e)
  then show ?thesis using assms(1) unchanged [of e "rg_drawn st"] by (simp add: rag_replace_def)
next
  case (Inr pieces)
  let ?cs = "make_chunks (ri_uuid4 cfg) (ri_embed cfg) d (rg_drawn st) pieces"
  show ?thesis
  proof (cases "replace_rows (rg_db st) t d title ?cs")
    case (Inl e)
    then show ?thesis
      using assms(1) Inr unchanged [of e "rg_drawn st + length pieces"] by (simp add: rag_replace_def Let_def)
  next
    case db: (Inr db)
    obtain x ps where u: "upsert_all (rf_upsert f) 0 t ?cs (rg_points st) = (x, ps)"
      by (cases "upsert_all (rf_upsert f) 0 t ?cs (rg_points st)")
    from upsert_all_points [OF u fresh_ids [OF assms(2,3)]] obtain k where
      k: "k \<le> length ?cs" "ps = rg_points st @ map (point_of t) (take k ?cs)" "x = Inr () \<longrightarrow> k = length ?cs" by blast
    consider e where "rf_commit f = Some e" | e where "rf_commit f = None" "x = Inl e"
      | e where "rf_commit f = None" "x = Inr ()" "rf_delete f = Some e"
      | "rf_commit f = None" "x = Inr ()" "rf_delete f = None"
      by (cases x; cases "rf_commit f"; cases "rf_delete f"; auto)
    then show ?thesis
    proof cases
      case 1
      then show ?thesis
        using assms(1) Inr db unchanged [of e "rg_drawn st + length pieces"] by (simp add: rag_replace_def Let_def)
    next
      case 2
      then show ?thesis
        using assms(1) Inr db u k by (intro partial [of e pieces ?cs db k]) (auto simp: rag_replace_def Let_def)
    next
      case 3
      then show ?thesis
        using assms(1) Inr db u k by (intro partial [of e pieces ?cs db k]) (auto simp: rag_replace_def Let_def)
    next
      case 4
      then show ?thesis
        using assms(1) Inr db u k by (intro success [of pieces ?cs db]) (auto simp: rag_replace_def Let_def)
    qed
  qed
qed

lemma rag_replace_ids_drawn:
  assumes "rag_replace cfg f st t d title body = (r, st')" "inj (ri_uuid4 cfg)" "ids_drawn (ri_uuid4 cfg) st"
  shows "ids_drawn (ri_uuid4 cfg) st'"
proof -
  have new: "ck_id ` set (make_chunks (ri_uuid4 cfg) (ri_embed cfg) d (rg_drawn st) ps) \<subseteq> ri_uuid4 cfg ` {..<rg_drawn st + length ps}" for ps
    using arg_cong [OF make_chunks_simps(3) [of "ri_uuid4 cfg" "ri_embed cfg" d "rg_drawn st" ps], of set] by auto
  have old: "ri_uuid4 cfg ` {..<rg_drawn st} \<subseteq> ri_uuid4 cfg ` {..<n}" if "rg_drawn st \<le> n" for n
    using that by auto
  from assms show ?thesis
  proof (cases rule: rag_replace_cases)
    case (unchanged e n)
    then show ?thesis using assms(3) old [of n] by (auto simp: ids_drawn_def)
  next
    case (partial e pieces cs k db)
    then show ?thesis
      using assms(3) old [of "rg_drawn st + length pieces"] new [of pieces] replace_rows_Inr [OF partial(4)]
      by (auto simp: ids_drawn_def point_of_def dest!: in_set_takeD)
  next
    case (success pieces cs db)
    then show ?thesis
      using assms(3) old [of "rg_drawn st + length pieces"] new [of pieces] replace_rows_Inr [OF success(4)]
      by (auto simp: ids_drawn_def point_of_def vs_delete_document_def)
  qed
qed

subsection \<open>Replacing a document\<close>

definition ids_and_contents :: "'z rag_stores_scheme \<Rightarrow> uuid \<Rightarrow> uuid \<Rightarrow> (uuid \<times> string) list \<times> (uuid \<times> string) list" where
  \<comment> \<open>what keyword search finds of a document in Postgres and vector search in Qdrant\<close>
  "ids_and_contents st t d =
     (map (\<lambda>c. (ck_id c, ck_content c)) (rows_of st t d), map (\<lambda>(i, p). (i, vp_content p)) (points_of st t d))"

lemma points_of_new:
  "map (\<lambda>(i, p). (i, vp_content p)) (map (point_of t) cs) = map (\<lambda>c. (ck_id c, ck_content c)) cs"
  by (simp add: point_of_def)

lemma rag_replace_success:
  assumes "rag_replace cfg f st t d title body = (Inr (), st')" "inj (ri_uuid4 cfg)" "ids_drawn (ri_uuid4 cfg) st"
  shows "\<exists>pieces ids. ri_chunk cfg body = Inr pieces \<and> length ids = length pieces \<and>
           ids_and_contents st' t d = (zip ids pieces, zip ids pieces)"
    and "(t', d') \<noteq> (t, d) \<Longrightarrow> rows_of st' t' d' = rows_of st t' d' \<and> points_of st' t' d' = points_of st t' d'"
proof -
  from assms obtain pieces cs db where r: "ri_chunk cfg body = Inr pieces"
      "cs = make_chunks (ri_uuid4 cfg) (ri_embed cfg) d (rg_drawn st) pieces"
      "replace_rows (rg_db st) t d title cs = Inr db"
      "st' = st\<lparr>rg_drawn := rg_drawn st + length pieces, rg_db := db,
            rg_points := vs_delete_document (rg_points st @ map (point_of t) cs) d t (map ck_id cs)\<rparr>"
    by (cases rule: rag_replace_cases) auto
  have doc: "\<forall>c\<in>set cs. ck_document_id c = d" using r(2) make_chunks_simps(4) by blast
  have rows: "rows_of st' t' d' = (if t' = t \<and> d' = d then cs else rows_of st t' d')" for t' d'
    unfolding r(4) by (rule rows_after_replace [OF r(3) doc])
  have points: "points_of st' t' d' = (if t' = t \<and> d' = d then map (point_of t) cs else points_of st t' d')" for t' d'
    using points_after_replace [where ps = "rg_points st" and t = t and t' = t' and d' = d', OF doc _ refl]
      fresh_ids(2) [OF assms(2,3), of "ri_embed cfg" d pieces]
    by (simp add: r(4) points_of_def r(2) [symmetric])
  have z: "map (\<lambda>c. (ck_id c, ck_content c)) cs = zip (map ck_id cs) pieces"
  proof -
    have "zip (map ck_id cs) (map ck_content cs) = map (\<lambda>c. (ck_id c, ck_content c)) cs" by (induction cs) auto
    then show ?thesis by (simp add: r(2) make_chunks_simps(2))
  qed
  have "ids_and_contents st' t d = (zip (map ck_id cs) pieces, zip (map ck_id cs) pieces)"
    unfolding ids_and_contents_def rows points by (simp only: points_of_new z simp_thms if_True)
  moreover have "length (map ck_id cs) = length pieces" by (simp add: r(2) make_chunks_simps(1))
  ultimately show "\<exists>pieces ids. ri_chunk cfg body = Inr pieces \<and> length ids = length pieces \<and>
      ids_and_contents st' t d = (zip ids pieces, zip ids pieces)"
    using r(1) by blast
  show "(t', d') \<noteq> (t, d) \<Longrightarrow> rows_of st' t' d' = rows_of st t' d' \<and> points_of st' t' d' = points_of st t' d'"
    by (auto simp: rows points)
qed

lemma rag_replace_failure:
  assumes "rag_replace cfg f st t d title body = (Inl e, st')" "inj (ri_uuid4 cfg)" "ids_drawn (ri_uuid4 cfg) st"
  shows "\<exists>new. points_of st' t d = points_of st t d @ new"
    and "rows_of st' t d = rows_of st t d \<or> (\<exists>pieces. ri_chunk cfg body = Inr pieces \<and> map ck_content (rows_of st' t d) = pieces)"
    and "(t', d') \<noteq> (t, d) \<Longrightarrow> rows_of st' t' d' = rows_of st t' d' \<and> points_of st' t' d' = points_of st t' d'"
proof -
  have "(\<exists>new. points_of st' t d = points_of st t d @ new) \<and>
    (rows_of st' t d = rows_of st t d \<or> (\<exists>pieces. ri_chunk cfg body = Inr pieces \<and> map ck_content (rows_of st' t d) = pieces)) \<and>
    ((t', d') \<noteq> (t, d) \<longrightarrow> rows_of st' t' d' = rows_of st t' d' \<and> points_of st' t' d' = points_of st t' d')"
    using assms
  proof (cases rule: rag_replace_cases)
    case (unchanged e' n)
    then show ?thesis by (simp add: rows_of_def points_of_def)
  next
    case (partial e' pieces cs k db)
    have doc: "\<forall>c\<in>set cs. ck_document_id c = d" using partial(3) make_chunks_simps(4) by blast
    then have dk: "\<forall>c\<in>set (take k cs). ck_document_id c = d" by (auto dest: in_set_takeD)
    have rows: "rows_of st' t' d' = (if t' = t \<and> d' = d then cs else rows_of st t' d')" for t' d'
      unfolding partial(6) by (rule rows_after_replace [OF partial(4) doc])
    have points: "points_of st' t' d' = points_of st t' d' @ (if t' = t \<and> d' = d then map (point_of t) (take k cs) else [])" for t' d'
      using filter_own_points [OF dk, of t' d' t] by (simp add: partial(6) points_of_def)
    show ?thesis using partial(2,3) by (auto simp: rows points make_chunks_simps(2))
  qed simp
  then show "\<exists>new. points_of st' t d = points_of st t d @ new"
    and "rows_of st' t d = rows_of st t d \<or> (\<exists>pieces. ri_chunk cfg body = Inr pieces \<and> map ck_content (rows_of st' t d) = pieces)"
    and "(t', d') \<noteq> (t, d) \<Longrightarrow> rows_of st' t' d' = rows_of st t' d' \<and> points_of st' t' d' = points_of st t' d'"
    by auto
qed

fun replaces :: "('f \<Rightarrow> 'r \<Rightarrow> uuid \<Rightarrow> uuid \<Rightarrow> string \<Rightarrow> string \<Rightarrow> unit result \<times> 'r) \<Rightarrow> 'r \<Rightarrow>
    ('f \<times> uuid \<times> uuid \<times> string \<times> string) list \<Rightarrow> 'r" where
  \<comment> \<open>calls one after the other, whether they raise or not\<close>
  "replaces rep r [] = r"
| "replaces rep r ((f, t, d, title, body) # cs) = replaces rep (snd (rep f r t d title body)) cs"

lemma replaces_append: "replaces rep r (xs @ ys) = replaces rep (replaces rep r xs) ys"
  by (induction rep r xs rule: replaces.induct) auto

text \<open>
  \<^verbatim>\<open>RagIndex\<close>: what \<^verbatim>\<open>replace\<close> promises. \<open>holds r t d\<close> is the text that can be retrieved of a document. After a call that
  returns it is the text given; a call that raises may leave text of both versions, and no call touches another document.
\<close>

locale rag_index =
  fixes replace :: "'f \<Rightarrow> 'r \<Rightarrow> uuid \<Rightarrow> uuid \<Rightarrow> string \<Rightarrow> string \<Rightarrow> unit result \<times> 'r"
    and ok :: "'r \<Rightarrow> bool"
    and holds :: "'r \<Rightarrow> uuid \<Rightarrow> uuid \<Rightarrow> string set"
    and pieces :: "string \<Rightarrow> string set"
  assumes replace_ok: "ok r \<Longrightarrow> replace f r t d title body = (x, r') \<Longrightarrow> ok r'"
    and replace_holds: "ok r \<Longrightarrow> replace f r t d title body = (Inr (), r') \<Longrightarrow> holds r' t d = pieces body"
    and replace_fails: "ok r \<Longrightarrow> replace f r t d title body = (Inl e, r') \<Longrightarrow> holds r' t d \<subseteq> holds r t d \<union> pieces body"
    and replace_other: "ok r \<Longrightarrow> replace f r t d title body = (x, r') \<Longrightarrow> (t', d') \<noteq> (t, d) \<Longrightarrow> holds r' t' d' = holds r t' d'"
begin

lemma replaces_ok: "ok r \<Longrightarrow> ok (replaces replace r cs)"
proof (induction cs arbitrary: r)
  case (Cons c cs)
  obtain f t d title body where c: "c = (f, t, d, title, body)" by (cases c)
  obtain x r' where e: "replace f r t d title body = (x, r')" by (cases "replace f r t d title body")
  from Cons.IH [OF replace_ok [OF Cons.prems e]] show ?case by (simp add: c e)
qed simp

lemma replaces_other:
  "ok r \<Longrightarrow> \<forall>(f, t', d', title, body)\<in>set cs. (t', d') \<noteq> (t, d) \<Longrightarrow> holds (replaces replace r cs) t d = holds r t d"
proof (induction cs arbitrary: r)
  case (Cons c cs)
  obtain f t' d' title body where c: "c = (f, t', d', title, body)" by (cases c)
  obtain x r' where e: "replace f r t' d' title body = (x, r')" by (cases "replace f r t' d' title body")
  have "(t, d) \<noteq> (t', d')" using Cons.prems(2) c by auto
  from Cons.IH [OF replace_ok [OF Cons.prems(1) e]] replace_other [OF Cons.prems(1) e this] Cons.prems(2)
  show ?case by (simp add: c e)
qed simp

text \<open>After any calls, a document whose last call returned holds the text of that call and nothing else.\<close>

lemma last_success_holds:
  assumes "ok r" "replace f (replaces replace r before) t d title body = (Inr (), r')"
    and "\<forall>(f', t', d', title', body')\<in>set after. (t', d') \<noteq> (t, d)"
  shows "holds (replaces replace r (before @ (f, t, d, title, body) # after)) t d = pieces body"
proof -
  note ok = replaces_ok [OF assms(1), of before]
  have "replaces replace r (before @ (f, t, d, title, body) # after) = replaces replace r' after"
    by (simp add: replaces_append assms(2))
  then show ?thesis
    using replaces_other [OF replace_ok [OF ok assms(2)] assms(3)] replace_holds [OF ok assms(2)] by simp
qed

end

definition retrievable :: "'z rag_stores_scheme \<Rightarrow> uuid \<Rightarrow> uuid \<Rightarrow> string set" where
  \<comment> \<open>the contents that keyword or vector search can return of a document\<close>
  "retrievable st t d = ck_content ` set (rows_of st t d) \<union> (vp_content \<circ> snd) ` set (points_of st t d)"

definition pieces_of :: "rag_index_config \<Rightarrow> string \<Rightarrow> string set" where
  "pieces_of cfg body = (case ri_chunk cfg body of Inl e \<Rightarrow> {} | Inr ps \<Rightarrow> set ps)"

lemma retrievable_contents:
  "retrievable st t d = snd ` set (fst (ids_and_contents st t d)) \<union> snd ` set (snd (ids_and_contents st t d))"
  by (force simp: retrievable_def ids_and_contents_def)

interpretation chunked: rag_index "rag_replace cfg" "\<lambda>st. inj (ri_uuid4 cfg) \<and> ids_drawn (ri_uuid4 cfg) st" retrievable "pieces_of cfg" for cfg
proof (unfold_locales, goal_cases)
  case (1 r f t d title body x r')
  then show ?case using rag_replace_ids_drawn by blast
next
  case (2 r f t d title body r')
  obtain ps ids where "ri_chunk cfg body = Inr ps" "length ids = length ps" "ids_and_contents r' t d = (zip ids ps, zip ids ps)"
    using rag_replace_success(1) [OF 2(2)] 2(1) by blast
  moreover from this(2) have "snd ` set (zip ids ps) = set ps" by (metis list.set_map map_snd_zip)
  ultimately show ?case by (simp add: retrievable_contents pieces_of_def)
next
  case (3 r f t d title body e r')
  from 3(2) 3(1) [THEN conjunct1] 3(1) [THEN conjunct2] show ?case
  proof (cases rule: rag_replace_cases)
    case (partial e' pieces cs k db)
    have doc: "\<forall>c\<in>set cs. ck_document_id c = d" using partial(3) make_chunks_simps(4) by blast
    then have dk: "\<forall>c\<in>set (take k cs). ck_document_id c = d" by (auto dest: in_set_takeD)
    have "rows_of r' t d = cs" unfolding partial(6) by (subst rows_after_replace [OF partial(4) doc]) simp
    moreover have "points_of r' t d = points_of r t d @ map (point_of t) (take k cs)"
      using filter_own_points [OF dk, of t d t] by (simp add: partial(6) points_of_def)
    moreover have "ck_content ` set cs = set pieces"
      using arg_cong [OF make_chunks_simps(2), of set] partial(3) by (metis list.set_map)
    ultimately show ?thesis
      using partial(2) by (auto simp: retrievable_def pieces_of_def point_of_def dest!: in_set_takeD)
  qed (auto simp: retrievable_def rows_of_def points_of_def)
next
  case (4 r f t d title body x r' t' d')
  then show ?case
    using rag_replace_success(2) [of cfg f r t d title body r' t' d'] rag_replace_failure(3) [of cfg f r t d title body _ r' t' d']
    by (cases x) (auto simp: retrievable_def)
qed

text \<open>
  C14. \<^verbatim>\<open>ChunkedRagIndex\<close> keeps its promise: after any sequence of calls, failed ones included, all that keyword and vector search
  can return of a document whose last call returned are the chunks of that call's text. A later call on the document, a failed one
  included, ends the promise: a failed replacement can leave both texts retrievable.
\<close>
theorem replaced_text_is_all_there_is:
  assumes "inj (ri_uuid4 cfg)" "ids_drawn (ri_uuid4 cfg) st"
    and "rag_replace cfg f (replaces (rag_replace cfg) st before) t d title body = (Inr (), st')"
    and "\<forall>(f', t', d', title', body')\<in>set after. (t', d') \<noteq> (t, d)"
  shows "retrievable (replaces (rag_replace cfg) st (before @ (f, t, d, title, body) # after)) t d = pieces_of cfg body"
  using chunked.last_success_holds [of cfg st f before t d title body st' "after"] assms by blast

text \<open>
  A document is never missing. Whatever fails in \<^verbatim>\<open>replace\<close>: when it raises, the points of the old version are all there, and
  the rows are those of the old version or those of the new one; when it returns, rows and points are the chunks of the new text,
  with the same identifiers in both stores. No other document changes.
\<close>
theorem rag_replace_never_missing:
  assumes "inj (ri_uuid4 cfg)" "ids_drawn (ri_uuid4 cfg) st" "rag_replace cfg f st t d title body = (r, st')"
  shows "(case r of
            Inr _ \<Rightarrow> \<exists>pieces ids. ri_chunk cfg body = Inr pieces \<and> length ids = length pieces \<and>
                       ids_and_contents st' t d = (zip ids pieces, zip ids pieces)
          | Inl e \<Rightarrow> (\<exists>new. points_of st' t d = points_of st t d @ new) \<and>
                     (rows_of st' t d = rows_of st t d \<or> ri_chunk cfg body = Inr (map ck_content (rows_of st' t d)))) \<and>
         (\<forall>t' d'. (t', d') = (t, d) \<or> rows_of st' t' d' = rows_of st t' d' \<and> points_of st' t' d' = points_of st t' d')"
proof (cases r)
  case (Inl e)
  with assms rag_replace_failure [of cfg f st t d title body e st'] show ?thesis by fastforce
next
  case (Inr u)
  with assms rag_replace_success [of cfg f st t d title body st'] show ?thesis by auto
qed

subsection \<open>Examples\<close>

definition ex_rag_config :: rag_index_config where
  "ex_rag_config = \<lparr>ri_chunk = (\<lambda>s. Inr [take 2 s, drop 2 s]), ri_embed = (\<lambda>s. replicate EMBEDDING_DIM 1), ri_uuid4 = (\<lambda>n. n)\<rparr>"

definition ex_rag_faults :: rag_faults where
  "ex_rag_faults = \<lparr>rf_commit = None, rf_upsert = (\<lambda>i. None), rf_delete = None\<rparr>"

definition ex_rag_stores :: rag_stores where
  "ex_rag_stores = \<lparr>rg_db = \<lparr>db_documents = [], db_chunks = []\<rparr>, rg_points = [], rg_drawn = 0\<rparr>"

definition ex_rag_old :: "(rag_faults \<times> uuid \<times> uuid \<times> string \<times> string) list" where
  "ex_rag_old = [(ex_rag_faults\<lparr>rf_delete := Some (OtherException ''timeout'')\<rparr>, 7, 9, ''n'', ''old'')]"

lemma ex_rag_ok:
  "inj (ri_uuid4 ex_rag_config)" "ids_drawn (ri_uuid4 ex_rag_config) ex_rag_stores"
  "fst (rag_replace ex_rag_config ex_rag_faults (replaces (rag_replace ex_rag_config) ex_rag_stores ex_rag_old) 7 9 ''n'' ''abcd'') = Inr ()"
  by (simp add: inj_on_def ex_rag_config_def, simp add: ids_drawn_def ex_rag_stores_def, code_simp)

theorem replaced_text_is_all_there_is_witness:
  "retrievable (replaces (rag_replace ex_rag_config) ex_rag_stores
     (ex_rag_old @ [(ex_rag_faults, 7, 9, ''n'', ''abcd''), (ex_rag_faults, 7, 10, ''m'', ''xyz'')])) 7 9 = {''ab'', ''cd''}"
proof -
  obtain st' where st': "rag_replace ex_rag_config ex_rag_faults (replaces (rag_replace ex_rag_config) ex_rag_stores ex_rag_old) 7 9 ''n'' ''abcd'' = (Inr (), st')"
    using ex_rag_ok(3) by (metis prod.collapse)
  show ?thesis
    using replaced_text_is_all_there_is [OF ex_rag_ok(1,2) st', of "[(ex_rag_faults, 7, 10, ''m'', ''xyz'')]"]
    by (simp add: pieces_of_def ex_rag_config_def)
qed

definition ex_rag_held :: rag_stores where
  "ex_rag_held = snd (rag_replace ex_rag_config ex_rag_faults ex_rag_stores 7 9 ''n'' ''old!'')"

definition ex_rag_partial :: rag_faults where
  "ex_rag_partial = ex_rag_faults\<lparr>rf_upsert := (\<lambda>i. if i = 1 then Some (OtherException ''timeout'') else None)\<rparr>"

lemma ex_rag_partial_fails:
  "fst (rag_replace ex_rag_config ex_rag_partial ex_rag_held 7 9 ''n'' ''abcd'') = Inl (OtherException ''timeout'') \<and>
   map (vp_content \<circ> snd) (points_of ex_rag_held 7 9) = [''ol'', ''d!''] \<and> ids_drawn (ri_uuid4 ex_rag_config) ex_rag_held"
  by code_simp

theorem rag_replace_never_missing_witness:
  "\<exists>new. map (vp_content \<circ> snd) (points_of (snd (rag_replace ex_rag_config ex_rag_partial ex_rag_held 7 9 ''n'' ''abcd'')) 7 9) =
     [''ol'', ''d!''] @ new"
proof -
  obtain st' where st': "rag_replace ex_rag_config ex_rag_partial ex_rag_held 7 9 ''n'' ''abcd'' = (Inl (OtherException ''timeout''), st')"
    using ex_rag_partial_fails by (metis prod.collapse)
  with rag_replace_never_missing [OF ex_rag_ok(1) conjunct2 [OF conjunct2 [OF ex_rag_partial_fails]] st'] ex_rag_partial_fails
  show ?thesis by auto
qed

end
