(* ===== verification/Rag_Upload.thy ===== *)
theory Rag_Upload
  imports Rag_Index Rag_Chunking
begin

text \<open>
  Uploading documents: \<^verbatim>\<open>TextExtractor\<close>, \<^verbatim>\<open>LocalFileStorage\<close>, \<^verbatim>\<open>UploadDocument\<close> and \<^verbatim>\<open>UploadDocumentWithParents\<close> of \<^verbatim>\<open>src/rag\<close>, and the
  route \<^verbatim>\<open>POST /documents\<close> of \<^verbatim>\<open>src/api/routers/documents.py\<close>, which commits. The decoding of UTF-8, the text of a PDF,
  the chunker and the embedding model are parameters; the reader of PDF and the chunkers may raise, the embedding model answers. Bytes are characters. The use case works on the database as its
  transaction sees it; the route commits that database, or leaves the old one.
\<close>

subsection \<open>TextExtractor and LocalFileStorage\<close>

record upload_env =
  up_decode_utf8 :: "string \<Rightarrow> string"
  up_pdf_text :: "string \<Rightarrow> string result"
  up_chunk :: "string \<Rightarrow> string list result"
  up_chunk_with_parents :: "string \<Rightarrow> parent_child_chunks result"
  up_embed :: "string \<Rightarrow> embedding"
  up_uuid4 :: "nat \<Rightarrow> uuid"

definition dot :: char where
  "dot = CHR ''.''"

definition after_last :: "char \<Rightarrow> string \<Rightarrow> string" where
  \<comment> \<open>\<open>s.rsplit(c, 1)[-1]\<close>\<close>
  "after_last c s = rev (takeWhile (\<lambda>x. x \<noteq> c) (rev s))"

definition file_extension :: "string \<Rightarrow> string" where
  "file_extension filename = (if dot \<in> set filename then dot # py_lower (after_last dot filename) else [])"

definition extract_text :: "upload_env \<Rightarrow> string \<Rightarrow> string \<Rightarrow> string result" where
  "extract_text env filename content =
     (let extension = file_extension filename in
      if extension = ''.txt'' then Inr (up_decode_utf8 env content)
      else if extension = ''.pdf'' then up_pdf_text env content
      else Inl (OtherException (''Unsupported file type: '' @ (if extension \<noteq> [] then extension else filename))))"

fun split_slash :: "string \<Rightarrow> string \<Rightarrow> string list" where
  "split_slash cur [] = [rev cur]"
| "split_slash cur (c # cs) = (if c = CHR ''/'' then rev cur # split_slash [] cs else split_slash (c # cur) cs)"

definition path_name :: "string \<Rightarrow> string" where
  \<comment> \<open>\<open>Path(filename).name\<close>: the last component; empty ones and \<open>.\<close> are none\<close>
  "path_name filename =
     (case filter (\<lambda>p. p \<noteq> [] \<and> p \<noteq> ''.'') (split_slash [] filename) of [] \<Rightarrow> [] | ps \<Rightarrow> last ps)"

definition storage_dir :: "uuid \<Rightarrow> uuid \<Rightarrow> string" where
  "storage_dir tenant_id document_id = ''storage/'' @ uuid_str tenant_id @ ''/'' @ uuid_str document_id"

definition storage_path :: "uuid \<Rightarrow> uuid \<Rightarrow> string \<Rightarrow> string" where
  "storage_path tenant_id document_id filename = storage_dir tenant_id document_id @ ''/'' @ path_name filename"

subsection \<open>The use cases\<close>

record upload_faults =
  uf_write :: "py_error option"
  uf_upsert :: "nat \<Rightarrow> py_error option"
  uf_commit :: "py_error option"

record upload_state = rag_stores +
  us_files :: "(string \<times> string) list"

definition mime_type :: "string \<Rightarrow> string" where
  "mime_type filename =
     (let low = py_lower filename in
      if drop (length low - 4) low = ''.pdf'' then ''application/pdf'' else ''text/plain'')"

definition new_document :: "uuid \<Rightarrow> uuid \<Rightarrow> string \<Rightarrow> document" where
  "new_document tenant_id document_id filename =
     \<lparr>dc_id = document_id, dc_tenant_id = tenant_id, dc_filename = filename, dc_mime_type = mime_type filename,
      dc_storage_path = storage_path tenant_id document_id filename, dc_chunk_count = 0, dc_status = ''processing''\<rparr>"

definition begin_upload :: "upload_env \<Rightarrow> upload_faults \<Rightarrow> upload_state \<Rightarrow> uuid \<Rightarrow> string \<Rightarrow> string \<Rightarrow>
    (string \<times> document) result \<times> upload_state" where
  \<comment> \<open>the part that both use cases start with: extract, store the file, insert the document\<close>
  "begin_upload env f st tenant_id filename content =
     (case extract_text env filename content of
        Inl e \<Rightarrow> (Inl e, st)
      | Inr text \<Rightarrow>
          (let document_id = up_uuid4 env (rg_drawn st);
               document = new_document tenant_id document_id filename;
               st0 = st\<lparr>rg_drawn := Suc (rg_drawn st)\<rparr>
           in case uf_write f of
                Some e \<Rightarrow> (Inl e, st0)
              | None \<Rightarrow>
                  (let st1 = st0\<lparr>us_files := dict_set (dc_storage_path document) content (us_files st0)\<rparr>
                   in case save_document tenant_id (rg_db st1) document of
                        Inl e \<Rightarrow> (Inl e, st1)
                      | Inr db \<Rightarrow> (Inr (text, document), st1\<lparr>rg_db := db\<rparr>))))"

definition finish_upload :: "upload_faults \<Rightarrow> upload_state \<Rightarrow> uuid \<Rightarrow> document \<Rightarrow> chunk list \<Rightarrow> chunk list \<Rightarrow>
    document result \<times> upload_state" where
  \<comment> \<open>upsert the chunks that are searched, insert them after those that are not, complete the document\<close>
  "finish_upload f st tenant_id document unsearched chunks =
     (case upsert_all (uf_upsert f) 0 tenant_id chunks (rg_points st) of
        (Inl e, ps) \<Rightarrow> (Inl e, st\<lparr>rg_points := ps\<rparr>)
      | (Inr _, ps) \<Rightarrow>
          (case save_chunks tenant_id (rg_db st) (unsearched @ chunks) tenant_id of
             Inl e \<Rightarrow> (Inl e, st\<lparr>rg_points := ps\<rparr>)
           | Inr db \<Rightarrow>
               (Inr (document\<lparr>dc_chunk_count := int (length chunks), dc_status := ''completed''\<rparr>),
                st\<lparr>rg_points := ps,
                   rg_db := update_document_status tenant_id db (dc_id document) ''completed'' (int (length chunks))\<rparr>)))"

definition upload_document :: "upload_env \<Rightarrow> upload_faults \<Rightarrow> upload_state \<Rightarrow> uuid \<Rightarrow> string \<Rightarrow> string \<Rightarrow>
    document result \<times> upload_state" where
  "upload_document env f st tenant_id filename content =
     (case begin_upload env f st tenant_id filename content of
        (Inl e, st1) \<Rightarrow> (Inl e, st1)
      | (Inr (text, document), st1) \<Rightarrow>
          (case up_chunk env text of
             Inl e \<Rightarrow> (Inl e, st1)
           | Inr pieces \<Rightarrow>
               finish_upload f (st1\<lparr>rg_drawn := rg_drawn st1 + length pieces\<rparr>) tenant_id document []
                 (make_chunks (up_uuid4 env) (up_embed env) (dc_id document) (rg_drawn st1) pieces)))"

definition parent_chunks :: "(nat \<Rightarrow> uuid) \<Rightarrow> uuid \<Rightarrow> nat \<Rightarrow> string list \<Rightarrow> chunk list" where
  "parent_chunks uuid4 document_id n parents =
     make_chunks uuid4 (\<lambda>_. replicate EMBEDDING_DIM 0) document_id n parents"

definition child_chunks :: "(nat \<Rightarrow> uuid) \<Rightarrow> (string \<Rightarrow> embedding) \<Rightarrow> uuid \<Rightarrow> nat \<Rightarrow> chunk list \<Rightarrow> (string \<times> nat) list \<Rightarrow> chunk list" where
  "child_chunks uuid4 emb document_id n parents children =
     map (\<lambda>(c, i). c\<lparr>ck_parent_id := Some (ck_id (parents ! i))\<rparr>)
       (zip (make_chunks uuid4 emb document_id n (map fst children)) (map snd children))"

definition upload_document_with_parents :: "upload_env \<Rightarrow> upload_faults \<Rightarrow> upload_state \<Rightarrow> uuid \<Rightarrow> string \<Rightarrow> string \<Rightarrow>
    document result \<times> upload_state" where
  \<comment> \<open>a child whose index has no parent raises \<open>IndexError\<close>\<close>
  "upload_document_with_parents env f st tenant_id filename content =
     (case begin_upload env f st tenant_id filename content of
        (Inl e, st1) \<Rightarrow> (Inl e, st1)
      | (Inr (text, document), st1) \<Rightarrow>
          (case up_chunk_with_parents env text of
             Inl e \<Rightarrow> (Inl e, st1)
           | Inr r \<Rightarrow>
               (let n = rg_drawn st1;
                    parents = parent_chunks (up_uuid4 env) (dc_id document) n (pc_parents r);
                    m = n + length (pc_parents r);
                    good = takeWhile (\<lambda>(c, i). i < length (pc_parents r)) (pc_children r);
                    children = child_chunks (up_uuid4 env) (up_embed env) (dc_id document) m parents good;
                    st2 = st1\<lparr>rg_drawn := m + length (pc_children r)\<rparr>
                in if good = pc_children r
                   then finish_upload f st2 tenant_id document parents children
                   else case upsert_all (uf_upsert f) 0 tenant_id children (rg_points st2) of
                          (Inl e, ps) \<Rightarrow> (Inl e, st2\<lparr>rg_points := ps\<rparr>)
                        | (Inr _, ps) \<Rightarrow> (Inl (OtherException ''IndexError''), st2\<lparr>rg_points := ps\<rparr>))))"

definition MAX_UPLOAD_BYTES :: nat where
  "MAX_UPLOAD_BYTES = 10 * 1024 * 1024"

definition upload_route :: "upload_env \<Rightarrow> upload_faults \<Rightarrow> upload_state \<Rightarrow> uuid \<Rightarrow> string option \<Rightarrow> string \<Rightarrow>
    document result \<times> upload_state" where
  \<comment> \<open>the session of a request that raises is rolled back\<close>
  "upload_route env f st tenant_id filename content =
     (if MAX_UPLOAD_BYTES < length content then (Inl (OtherException ''413 File too large''), st)
      else let name = (case filename of None \<Rightarrow> ''upload'' | Some [] \<Rightarrow> ''upload'' | Some s \<Rightarrow> s)
           in case upload_document env f st tenant_id name content of
                (Inl e, st1) \<Rightarrow> (Inl e, st1\<lparr>rg_db := rg_db st\<rparr>)
              | (Inr document, st1) \<Rightarrow>
                  (case uf_commit f of
                     Some e \<Rightarrow> (Inl e, st1\<lparr>rg_db := rg_db st\<rparr>)
                   | None \<Rightarrow> (Inr document, st1)))"

subsection \<open>What an upload leaves\<close>

definition all_ids :: "'z rag_stores_scheme \<Rightarrow> uuid set" where
  "all_ids st = (ck_id \<circ> fst) ` set (db_chunks (rg_db st)) \<union> (ck_document_id \<circ> fst) ` set (db_chunks (rg_db st)) \<union>
     dc_id ` set (db_documents (rg_db st)) \<union> fst ` set (rg_points st) \<union> (vp_document_id \<circ> snd) ` set (rg_points st)"

definition unused :: "(nat \<Rightarrow> uuid) \<Rightarrow> 'z rag_stores_scheme \<Rightarrow> bool" where
  \<comment> \<open>identifiers not yet drawn are not in use\<close>
  "unused uuid4 st \<longleftrightarrow> (\<forall>m\<ge>rg_drawn st. uuid4 m \<notin> all_ids st)"

definition upload_name :: "string option \<Rightarrow> string" where
  "upload_name filename = (case filename of None \<Rightarrow> ''upload'' | Some [] \<Rightarrow> ''upload'' | Some s \<Rightarrow> s)"

lemma begin_upload_Inr:
  assumes "begin_upload env f st t name content = (Inr (text, document), st1)"
  shows "extract_text env name content = Inr text" "document = new_document t (up_uuid4 env (rg_drawn st)) name"
    "st1 = st\<lparr>rg_drawn := Suc (rg_drawn st), rg_db := (rg_db st)\<lparr>db_documents := db_documents (rg_db st) @ [document]\<rparr>,
       us_files := dict_set (dc_storage_path document) content (us_files st)\<rparr>"
  using assms by (auto simp: begin_upload_def save_document_def new_document_def Let_def split: sum.splits option.splits if_splits)

lemma begin_upload_Inl:
  assumes "begin_upload env f st t name content = (Inl e, st1)"
  shows "rg_db st1 = rg_db st" "rg_points st1 = rg_points st"
  using assms by (auto simp: begin_upload_def Let_def split: sum.splits option.splits)

lemma new_id_empty:
  assumes "d \<notin> all_ids st"
  shows "rows_of st t d = []" "points_of st t d = []" "\<forall>x\<in>set (db_documents (rg_db st)). dc_id x \<noteq> d"
  using assms unfolding rows_of_def points_of_def all_ids_def filter_empty_conv map_is_Nil_conv Un_iff image_iff by fastforce+

lemma fresh_chunks:
  assumes "inj uuid4" "unused uuid4 st" "rg_drawn st \<le> n"
  shows "distinct (map ck_id (make_chunks uuid4 emb d n ps))"
    "\<forall>c\<in>set (make_chunks uuid4 emb d n ps). ck_id c \<notin> fst ` set (rg_points st)"
proof -
  show "distinct (map ck_id (make_chunks uuid4 emb d n ps))"
    unfolding make_chunks_simps by (simp add: distinct_map inj_on_subset [OF assms(1)])
  have "ck_id ` set (make_chunks uuid4 emb d n ps) = uuid4 ` {n..<n + length ps}"
    using arg_cong [OF make_chunks_simps(3) [of uuid4 emb d n ps], of set] by simp
  moreover have "uuid4 m \<notin> fst ` set (rg_points st)" if "n \<le> m" for m
    using assms(2) order_trans [OF assms(3) that] by (simp add: unused_def all_ids_def)
  ultimately have "\<forall>i\<in>ck_id ` set (make_chunks uuid4 emb d n ps). i \<notin> fst ` set (rg_points st)"
    by (simp only: ball_simps) simp
  then show "\<forall>c\<in>set (make_chunks uuid4 emb d n ps). ck_id c \<notin> fst ` set (rg_points st)" by (simp only: ball_simps)
qed

lemma finish_upload_points:
  assumes "finish_upload f st t document un cs = (r, st')"
    and "distinct (map ck_id cs)" "\<forall>c\<in>set cs. ck_id c \<notin> fst ` set (rg_points st)"
  obtains k where "k \<le> length cs" "rg_points st' = rg_points st @ map (point_of t) (take k cs)"
    "\<And>d. r = Inr d \<Longrightarrow> k = length cs \<and> d = document\<lparr>dc_chunk_count := int (length cs), dc_status := ''completed''\<rparr> \<and>
       rg_db st' = update_document_status t ((rg_db st)\<lparr>db_chunks := db_chunks (rg_db st) @ map (\<lambda>c. (c, t)) (un @ cs)\<rparr>)
         (dc_id document) ''completed'' (int (length cs)) \<and> us_files st' = us_files st"
proof -
  obtain x ps where u: "upsert_all (uf_upsert f) 0 t cs (rg_points st) = (x, ps)"
    by (cases "upsert_all (uf_upsert f) 0 t cs (rg_points st)")
  from upsert_all_points [OF u assms(2,3)] obtain k where
    k: "k \<le> length cs" "ps = rg_points st @ map (point_of t) (take k cs)" "x = Inr () \<longrightarrow> k = length cs" by blast
  have "rg_points st' = ps" using assms(1) u by (auto simp: finish_upload_def split: sum.splits)
  moreover have "x = Inr () \<and> d = document\<lparr>dc_chunk_count := int (length cs), dc_status := ''completed''\<rparr> \<and>
       rg_db st' = update_document_status t ((rg_db st)\<lparr>db_chunks := db_chunks (rg_db st) @ map (\<lambda>c. (c, t)) (un @ cs)\<rparr>)
         (dc_id document) ''completed'' (int (length cs)) \<and> us_files st' = us_files st" if "r = Inr d" for d
    using assms(1) u that
    by (cases x; cases "save_chunks t (rg_db st) (un @ cs) t") (auto simp: finish_upload_def dest!: save_chunks_Inr)
  ultimately show ?thesis using k by (intro that [of k]) blast+
qed

lemma uuid_str_no_slash: "CHR ''/'' \<notin> set (uuid_str n)"
  using subsetD [OF uuid_str_chars] by (force simp: hex_digits_def)

text \<open>Two documents never share a path, whatever names the clients send.\<close>

lemma storage_path_document: "storage_path t d n = storage_path t' d' n' \<Longrightarrow> t = t' \<and> d = d'"
proof -
  assume e: "storage_path t d n = storage_path t' d' n'"
  have "uuid_str t @ CHR ''/'' # uuid_str d @ CHR ''/'' # path_name n = uuid_str t' @ CHR ''/'' # uuid_str d' @ CHR ''/'' # path_name n'"
    using e by (simp add: storage_path_def storage_dir_def)
  from split_at_char [OF this uuid_str_no_slash uuid_str_no_slash]
  have "uuid_str t = uuid_str t'" "uuid_str d @ CHR ''/'' # path_name n = uuid_str d' @ CHR ''/'' # path_name n'" by simp_all
  with split_at_char [OF this(2) uuid_str_no_slash uuid_str_no_slash] show ?thesis by simp
qed


text \<open>
  An upload that raises leaves the database as it was. It adds at most points of the document that then does not exist.
\<close>
theorem failed_upload_rolls_back:
  assumes "inj (up_uuid4 env)" "unused (up_uuid4 env) st"
    and "upload_route env f st t filename content = (Inl e, st')"
  shows "rg_db st' = rg_db st \<and>
     (\<exists>cs. rg_points st' = rg_points st @ map (point_of t) cs \<and> (\<forall>c\<in>set cs. ck_document_id c = up_uuid4 env (rg_drawn st)))"
proof -
  have db: "rg_db st' = rg_db st"
    using assms(3) by (auto simp: upload_route_def Let_def split: if_splits prod.splits sum.splits option.splits)
  show ?thesis
  proof (cases "MAX_UPLOAD_BYTES < length content")
    case True
    then show ?thesis using assms(3) by (auto simp: upload_route_def intro: exI [of _ "[]"])
  next
    case False
    obtain r st1 where up: "upload_document env f st t (upload_name filename) content = (r, st1)"
      by (cases "upload_document env f st t (upload_name filename) content")
    have ps: "rg_points st' = rg_points st1"
      using assms(3) False up by (auto simp: upload_route_def upload_name_def Let_def split: sum.splits option.splits)
    obtain b st2 where b: "begin_upload env f st t (upload_name filename) content = (b, st2)"
      by (cases "begin_upload env f st t (upload_name filename) content")
    consider e' where "b = Inl e'" | body document e' where "b = Inr (body, document)" "up_chunk env body = Inl e'"
      | body document pieces where "b = Inr (body, document)" "up_chunk env body = Inr pieces"
      by (cases b) (auto, metis sumE)
    then show ?thesis
    proof cases
      case 1
      with up b have "st1 = st2" by (simp add: upload_document_def)
      with ps db begin_upload_Inl(2) [OF b [unfolded 1]] show ?thesis by (auto intro: exI [of _ "[]"])
    next
      case 2
      with up b have "st1 = st2" by (simp add: upload_document_def)
      with ps db begin_upload_Inr(3) [OF b [unfolded 2(1)]] show ?thesis by (auto intro: exI [of _ "[]"])
    next
      case 3
      note b' = begin_upload_Inr [OF b [unfolded 3(1)]]
      let ?cs = "make_chunks (up_uuid4 env) (up_embed env) (dc_id document) (rg_drawn st2) pieces"
      have fin: "finish_upload f (st2\<lparr>rg_drawn := rg_drawn st2 + length pieces\<rparr>) t document [] ?cs = (r, st1)"
        using up b 3 by (simp add: upload_document_def)
      have id: "dc_id document = up_uuid4 env (rg_drawn st)" "rg_drawn st2 = Suc (rg_drawn st)" "rg_points st2 = rg_points st"
        using b'(2,3) by (simp_all add: new_document_def)
      have fr: "distinct (map ck_id ?cs)" "\<forall>c\<in>set ?cs. ck_id c \<notin> fst ` set (rg_points (st2\<lparr>rg_drawn := rg_drawn st2 + length pieces\<rparr>))"
        using fresh_chunks [OF assms(1,2), of "rg_drawn st2"] id by simp_all
      obtain k where "rg_points st1 = rg_points st @ map (point_of t) (take k ?cs)"
        using finish_upload_points [OF fin fr] id(3) by auto
      moreover have "\<forall>c\<in>set (take k ?cs). ck_document_id c = up_uuid4 env (rg_drawn st)"
        using make_chunks_simps(4) id(1) by (metis in_set_takeD)
      ultimately show ?thesis using ps db by (intro conjI exI [of _ "take k ?cs"]) simp_all
    qed
  qed
qed

text \<open>
  Such points are searched: when the second point of an upload cannot be written, the first chunk of the file is found
  by vector search although there is no document.
\<close>
theorem failed_upload_stays_searchable:
  defines "env \<equiv> \<lparr>up_decode_utf8 = (\<lambda>s. s), up_pdf_text = Inr, up_chunk = (\<lambda>s. Inr [take 2 s, drop 2 s]),
      up_chunk_with_parents = (\<lambda>s. Inr \<lparr>pc_parents = [], pc_children = []\<rparr>), up_embed = (\<lambda>s. replicate 384 1), up_uuid4 = id\<rparr>"
    and "f \<equiv> \<lparr>uf_write = None, uf_upsert = (\<lambda>i. if i = 1 then Some (OtherException ''ResponseHandlingException'') else None), uf_commit = None\<rparr>"
    and "st \<equiv> \<lparr>rg_db = \<lparr>db_documents = [], db_chunks = []\<rparr>, rg_points = [], rg_drawn = 0, us_files = []\<rparr>"
    and "knn \<equiv> \<lambda>ps q k. map (\<lambda>(i, p). (i, p, 1)) (take (nat k) ps)"
  shows "case upload_route env f st 7 (Some ''a.txt'') ''abcd'' of (r, st') \<Rightarrow>
           r = Inl (OtherException ''ResponseHandlingException'') \<and>
           db_documents (rg_db st') = [] \<and> db_chunks (rg_db st') = [] \<and>
           map sr_content (vs_search knn (rg_points st') [] 7 5) = [''ab'']"
proof -
  have "case upload_document env f st 7 ''a.txt'' ''abcd'' of (r, st') \<Rightarrow>
      r = Inl (OtherException ''ResponseHandlingException'') \<and> map sr_content (vs_search knn (rg_points st') [] 7 5) = [''ab'']"
    unfolding env_def f_def st_def knn_def by code_simp
  then show ?thesis
    by (auto simp: upload_route_def MAX_UPLOAD_BYTES_def Let_def st_def split: prod.splits)
qed

subsection \<open>Where files are written\<close>

lemma split_slash_no_slash: "p \<in> set (split_slash cur s) \<Longrightarrow> CHR ''/'' \<notin> set cur \<Longrightarrow> CHR ''/'' \<notin> set p"
  by (induction cur s rule: split_slash.induct) (auto split: if_splits)

lemma split_slash_ne: "split_slash cur s \<noteq> []"
  by (induction cur s rule: split_slash.induct) auto

lemma split_slash_last:
  "last (split_slash cur s) = rev (takeWhile (\<lambda>c. c \<noteq> CHR ''/'') (rev s @ cur))" if "CHR ''/'' \<notin> set cur"
  using that
proof (induction cur s rule: split_slash.induct)
  case (1 cur)
  then have "takeWhile (\<lambda>c. c \<noteq> CHR ''/'') cur = cur" by (auto simp: takeWhile_eq_all_conv)
  then show ?case by (simp del: takeWhile_eq_all_conv)
next
  case (2 cur c cs)
  show ?case
  proof (cases "c = CHR ''/''")
    case True
    then show ?thesis using 2(1) split_slash_ne [of "[]" cs] by (simp add: takeWhile_tail)
  next
    case False
    then show ?thesis using 2 by simp
  qed
qed

text \<open>
  A file can only be written inside the directory of its own tenant and document: whatever name the client sends, if its type is
  accepted, the last part of the path is a plain name.
\<close>
theorem stored_inside_own_directory:
  assumes "extract_text env filename content = Inr body"
  shows "\<exists>name. storage_path t d filename = storage_dir t d @ ''/'' @ name \<and>
           CHR ''/'' \<notin> set name \<and> name \<noteq> [] \<and> name \<noteq> ''.'' \<and> name \<noteq> ''..''"
proof -
  let ?l = "last (split_slash [] filename)"
  have ext: "file_extension filename \<in> {''.txt'', ''.pdf''}"
    using assms by (auto simp: extract_text_def Let_def split: if_splits)
  then have low: "py_lower (after_last dot filename) \<in> {''txt'', ''pdf''}"
    by (auto simp: file_extension_def dot_def split: if_splits)
  have len: "length (after_last dot filename) = 3"
    using low by (auto simp: py_lower_def dest!: arg_cong [where f = length])
  have noslash: "CHR ''/'' \<notin> set (after_last dot filename)"
  proof
    assume "CHR ''/'' \<in> set (after_last dot filename)"
    then have "lower_char (CHR ''/'') \<in> set (py_lower (after_last dot filename))" by (simp add: py_lower_def)
    with low show False by (auto simp: lower_char_def)
  qed
  let ?r = "takeWhile (\<lambda>c. c \<noteq> dot) (rev filename)"
  have r: "length ?r = 3" "CHR ''/'' \<notin> set ?r" using len noslash by (simp_all add: after_last_def)
  have "dropWhile (\<lambda>c. c \<noteq> dot) (rev filename) \<noteq> []"
    using ext by (auto simp: file_extension_def dropWhile_eq_Nil_conv split: if_splits)
  then obtain x rest where x: "dropWhile (\<lambda>c. c \<noteq> dot) (rev filename) = x # rest" by (meson neq_Nil_conv)
  then have "x = dot" using hd_dropWhile [of "\<lambda>c. c \<noteq> dot" "rev filename"] by simp
  with x have rest: "rev filename = ?r @ dot # rest" by (metis takeWhile_dropWhile_id)
  have "?l = rev (takeWhile (\<lambda>c. c \<noteq> CHR ''/'') (rev filename))"
    using split_slash_last [of "[]" filename] by simp
  also have "takeWhile (\<lambda>c. c \<noteq> CHR ''/'') (rev filename) = ?r @ dot # takeWhile (\<lambda>c. c \<noteq> CHR ''/'') rest"
    using r(2) by (subst rest) (auto simp: takeWhile_append dot_def)
  finally have l: "4 \<le> length ?l" using r(1) by simp
  obtain xs name where xs: "split_slash [] filename = xs @ [name]" 
    using split_slash_ne [of "[]" filename] by (cases "split_slash [] filename" rule: rev_cases) auto
  with l have name: "4 \<le> length name" by simp
  then have "path_name filename = name" by (auto simp: path_name_def xs split: list.splits)
  moreover have "CHR ''/'' \<notin> set name" using split_slash_no_slash [of name "[]" filename] by (simp add: xs)
  ultimately show ?thesis using name by (intro exI [of _ name]) (auto simp: storage_path_def)
qed

subsection \<open>Parents and children\<close>

lemma child_chunks_simps:
  assumes "cs = child_chunks uuid4 emb d n ps children"
  shows "length cs = length children" "map ck_content cs = map fst children" "map ck_id cs = map uuid4 [n..<n + length children]"
    "\<forall>c\<in>set cs. ck_document_id c = d"
    "j < length children \<Longrightarrow> ck_parent_id (cs ! j) = Some (ck_id (ps ! snd (children ! j)))"
proof -
  let ?ms = "make_chunks uuid4 emb d n (map fst children)"
  note m = make_chunks_simps(1-3) [of uuid4 emb d n "map fst children"] make_chunks_simps(4) [of _ uuid4 emb d n "map fst children"]
  have l: "length ?ms = length children" using m(1) by simp
  have keep: "map g (map (\<lambda>(c, i). c\<lparr>ck_parent_id := h i\<rparr>) (zip xs ys)) = map g xs"
    if "length xs = length ys" "\<And>c x. g (c\<lparr>ck_parent_id := x\<rparr>) = g c" for g h and xs :: "chunk list" and ys :: "nat list"
    using that by (induction xs ys rule: list_induct2) auto
  show "length cs = length children" using l by (simp add: assms child_chunks_def)
  show "map ck_content cs = map fst children" unfolding assms child_chunks_def by (subst keep) (simp_all add: l m)
  show "map ck_id cs = map uuid4 [n..<n + length children]" unfolding assms child_chunks_def by (subst keep) (simp_all add: l m)
  show "\<forall>c\<in>set cs. ck_document_id c = d"
    unfolding assms child_chunks_def by (auto dest!: set_zip_leftD m(4))
  show "j < length children \<Longrightarrow> ck_parent_id (cs ! j) = Some (ck_id (ps ! snd (children ! j)))"
    using l by (simp add: assms child_chunks_def)
qed

lemma takeWhile_same: "takeWhile P xs = xs \<Longrightarrow> x \<in> set xs \<Longrightarrow> P x"
  by (metis set_takeWhileD)

text \<open>
  An upload with parents, when it succeeds: Postgres has the parents and then the children of the new document, every
  child refers to the row of the parent it was cut from, and Qdrant has the children alone.
\<close>
theorem upload_with_parents_correct:
  assumes "inj (up_uuid4 env)" "unused (up_uuid4 env) st"
    and "upload_document_with_parents env f st t filename content = (Inr d, st')"
  shows "\<exists>body r ps cs. extract_text env filename content = Inr body \<and> up_chunk_with_parents env body = Inr r \<and>
      dc_chunk_count d = int (length (pc_children r)) \<and>
      rows_of st' t (dc_id d) = ps @ cs \<and> points_of st' t (dc_id d) = map (point_of t) cs \<and>
      map ck_content ps = pc_parents r \<and> map ck_content cs = map fst (pc_children r) \<and>
      (\<forall>j<length cs. snd (pc_children r ! j) < length ps \<and>
         ck_parent_id (cs ! j) = Some (ck_id (ps ! snd (pc_children r ! j))))"
proof -
  let ?id = "up_uuid4 env (rg_drawn st)"
  let ?n = "Suc (rg_drawn st)"
  obtain body document st1 r where b: "begin_upload env f st t filename content = (Inr (body, document), st1)"
    and r: "up_chunk_with_parents env body = Inr r"
    using assms(3) by (auto simp: upload_document_with_parents_def split: prod.splits sum.splits)
  note b' = begin_upload_Inr [OF b]
  have id: "dc_id document = ?id" "rg_drawn st1 = ?n" "rg_points st1 = rg_points st"
    using b'(2,3) by (simp_all add: new_document_def)
  define ps where "ps = parent_chunks (up_uuid4 env) ?id ?n (pc_parents r)"
  define cs where "cs = child_chunks (up_uuid4 env) (up_embed env) ?id (?n + length (pc_parents r)) ps (pc_children r)"
  let ?st2 = "st1\<lparr>rg_drawn := ?n + length (pc_parents r) + length (pc_children r)\<rparr>"
  have all: "takeWhile (\<lambda>(c, i). i < length (pc_parents r)) (pc_children r) = pc_children r"
    using assms(3) b r
    by (auto simp: upload_document_with_parents_def Let_def simp del: takeWhile_eq_all_conv split: if_splits prod.splits sum.splits)
  then have fin: "finish_upload f ?st2 t document ps cs = (Inr d, st')"
    using assms(3) b r id by (simp add: upload_document_with_parents_def Let_def ps_def cs_def del: takeWhile_eq_all_conv)
  have pos: "snd (pc_children r ! j) < length (pc_parents r)" if "j < length (pc_children r)" for j
    using takeWhile_same [OF all nth_mem [OF that]] by (simp add: split_def)
  note c = child_chunks_simps [OF cs_def]
  note p = make_chunks_simps(1-3) [of "up_uuid4 env" "\<lambda>_. replicate EMBEDDING_DIM 0" ?id ?n "pc_parents r", folded parent_chunks_def, folded ps_def]
    make_chunks_simps(4) [of _ "up_uuid4 env" "\<lambda>_. replicate EMBEDDING_DIM 0" ?id ?n "pc_parents r", folded parent_chunks_def, folded ps_def]
  have new: "up_uuid4 env m \<notin> all_ids st" if "rg_drawn st \<le> m" for m using assms(2) that by (simp add: unused_def)
  have fr: "distinct (map ck_id cs)" "\<forall>c\<in>set cs. ck_id c \<notin> fst ` set (rg_points ?st2)"
  proof -
    show "distinct (map ck_id cs)" unfolding c(3) by (simp add: distinct_map inj_on_subset [OF assms(1)])
    have "ck_id ` set cs \<subseteq> up_uuid4 env ` {?n..}" using arg_cong [OF c(3), of set] by auto
    moreover have "fst ` set (rg_points ?st2) \<subseteq> all_ids st" by (auto simp: id(3) all_ids_def)
    moreover have "up_uuid4 env ` {?n..} \<inter> all_ids st = {}" using new by auto
    ultimately show "\<forall>c\<in>set cs. ck_id c \<notin> fst ` set (rg_points ?st2)" by blast
  qed
  obtain k where k0: "rg_points st' = rg_points ?st2 @ map (point_of t) (take k cs)"
    and k1: "k = length cs \<and> d = document\<lparr>dc_chunk_count := int (length cs), dc_status := ''completed''\<rparr> \<and>
       rg_db st' = update_document_status t ((rg_db ?st2)\<lparr>db_chunks := db_chunks (rg_db ?st2) @ map (\<lambda>c. (c, t)) (ps @ cs)\<rparr>)
         (dc_id document) ''completed'' (int (length cs)) \<and> us_files st' = us_files ?st2"
    by (rule finish_upload_points [OF fin fr]) blast
  have "db_chunks (rg_db st1) = db_chunks (rg_db st)" using b'(3) by simp
  with k0 k1 id(3) have k: "rg_points st' = rg_points st @ map (point_of t) cs" "d = document\<lparr>dc_chunk_count := int (length cs), dc_status := ''completed''\<rparr>"
      "db_chunks (rg_db st') = db_chunks (rg_db st) @ map (\<lambda>c. (c, t)) (ps @ cs)"
    by (simp_all add: update_document_status_def)
  have doc: "\<forall>c\<in>set (ps @ cs). ck_document_id c = ?id" "\<forall>c\<in>set cs. ck_document_id c = ?id"
    using c(4) p(4) by auto
  have "rows_of st t ?id = []" "points_of st t ?id = []"
    by (rule new_id_empty [OF new [of "rg_drawn st", OF order_refl]])+
  then have "rows_of st' t ?id = ps @ cs" "points_of st' t ?id = map (point_of t) cs"
    using filter_own_rows [OF doc(1), of ?id t t] filter_own_points [OF doc(2), of t ?id t]
    by (simp_all add: rows_of_def points_of_def k(1,3))
  moreover have "dc_id d = ?id" "dc_chunk_count d = int (length (pc_children r))" using k(2) id(1) c(1) by simp_all
  moreover have "length ps = length (pc_parents r)" "map ck_content ps = pc_parents r" using p(1,2) by simp_all
  ultimately show ?thesis
    using b'(1) r c pos by (intro exI [of _ body] exI [of _ r] exI [of _ ps] exI [of _ cs]) simp
qed

subsection \<open>The types of the stores\<close>

text \<open>What the schema of migration 0002 and the collection of Qdrant declare: keys, references and the dimension of the vectors.\<close>

definition row_typed :: "uuid set \<Rightarrow> uuid set \<Rightarrow> chunk \<Rightarrow> bool" where
  \<comment> \<open>the dimension of the vector column and the two foreign keys\<close>
  "row_typed docs ids c \<longleftrightarrow> length (ck_embedding c) = EMBEDDING_DIM \<and> ck_document_id c \<in> docs \<and> set_option (ck_parent_id c) \<subseteq> ids"

definition db_typed :: "document_db \<Rightarrow> bool" where
  "db_typed db \<longleftrightarrow> distinct (map dc_id (db_documents db)) \<and> distinct (map (ck_id \<circ> fst) (db_chunks db)) \<and>
     (\<forall>r\<in>set (db_chunks db). row_typed (dc_id ` set (db_documents db)) ((ck_id \<circ> fst) ` set (db_chunks db)) (fst r))"

definition points_typed :: "collection \<Rightarrow> bool" where
  "points_typed ps \<longleftrightarrow> distinct (map fst ps) \<and> (\<forall>(i, p)\<in>set ps. length (vp_vector p) = EMBEDDING_DIM)"

definition stores_typed :: "'z rag_stores_scheme \<Rightarrow> bool" where
  "stores_typed st \<longleftrightarrow> db_typed (rg_db st) \<and> points_typed (rg_points st)"

lemma row_typed_mono: "row_typed D I c \<Longrightarrow> D \<subseteq> D' \<Longrightarrow> I \<subseteq> I' \<Longrightarrow> row_typed D' I' c"
  by (auto simp: row_typed_def)

lemma row_typed_insert: "row_typed D I c \<Longrightarrow> row_typed (insert d D) I c"
  by (auto simp: row_typed_def)

lemma save_document_typed: "db_typed db \<Longrightarrow> save_document ctx db d = Inr db' \<Longrightarrow> db_typed db'"
  unfolding db_typed_def save_document_def by (fastforce split: if_splits intro: row_typed_insert)

lemma update_document_status_typed: 
  assumes "db_typed db"
  shows "db_typed (update_document_status ctx db d s n)"
proof -
  let ?db = "update_document_status ctx db d s n"
  have m: "map dc_id (db_documents ?db) = map dc_id (db_documents db)" "db_chunks ?db = db_chunks db"
    by (simp_all add: update_document_status_def)
  have "dc_id ` set (db_documents ?db) = dc_id ` set (db_documents db)" 
    using arg_cong [OF m(1), of set] by (simp only: set_map)
  then show ?thesis using assms unfolding db_typed_def m by simp
qed

lemma insert_chunk_typed: 
  assumes "db_typed db" "insert_chunk ctx t c db = Inr db'"
  shows "db_typed db'"
proof -
  have c: "db' = db\<lparr>db_chunks := db_chunks db @ [(c, t)]\<rparr>" "ck_id c \<notin> (ck_id \<circ> fst) ` set (db_chunks db)"
    "row_typed (dc_id ` set (db_documents db)) (insert (ck_id c) ((ck_id \<circ> fst) ` set (db_chunks db))) c"
    using assms(2) unfolding insert_chunk_def row_typed_def by (simp_all split: if_splits option.splits)
  have "row_typed (dc_id ` set (db_documents db)) (insert (ck_id c) ((ck_id \<circ> fst) ` set (db_chunks db))) (fst r)"
    if "r \<in> set (db_chunks db)" for r
    using assms(1) that unfolding db_typed_def by (blast intro: row_typed_mono)
  with c assms(1) show ?thesis unfolding db_typed_def by simp
qed

lemma save_chunks_typed: "db_typed db \<Longrightarrow> save_chunks ctx db cs t = Inr db' \<Longrightarrow> db_typed db'"
  by (induction cs arbitrary: db) (auto split: sum.splits dest: insert_chunk_typed)

lemma delete_document_typed: 
  assumes "db_typed db" "delete_document ctx db d t = Inr db'" 
  shows "db_typed db'"
proof -
  define gone where "gone = (\<lambda>(c :: chunk, u). ck_document_id c = d \<and> u = t \<and> u = ctx)"
  define doc where "doc = (\<lambda>x :: document. dc_id x = d \<and> dc_tenant_id x = t \<and> dc_tenant_id x = ctx)"
  let ?kept = "filter (\<lambda>r. \<not> gone r) (db_chunks db)"
  let ?docs = "filter (\<lambda>x. \<not> doc x) (db_documents db)"
  have del: "db' = db\<lparr>db_chunks := ?kept, db_documents := ?docs\<rparr>"
    "\<not> (\<exists>(c, u) \<in> set ?kept. \<exists>(g, v) \<in> set (filter gone (db_chunks db)). ck_parent_id c = Some (ck_id g))"
    "(\<exists>x \<in> set (db_documents db). doc x) \<Longrightarrow> \<not> (\<exists>(c, u) \<in> set ?kept. ck_document_id c = d)"
    using assms(2) unfolding delete_document_def Let_def gone_def [symmetric] doc_def [symmetric] by (auto split: if_splits)
  have "row_typed (dc_id ` set ?docs) ((ck_id \<circ> fst) ` set ?kept) (fst r)" if r: "r \<in> set ?kept" for r
  proof -
    have 0: "row_typed (dc_id ` set (db_documents db)) ((ck_id \<circ> fst) ` set (db_chunks db)) (fst r)"
      using assms(1) r unfolding db_typed_def by simp
    have "ck_document_id (fst r) \<in> dc_id ` set ?docs"
      using 0 del(3) r unfolding row_typed_def by (cases r) (force simp: doc_def)
    moreover have "set_option (ck_parent_id (fst r)) \<subseteq> (ck_id \<circ> fst) ` set ?kept"
      using 0 del(2) r unfolding row_typed_def by (cases r) force
    ultimately show ?thesis using 0 by (simp add: row_typed_def)
  qed
  moreover have "distinct (map (ck_id \<circ> fst) ?kept)" "distinct (map dc_id ?docs)"
    using assms(1) unfolding db_typed_def by (simp_all add: distinct_map_filter)
  ultimately show ?thesis unfolding db_typed_def del(1) by simp
qed

lemmas rows_typed = save_document_typed update_document_status_typed save_chunks_typed delete_document_typed



lemma replace_rows_typed: "db_typed db \<Longrightarrow> replace_rows db t d title cs = Inr db' \<Longrightarrow> db_typed db'"
  unfolding replace_rows_def by (auto split: sum.splits) (metis rows_typed)

lemma dict_set_vals: "(k', x) \<in> set (dict_set k v d) \<Longrightarrow> x = v \<or> (k', x) \<in> set d"
  by (induction k v d rule: dict_set.induct) (auto split: if_splits)

lemma vs_upsert_typed: "points_typed ps \<Longrightarrow> vs_upsert ps c t = Inr ps' \<Longrightarrow> points_typed ps'"
  unfolding points_typed_def vs_upsert_def by (fastforce split: if_splits dest: dict_set_vals)

lemma upsert_all_typed: "points_typed ps \<Longrightarrow> points_typed (snd (upsert_all g i t cs ps))"
  by (induction cs arbitrary: i ps) (auto split: sum.splits option.splits dest: vs_upsert_typed)

lemma vs_delete_document_typed: "points_typed ps \<Longrightarrow> points_typed (vs_delete_document ps d t keep)"
  by (auto simp: points_typed_def vs_delete_document_def distinct_map_filter)

lemma upsert_all_typed': "upsert_all g i t cs ps = (r, ps') \<Longrightarrow> points_typed ps \<Longrightarrow> points_typed ps'"
  using upsert_all_typed [of ps g i t cs] by simp

lemma begin_upload_typed: "stores_typed st \<Longrightarrow> stores_typed (snd (begin_upload env f st t n c))"
  by (auto simp: begin_upload_def stores_typed_def Let_def split: sum.splits option.splits intro: rows_typed)

lemma finish_upload_typed: "stores_typed st \<Longrightarrow> stores_typed (snd (finish_upload f st t d un cs))"
  by (auto simp: finish_upload_def stores_typed_def split: sum.splits prod.splits intro: rows_typed upsert_all_typed')

lemma upload_document_typed: "stores_typed st \<Longrightarrow> stores_typed (snd (upload_document env f st t n c))"
  using begin_upload_typed [of st env f t n c] finish_upload_typed
  by (auto simp: upload_document_def stores_typed_def split: sum.splits prod.splits)

lemma upload_with_parents_typed: "stores_typed st \<Longrightarrow> stores_typed (snd (upload_document_with_parents env f st t n c))"
  using begin_upload_typed [of st env f t n c] finish_upload_typed
  by (auto simp: upload_document_with_parents_def stores_typed_def Let_def split: sum.splits prod.splits intro: upsert_all_typed')

lemma replace_typed: "stores_typed st \<Longrightarrow> stores_typed (snd (rag_replace cfg g st t d title body))"
  by (auto simp: rag_replace_def stores_typed_def Let_def split: sum.splits prod.splits option.splits
      intro: replace_rows_typed upsert_all_typed' vs_delete_document_typed)

text \<open>Rows the tables accept, all of them at once.\<close>

lemma save_chunks_accept:
  assumes "\<forall>c\<in>set cs. length (ck_embedding c) = EMBEDDING_DIM \<and> ck_document_id c \<in> dc_id ` set (db_documents db) \<and>
      ck_id c \<notin> (ck_id \<circ> fst) ` set (db_chunks db) \<and> set_option (ck_parent_id c) \<subseteq> (ck_id \<circ> fst) ` set (db_chunks db)"
    and "distinct (map ck_id cs)"
  shows "save_chunks t db cs t = Inr (db\<lparr>db_chunks := db_chunks db @ map (\<lambda>c. (c, t)) cs\<rparr>)"
  using assms
proof (induction cs arbitrary: db)
  case (Cons c cs)
  let ?db = "db\<lparr>db_chunks := db_chunks db @ [(c, t)]\<rparr>"
  have "insert_chunk t t c db = Inr ?db"
    using Cons.prems(1) by (auto simp: insert_chunk_def split: option.splits)
  moreover have "\<forall>x\<in>set cs. ck_id x \<noteq> ck_id c" using Cons.prems(2) by (metis distinct.simps(2) imageI list.set_map list.simps(9))
  then have "save_chunks t ?db cs t = Inr (?db\<lparr>db_chunks := db_chunks ?db @ map (\<lambda>c. (c, t)) cs\<rparr>)"
    using Cons.prems by (intro Cons.IH) auto
  ultimately show ?case by simp
qed simp

lemma save_chunks_append:
  "save_chunks ctx db (xs @ ys) t = (case save_chunks ctx db xs t of Inl e \<Rightarrow> Inl e | Inr db' \<Rightarrow> save_chunks ctx db' ys t)"
  by (induction xs arbitrary: db) (auto split: sum.splits)

lemma upsert_all_accept:
  "\<forall>c\<in>set cs. length (ck_embedding c) = EMBEDDING_DIM \<Longrightarrow> \<forall>i. fault i = None \<Longrightarrow> \<exists>ps'. upsert_all fault i t cs ps = (Inr (), ps')"
  by (induction cs arbitrary: i ps) (auto simp: vs_upsert_def)

lemma make_chunks_rows:
  assumes "\<forall>s. length (emb s) = EMBEDDING_DIM" "c \<in> set (make_chunks uuid4 emb d n ps)"
  shows "length (ck_embedding c) = EMBEDDING_DIM" "ck_parent_id c = None" "ck_document_id c = d" "ck_id c \<in> uuid4 ` {n..<n + length ps}"
proof -
  show "length (ck_embedding c) = EMBEDDING_DIM" "ck_parent_id c = None" "ck_document_id c = d"
    using assms by (auto simp: make_chunks_def)
  have "ck_id c \<in> set (map ck_id (make_chunks uuid4 emb d n ps))" using assms(2) by simp
  then show "ck_id c \<in> uuid4 ` {n..<n + length ps}" by (simp add: make_chunks_simps(3))
qed

lemma finish_upload_accepts:
  assumes "\<forall>i. uf_upsert f i = None" "\<forall>c\<in>set (un @ cs). length (ck_embedding c) = EMBEDDING_DIM \<and> ck_document_id c \<in> dc_id ` set (db_documents (rg_db st))"
    and "distinct (map ck_id (un @ cs))" "\<forall>c\<in>set (un @ cs). ck_id c \<notin> (ck_id \<circ> fst) ` set (db_chunks (rg_db st))"
    and "\<forall>c\<in>set un. ck_parent_id c = None" "\<forall>c\<in>set cs. set_option (ck_parent_id c) \<subseteq> ck_id ` set un"
  shows "\<exists>d st'. finish_upload f st t document un cs = (Inr d, st')"
proof -
  let ?db = "rg_db st"
  let ?db1 = "?db\<lparr>db_chunks := db_chunks ?db @ map (\<lambda>c. (c, t)) un\<rparr>"
  have 1: "save_chunks t ?db un t = Inr ?db1" using assms(2-5) by (intro save_chunks_accept) auto
  have un: "(ck_id \<circ> fst) ` set (db_chunks ?db1) = (ck_id \<circ> fst) ` set (db_chunks ?db) \<union> ck_id ` set un"
    by (simp add: image_Un image_image)
  have "\<forall>c\<in>set cs. length (ck_embedding c) = EMBEDDING_DIM \<and> ck_document_id c \<in> dc_id ` set (db_documents ?db1) \<and>
      ck_id c \<notin> (ck_id \<circ> fst) ` set (db_chunks ?db1) \<and> set_option (ck_parent_id c) \<subseteq> (ck_id \<circ> fst) ` set (db_chunks ?db1)"
    unfolding un using assms(2-4,6) by auto
  then obtain db2 where 2: "save_chunks t ?db1 cs t = Inr db2" using assms(3) save_chunks_accept [of cs ?db1 t] by auto
  obtain ps where "upsert_all (uf_upsert f) 0 t cs (rg_points st) = (Inr (), ps)"
    using upsert_all_accept [of cs "uf_upsert f" 0 t "rg_points st"] assms(1,2) by auto
  with 1 2 show ?thesis by (simp add: finish_upload_def save_chunks_append)
qed

lemma begin_upload_accepts:
  assumes "unused (up_uuid4 env) st" "uf_write f = None" "extract_text env name content = Inr body"
  shows "\<exists>st1. begin_upload env f st t name content = (Inr (body, new_document t (up_uuid4 env (rg_drawn st)) name), st1)"
proof -
  have "up_uuid4 env (rg_drawn st) \<notin> dc_id ` set (db_documents (rg_db st))"
    using assms(1) by (auto simp: unused_def all_ids_def)
  then show ?thesis using assms(2,3) by (auto simp: begin_upload_def Let_def save_document_def new_document_def)
qed


definition ex_upload_env :: upload_env where
  "ex_upload_env = \<lparr>up_decode_utf8 = (\<lambda>s. s), up_pdf_text = Inr, up_chunk = (\<lambda>s. Inr [take 2 s, drop 2 s]),
      up_chunk_with_parents = (\<lambda>s. Inr \<lparr>pc_parents = [s], pc_children = [(take 2 s, 0), (drop 2 s, 0)]\<rparr>),
      up_embed = (\<lambda>s. replicate EMBEDDING_DIM 1), up_uuid4 = (\<lambda>n. n)\<rparr>"

definition ex_upload_faults :: upload_faults where
  "ex_upload_faults = \<lparr>uf_write = None, uf_upsert = (\<lambda>i. None), uf_commit = None\<rparr>"

definition ex_upload_state :: upload_state where
  "ex_upload_state = \<lparr>rg_db = \<lparr>db_documents = [], db_chunks = []\<rparr>, rg_points = [], rg_drawn = 0, us_files = [(storage_path 3 0 ''a.txt'', ''kept'')]\<rparr>"

lemma ex_upload_ok:
  "inj (up_uuid4 ex_upload_env)" "unused (up_uuid4 ex_upload_env) ex_upload_state"
  "\<exists>d st'. upload_route ex_upload_env ex_upload_faults ex_upload_state 7 (Some ''a.txt'') ''abcd'' = (Inr d, st')"
proof -
  have "\<not> isl (fst (upload_document ex_upload_env ex_upload_faults ex_upload_state 7 ''a.txt'' ''abcd''))" by code_simp
  then show "\<exists>d st'. upload_route ex_upload_env ex_upload_faults ex_upload_state 7 (Some ''a.txt'') ''abcd'' = (Inr d, st')"
    by (cases "upload_document ex_upload_env ex_upload_faults ex_upload_state 7 ''a.txt'' ''abcd''")
      (auto simp: upload_route_def MAX_UPLOAD_BYTES_def Let_def ex_upload_faults_def isl_def split: sum.splits)
qed (simp_all add: inj_on_def ex_upload_env_def ex_upload_state_def unused_def all_ids_def)



theorem stored_inside_own_directory_witness:
  "\<exists>name. storage_path 7 9 ''../../main/..evil.txt'' = storage_dir 7 9 @ ''/'' @ name \<and> CHR ''/'' \<notin> set name \<and>
     name \<noteq> [] \<and> name \<noteq> ''.'' \<and> name \<noteq> ''..''"
proof -
  have e: "extract_text ex_upload_env ''../../main/..evil.txt'' ''abcd'' = Inr ''abcd''" by code_simp
  show ?thesis by (rule stored_inside_own_directory [OF e])
qed

end
