(* ===== verification/Rag_Fusion.thy ===== *)
theory Rag_Fusion
  imports Cache_Warmed Cag_Entities
begin

text \<open>
  Reciprocal rank fusion, \<^verbatim>\<open>src/rag/infrastructure/_result_fusion.py\<close>: several rankings are merged by the sum of
  the reciprocals of a chunk's ranks. The two dictionaries are association lists, since the order of the keys decides ties.
\<close>

subsection \<open>Rounding a double changes nothing\<close>

lemma float_exp_unique:
  assumes "0 < x" "2 powi k \<le> x" "x < 2 powi (k + 1)"
  shows "float_exp x = k"
proof (rule ccontr)
  assume "float_exp x \<noteq> k"
  then consider "float_exp x + 1 \<le> k" | "k + 1 \<le> float_exp x" by linarith
  then show False
  proof cases
    case 1
    then have "(2::rat) powi (float_exp x + 1) \<le> 2 powi k" by (rule powi_mono)
    with float_exp_bounds(2) [OF assms(1)] assms(2) show False by linarith
  next
    case 2
    then have "(2::rat) powi (k + 1) \<le> 2 powi float_exp x" by (rule powi_mono)
    with float_exp_bounds(1) [OF assms(1)] assms(3) show False by linarith
  qed
qed

lemma fl_pos_scaled:
  assumes "2 ^ 52 \<le> n" "n < 2 ^ 53"
  shows "fl_pos (of_int n * 2 powi (e - 52)) = of_int n * 2 powi (e - 52)"
proof -
  let ?x = "of_int n * (2::rat) powi (e - 52)"
  have u: "(0::rat) < 2 powi (e - 52)" by simp
  have n: "(2::rat) ^ 52 \<le> of_int n" "(of_int n :: rat) < 2 ^ 53"
  proof -
    have "(of_int (2 ^ 52) :: rat) \<le> of_int n" using assms(1) by (simp only: of_int_le_iff)
    then show "(2::rat) ^ 52 \<le> of_int n" by simp
    have "(of_int n :: rat) < of_int (2 ^ 53)" using assms(2) by (simp only: of_int_less_iff)
    then show "(of_int n :: rat) < 2 ^ 53" by simp
  qed
  have "0 < n" using assms(1) by simp
  then have pos: "0 < ?x" using u by simp
  have "float_exp ?x = e"
    using n u by (intro float_exp_unique [OF pos]) (simp_all only: powi_scale [of e] mult_right_mono mult_strict_right_mono less_imp_le)
  then show ?thesis using u by (simp add: fl_pos_def Let_def round_half_even_int)
qed

lemma fl_pos_idem:
  assumes "0 < x"
  shows "fl_pos (fl_pos x) = fl_pos x"
proof -
  let ?e = "float_exp x"
  let ?u = "(2::rat) powi (?e - 52)"
  let ?n = "round_half_even (x / ?u)"
  have eq: "fl_pos x = of_int ?n * ?u" by (simp add: fl_pos_def Let_def)
  have "round_half_even (of_int (2 ^ 52)) \<le> ?n" "?n \<le> round_half_even (of_int (2 ^ 53))"
    using significand_bounds [OF assms] by (intro round_half_even_mono; simp)+
  then have n: "2 ^ 52 \<le> ?n" "?n \<le> 2 ^ 53" unfolding round_half_even_int by auto
  show ?thesis
  proof (cases "?n = 2 ^ 53")
    case False
    with n show ?thesis unfolding eq by (intro fl_pos_scaled) auto
  next
    case True
    have "fl_pos x = of_int (2 ^ 52) * 2 powi (?e + 1 - 52)"
      unfolding eq True using power_int_add [of "2::rat" 1 "?e - 52"] by (simp add: algebra_simps)
    then show ?thesis using fl_pos_scaled [of "2 ^ 52" "?e + 1"] by simp
  qed
qed

lemma fl_idem [simp]: "fl (fl x) = fl x"
proof -
  have pos: "0 < fl_pos y" if "0 < y" for y
    using fl_pos_binade(1) [OF that] powi_pos [of "float_exp y"] by linarith
  consider "x = 0" | "0 < x" | "0 < - x" by linarith
  then show ?thesis
  proof cases
    case 3
    then show ?thesis using pos [of "- x"] fl_pos_idem [of "- x"] by (simp add: fl_def)
  qed (simp_all add: fl_def pos fl_pos_idem)
qed

lemma fl_add_ge: "0 \<le> y \<Longrightarrow> fl x \<le> fl (fl x + y)"
  using double.rnd_mono [of "fl x" "fl x + y"] by simp

subsection \<open>reciprocal\_rank\_fusion\<close>

definition DEFAULT_RRF_K :: int where
  "DEFAULT_RRF_K = 60"

type_synonym fusion_state = "(uuid \<times> rat) list \<times> (uuid \<times> search_result) list"

definition dict_get :: "('k \<times> 'v) list \<Rightarrow> 'k \<Rightarrow> 'v \<Rightarrow> 'v" where
  \<comment> \<open>\<open>d.get(k, v0)\<close>\<close>
  "dict_get d k v0 = (case map_of d k of None \<Rightarrow> v0 | Some v \<Rightarrow> v)"

fun fuse_list :: "int \<Rightarrow> int \<Rightarrow> fusion_state \<Rightarrow> search_result list \<Rightarrow> fusion_state result" where
  \<comment> \<open>the loop over one list, from rank \<open>rank\<close>\<close>
  "fuse_list k_rrf rank st [] = Inr st"
| "fuse_list k_rrf rank (rrf_scores, by_id) (r # rs) =
     (if k_rrf + rank + 1 = 0 then Inl (OtherException ''ZeroDivisionError'')
      else fuse_list k_rrf (rank + 1)
             (dict_set (sr_chunk_id r)
                (fl (dict_get rrf_scores (sr_chunk_id r) 0 + fl (1 / of_int (k_rrf + rank + 1)))) rrf_scores,
              dict_set (sr_chunk_id r) r by_id) rs)"

fun fuse_lists :: "int \<Rightarrow> fusion_state \<Rightarrow> search_result list list \<Rightarrow> fusion_state result" where
  "fuse_lists k_rrf st [] = Inr st"
| "fuse_lists k_rrf st (l # ls) =
     (case fuse_list k_rrf 0 st l of Inl e \<Rightarrow> Inl e | Inr st' \<Rightarrow> fuse_lists k_rrf st' ls)"

definition py_upto :: "int \<Rightarrow> 'a list \<Rightarrow> 'a list" where
  \<comment> \<open>\<open>xs[:k]\<close>\<close>
  "py_upto k xs = take (py_pos k xs) xs"

definition merged_result :: "fusion_state \<Rightarrow> uuid \<Rightarrow> search_result" where
  "merged_result st cid =
     (case map_of (snd st) cid of
        Some r \<Rightarrow> \<lparr>sr_document_id = sr_document_id r, sr_chunk_id = cid, sr_content = sr_content r,
                   sr_score = dict_get (fst st) cid 0\<rparr>
      | None \<Rightarrow> \<lparr>sr_document_id = 0, sr_chunk_id = cid, sr_content = [], sr_score = 0\<rparr>)"

definition reciprocal_rank_fusion :: "search_result list list \<Rightarrow> int \<Rightarrow> int \<Rightarrow> search_result list result" where
  \<comment> \<open>every key of \<open>rrf_scores\<close> is one of \<open>by_id\<close>, so \<open>by_id[cid]\<close> does not raise\<close>
  "reciprocal_rank_fusion result_lists top_k k_rrf =
     (case fuse_lists k_rrf ([], []) result_lists of
        Inl e \<Rightarrow> Inl e
      | Inr st \<Rightarrow> Inr (map (merged_result st) (py_upto top_k (sorted_desc (\<lambda>cid. dict_get (fst st) cid 0) (map fst (fst st))))))"

subsection \<open>What it computes\<close>

fun list_contrib :: "int \<Rightarrow> int \<Rightarrow> uuid \<Rightarrow> rat \<Rightarrow> search_result list \<Rightarrow> rat" where
  \<comment> \<open>the score of a chunk after one list, from its score before\<close>
  "list_contrib k rank cid a [] = a"
| "list_contrib k rank cid a (r # rs) =
     list_contrib k (rank + 1) cid (if sr_chunk_id r = cid then fl (a + fl (1 / of_int (k + rank + 1))) else a) rs"

definition rrf_score :: "int \<Rightarrow> uuid \<Rightarrow> search_result list list \<Rightarrow> rat" where
  "rrf_score k cid ls = fold (\<lambda>l a. list_contrib k 0 cid a l) ls 0"

definition last_with :: "uuid \<Rightarrow> search_result list \<Rightarrow> search_result option" where
  "last_with cid rs = List.find (\<lambda>r. sr_chunk_id r = cid) (rev rs)"

lemma find_append: "List.find P (xs @ ys) = (case List.find P xs of None \<Rightarrow> List.find P ys | Some x \<Rightarrow> Some x)"
  by (induction xs) auto

lemma last_with_append: "last_with cid (xs @ ys) = (case last_with cid ys of None \<Rightarrow> last_with cid xs | Some r \<Rightarrow> Some r)"
  unfolding last_with_def by (simp add: find_append)

lemma last_with_Some: "last_with cid rs = Some r \<Longrightarrow> r \<in> set rs \<and> sr_chunk_id r = cid"
  by (auto simp: last_with_def find_Some_iff) (metis nth_mem rev_rev_ident set_rev length_rev)

lemma last_with_None: "last_with cid rs = None \<longleftrightarrow> cid \<notin> sr_chunk_id ` set rs"
  by (auto simp: last_with_def find_None_iff)

lemma fuse_list_spec:
  assumes "0 \<le> k" "0 \<le> rank"
  shows "\<exists>s b. fuse_list k rank (scores, by_id) rs = Inr (s, b) \<and>
     (\<forall>cid. dict_get s cid 0 = list_contrib k rank cid (dict_get scores cid 0) rs) \<and>
     (\<forall>cid. map_of b cid = (case last_with cid rs of None \<Rightarrow> map_of by_id cid | Some r \<Rightarrow> Some r)) \<and>
     set (map fst s) = set (map fst scores) \<union> sr_chunk_id ` set rs \<and>
     (distinct (map fst scores) \<longrightarrow> distinct (map fst s))"
  using assms
proof (induction rs arbitrary: rank scores by_id)
  case Nil
  then show ?case by (simp add: last_with_def)
next
  case (Cons r rs)
  let ?sc = "dict_set (sr_chunk_id r) (fl (dict_get scores (sr_chunk_id r) 0 + fl (1 / of_int (k + rank + 1)))) scores"
  obtain s b where *: "fuse_list k (rank + 1) (?sc, dict_set (sr_chunk_id r) r by_id) rs = Inr (s, b)"
     "\<forall>cid. dict_get s cid 0 = list_contrib k (rank + 1) cid (dict_get ?sc cid 0) rs"
     "\<forall>cid. map_of b cid = (case last_with cid rs of None \<Rightarrow> map_of (dict_set (sr_chunk_id r) r by_id) cid | Some r \<Rightarrow> Some r)"
     "set (map fst s) = set (map fst ?sc) \<union> sr_chunk_id ` set rs"
     "distinct (map fst ?sc) \<longrightarrow> distinct (map fst s)"
    using Cons.IH [of "rank + 1" ?sc "dict_set (sr_chunk_id r) r by_id"] Cons.prems by auto
  have "fuse_list k rank (scores, by_id) (r # rs) = Inr (s, b)" using *(1) Cons.prems by simp
  moreover have "dict_get s cid 0 = list_contrib k rank cid (dict_get scores cid 0) (r # rs)" for cid
    using *(2) by (simp add: dict_get_def)
  moreover have "map_of b cid = (case last_with cid (r # rs) of None \<Rightarrow> map_of by_id cid | Some r \<Rightarrow> Some r)" for cid
    using *(3) by (auto simp: last_with_def find_append split: option.splits)
  moreover have "set (map fst s) = set (map fst scores) \<union> sr_chunk_id ` set (r # rs)"
    using *(4) by (auto simp: keys_dict_set)
  moreover have "distinct (map fst scores) \<longrightarrow> distinct (map fst s)" using *(5) by auto
  ultimately show ?case by blast
qed

lemma fuse_lists_spec:
  assumes "0 \<le> k"
  shows "\<exists>s b. fuse_lists k (scores, by_id) ls = Inr (s, b) \<and>
     (\<forall>cid. dict_get s cid 0 = fold (\<lambda>l a. list_contrib k 0 cid a l) ls (dict_get scores cid 0)) \<and>
     (\<forall>cid. map_of b cid = (case last_with cid (concat ls) of None \<Rightarrow> map_of by_id cid | Some r \<Rightarrow> Some r)) \<and>
     set (map fst s) = set (map fst scores) \<union> sr_chunk_id ` set (concat ls) \<and>
     (distinct (map fst scores) \<longrightarrow> distinct (map fst s))"
proof (induction ls arbitrary: scores by_id)
  case Nil
  then show ?case by (simp add: last_with_def)
next
  case (Cons l ls)
  obtain s b where 1: "fuse_list k 0 (scores, by_id) l = Inr (s, b)"
     "\<forall>cid. dict_get s cid 0 = list_contrib k 0 cid (dict_get scores cid 0) l"
     "\<forall>cid. map_of b cid = (case last_with cid l of None \<Rightarrow> map_of by_id cid | Some r \<Rightarrow> Some r)"
     "set (map fst s) = set (map fst scores) \<union> sr_chunk_id ` set l"
     "distinct (map fst scores) \<longrightarrow> distinct (map fst s)"
    using fuse_list_spec [OF assms, of 0 scores by_id l] by auto
  obtain s' b' where 2: "fuse_lists k (s, b) ls = Inr (s', b')"
     "\<forall>cid. dict_get s' cid 0 = fold (\<lambda>l a. list_contrib k 0 cid a l) ls (dict_get s cid 0)"
     "\<forall>cid. map_of b' cid = (case last_with cid (concat ls) of None \<Rightarrow> map_of b cid | Some r \<Rightarrow> Some r)"
     "set (map fst s') = set (map fst s) \<union> sr_chunk_id ` set (concat ls)"
     "distinct (map fst s) \<longrightarrow> distinct (map fst s')"
    using Cons.IH [of s b] by blast
  have "set (map fst s') = set (map fst scores) \<union> sr_chunk_id ` set (concat (l # ls))"
    unfolding 2(4) 1(4) by auto
  moreover have "\<forall>cid. map_of b' cid = (case last_with cid (concat (l # ls)) of None \<Rightarrow> map_of by_id cid | Some r \<Rightarrow> Some r)"
    using 1(3) 2(3) by (simp add: last_with_append split: option.splits)
  ultimately show ?case using 1(1,2,5) 2(1,2,5) by auto
qed

lemma dict_get_Nil [simp]: "dict_get [] k v = v"
  by (simp add: dict_get_def)

text \<open>
  C30. Reciprocal rank fusion returns, for every non-negative constant, the best \<^verbatim>\<open>top_k\<close> of the chunks in the
  rankings: each once, in the order of their fused scores, with the document and the content of its last occurrence. The
  score is the rounded sum of the reciprocal ranks, in the order of the rankings, and no chunk that is left out has a
  higher one.
\<close>
theorem reciprocal_rank_fusion_correct:
  assumes "0 \<le> k" "0 \<le> top_k"
  shows "\<exists>out. reciprocal_rank_fusion ls top_k k = Inr out \<and>
     distinct (map sr_chunk_id out) \<and>
     length out = min (nat top_k) (card (sr_chunk_id ` set (concat ls))) \<and>
     sorted_wrt (\<lambda>x y. sr_score y \<le> sr_score x) out \<and>
     (\<forall>r\<in>set out. sr_score r = rrf_score k (sr_chunk_id r) ls \<and>
        (\<exists>x\<in>set (concat ls). last_with (sr_chunk_id r) (concat ls) = Some x \<and>
           sr_document_id r = sr_document_id x \<and> sr_content r = sr_content x) \<and>
        (\<forall>cid\<in>sr_chunk_id ` set (concat ls) - sr_chunk_id ` set out. rrf_score k cid ls \<le> sr_score r))"
proof -
  obtain s b where *: "fuse_lists k ([], []) ls = Inr (s, b)"
     "\<And>cid. dict_get s cid 0 = rrf_score k cid ls"
     "\<And>cid. map_of b cid = last_with cid (concat ls)"
     "fst ` set s = sr_chunk_id ` set (concat ls)" "distinct (map fst s)"
    using fuse_lists_spec [OF assms(1), of "[]" "[]" ls] unfolding rrf_score_def
    by (fastforce split: option.splits)
  define ids where "ids = sorted_desc (\<lambda>cid. rrf_score k cid ls) (map fst s)"
  have out: "reciprocal_rank_fusion ls top_k k = Inr (map (merged_result (s, b)) (take (nat top_k) ids))"
    using assms(2) by (simp add: reciprocal_rank_fusion_def *(1,2) ids_def py_upto_def py_pos_def)
  have ids: "distinct ids" "set ids = sr_chunk_id ` set (concat ls)" "length ids = card (sr_chunk_id ` set (concat ls))"
  proof -
    show d: "distinct ids" using *(5) unfolding ids_def by (metis mset_sorted_desc mset_eq_imp_distinct_iff)
    show st: "set ids = sr_chunk_id ` set (concat ls)" using *(4) unfolding ids_def by simp
    show "length ids = card (sr_chunk_id ` set (concat ls))" using distinct_card [OF d] st by simp
  qed
  have sorted: "sorted_wrt (\<lambda>x y. rrf_score k y ls \<le> rrf_score k x ls) ids"
    unfolding ids_def by (rule sorted_desc_sorted)
  let ?out = "map (merged_result (s, b)) (take (nat top_k) ids)"
  have m: "sr_chunk_id (merged_result (s, b) c) = c \<and> sr_score (merged_result (s, b) c) = rrf_score k c ls \<and>
      (\<exists>x\<in>set (concat ls). last_with c (concat ls) = Some x \<and> sr_document_id (merged_result (s, b) c) = sr_document_id x \<and>
         sr_content (merged_result (s, b) c) = sr_content x)" if "c \<in> set ids" for c
  proof -
    have "last_with c (concat ls) \<noteq> None" unfolding last_with_None using that ids(2) by blast
    then obtain x where "last_with c (concat ls) = Some x" by blast
    then show ?thesis using last_with_Some [of c "concat ls" x] by (auto simp: merged_result_def *(2,3))
  qed
  have mt: "c \<in> set ids" if "c \<in> set (take (nat top_k) ids)" for c using that by (rule in_set_takeD)
  have cids: "map sr_chunk_id ?out = take (nat top_k) ids"
    using m mt by (simp add: o_def cong: map_cong)
  have "rrf_score k cid ls \<le> rrf_score k c ls"
    if "c \<in> set (take (nat top_k) ids)" "cid \<in> sr_chunk_id ` set (concat ls) - set (take (nat top_k) ids)" for c cid
  proof -
    have "cid \<in> set (drop (nat top_k) ids)"
      using that(2) ids(2) by (metis Diff_iff Un_iff append_take_drop_id set_append)
    moreover have "sorted_wrt (\<lambda>x y. rrf_score k y ls \<le> rrf_score k x ls) (take (nat top_k) ids @ drop (nat top_k) ids)"
      using sorted by simp
    ultimately show ?thesis using that(1) unfolding sorted_wrt_append by blast
  qed
  moreover have "sr_chunk_id ` set ?out = set (take (nat top_k) ids)" using arg_cong [OF cids, of set] by (simp only: set_map)
  ultimately have "\<forall>r\<in>set ?out. \<forall>cid\<in>sr_chunk_id ` set (concat ls) - sr_chunk_id ` set ?out. rrf_score k cid ls \<le> sr_score r"
    using m mt unfolding set_map by (metis (no_types, lifting) imageE)
  moreover have "sorted_wrt (\<lambda>x y. sr_score y \<le> sr_score x) ?out"
    using sorted_wrt_take [OF sorted, of "nat top_k"] m mt
    unfolding sorted_wrt_map by (rule_tac sorted_wrt_mono_rel) auto
  ultimately show ?thesis
    using m mt cids ids by (intro exI [of _ ?out]) (auto simp: out min.commute)
qed

subsection \<open>Better ranks, better score\<close>

fun rank_of :: "uuid \<Rightarrow> search_result list \<Rightarrow> nat option" where
  "rank_of cid [] = None"
| "rank_of cid (r # rs) = (if sr_chunk_id r = cid then Some 0 else map_option Suc (rank_of cid rs))"

definition dominates :: "uuid \<Rightarrow> uuid \<Rightarrow> search_result list \<Rightarrow> bool" where
  \<comment> \<open>where the ranking has the second chunk, it has the first one at least as high\<close>
  "dominates a b l \<longleftrightarrow> (case rank_of b l of None \<Rightarrow> True | Some j \<Rightarrow> (\<exists>i\<le>j. rank_of a l = Some i))"

lemma rank_of_None: "rank_of cid l = None \<longleftrightarrow> cid \<notin> sr_chunk_id ` set l"
  by (induction l) auto

lemma list_contrib_absent: "rank_of cid l = None \<Longrightarrow> list_contrib k rank cid a l = a"
  by (induction l arbitrary: rank) (auto split: if_splits)

lemma list_contrib_rank:
  assumes "distinct (map sr_chunk_id l)" "rank_of cid l = Some i"
  shows "list_contrib k rank cid a l = fl (a + fl (1 / of_int (k + rank + int i + 1)))"
  using assms
proof (induction l arbitrary: i rank)
  case (Cons r l)
  show ?case
  proof (cases "sr_chunk_id r = cid")
    case True
    then have "rank_of cid l = None" using Cons.prems(1) by (auto simp: rank_of_None)
    then show ?thesis using True Cons.prems(2) by (simp add: list_contrib_absent)
  next
    case False
    then obtain j where j: "rank_of cid l = Some j" "i = Suc j" using Cons.prems(2) by auto
    from Cons.IH [OF _ j(1), of "rank + 1"] Cons.prems(1) False j(2) show ?thesis by (simp add: algebra_simps)
  qed
qed simp

lemma contribution_mono:
  assumes "0 \<le> k" "i \<le> j"
  shows "fl (1 / of_int (k + 0 + int j + 1)) \<le> fl (1 / of_int (k + 0 + int i + 1))" "0 \<le> fl (1 / of_int (k + 0 + int i + 1))"
proof -
  have pos: "(0::rat) < of_int (k + 0 + int i + 1)" using assms(1) by (simp only: of_int_0_less_iff)
  have "(1::rat) / of_int (k + 0 + int j + 1) \<le> 1 / of_int (k + 0 + int i + 1)"
    using assms by (intro divide_left_mono pos mult_pos_pos of_int_le_iff [THEN iffD2] of_int_0_less_iff [THEN iffD2]) auto
  then show "fl (1 / of_int (k + 0 + int j + 1)) \<le> fl (1 / of_int (k + 0 + int i + 1))" by (rule double.rnd_mono)
  show "0 \<le> fl (1 / of_int (k + 0 + int i + 1))"
    using double.rnd_mono [of 0 "1 / of_int (k + 0 + int i + 1)"] pos by (simp add: divide_nonneg_nonneg)
qed

lemma list_contrib_dominates:
  assumes "0 \<le> k" "distinct (map sr_chunk_id l)" "dominates a b l" "fl x = x" "y \<le> x"
  shows "list_contrib k 0 b y l \<le> list_contrib k 0 a x l" "fl (list_contrib k 0 a x l) = list_contrib k 0 a x l"
proof -
  show "fl (list_contrib k 0 a x l) = list_contrib k 0 a x l"
    using assms(2,4) by (cases "rank_of a l") (auto simp: list_contrib_absent list_contrib_rank)
  show "list_contrib k 0 b y l \<le> list_contrib k 0 a x l"
  proof (cases "rank_of b l")
    case None
    have "x \<le> list_contrib k 0 a x l"
    proof (cases "rank_of a l")
      case (Some i)
      have "fl x \<le> fl (x + fl (1 / of_int (k + 0 + int i + 1)))"
        using contribution_mono(2) [OF assms(1) order_refl, of i] by (intro double.rnd_mono) simp
      with assms(4) show ?thesis by (simp add: list_contrib_rank [OF assms(2) Some])
    qed (simp add: list_contrib_absent)
    with None assms(5) show ?thesis by (simp add: list_contrib_absent)
  next
    case (Some j)
    then obtain i where i: "i \<le> j" "rank_of a l = Some i" using assms(3) by (auto simp: dominates_def)
    show ?thesis
      unfolding list_contrib_rank [OF assms(2) Some] list_contrib_rank [OF assms(2) i(2)]
      by (rule double.rnd_mono, rule add_mono [OF assms(5) contribution_mono(1) [OF assms(1) i(1)]])
  qed
qed

text \<open>
  Fusion respects the rankings: a chunk that every ranking places at least as high as another one has at
  least its score, rounding included.
\<close>
theorem fusion_respects_ranks:
  assumes "0 \<le> k" "\<forall>l\<in>set ls. distinct (map sr_chunk_id l) \<and> dominates a b l"
  shows "rrf_score k b ls \<le> rrf_score k a ls"
proof -
  have "fold (\<lambda>l s. list_contrib k 0 b s l) ls y \<le> fold (\<lambda>l s. list_contrib k 0 a s l) ls x"
    if "fl x = x" "y \<le> x" for x y
    using assms(2) that
  proof (induction ls arbitrary: x y)
    case (Cons l ls)
    then show ?case using list_contrib_dominates [OF assms(1), of l a b x y] by simp
  qed simp
  then show ?thesis by (simp add: rrf_score_def)
qed

definition ex_ranking :: "nat list \<Rightarrow> search_result list" where
  "ex_ranking = map (\<lambda>i. \<lparr>sr_document_id = 1, sr_chunk_id = i, sr_content = ''c'', sr_score = 1\<rparr>)"

theorem reciprocal_rank_fusion_correct_witness:
  "\<exists>out. reciprocal_rank_fusion [ex_ranking [1, 2, 3], ex_ranking [3, 4]] 2 DEFAULT_RRF_K = Inr out \<and> distinct (map sr_chunk_id out) \<and>
     length out = 2 \<and> sorted_wrt (\<lambda>x y. sr_score y \<le> sr_score x) out"
proof -
  have "card (sr_chunk_id ` set (concat [ex_ranking [1, 2, 3], ex_ranking [3, 4]])) = 4" by code_simp
  then show ?thesis
    using reciprocal_rank_fusion_correct [of DEFAULT_RRF_K 2 "[ex_ranking [1, 2, 3], ex_ranking [3, 4]]"]
    by (auto simp: DEFAULT_RRF_K_def)
qed

end
