(* ===== verification/Rag_Retrieval.thy ===== *)
theory Rag_Retrieval
  imports Rag_Fusion Rag_Chunking Rag_Index
begin

text \<open>
  The retrievers and rerankers of \<^verbatim>\<open>src/rag\<close>, which wrap one another, and the two use cases that answer from them. A
  retriever is a function of the tenant, the query and \<^verbatim>\<open>top_k\<close>; what it reads does not change during a call. The embedding
  model, the cross-encoder, the scores of BM25+ and the chat model are parameters: \<open>llm i p\<close> is the reply of the
  \<open>i\<close>-th completion, made with the prompt \<open>p\<close>. Of several calls made concurrently, \<open>order\<close> says in which order they end: the
  first exception is the one that \<^verbatim>\<open>asyncio.gather\<close> raises.
\<close>

type_synonym retriever = "uuid \<Rightarrow> string \<Rightarrow> int \<Rightarrow> search_result list result"
type_synonym reranker = "string \<Rightarrow> search_result list \<Rightarrow> int \<Rightarrow> search_result list result"
type_synonym completion = "nat \<Rightarrow> string \<Rightarrow> string result"

definition lf :: string where
  "lf = [CHR 0x0A]"

definition gather :: "nat list \<Rightarrow> 'a result list \<Rightarrow> 'a list result" where
  "gather order rs =
     (case List.find (\<lambda>i. i < length rs \<and> isl (rs ! i)) order of
        Some i \<Rightarrow> Inl (projl (rs ! i))
      | None \<Rightarrow> seq_results rs)"

lemma gather_Inr: "gather order rs = Inr xs \<Longrightarrow> rs = map Inr xs"
  by (auto simp: gather_def seq_results_Inr split: option.splits)

lemma gather_all: "gather order (map Inr xs) = Inr xs"
proof -
  have "List.find (\<lambda>i. i < length xs \<and> isl ((map Inr xs :: 'a result list) ! i)) order = None" for xs :: "'a list" by (auto simp: find_None_iff)
  then show ?thesis by (simp add: gather_def seq_results_map)
qed

subsection \<open>Words\<close>

definition is_word :: "char \<Rightarrow> bool" where
  \<comment> \<open>a character of the class \<open>\w\<close>\<close>
  "is_word c =
     (let n = of_char c :: nat in
      (48 \<le> n \<and> n \<le> 57) \<or> (65 \<le> n \<and> n \<le> 90) \<or> n = 95 \<or> (97 \<le> n \<and> n \<le> 122) \<or>
      n \<in> {170, 178, 179, 181, 185, 186, 188, 189, 190} \<or> (192 \<le> n \<and> n \<noteq> 215 \<and> n \<noteq> 247))"

definition is_alnum :: "char \<Rightarrow> bool" where
  \<comment> \<open>a character of the class \<open>[a-zA-Z0-9]\<close>\<close>
  "is_alnum c =
     (let n = of_char c :: nat in (48 \<le> n \<and> n \<le> 57) \<or> (65 \<le> n \<and> n \<le> 90) \<or> (97 \<le> n \<and> n \<le> 122))"

definition word_here :: "string \<Rightarrow> string \<Rightarrow> bool" where
  \<comment> \<open>the word, in any case, and after it no character of a word\<close>
  "word_here w s \<longleftrightarrow> py_lower (take (length w) s) = w \<and> (drop (length w) s = [] \<or> \<not> is_word (hd (drop (length w) s)))"

fun yes_no_from :: "bool \<Rightarrow> string \<Rightarrow> bool option" where
  \<comment> \<open>\<open>\b(yes|no)\b\<close> ignoring case: the first match from a position; whether a word ends right before it\<close>
  "yes_no_from in_word [] = None"
| "yes_no_from in_word (c # cs) =
     (if \<not> in_word \<and> word_here ''yes'' (c # cs) then Some True
      else if \<not> in_word \<and> word_here ''no'' (c # cs) then Some False
      else yes_no_from (is_word c) cs)"

definition yes_no :: "string \<Rightarrow> bool option" where
  "yes_no s = yes_no_from False s"

fun tokens_from :: "string \<Rightarrow> string \<Rightarrow> string list" where
  "tokens_from cur [] = (if cur = [] then [] else [rev cur])"
| "tokens_from cur (c # cs) =
     (if is_alnum c then tokens_from (c # cur) cs
      else if cur = [] then tokens_from [] cs else rev cur # tokens_from [] cs)"

definition tokenize :: "string \<Rightarrow> string list" where
  "tokenize text = tokens_from [] (py_lower text)"

subsection \<open>Rerankers\<close>

definition take_ranked :: "search_result list \<Rightarrow> rat list \<Rightarrow> int \<Rightarrow> search_result list result" where
  \<comment> \<open>sort the results with their scores and keep the first \<open>top_k\<close>\<close>
  "take_ranked results scores top_k =
     (if length results \<noteq> length scores then Inl (ValueError ''zip() arguments have different lengths'')
      else Inr (map fst (py_upto top_k (sorted_desc snd (zip results scores)))))"

definition cross_encoder_rerank :: "((string \<times> string) list \<Rightarrow> rat list result) \<Rightarrow> reranker" where
  "cross_encoder_rerank predict query results top_k =
     (if results = [] then Inr []
      else case predict (map (\<lambda>r. (query, sr_content r)) results) of
             Inl e \<Rightarrow> Inl e
           | Inr scores \<Rightarrow> take_ranked results scores top_k)"

definition jaccard :: "string \<Rightarrow> string \<Rightarrow> rat" where
  "jaccard a b =
     (let tokens_a = set (tokenize a); tokens_b = set (tokenize b)
      in if tokens_a = {} \<or> tokens_b = {} then 0
         else fl (of_nat (card (tokens_a \<inter> tokens_b)) / of_nat (card (tokens_a \<union> tokens_b))))"

definition bi_encoder_score :: "(string \<Rightarrow> embedding) \<Rightarrow> string \<Rightarrow> search_result \<Rightarrow> rat result" where
  "bi_encoder_score emb query r =
     (case cosine_similarity (emb query) (emb (sr_content r)) of
        Inl e \<Rightarrow> Inl e
      | Inr semantic \<Rightarrow> Inr (fl (fl (fl (7 / 10) * semantic) + fl (fl (3 / 10) * jaccard query (sr_content r)))))"

definition bi_encoder_rerank :: "(string \<Rightarrow> embedding) \<Rightarrow> reranker" where
  "bi_encoder_rerank emb query results top_k =
     (if results = [] then Inr []
      else case seq_results (map (bi_encoder_score emb query) results) of
             Inl e \<Rightarrow> Inl e
           | Inr scores \<Rightarrow> take_ranked results scores top_k)"

definition is_digit :: "char \<Rightarrow> bool" where
  "is_digit c = (48 \<le> (of_char c :: nat) \<and> of_char c \<le> (57 :: nat))"

definition digits_value :: "string \<Rightarrow> int" where
  "digits_value ds = foldl (\<lambda>a c. 10 * a + int (of_char c - 48)) 0 ds"

fun first_int :: "string \<Rightarrow> int option" where
  \<comment> \<open>the first match of \<open>-?\d+\<close> as an integer\<close>
  "first_int [] = None"
| "first_int (c # cs) =
     (if is_digit c then Some (digits_value (takeWhile is_digit (c # cs)))
      else if c = CHR ''-'' \<and> cs \<noteq> [] \<and> is_digit (hd cs) then Some (- digits_value (takeWhile is_digit cs))
      else first_int cs)"

definition llm_rerank_prompt :: "string \<Rightarrow> string \<Rightarrow> string" where
  "llm_rerank_prompt query content =
     ''Query: '' @ query @ lf @ lf @ ''Candidate passage:'' @ lf @ content @ lf @ lf @
     ''Score how relevant this passage is to answering the query, from 0 (irrelevant) to 10 (directly answers it). Respond with ONLY the integer score, nothing else.''"

fun llm_scores :: "(nat \<Rightarrow> string \<Rightarrow> string \<Rightarrow> string result) \<Rightarrow> string \<Rightarrow> nat \<Rightarrow> search_result list \<Rightarrow> rat list result" where
  \<comment> \<open>one call of \<open>generate\<close> after the other\<close>
  "llm_scores gen query i [] = Inr []"
| "llm_scores gen query i (r # rs) =
     (case gen i (llm_rerank_prompt query (sr_content r)) [] of
        Inl e \<Rightarrow> Inl e
      | Inr response \<Rightarrow>
          (case llm_scores gen query (Suc i) rs of
             Inl e \<Rightarrow> Inl e
           | Inr scores \<Rightarrow> Inr (of_int (case first_int response of None \<Rightarrow> 0 | Some n \<Rightarrow> n) # scores)))"

definition llm_rerank :: "(nat \<Rightarrow> string \<Rightarrow> string \<Rightarrow> string result) \<Rightarrow> reranker" where
  "llm_rerank gen query results top_k =
     (case llm_scores gen query 0 results of
        Inl e \<Rightarrow> Inl e
      | Inr scores \<Rightarrow> take_ranked results scores top_k)"

text \<open>What every reranker promises: some of the results, each as often as it was there, at most \<^verbatim>\<open>top_k\<close> of them.\<close>

locale selecting_reranker =
  fixes rerank :: reranker
  assumes selects: "rerank query results top_k = Inr out \<Longrightarrow> mset out \<subseteq># mset results"
    and at_most: "rerank query results top_k = Inr out \<Longrightarrow> 0 \<le> top_k \<Longrightarrow> length out \<le> nat top_k"
begin

lemma subset: "rerank query results top_k = Inr out \<Longrightarrow> set out \<subseteq> set results"
  using set_mset_mono [OF selects] by simp

end

lemma map_fst_zip_mset: "length xs = length ys \<Longrightarrow> mset ps = mset (zip xs ys) \<Longrightarrow> mset (map fst ps) = mset xs"
  by (metis map_fst_zip mset_map)

lemma take_ranked_selects:
  assumes "take_ranked results scores top_k = Inr out"
  shows "mset out \<subseteq># mset results" "0 \<le> top_k \<Longrightarrow> length out \<le> nat top_k"
proof -
  let ?ps = "sorted_desc snd (zip results scores)"
  have out: "out = take (py_pos top_k ?ps) (map fst ?ps)" and len: "length results = length scores"
    using assms by (auto simp: take_ranked_def py_upto_def take_map split: if_splits)
  have "mset (map fst ?ps) = mset results" by (rule map_fst_zip_mset [OF len]) simp
  then show "mset out \<subseteq># mset results"
    unfolding out by (metis append_take_drop_id mset_append mset_subset_eq_add_left)
  show "0 \<le> top_k \<Longrightarrow> length out \<le> nat top_k" unfolding out py_pos_def by simp
qed

interpretation cross_encoder: selecting_reranker "cross_encoder_rerank predict" for predict
  by unfold_locales (auto simp: cross_encoder_rerank_def split: if_splits sum.splits dest: take_ranked_selects)

interpretation bi_encoder: selecting_reranker "bi_encoder_rerank emb" for emb
  by unfold_locales (auto simp: bi_encoder_rerank_def split: if_splits sum.splits dest: take_ranked_selects)

interpretation llm_rerank: selecting_reranker "llm_rerank gen" for gen
  by unfold_locales (auto simp: llm_rerank_def split: sum.splits dest: take_ranked_selects)

subsection \<open>Retrievers\<close>

definition search_documents :: "(string \<Rightarrow> embedding) \<Rightarrow> (embedding \<Rightarrow> uuid \<Rightarrow> int \<Rightarrow> search_result list) \<Rightarrow> retriever" where
  "search_documents emb search tenant_id query top_k = Inr (search (emb query) tenant_id top_k)"

definition bm25_rank :: "(string list list \<Rightarrow> string list \<Rightarrow> rat list result) \<Rightarrow> chunk list \<Rightarrow> string \<Rightarrow> int \<Rightarrow> search_result list result" where
  "bm25_rank get_scores chunks query top_k =
     (case get_scores (map (\<lambda>c. tokenize (ck_content c)) chunks) (tokenize query) of
        Inl e \<Rightarrow> Inl e
      | Inr scores \<Rightarrow>
          if length chunks \<noteq> length scores then Inl (ValueError ''zip() arguments have different lengths'')
          else Inr (map (\<lambda>(c, score). \<lparr>sr_document_id = ck_document_id c, sr_chunk_id = ck_id c, sr_content = ck_content c, sr_score = score\<rparr>)
                 (py_upto top_k (sorted_desc snd (zip chunks scores)))))"

definition bm25_retrieve :: "(string list list \<Rightarrow> string list \<Rightarrow> rat list result) \<Rightarrow> (uuid \<Rightarrow> chunk list) \<Rightarrow> retriever" where
  "bm25_retrieve get_scores chunks_for_tenant tenant_id query top_k =
     (let chunks = chunks_for_tenant tenant_id in
      if chunks = [] then Inr [] else bm25_rank get_scores chunks query top_k)"

definition hybrid_retrieve :: "nat list \<Rightarrow> retriever \<Rightarrow> retriever \<Rightarrow> int \<Rightarrow> retriever" where
  "hybrid_retrieve order vector keyword candidate_k tenant_id query top_k =
     (case gather order [vector tenant_id query candidate_k, keyword tenant_id query candidate_k] of
        Inl e \<Rightarrow> Inl e
      | Inr result_lists \<Rightarrow> reciprocal_rank_fusion result_lists top_k DEFAULT_RRF_K)"

fun dec_of :: "nat \<Rightarrow> string" where
  "dec_of n = (if n < 10 then [char_of (48 + n)] else dec_of (n div 10) @ [char_of (48 + n mod 10)])"

declare dec_of.simps [simp del]

definition int_str :: "int \<Rightarrow> string" where
  "int_str i = (if i < 0 then ''-'' @ dec_of (nat (- i)) else dec_of (nat i))"

definition multi_query_prompt :: "int \<Rightarrow> string \<Rightarrow> string" where
  "multi_query_prompt n query =
     ''Generate '' @ int_str n @ '' genuinely different phrasings of the following question, each viewing it from a different angle (not just reworded synonyms of each other). Respond with ONLY the '' @
     int_str n @ '' phrasings, one per line, no numbering, no extra commentary.'' @ lf @ lf @ ''Question: '' @ query"

definition query_variants :: "string \<Rightarrow> string \<Rightarrow> string list" where
  "query_variants query response =
     (let variants = filter (\<lambda>l. l \<noteq> []) (map py_strip (py_splitlines response))
      in if variants = [] then [query] else variants)"

definition multi_query_retrieve :: "nat list \<Rightarrow> completion \<Rightarrow> retriever \<Rightarrow> int \<Rightarrow> retriever" where
  "multi_query_retrieve order llm inner num_queries tenant_id query top_k =
     (case llm 0 (multi_query_prompt num_queries query) of
        Inl e \<Rightarrow> Inl e
      | Inr response \<Rightarrow>
          (case gather order (map (\<lambda>v. inner tenant_id v top_k) (query_variants query response)) of
             Inl e \<Rightarrow> Inl e
           | Inr result_lists \<Rightarrow> reciprocal_rank_fusion result_lists top_k DEFAULT_RRF_K))"

definition hyde_prompt :: "string \<Rightarrow> string" where
  "hyde_prompt query =
     ''Write a short, confident, hypothetical answer to the following question, as if you already knew the answer with certainty. It's fine if the specific details you invent aren't accurate -- the goal is realistic phrasing and vocabulary, not factual correctness. Respond with ONLY the hypothetical answer, no preamble.'' @
     lf @ lf @ ''Question: '' @ query"

definition hyde_retrieve :: "completion \<Rightarrow> retriever \<Rightarrow> retriever" where
  "hyde_retrieve llm inner tenant_id query top_k =
     (case llm 0 (hyde_prompt query) of
        Inl e \<Rightarrow> Inl e
      | Inr hypothetical_answer \<Rightarrow> inner tenant_id hypothetical_answer top_k)"

definition reranking_retrieve :: "retriever \<Rightarrow> reranker \<Rightarrow> int \<Rightarrow> retriever" where
  "reranking_retrieve inner rerank candidate_k tenant_id query top_k =
     (case inner tenant_id query candidate_k of
        Inl e \<Rightarrow> Inl e
      | Inr cands \<Rightarrow> rerank query cands top_k)"

definition relevance_prompt :: "string \<Rightarrow> string \<Rightarrow> string" where
  "relevance_prompt query passage =
     ''Does the following passage directly help answer the query? Respond with ONLY YES or NO, nothing else.'' @ lf @ lf @
     ''Query: '' @ query @ lf @ lf @ ''Passage: '' @ passage"

definition refine_query_prompt :: "string \<Rightarrow> string" where
  "refine_query_prompt query =
     ''The following search query did not retrieve enough relevant results. Write one alternative phrasing of the query that might retrieve better results -- same underlying information need, different wording or angle. Respond with ONLY the alternative query, nothing else.'' @
     lf @ lf @ ''Original query: '' @ query"

definition is_relevant :: "completion \<Rightarrow> string \<Rightarrow> nat \<Rightarrow> search_result \<Rightarrow> bool result" where
  "is_relevant llm query i r =
     (case llm i (relevance_prompt query (sr_content r)) of
        Inl e \<Rightarrow> Inl e
      | Inr response \<Rightarrow> Inr (yes_no response = Some True))"

definition corrective_retrieve :: "nat list \<Rightarrow> completion \<Rightarrow> retriever \<Rightarrow> retriever" where
  "corrective_retrieve order llm inner tenant_id query top_k =
     (case inner tenant_id query top_k of
        Inl e \<Rightarrow> Inl e
      | Inr results \<Rightarrow>
          if results = [] then Inr results
          else case gather order (map (\<lambda>(i, r). is_relevant llm query i r) (enumerate 0 results)) of
                 Inl e \<Rightarrow> Inl e
               | Inr flags \<Rightarrow>
                   (let relevant = map fst (filter snd (zip results flags)) in
                    if relevant \<noteq> [] then Inr relevant
                    else case llm (length results) (refine_query_prompt query) of
                           Inl e \<Rightarrow> Inl e
                         | Inr reply \<Rightarrow>
                             (let refined = py_strip reply in inner tenant_id (if refined = [] then query else refined) top_k)))"

definition scored_sentences :: "(string \<Rightarrow> embedding) \<Rightarrow> embedding \<Rightarrow> search_result list \<Rightarrow> (rat \<times> nat \<times> nat \<times> string) list result" where
  "scored_sentences emb q results =
     seq_results (concat (map (\<lambda>(idx, r). map (\<lambda>(order, sentence).
         case cosine_similarity q (emb sentence) of Inl e \<Rightarrow> Inl e | Inr score \<Rightarrow> Inr (score, idx, order, sentence))
       (enumerate 0 (split_sentences (sr_content r)))) (enumerate 0 results)))"

definition compress :: "(string \<Rightarrow> embedding) \<Rightarrow> (string \<Rightarrow> nat) \<Rightarrow> int \<Rightarrow> string \<Rightarrow> search_result list \<Rightarrow> search_result list result" where
  "compress emb tok target_tokens query results =
     (case scored_sentences emb (emb query) results of
        Inl e \<Rightarrow> Inl e
      | Inr scored \<Rightarrow>
          (let kept = fst (skip_pack (\<lambda>(score, idx, order, sentence). tok sentence) target_tokens (sorted_desc fst scored) 0);
               kept_of = (\<lambda>i. sort_key fst (map (\<lambda>(score, idx, order, sentence). (order, sentence)) (filter (\<lambda>(score, idx, order, sentence). idx = i) kept)))
           in Inr (concat (map (\<lambda>(i, r). if kept_of i = [] then [] else [r\<lparr>sr_content := join '' '' (map snd (kept_of i))\<rparr>]) (enumerate 0 results)))))"

definition compressing_retrieve :: "(string \<Rightarrow> embedding) \<Rightarrow> (string \<Rightarrow> nat) \<Rightarrow> int \<Rightarrow> retriever \<Rightarrow> retriever" where
  "compressing_retrieve emb tok target_tokens inner tenant_id query top_k =
     (case inner tenant_id query top_k of
        Inl e \<Rightarrow> Inl e
      | Inr results \<Rightarrow> if results = [] then Inr [] else compress emb tok target_tokens query results)"

fun expand_parents :: "(uuid \<Rightarrow> chunk option) \<Rightarrow> uuid set \<Rightarrow> search_result list \<Rightarrow> search_result list" where
  "expand_parents get_chunk seen [] = []"
| "expand_parents get_chunk seen (child # rest) =
     (case get_chunk (sr_chunk_id child) of
        None \<Rightarrow> expand_parents get_chunk seen rest
      | Some child_chunk \<Rightarrow>
          (case ck_parent_id child_chunk of
             None \<Rightarrow> expand_parents get_chunk seen rest
           | Some pid \<Rightarrow>
               if pid \<in> seen then expand_parents get_chunk seen rest
               else case get_chunk pid of
                      None \<Rightarrow> expand_parents get_chunk seen rest
                    | Some parent_chunk \<Rightarrow>
                        \<lparr>sr_document_id = sr_document_id child, sr_chunk_id = pid, sr_content = ck_content parent_chunk, sr_score = sr_score child\<rparr>
                          # expand_parents get_chunk (insert pid seen) rest))"

definition parent_document_retrieve :: "(uuid \<Rightarrow> uuid \<Rightarrow> chunk option) \<Rightarrow> retriever \<Rightarrow> retriever" where
  \<comment> \<open>the repository reads in the tenant context of the request\<close>
  "parent_document_retrieve get_chunk inner tenant_id query top_k =
     (case inner tenant_id query top_k of
        Inl e \<Rightarrow> Inl e
      | Inr child_results \<Rightarrow> Inr (expand_parents (get_chunk tenant_id) {} child_results))"

subsection \<open>Use cases\<close>

record chat_answer =
  ca_answer :: string
  ca_sources :: "search_result list"

definition sources_context :: "search_result list \<Rightarrow> string" where
  "sources_context sources = join (lf @ lf) (map sr_content sources)"

definition answer_question :: "(string \<Rightarrow> string \<Rightarrow> string result) \<Rightarrow> retriever \<Rightarrow> int \<Rightarrow> uuid \<Rightarrow> string \<Rightarrow> chat_answer result" where
  "answer_question gen search top_k tenant_id question =
     (case search tenant_id question top_k of
        Inl e \<Rightarrow> Inl e
      | Inr sources \<Rightarrow>
          (case gen question (sources_context sources) of
             Inl e \<Rightarrow> Inl e
           | Inr answer \<Rightarrow> Inr \<lparr>ca_answer = answer, ca_sources = sources\<rparr>))"

definition gate_prompt :: "string \<Rightarrow> string" where
  "gate_prompt question =
     ''Does answering the following question require looking up external, private, or recent information that you would not already know from general training -- or can it be answered correctly from general knowledge alone (common facts, basic arithmetic, well-known concepts)? Respond with ONLY YES (retrieval needed) or NO (no retrieval needed), nothing else.'' @
     lf @ lf @ ''Question: '' @ question"

definition self_rag_answer :: "completion \<Rightarrow> (string \<Rightarrow> string \<Rightarrow> string result) \<Rightarrow> retriever \<Rightarrow> int \<Rightarrow> uuid \<Rightarrow> string \<Rightarrow> chat_answer result" where
  "self_rag_answer llm gen search top_k tenant_id question =
     (case llm 0 (gate_prompt question) of
        Inl e \<Rightarrow> Inl e
      | Inr gate_response \<Rightarrow>
          if yes_no gate_response = Some False
          then (case llm 1 question of Inl e \<Rightarrow> Inl e | Inr answer \<Rightarrow> Inr \<lparr>ca_answer = answer, ca_sources = []\<rparr>)
          else answer_question gen search top_k tenant_id question)"

end
