(* ===== verification/Rag_Isolation.thy ===== *)
theory Rag_Isolation
  imports Rag_Retrieval
begin

text \<open>
  What holds of every composition of retrievers: the chunks they return belong to the tenant that asks. The contract is a locale,
  the two retrievers that read the stores are its instances, and each wrapper keeps it.
\<close>

subsection \<open>The contract and the wrappers\<close>

locale tenant_retriever =
  fixes ret :: retriever and owned :: "uuid \<Rightarrow> uuid set"
  assumes own: "ret t q k = Inr rs \<Longrightarrow> r \<in> set rs \<Longrightarrow> sr_chunk_id r \<in> owned t"
begin

lemma own_map: "ret t q k = Inr rs \<Longrightarrow> sr_chunk_id ` set rs \<subseteq> owned t"
  using own by blast

lemma gathered: "gather order (map (\<lambda>v. ret t v k) vs) = Inr ls \<Longrightarrow> sr_chunk_id ` set (concat ls) \<subseteq> owned t"
proof
  fix x
  assume g: "gather order (map (\<lambda>v. ret t v k) vs) = Inr ls" and "x \<in> sr_chunk_id ` set (concat ls)"
  then obtain l r where l: "l \<in> set ls" "r \<in> set l" "x = sr_chunk_id r" by auto
  have "Inr l \<in> set (map (\<lambda>v. ret t v k) vs)" unfolding gather_Inr [OF g] using l(1) by simp
  then obtain v where "ret t v k = Inr l" by auto
  with own l show "x \<in> owned t" by blast
qed

end

lemma fusion_ids:
  assumes "reciprocal_rank_fusion ls top_k DEFAULT_RRF_K = Inr out" "r \<in> set out"
  shows "sr_chunk_id r \<in> sr_chunk_id ` set (concat ls)"
proof -
  obtain s b where *: "fuse_lists DEFAULT_RRF_K ([], []) ls = Inr (s, b)" "fst ` set s = sr_chunk_id ` set (concat ls)"
    using fuse_lists_spec [of DEFAULT_RRF_K "[]" "[]" ls] by (auto simp: DEFAULT_RRF_K_def)
  have "sr_chunk_id (merged_result (s, b) c) = c" for c by (simp add: merged_result_def split: option.splits)
  then have "sr_chunk_id r \<in> set (map fst s)"
    using assms *(1) by (auto simp: reciprocal_rank_fusion_def py_upto_def dest!: in_set_takeD)
  then show ?thesis using *(2) by simp
qed

lemma expand_parents_ids: "r \<in> set (expand_parents g seen cs) \<Longrightarrow> \<exists>p. g (sr_chunk_id r) = Some p"
proof (induction cs arbitrary: seen)
  case (Cons c cs)
  then show ?case by (auto split: option.splits if_splits)
qed simp

lemma compress_ids: "compress emb tok n q rs = Inr out \<Longrightarrow> r \<in> set out \<Longrightarrow> sr_chunk_id r \<in> sr_chunk_id ` set rs"
  by (auto simp: compress_def Let_def in_set_enumerate_eq split: sum.splits if_splits prod.splits)

lemma find_member: "List.find P xs = Some x \<Longrightarrow> x \<in> set xs \<and> P x"
  by (induction xs) (auto split: if_splits)

context tenant_retriever
begin

lemma hyde: "tenant_retriever (hyde_retrieve llm ret) owned"
  by unfold_locales (auto simp: hyde_retrieve_def split: sum.splits intro: own)

lemma multi_query: "tenant_retriever (multi_query_retrieve order llm ret n) owned"
proof
  fix t q k rs r
  assume a: "multi_query_retrieve order llm ret n t q k = Inr rs" "r \<in> set rs"
  then obtain response ls where "gather order (map (\<lambda>v. ret t v k) (query_variants q response)) = Inr ls"
      "reciprocal_rank_fusion ls k DEFAULT_RRF_K = Inr rs"
    by (auto simp: multi_query_retrieve_def split: sum.splits)
  with a(2) show "sr_chunk_id r \<in> owned t" using fusion_ids gathered by blast
qed

lemma hybrid:
  assumes "tenant_retriever ret2 owned"
  shows "tenant_retriever (hybrid_retrieve order ret ret2 n) owned"
proof
  fix t q k rs r
  assume a: "hybrid_retrieve order ret ret2 n t q k = Inr rs" "r \<in> set rs"
  then obtain ls where g: "gather order [ret t q n, ret2 t q n] = Inr ls" and f: "reciprocal_rank_fusion ls k DEFAULT_RRF_K = Inr rs"
    by (auto simp: hybrid_retrieve_def split: sum.splits)
  from gather_Inr [OF g] obtain l1 l2 where "ls = [l1, l2]" "ret t q n = Inr l1" "ret2 t q n = Inr l2"
    by (cases ls) (auto simp: Cons_eq_map_conv)
  then have "sr_chunk_id ` set (concat ls) \<subseteq> owned t"
    using own_map [of t q n l1] tenant_retriever.own_map [OF assms, of t q n l2] by auto
  with fusion_ids [OF f a(2)] show "sr_chunk_id r \<in> owned t" by blast
qed

lemma reranking:
  assumes "selecting_reranker rerank"
  shows "tenant_retriever (reranking_retrieve ret rerank n) owned"
  by unfold_locales
    (auto simp: reranking_retrieve_def split: sum.splits dest!: selecting_reranker.subset [OF assms] intro: own)

lemma corrective: "tenant_retriever (corrective_retrieve order llm ret) owned"
proof
  fix t q k rs r
  assume a: "corrective_retrieve order llm ret t q k = Inr rs" "r \<in> set rs"
  then obtain results where res: "ret t q k = Inr results" by (auto simp: corrective_retrieve_def split: sum.splits)
  have "(\<exists>q'. ret t q' k = Inr rs) \<or> set rs \<subseteq> set results"
    using a(1) res by (auto simp: corrective_retrieve_def Let_def split: sum.splits if_splits) (meson set_zip_leftD)+
  with a(2) show "sr_chunk_id r \<in> owned t" using own res by blast
qed

lemma compressing: "tenant_retriever (compressing_retrieve emb tok n ret) owned"
proof
  fix t q k rs r
  assume a: "compressing_retrieve emb tok n ret t q k = Inr rs" "r \<in> set rs"
  then obtain results where res: "ret t q k = Inr results" "results = [] \<and> rs = [] \<or> compress emb tok n q results = Inr rs"
    by (auto simp: compressing_retrieve_def split: sum.splits if_splits)
  with a(2) show "sr_chunk_id r \<in> owned t" using compress_ids [of emb tok n q results rs r] own_map [OF res(1)] by auto
qed

lemma parents:
  assumes "\<And>t i p. get_chunk t i = Some p \<Longrightarrow> i \<in> owned t"
  shows "tenant_retriever (parent_document_retrieve get_chunk ret) owned"
  by unfold_locales
    (auto simp: parent_document_retrieve_def split: sum.splits dest!: expand_parents_ids intro: assms)

end

subsection \<open>The stores\<close>

definition owned_ids :: "rag_stores \<Rightarrow> uuid \<Rightarrow> uuid set" where
  "owned_ids st t =
     {ck_id c | c. (c, t) \<in> set (db_chunks (rg_db st))} \<union> {i | i p. (i, p) \<in> set (rg_points st) \<and> vp_tenant_id p = t}"

definition knn_selects :: "(collection \<Rightarrow> embedding \<Rightarrow> int \<Rightarrow> (uuid \<times> point \<times> rat) list) \<Rightarrow> bool" where
  \<comment> \<open>the server returns points among those that pass the filter\<close>
  "knn_selects knn \<longleftrightarrow> (\<forall>ps q k. \<forall>(i, p, s) \<in> set (knn ps q k). (i, p) \<in> set ps)"

definition vector_retriever :: "(string \<Rightarrow> embedding) \<Rightarrow> (collection \<Rightarrow> embedding \<Rightarrow> int \<Rightarrow> (uuid \<times> point \<times> rat) list) \<Rightarrow> rag_stores \<Rightarrow> retriever" where
  "vector_retriever emb knn st = search_documents emb (\<lambda>e t k. vs_search knn (rg_points st) e t k)"

definition keyword_retriever :: "(string list list \<Rightarrow> string list \<Rightarrow> rat list result) \<Rightarrow> rag_stores \<Rightarrow> retriever" where
  "keyword_retriever get_scores st = bm25_retrieve get_scores (\<lambda>t. get_chunks_for_tenant t (rg_db st) t)"

definition chunk_reader :: "rag_stores \<Rightarrow> uuid \<Rightarrow> uuid \<Rightarrow> chunk option" where
  "chunk_reader st t i = get_chunk_by_id t (rg_db st) i"

lemma vector_owns: "knn_selects knn \<Longrightarrow> tenant_retriever (vector_retriever emb knn st) (owned_ids st)"
  by unfold_locales (fastforce simp: vector_retriever_def search_documents_def vs_search_def knn_selects_def owned_ids_def)

interpretation keyword: tenant_retriever "keyword_retriever gs st" "owned_ids st" for gs st
proof
  fix t q k rs r
  assume "keyword_retriever gs st t q k = Inr rs" "r \<in> set rs"
  then obtain scores where r: "r \<in> set (map (\<lambda>(c, score). \<lparr>sr_document_id = ck_document_id c, sr_chunk_id = ck_id c,
      sr_content = ck_content c, sr_score = score\<rparr>) (py_upto k (sorted_desc snd (zip (get_chunks_for_tenant t (rg_db st) t) scores))))"
    by (auto simp: keyword_retriever_def bm25_retrieve_def bm25_rank_def Let_def split: if_splits sum.splits)
  have "set (py_upto k (sorted_desc snd (zip (get_chunks_for_tenant t (rg_db st) t) scores))) \<subseteq>
      set (zip (get_chunks_for_tenant t (rg_db st) t) scores)"
    unfolding py_upto_def by (metis set_sorted_desc set_take_subset)
  with r obtain c s where "(c, s) \<in> set (zip (get_chunks_for_tenant t (rg_db st) t) scores)" "sr_chunk_id r = ck_id c" by auto
  then show "sr_chunk_id r \<in> owned_ids st t"
    by (auto simp: get_chunks_for_tenant_def owned_ids_def read_chunk_def dest!: set_zip_leftD) blast
qed

lemma chunk_reader_owns: "chunk_reader st t i = Some p \<Longrightarrow> i \<in> owned_ids st t"
  by (auto simp: chunk_reader_def get_chunk_by_id_def owned_ids_def dest!: find_member)

inductive composed :: "(collection \<Rightarrow> embedding \<Rightarrow> int \<Rightarrow> (uuid \<times> point \<times> rat) list) \<Rightarrow> rag_stores \<Rightarrow> retriever \<Rightarrow> bool"
  for knn st where
  vector: "composed knn st (vector_retriever emb knn st)"
| keyword: "composed knn st (keyword_retriever gs st)"
| hybrid: "composed knn st v \<Longrightarrow> composed knn st k \<Longrightarrow> composed knn st (hybrid_retrieve order v k n)"
| multi_query: "composed knn st inner \<Longrightarrow> composed knn st (multi_query_retrieve order llm inner n)"
| hyde: "composed knn st inner \<Longrightarrow> composed knn st (hyde_retrieve llm inner)"
| cross_encoder: "composed knn st inner \<Longrightarrow> composed knn st (reranking_retrieve inner (cross_encoder_rerank predict) n)"
| bi_encoder: "composed knn st inner \<Longrightarrow> composed knn st (reranking_retrieve inner (bi_encoder_rerank emb) n)"
| llm_reranker: "composed knn st inner \<Longrightarrow> composed knn st (reranking_retrieve inner (llm_rerank gen) n)"
| corrective: "composed knn st inner \<Longrightarrow> composed knn st (corrective_retrieve order llm inner)"
| compressing: "composed knn st inner \<Longrightarrow> composed knn st (compressing_retrieve emb tok n inner)"
| parents: "composed knn st inner \<Longrightarrow> composed knn st (parent_document_retrieve (chunk_reader st) inner)"

text \<open>
  C13. Tenant isolation of retrieval: however the retrievers are composed, and whatever the models, the scores and the replies are, a search
  returns only chunks that the stores hold for the tenant that asks.
\<close>
theorem retrieval_isolated:
  assumes "knn_selects knn" "composed knn st ret" "ret t q k = Inr rs" "r \<in> set rs"
  shows "sr_chunk_id r \<in> owned_ids st t"
proof -
  have "tenant_retriever ret (owned_ids st)"
    using assms(2)
  proof (induction rule: composed.induct)
    case (vector emb)
    show ?case by (rule vector_owns [OF assms(1)])
  next
    case (keyword gs)
    show ?case by (rule keyword.tenant_retriever_axioms)
  qed (auto intro!: tenant_retriever.hybrid tenant_retriever.multi_query tenant_retriever.hyde tenant_retriever.reranking
      tenant_retriever.corrective tenant_retriever.compressing tenant_retriever.parents
      cross_encoder.selecting_reranker_axioms bi_encoder.selecting_reranker_axioms llm_rerank.selecting_reranker_axioms
      chunk_reader_owns)
  then show ?thesis using assms(3,4) by (rule tenant_retriever.own)
qed

subsection \<open>Compression\<close>

definition all_sentences :: "nat \<Rightarrow> search_result list \<Rightarrow> (nat \<times> nat \<times> string) list" where
  "all_sentences n rs = concat (map (\<lambda>(i, r). map (\<lambda>(k, s). (i, k, s)) (enumerate 0 (split_sentences (sr_content r)))) (enumerate n rs))"

lemma scored_sentences_all:
  assumes "scored_sentences emb q rs = Inr scored"
  shows "map snd scored = all_sentences 0 rs"
proof -
  let ?f = "\<lambda>(i, k, s). case cosine_similarity q (emb s) of Inl e \<Rightarrow> Inl e | Inr score \<Rightarrow> Inr (score, i, k, s)"
  have "scored_sentences emb q rs = seq_results (map ?f (all_sentences 0 rs))"
    unfolding scored_sentences_def all_sentences_def by (simp add: map_concat o_def split_def cong: sum.case_cong)
  with assms have "map ?f (all_sentences 0 rs) = map Inr scored" by (simp add: seq_results_Inr)
  then have "map ?f ys = map Inr zs \<Longrightarrow> map snd zs = ys" for ys zs
    by (induction ys arbitrary: zs) (auto split: sum.splits)
  with \<open>map ?f (all_sentences 0 rs) = map Inr scored\<close> show ?thesis by blast
qed

lemma all_sentences_Cons:
  "all_sentences n (r # rs) = map (\<lambda>(k, s). (n, k, s)) (enumerate 0 (split_sentences (sr_content r))) @ all_sentences (Suc n) rs"
  by (simp add: all_sentences_def)

lemma all_sentences_bound: "(i, k, s) \<in> set (all_sentences n rs) \<Longrightarrow> n \<le> i \<and> i < n + length rs \<and>
    (k, s) \<in> set (enumerate 0 (split_sentences (sr_content (rs ! (i - n)))))"
proof (induction rs arbitrary: n)
  case (Cons r rs)
  then show ?case
    using Cons.IH [of "Suc n"] by (auto simp: all_sentences_Cons Suc_le_eq nth_Cons' Suc_diff_Suc)
qed (simp add: all_sentences_def)

lemma all_sentences_distinct: "distinct (map (\<lambda>(i, k, s). (i, k)) (all_sentences n rs))"
proof (induction rs arbitrary: n)
  case (Cons r rs)
  have "map (\<lambda>(i, k, s). (i, k)) (map (\<lambda>(k, s). (n, k, s)) (enumerate 0 xs)) = map (Pair n) [0..<length xs]" for xs :: "string list"
    by (rule nth_equalityI) (simp_all add: nth_enumerate_eq)
  then have "distinct (map (\<lambda>(i, k, s). (i, k)) (map (\<lambda>(k, s). (n, k, s)) (enumerate 0 xs)))" for xs :: "string list"
    by (simp add: distinct_map inj_on_def)
  moreover have "fst y \<noteq> n" if "y \<in> set (map (\<lambda>(i, k, s). (i, k)) (all_sentences (Suc n) rs))" for y
    using that all_sentences_bound [of _ _ _ "Suc n" rs] by fastforce
  moreover have "fst y = n" if "y \<in> set (map (\<lambda>(i, k, s). (i, k)) (map (\<lambda>(k, s). (n, k, s)) (enumerate 0 xs)))" for y and xs :: "string list"
    using that by auto
  ultimately show ?case using Cons.IH [of "Suc n"] unfolding all_sentences_Cons map_append distinct_append by blast
qed (simp add: all_sentences_def)

lemma enumerate_subset_subseq:
  assumes "set xs \<subseteq> set (enumerate n ys)" "sorted_wrt (<) (map fst xs)"
  shows "subseq (map snd xs) ys"
proof -
  let ?e = "enumerate n ys"
  have e: "sorted_wrt (<) (map fst ?e)" by (simp add: sorted_wrt_map [symmetric] enumerate_eq_zip)
  have inj: "inj_on fst (set ?e)" by (auto simp: inj_on_def in_set_enumerate_eq)
  have "xs = filter (\<lambda>p. p \<in> set xs) ?e"
  proof (rule map_inj_on)
    show "map fst xs = map fst (filter (\<lambda>p. p \<in> set xs) ?e)"
    proof (rule sorted_distinct_set_unique)
      show "sorted (map fst xs)" "distinct (map fst xs)" using assms(2) by (simp_all add: strict_sorted_iff)
      have "sorted_wrt (<) (map fst (filter (\<lambda>p. p \<in> set xs) ?e))"
        using e unfolding sorted_wrt_map by (rule sorted_wrt_filter)
      then show "sorted (map fst (filter (\<lambda>p. p \<in> set xs) ?e))" "distinct (map fst (filter (\<lambda>p. p \<in> set xs) ?e))"
        by (simp_all add: strict_sorted_iff)
      show "set (map fst xs) = set (map fst (filter (\<lambda>p. p \<in> set xs) ?e))" using assms(1) by force
    qed
    show "inj_on fst (set xs \<union> set (filter (\<lambda>p. p \<in> set xs) ?e))"
      using inj assms(1) by (auto intro: inj_on_subset)
  qed
  then have "subseq (map snd xs) (map snd ?e)" by (metis subseq_filter_left subseq_map)
  then show ?thesis by simp
qed

lemma sum_by_index:
  fixes idx :: "'a \<Rightarrow> nat"
  assumes "\<forall>x\<in>set xs. idx x < n"
  shows "sum_list (map f xs) = (\<Sum>i<n. sum_list (map f (filter (\<lambda>x. idx x = i) xs)) :: nat)"
  using assms
proof (induction xs)
  case (Cons x xs)
  have "(\<Sum>i<n. sum_list (map f (filter (\<lambda>x. idx x = i) (x # xs)))) =
      (\<Sum>i<n. (if i = idx x then f x else 0) + sum_list (map f (filter (\<lambda>x. idx x = i) xs)))"
    by (intro sum.cong) auto
  also have "\<dots> = f x + (\<Sum>i<n. sum_list (map f (filter (\<lambda>x. idx x = i) xs)))"
    using Cons.prems by (simp add: sum.distrib)
  finally show ?case using Cons by simp
qed simp

text \<open>
  Compression keeps to its budget: the sentences it keeps have at most \<^verbatim>\<open>target_tokens\<close> tokens together. Each result in the
  output is a result of the input, in the same order, with some of its sentences in their original order.
\<close>
theorem compress_within_budget:
  assumes "compress emb tok n q rs = Inr out" "0 \<le> n"
  shows "\<exists>kept. out = map (\<lambda>(i, ss). (rs ! i)\<lparr>sr_content := join '' '' ss\<rparr>) kept \<and> sorted_wrt (<) (map fst kept) \<and>
     (\<forall>(i, ss)\<in>set kept. i < length rs \<and> ss \<noteq> [] \<and> subseq ss (split_sentences (sr_content (rs ! i)))) \<and>
     int (sum_list (map (\<lambda>(i, ss). sum_list (map tok ss)) kept)) \<le> n"
proof -
  obtain scored where scored: "scored_sentences emb (emb q) rs = Inr scored"
    using assms(1) by (auto simp: compress_def split: sum.splits)
  let ?cost = "\<lambda>(score, idx, order, sentence). tok sentence"
  let ?key = "\<lambda>(score, idx, order, sentence). (idx, order)"
  obtain K used dropped where K: "skip_pack ?cost n (sorted_desc fst scored) 0 = (K, used, dropped)"
    by (cases "skip_pack ?cost n (sorted_desc fst scored) 0") auto
  define of_i where "of_i i = filter (\<lambda>(score, idx, order, sentence). idx = i) K" for i
  define kept_of where "kept_of i = sort_key fst (map (\<lambda>(score, idx, order, sentence). (order, sentence)) (of_i i))" for i
  have out: "out = concat (map (\<lambda>(i, r). if kept_of i = [] then [] else [r\<lparr>sr_content := join '' '' (map snd (kept_of i))\<rparr>]) (enumerate 0 rs))"
    using assms(1) unfolding compress_def scored sum.case Let_def K fst_conv kept_of_def of_i_def by simp
  have all: "set K \<subseteq> set scored" using skip_pack_subset [OF K] by simp
  have snds: "snd ` set scored = set (all_sentences 0 rs)"
    using arg_cong [OF scored_sentences_all [OF scored], of set] by simp
  have mem: "(i, k, s) \<in> set (all_sentences 0 rs)" if "(x, i, k, s) \<in> set K" for x i k s
    unfolding snds [symmetric] using all that by force
  have dist: "sorted_wrt (\<lambda>x y. ?key x \<noteq> ?key y) K"
  proof (rule skip_pack_sorted [OF K])
    have "distinct (map ?key scored)"
    proof -
      have "map ?key scored = map (\<lambda>(i, k, s). (i, k)) (map snd scored)" by (simp add: split_def)
      then show ?thesis using all_sentences_distinct [of 0 rs] by (simp only: scored_sentences_all [OF scored])
    qed
    moreover have "distinct (map ?key (sorted_desc fst scored)) \<longleftrightarrow> distinct (map ?key scored)"
      by (rule mset_eq_imp_distinct_iff) (simp only: mset_map mset_sorted_desc)
    ultimately have "distinct (map ?key (sorted_desc fst scored))" by blast
    then show "sorted_wrt (\<lambda>x y. ?key x \<noteq> ?key y) (sorted_desc fst scored)"
      by (simp add: distinct_conv_nth sorted_wrt_iff_nth_less)
  qed
  have sub: "subseq (map snd (kept_of i)) (split_sentences (sr_content (rs ! i)))" if "i < length rs" for i
  proof (rule enumerate_subset_subseq)
    show "set (kept_of i) \<subseteq> set (enumerate 0 (split_sentences (sr_content (rs ! i))))"
      using mem all_sentences_bound [of _ _ _ 0 rs] by (fastforce simp: kept_of_def of_i_def)
    have "sorted_wrt (\<lambda>x y. ?key x \<noteq> ?key y) (of_i i)" using dist unfolding of_i_def by (rule sorted_wrt_filter)
    then have "sorted_wrt (\<lambda>x y. (case x of (s, j, k, t) \<Rightarrow> k) \<noteq> (case y of (s, j, k, t) \<Rightarrow> k)) (of_i i)"
      by (rule sorted_wrt_mono_rel [rotated]) (auto simp: of_i_def)
    then have "distinct (map (\<lambda>(s, j, k, t). k) (of_i i))"
      unfolding distinct_conv_nth sorted_wrt_iff_nth_less by (auto simp: nat_neq_iff)
    moreover have "mset (map fst (kept_of i)) = mset (map (\<lambda>(s, j, k, t). k) (of_i i))"
      by (simp add: kept_of_def split_def image_mset.compositionality o_def)
    ultimately have "distinct (map fst (kept_of i))" by (metis mset_eq_imp_distinct_iff)
    then show "sorted_wrt (<) (map fst (kept_of i))" by (simp add: strict_sorted_iff kept_of_def)
  qed
  let ?is = "filter (\<lambda>i. kept_of i \<noteq> []) [0..<length rs]"
  define kept where "kept = map (\<lambda>i. (i, map snd (kept_of i))) ?is"
  have "out = map (\<lambda>i. (rs ! i)\<lparr>sr_content := join '' '' (map snd (kept_of i))\<rparr>) ?is"
  proof -
    have "enumerate 0 rs = map (\<lambda>i. (i, rs ! i)) [0..<length rs]"
      by (rule nth_equalityI) (simp_all add: nth_enumerate_eq)
    moreover have "concat (map (\<lambda>i. if P i then [] else [g i]) xs) = map g (filter (\<lambda>i. \<not> P i) xs)" for P :: "nat \<Rightarrow> bool" and g :: "nat \<Rightarrow> search_result" and xs
      by (induction xs) auto
    ultimately show ?thesis unfolding out by (simp add: o_def)
  qed
  then have "out = map (\<lambda>(i, ss). (rs ! i)\<lparr>sr_content := join '' '' ss\<rparr>) kept" by (simp add: kept_def)
  moreover have "sorted_wrt (<) (map fst kept)"
    unfolding kept_def by (simp add: o_def sorted_wrt_filter)
  moreover have "\<forall>(i, ss)\<in>set kept. i < length rs \<and> ss \<noteq> [] \<and> subseq ss (split_sentences (sr_content (rs ! i)))"
    using sub by (auto simp: kept_def)
  moreover have "int (sum_list (map (\<lambda>(i, ss). sum_list (map tok ss)) kept)) \<le> n"
  proof -
    have cost: "sum_list (map tok (map snd (kept_of i))) = sum_list (map ?cost (of_i i))" for i
    proof -
      have "mset (map tok (map snd (kept_of i))) = mset (map ?cost (of_i i))"
        by (simp add: kept_of_def split_def image_mset.compositionality o_def)
      then show ?thesis by (metis sum_mset_sum_list)
    qed
    have "sum_list (map (\<lambda>(i, ss). sum_list (map tok ss)) kept) = (\<Sum>i\<leftarrow>?is. sum_list (map tok (map snd (kept_of i))))"
      by (simp add: kept_def o_def)
    also have "\<dots> = (\<Sum>i\<leftarrow>[0..<length rs]. sum_list (map tok (map snd (kept_of i))))"
      by (rule sum_list_map_filter) auto
    also have "\<dots> = (\<Sum>i<length rs. sum_list (map ?cost (of_i i)))"
      unfolding cost by (simp add: interv_sum_list_conv_sum_set_nat lessThan_atLeast0)
    also have "\<dots> = sum_list (map ?cost K)"
    proof -
      have "\<forall>x\<in>set K. (case x of (s, j, k, t) \<Rightarrow> j) < length rs"
        using mem all_sentences_bound [of _ _ _ 0 rs] by fastforce
      from sum_by_index [OF this, of ?cost] show ?thesis by (simp add: of_i_def split_def)
    qed
    also have "\<dots> = used" using skip_pack_used [OF K] by simp
    finally show ?thesis using skip_pack_within [OF K] assms(2) by simp
  qed
  ultimately show ?thesis by blast
qed

subsection \<open>Correction and parents\<close>

text \<open>
  Corrective retrieval returns exactly the results that the model approves, in their order, when it approves any; only
  otherwise, once, the results of another query, never of an empty one.
\<close>
theorem corrective_retrieve_correct:
  assumes "inner t q k = Inr rs" "rs \<noteq> []" "\<And>i. i < length rs \<Longrightarrow> llm i (relevance_prompt q (sr_content (rs ! i))) = Inr (reply i)"
  shows "corrective_retrieve order llm inner t q k =
     (let approved = map (\<lambda>i. rs ! i) (filter (\<lambda>i. yes_no (reply i) = Some True) [0..<length rs])
      in if approved \<noteq> [] then Inr approved
         else case llm (length rs) (refine_query_prompt q) of
                Inl e \<Rightarrow> Inl e
              | Inr x \<Rightarrow> inner t (if py_strip x = [] then q else py_strip x) k)"
proof -
  let ?flags = "map (\<lambda>i. yes_no (reply i) = Some True) [0..<length rs]"
  have "map (\<lambda>(i, r). is_relevant llm q i r) (enumerate 0 rs) = map Inr ?flags"
    using assms(3) by (intro nth_equalityI) (simp_all add: nth_enumerate_eq is_relevant_def)
  then have g: "gather order (map (\<lambda>(i, r). is_relevant llm q i r) (enumerate 0 rs)) = Inr ?flags" by (simp only: gather_all)
  have "map fst (filter snd (zip (map (\<lambda>i. rs ! i) xs) (map P xs))) = map (\<lambda>i. rs ! i) (filter P xs)" for P xs
    by (induction xs) auto
  then have "map fst (filter snd (zip rs ?flags)) = map (\<lambda>i. rs ! i) (filter (\<lambda>i. yes_no (reply i) = Some True) [0..<length rs])"
    by (metis map_nth)
  then show ?thesis unfolding corrective_retrieve_def by (simp only: assms(1,2) sum.case if_False g Let_def)
qed

lemma expand_parents_seen: "r \<in> set (expand_parents g seen cs) \<Longrightarrow> sr_chunk_id r \<notin> seen"
  by (induction cs arbitrary: seen) (auto split: option.splits if_splits)

text \<open>
  The expansion to parents returns each parent once, with its own text, where its best child stood.
\<close>
theorem parents_once:
  "distinct (map sr_chunk_id (expand_parents g {} cs)) \<and>
   (\<forall>r\<in>set (expand_parents g {} cs). \<exists>c\<in>set cs. \<exists>child parent.
      g (sr_chunk_id c) = Some child \<and> ck_parent_id child = Some (sr_chunk_id r) \<and> g (sr_chunk_id r) = Some parent \<and>
      sr_content r = ck_content parent \<and> sr_score r = sr_score c \<and> sr_document_id r = sr_document_id c)"
proof -
  have "distinct (map sr_chunk_id (expand_parents g seen cs))" for seen
  proof (induction cs arbitrary: seen)
    case (Cons c cs)
    then show ?case using expand_parents_seen by (fastforce split: option.splits)
  qed simp
  moreover have "\<exists>c\<in>set cs. \<exists>child parent.
      g (sr_chunk_id c) = Some child \<and> ck_parent_id child = Some (sr_chunk_id r) \<and> g (sr_chunk_id r) = Some parent \<and>
      sr_content r = ck_content parent \<and> sr_score r = sr_score c \<and> sr_document_id r = sr_document_id c"
    if "r \<in> set (expand_parents g seen cs)" for r seen
    using that
  proof (induction cs arbitrary: seen)
    case (Cons c cs)
    then show ?case by (auto split: option.splits if_splits)
  qed simp
  ultimately show ?thesis by blast
qed

text \<open>
  Parents are searched by keyword: their rows are read like any other, and the expansion, which looks for the parent of every
  hit, drops a hit that is itself a parent. A query that matches a parent best then finds nothing.
\<close>
theorem parent_hit_is_lost:
  defines "parent \<equiv> \<lparr>ck_id = 1, ck_document_id = 9, ck_content = ''alpha beta'', ck_embedding = [], ck_parent_id = None, ck_metadata = []\<rparr>"
    and "child \<equiv> \<lparr>ck_id = 2, ck_document_id = 9, ck_content = ''beta'', ck_embedding = [], ck_parent_id = Some 1, ck_metadata = []\<rparr>"
    and "scores \<equiv> \<lambda>corpus q. Inr (map (\<lambda>ws. of_nat (length (filter (\<lambda>w. w \<in> set q) ws))) corpus)"
  defines "st \<equiv> \<lparr>rg_db = \<lparr>db_documents = [], db_chunks = [(parent, 7), (child, 7)]\<rparr>, rg_points = [], rg_drawn = 0\<rparr>"
  shows "map_sum id (map sr_chunk_id) (keyword_retriever scores st 7 ''alpha beta'' 1) = Inr [1] \<and>
         parent_document_retrieve (chunk_reader st) (keyword_retriever scores st) 7 ''alpha beta'' 1 = Inr []"
  unfolding st_def scores_def parent_def child_def by code_simp

subsection \<open>Examples\<close>

definition ex_knn :: "collection \<Rightarrow> embedding \<Rightarrow> int \<Rightarrow> (uuid \<times> point \<times> rat) list" where
  "ex_knn ps q k = map (\<lambda>(i, p). (i, p, 1)) (take (nat k) ps)"

definition ex_tenants :: rag_stores where
  "ex_tenants = replaces (rag_replace ex_rag_config) ex_rag_stores
     [(ex_rag_faults, 7, 9, ''n'', ''abcd''), (ex_rag_faults, 8, 10, ''m'', ''abxy'')]"

definition ex_retriever :: retriever where
  "ex_retriever = reranking_retrieve
     (hybrid_retrieve [0, 1] (vector_retriever (\<lambda>_. [1]) ex_knn ex_tenants)
        (keyword_retriever (\<lambda>corpus q. Inr (map (\<lambda>ws. of_nat (length (filter (\<lambda>w. w \<in> set q) ws))) corpus)) ex_tenants) 5)
     (cross_encoder_rerank (\<lambda>ps. Inr (map (\<lambda>p. 1) ps))) 5"

lemma ex_retriever_finds: "map_sum id (map sr_content) (ex_retriever 8 ''ab'' 2) = Inr [''ab'', ''xy'']"
  by code_simp

lemma ex_retriever_composed: "knn_selects ex_knn" "composed ex_knn ex_tenants ex_retriever"
  unfolding ex_retriever_def by (auto simp: knn_selects_def ex_knn_def dest: in_set_takeD intro!: composed.intros)

theorem retrieval_isolated_witness:
  "\<exists>r rs. ex_retriever 8 ''ab'' 2 = Inr (r # rs) \<and> sr_content r = ''ab'' \<and> sr_chunk_id r \<in> owned_ids ex_tenants 8"
proof -
  obtain r rs where r: "ex_retriever 8 ''ab'' 2 = Inr (r # rs)" "sr_content r = ''ab''"
    using ex_retriever_finds by (cases "ex_retriever 8 ''ab'' 2") (auto simp: map_eq_Cons_conv)
  then show ?thesis using retrieval_isolated [OF ex_retriever_composed r(1), of r] by auto
qed

definition ex_hit :: search_result where
  "ex_hit = \<lparr>sr_document_id = 1, sr_chunk_id = 2, sr_content = ''One. Twenty. Six.'', sr_score = 1\<rparr>"

lemma ex_compress: "compress (\<lambda>s. if s = ''Six.'' then [1] else [0]) length 9 ''q'' [ex_hit] = Inr [ex_hit\<lparr>sr_content := ''One. Six.''\<rparr>]"
  by code_simp

theorem compress_within_budget_witness:
  "\<exists>kept. [ex_hit\<lparr>sr_content := ''One. Six.''\<rparr>] = map (\<lambda>(i, ss). ([ex_hit] ! i)\<lparr>sr_content := join '' '' ss\<rparr>) kept \<and>
     int (sum_list (map (\<lambda>(i, ss). sum_list (map length ss)) kept)) \<le> 9"
proof -
  have "0 \<le> (9 :: int)" by simp
  from compress_within_budget [OF ex_compress this] show ?thesis by (elim exE conjE) (rule exI, rule conjI)
qed

end
