(* ===== verification/Py_Text.thy ===== *)
theory Py_Text
  imports Freshness_Router
begin

text \<open>
  How Python reads numbers and UUIDs from text that a client or an operator controls: \<^verbatim>\<open>int(s, base)\<close> and
  \<^verbatim>\<open>uuid.UUID(s)\<close>, with what each of them accepts beyond what the program prints.
\<close>

definition int_space :: "string \<Rightarrow> char \<Rightarrow> bool" where
  \<comment> \<open>\<open>int\<close> skips the blanks of C around ASCII text, those of Unicode otherwise\<close>
  "int_space s c =
     (if list_all (\<lambda>d. of_char d < (128 :: nat)) s then of_char c \<in> {9, 10, 11, 12, 13, 32 :: nat} else is_space c)"

definition int_strip :: "string \<Rightarrow> string" where
  "int_strip s = rev (dropWhile (int_space s) (rev (dropWhile (int_space s) s)))"

definition digit_value :: "char \<Rightarrow> nat option" where
  "digit_value c =
     (let v = of_char c :: nat in
      if 48 \<le> v \<and> v < 58 then Some (v - 48)
      else if 97 \<le> v \<and> v < 123 then Some (v - 87)
      else if 65 \<le> v \<and> v < 91 then Some (v - 55) else None)"

fun digits_loop :: "nat \<Rightarrow> nat \<Rightarrow> bool \<Rightarrow> string \<Rightarrow> nat option" where
  \<comment> \<open>underscores may stand between digits\<close>
  "digits_loop b acc prev [] = (if prev then Some acc else None)"
| "digits_loop b acc prev (c # cs) =
     (if c = CHR ''_'' then (if prev then digits_loop b acc False cs else None)
      else case digit_value c of
             None \<Rightarrow> None
           | Some d \<Rightarrow> if d < b then digits_loop b (b * acc + d) True cs else None)"

definition drop_prefix :: "nat \<Rightarrow> string \<Rightarrow> string" where
  \<comment> \<open>\<open>0x\<close> before a hexadecimal number, and an underscore after it\<close>
  "drop_prefix b s =
     (if b = 16 \<and> (startswith s ''0x'' \<or> startswith s ''0X'')
      then if startswith (drop 2 s) ''_'' then drop 3 s else drop 2 s
      else s)"

definition parse_int :: "nat \<Rightarrow> string \<Rightarrow> int option" where
  "parse_int b s =
     (let t = int_strip s;
          neg = startswith t ''-'';
          u = (if neg \<or> startswith t ''+'' then drop 1 t else t)
      in map_option (\<lambda>n. if neg then - int n else int n) (digits_loop b 0 False (drop_prefix b u)))"

function remove_sub :: "string \<Rightarrow> string \<Rightarrow> string" where
  \<comment> \<open>\<open>s.replace(p, '')\<close> for a \<open>p\<close> that is not empty\<close>
  "remove_sub p [] = []"
| "remove_sub p (c # cs) =
     (if p \<noteq> [] \<and> startswith (c # cs) p then remove_sub p (drop (length p) (c # cs)) else c # remove_sub p cs)"
  by pat_completeness auto
termination by (relation "measure (length \<circ> snd)") (auto simp: startswith_def)

definition strip_braces :: "string \<Rightarrow> string" where
  "strip_braces s = (let br = (\<lambda>c. c = CHR ''{'' \<or> c = CHR ''}'') in rev (dropWhile br (rev (dropWhile br s))))"

definition parse_uuid :: "string \<Rightarrow> uuid option" where
  \<comment> \<open>None: \<open>uuid.UUID\<close> raises \<open>ValueError\<close>\<close>
  "parse_uuid s =
     (let h = filter (\<lambda>c. c \<noteq> CHR ''-'') (strip_braces (remove_sub ''uuid:'' (remove_sub ''urn:'' s)))
      in if length h \<noteq> 32 then None
         else case parse_int 16 h of None \<Rightarrow> None | Some n \<Rightarrow> if n < 0 then None else Some (nat n))"

subsection \<open>Round trip\<close>

lemma remove_sub_absent: "x \<in> set p \<Longrightarrow> x \<notin> set s \<Longrightarrow> remove_sub p s = s"
proof (induction p s rule: remove_sub.induct)
  case (2 p c cs)
  have "\<not> startswith (c # cs) p"
    using 2(3,4) by (metis in_set_takeD startswith_def)
  with 2 show ?case by simp
qed simp

definition is_hex :: "char \<Rightarrow> bool" where
  "is_hex c \<longleftrightarrow> c \<in> set ''0123456789abcdef''"

lemma is_hex_cases:
  assumes "is_hex c"
  shows "digit_value c = Some (hex_digit c)" "hex_digit c < 16" "c \<notin> set ''_-+xX{}:''" "\<not> int_space s c"
proof -
  have "list_all (\<lambda>c. digit_value c = Some (hex_digit c) \<and> hex_digit c < 16 \<and> c \<notin> set ''_-+xX{}:'' \<and>
      \<not> int_space ''0'' c \<and> \<not> is_space c) ''0123456789abcdef''"
    by code_simp
  then have "digit_value c = Some (hex_digit c) \<and> hex_digit c < 16 \<and> c \<notin> set ''_-+xX{}:'' \<and> \<not> int_space ''0'' c \<and> \<not> is_space c"
    using assms unfolding is_hex_def list_all_iff by blast
  then show "digit_value c = Some (hex_digit c)" "hex_digit c < 16" "c \<notin> set ''_-+xX{}:''" "\<not> int_space s c"
    by (simp_all add: int_space_def del: hex_digit.simps)
qed

lemma hex_of_is_hex: "\<forall>c\<in>set (hex_of n). is_hex c"
proof (induction n rule: hex_of.induct)
  case (1 n)
  have d: "is_hex (''0123456789abcdef'' ! i)" if "i < 16" for i
    unfolding is_hex_def by (rule nth_mem) (use that in simp)
  show ?case
  proof (cases "n < 16")
    case True
    then show ?thesis unfolding hex_of.simps [of n] using d by simp
  next
    case False
    with 1 d [of "n mod 16"] show ?thesis unfolding hex_of.simps [of n] by simp
  qed
qed

lemma length_hex_of: "n < 16 ^ Suc k \<Longrightarrow> length (hex_of n) \<le> Suc k"
proof (induction k arbitrary: n)
  case (Suc k)
  then have "n div 16 < 16 ^ Suc k" by (simp add: less_mult_imp_div_less mult.commute)
  with Suc show ?case by (subst hex_of.simps) simp
qed (simp add: hex_of.simps)

lemma digits_loop_hex:
  "\<forall>c\<in>set s. is_hex c \<Longrightarrow> digits_loop 16 acc True s = Some (foldl (\<lambda>a c. 16 * a + hex_digit c) acc s)"
proof (induction s arbitrary: acc)
  case (Cons c s)
  with is_hex_cases [of c] show ?case by (simp del: hex_digit.simps)
qed simp

lemma dropWhile_none: "\<forall>c\<in>set s. \<not> P c \<Longrightarrow> dropWhile P s = s"
  by (cases s) auto

lemma parse_int_hex:
  assumes "\<forall>c\<in>set s. is_hex c" "s \<noteq> []"
  shows "parse_int 16 s = Some (int (hex_value s))"
proof -
  have st: "int_strip s = s"
    unfolding int_strip_def using assms(1) is_hex_cases(4) by (simp add: dropWhile_none)
  obtain c cs where s: "s = c # cs" using assms(2) by (cases s) auto
  have c: "is_hex c" "\<forall>c\<in>set cs. is_hex c" using assms(1) by (simp_all add: s)
  note c' = is_hex_cases [OF c(1)]
  have no: "\<not> startswith s ''-''" "\<not> startswith s ''+''" using c'(3) by (simp_all add: s startswith_def)
  have x: "\<not> is_hex (CHR ''x'')" "\<not> is_hex (CHR ''X'')" using is_hex_cases(3) by force+
  have "\<not> startswith s ''0x''" "\<not> startswith s ''0X''"
    using x assms(1) unfolding startswith_def by (metis in_set_takeD list.set_intros)+
  then have p: "drop_prefix 16 s = s" by (simp add: drop_prefix_def)
  have "digits_loop 16 0 False s = Some (hex_value s)"
    using c' digits_loop_hex [OF c(2), of "hex_digit c"] by (simp add: s hex_value_def del: hex_digit.simps)
  then show ?thesis by (simp add: parse_int_def Let_def st no p)
qed

lemma strip_braces_none: "CHR ''{'' \<notin> set s \<Longrightarrow> CHR ''}'' \<notin> set s \<Longrightarrow> strip_braces s = s"
proof -
  assume a: "CHR ''{'' \<notin> set s" "CHR ''}'' \<notin> set s"
  then have "dropWhile (\<lambda>c. c = CHR ''{'' \<or> c = CHR ''}'') t = t" if "set t \<subseteq> set s" for t
    using that by (intro dropWhile_none) blast
  then show ?thesis by (simp add: strip_braces_def Let_def)
qed

text \<open>What \<^verbatim>\<open>str\<close> prints for a UUID is read back as that UUID.\<close>

theorem parse_uuid_str [simp]:
  assumes "u < 2 ^ 128"
  shows "parse_uuid (uuid_str u) = Some u"
proof -
  define d where "d = replicate (32 - length (hex_of u)) CHR ''0'' @ hex_of u"
  have digits: "filter (\<lambda>c. c \<noteq> CHR ''-'') (uuid_str u) = d" unfolding d_def by (rule uuid_str_digits)
  have zero: "is_hex (CHR ''0'')" by (simp add: is_hex_def)
  have hex: "\<forall>c\<in>set d. is_hex c" using hex_of_is_hex [of u] zero by (auto simp: d_def)
  have "\<not> is_hex (CHR ''{'')" "\<not> is_hex (CHR ''}'')" using is_hex_cases(3) by force+
  moreover have "c \<in> set d" if "c \<in> set (uuid_str u)" "c \<noteq> CHR ''-''" for c using that unfolding digits [symmetric] by simp
  ultimately have br: "CHR ''{'' \<notin> set (uuid_str u)" "CHR ''}'' \<notin> set (uuid_str u)" using hex by auto
  have "(2 :: nat) ^ 128 = 16 ^ Suc 31" by simp
  with assms have "length (hex_of u) \<le> 32" using length_hex_of [of u 31] by simp
  then have len: "length d = 32" by (simp add: d_def)
  then have "d \<noteq> []" by auto
  then have "parse_int 16 d = Some (int u)"
    using parse_int_hex [OF hex] hex_value_of [of u] by (simp add: d_def hex_value_pad)
  moreover have "remove_sub ''uuid:'' (remove_sub ''urn:'' (uuid_str u)) = uuid_str u"
    by (simp add: remove_sub_absent [of "CHR '':''"] uuid_str_no_colon)
  ultimately show ?thesis by (simp add: parse_uuid_def Let_def strip_braces_none [OF br] digits len)
qed

end
