(* ===== verification/Api_Limits.thy ===== *)
theory Api_Limits
  imports Py_Text Rag_Retrieval
begin

text \<open>
  What stands before the routes of \<^verbatim>\<open>src/api\<close>: the rate limiter over Redis (\<^verbatim>\<open>redis_rate_limiter.py\<close>), its enforcement and the
  headers it reports (\<^verbatim>\<open>rate_limit.py\<close>), the address a limit is keyed by (\<^verbatim>\<open>client_address.py\<close>), and the middlewares that bound the body
  of a request and add the security headers.

  A Redis key holds a value and the time at which it expires, if any, and is dead from that very instant on. \<open>ttl_of\<close> is how the server rounds the rest of a
  life to seconds. \<open>now\<close> is the clock of the server, \<open>wall\<close> that of the process. An environment variable is an optional string.
\<close>

datatype api_error =
    RateLimitExceeded int int datetime string
  | InvalidCredentials
  | EmailAlreadyRegistered string
  | TokenExpired
  | TokenAlreadyUsed
  | Domain py_error

type_synonym 'a api_result = "api_error + 'a"
type_synonym headers = "(string \<times> string) list"

subsection \<open>RedisRateLimiter\<close>

type_synonym counter = "(int \<times> datetime option) option"
type_synonym counters = "string \<Rightarrow> counter"

definition redis_live :: "datetime \<Rightarrow> counter \<Rightarrow> counter" where
  "redis_live now e = (case e of Some (n, Some t) \<Rightarrow> if now < t then e else None | _ \<Rightarrow> e)"

definition redis_incr :: "datetime \<Rightarrow> counter \<Rightarrow> counter" where
  "redis_incr now e = (case redis_live now e of None \<Rightarrow> Some (1, None) | Some (n, t) \<Rightarrow> Some (n + 1, t))"

definition redis_expire_nx :: "datetime \<Rightarrow> int \<Rightarrow> counter \<Rightarrow> counter" where
  \<comment> \<open>\<open>EXPIRE NX\<close>; a life that is not positive deletes the key\<close>
  "redis_expire_nx now secs e =
     (case e of Some (n, None) \<Rightarrow> if secs \<le> 0 then None else Some (n, Some (now + seconds secs)) | _ \<Rightarrow> e)"

definition redis_ttl :: "(int \<Rightarrow> int) \<Rightarrow> datetime \<Rightarrow> counter \<Rightarrow> int" where
  "redis_ttl ttl_of now e = (case e of None \<Rightarrow> - 2 | Some (n, None) \<Rightarrow> - 1 | Some (n, Some t) \<Rightarrow> ttl_of (t - now))"

definition check_counter :: "datetime \<Rightarrow> int \<Rightarrow> int \<Rightarrow> counter \<Rightarrow> int \<times> counter" where
  \<comment> \<open>the transaction on one key: its count and what it leaves\<close>
  "check_counter now limit window_seconds e =
     (let e1 = redis_incr now e in (case e1 of None \<Rightarrow> 0 | Some (n, _) \<Rightarrow> n, redis_expire_nx now window_seconds e1))"

definition limiter_check :: "(int \<Rightarrow> int) \<Rightarrow> datetime \<Rightarrow> datetime \<Rightarrow> counters \<Rightarrow> string \<Rightarrow> int \<Rightarrow> int \<Rightarrow>
    (bool \<times> int \<times> datetime) \<times> counters" where
  "limiter_check ttl_of now wall c key limit window_seconds =
     (let redis_key = ''identity:ratelimit:'' @ key;
          (count, e) = check_counter now limit window_seconds (c redis_key);
          reset_at = wall + seconds (max (redis_ttl ttl_of now e) 0)
      in (if limit < count then (False, 0, reset_at) else (True, limit - count, reset_at), c(redis_key := e)))"

subsection \<open>Limits and their enforcement\<close>

definition WINDOW_SECONDS :: int where "WINDOW_SECONDS = 60"

definition AUTH_LIMIT :: int where "AUTH_LIMIT = 5"

definition SESSION_CREATE_LIMIT :: int where "SESSION_CREATE_LIMIT = 20"

definition INGESTION_RATE_LIMIT :: int where "INGESTION_RATE_LIMIT = 10"

definition GLOBAL_CHAT_KEY :: string where "GLOBAL_CHAT_KEY = ''global:chat''"

definition GLOBAL_CHAT_WINDOW_SECONDS :: int where "GLOBAL_CHAT_WINDOW_SECONDS = 3600"

definition env_limit :: "string \<Rightarrow> string \<Rightarrow> string option \<Rightarrow> int api_result" where
  "env_limit name default_limit value =
     (case parse_int 10 (case value of None \<Rightarrow> default_limit | Some v \<Rightarrow> v) of
        None \<Rightarrow> Inl (Domain (ValueError ''invalid literal for int() with base 10''))
      | Some limit \<Rightarrow> if limit < 1 then Inl (Domain (ValueError (name @ '' must be at least 1''))) else Inr limit)"

definition chat_rate_limit :: "string option \<Rightarrow> int api_result" where
  "chat_rate_limit value = env_limit ''CHAT_RATE_LIMIT_PER_MINUTE'' ''100'' value"

definition global_chat_limit :: "string option \<Rightarrow> int api_result" where
  "global_chat_limit value = env_limit ''CHAT_RATE_LIMIT_GLOBAL_PER_HOUR'' ''10000'' value"

record http_state =
  ht_counters :: counters
  ht_stash :: "headers option"
  ht_response :: headers

definition update_headers :: "headers \<Rightarrow> headers \<Rightarrow> headers" where
  "update_headers new old = fold (\<lambda>(k, v) h. dict_set k v h) new old"

record limit_env =
  le_ttl_of :: "int \<Rightarrow> int"
  le_iso :: "datetime \<Rightarrow> string"
  le_now :: datetime
  le_wall :: datetime

definition limit_headers :: "(datetime \<Rightarrow> string) \<Rightarrow> int \<Rightarrow> int \<Rightarrow> datetime \<Rightarrow> headers" where
  "limit_headers isoformat limit remaining reset_at =
     [(''X-RateLimit-Limit'', int_str limit), (''X-RateLimit-Remaining'', int_str remaining), (''X-RateLimit-Reset'', isoformat reset_at)]"

definition enforce_rate_limit :: "limit_env \<Rightarrow> string \<Rightarrow> int \<Rightarrow> int \<Rightarrow> 'z http_state_scheme \<Rightarrow> unit api_result \<times> 'z http_state_scheme" where
  "enforce_rate_limit le key limit window_seconds s =
     (case limiter_check (le_ttl_of le) (le_now le) (le_wall le) (ht_counters s) key limit window_seconds of
        ((allowed, remaining, reset_at), c) \<Rightarrow>
          if \<not> allowed
          then (Inl (RateLimitExceeded limit 0 reset_at key), s\<lparr>ht_counters := c, ht_stash := None\<rparr>)
          else let h = limit_headers (le_iso le) limit remaining reset_at
               in (Inr (), if ht_stash s = None
                           then s\<lparr>ht_counters := c, ht_response := update_headers h (ht_response s), ht_stash := Some h\<rparr>
                           else s\<lparr>ht_counters := c\<rparr>))"

definition rate_limit_exceeded_handler :: "limit_env \<Rightarrow> int \<Rightarrow> int \<Rightarrow> datetime \<Rightarrow> headers" where
  "rate_limit_exceeded_handler le limit remaining reset_at = limit_headers (le_iso le) limit remaining reset_at"

definition rate_limit_headers :: "headers option \<Rightarrow> headers \<Rightarrow> headers" where
  \<comment> \<open>\<open>RateLimitHeadersMiddleware.dispatch\<close> on the headers of the final response\<close>
  "rate_limit_headers stash h = (case stash of None \<Rightarrow> h | Some new \<Rightarrow> update_headers new h)"

definition SECURITY_HEADERS :: headers where
  "SECURITY_HEADERS =
     [(''Strict-Transport-Security'', ''max-age=63072000; includeSubDomains''), (''X-Content-Type-Options'', ''nosniff''),
      (''X-Frame-Options'', ''DENY''), (''Referrer-Policy'', ''no-referrer'')]"

definition security_headers :: "headers \<Rightarrow> headers" where
  "security_headers h = update_headers SECURITY_HEADERS h"

subsection \<open>The address of the client\<close>

fun split_char :: "char \<Rightarrow> string \<Rightarrow> string list" where
  "split_char c [] = [[]]"
| "split_char c (x # xs) =
     (if x = c then [] # split_char c xs
      else case split_char c xs of [] \<Rightarrow> [[x]] | w # ws \<Rightarrow> (x # w) # ws)"

definition trusted_proxy_count :: "string option \<Rightarrow> int" where
  "trusted_proxy_count value =
     (case parse_int 10 (case value of None \<Rightarrow> ''0'' | Some v \<Rightarrow> v) of None \<Rightarrow> 0 | Some n \<Rightarrow> n)"

definition real_client_ip :: "string option \<Rightarrow> string list \<Rightarrow> string option \<Rightarrow> string" where
  "real_client_ip value raw_lines client =
     (let count = trusted_proxy_count value;
          hops = filter (\<lambda>h. h \<noteq> []) (map py_strip (split_char (CHR '','') (join '', '' raw_lines)))
      in if 0 < count \<and> raw_lines \<noteq> [] \<and> count \<le> int (length hops) then hops ! (length hops - nat count)
         else case client of None \<Rightarrow> ''unknown'' | Some host \<Rightarrow> host)"

subsection \<open>MaxBodySizeMiddleware\<close>

datatype asgi_message = Http_Request string bool | Other_Message string

datatype body_outcome =
    Rejected
  | Forwarded string "asgi_message list"
  | Waiting

fun drain_body :: "int \<Rightarrow> int \<Rightarrow> string list \<Rightarrow> asgi_message list \<Rightarrow> body_outcome" where
  \<comment> \<open>the messages are those that \<open>receive\<close> will return; without one it waits\<close>
  "drain_body limit total_bytes chunks [] = Waiting"
| "drain_body limit total_bytes chunks (Other_Message kind # ms) = Forwarded (concat chunks) ms"
| "drain_body limit total_bytes chunks (Http_Request body more_body # ms) =
     (if limit < total_bytes + int (length body) then Rejected
      else if more_body then drain_body limit (total_bytes + int (length body)) (chunks @ [body]) ms
      else Forwarded (concat (chunks @ [body])) ms)"

record max_body_size =
  mb_default_max_bytes :: int
  mb_path_overrides :: "(string \<times> int) list"

definition limit_for :: "max_body_size \<Rightarrow> string \<Rightarrow> int" where
  "limit_for m path = (case map_of (mb_path_overrides m) path of None \<Rightarrow> mb_default_max_bytes m | Some n \<Rightarrow> n)"

definition declared_length :: "headers \<Rightarrow> int option" where
  \<comment> \<open>the first \<open>content-length\<close>, if it is a number; \<open>int\<close> on bytes takes ASCII alone\<close>
  "declared_length hs =
     (case map_of hs ''content-length'' of
        None \<Rightarrow> None
      | Some v \<Rightarrow> if list_all (\<lambda>c. of_char c < (128 :: nat)) v then parse_int 10 v else None)"

definition body_guard :: "max_body_size \<Rightarrow> string \<Rightarrow> headers \<Rightarrow> asgi_message list \<Rightarrow> body_outcome" where
  "body_guard m path hs messages =
     (let limit = limit_for m path in
      case declared_length hs of
        Some declared \<Rightarrow> if limit < declared then Rejected else drain_body limit 0 [] messages
      | None \<Rightarrow> drain_body limit 0 [] messages)"

definition app_receives :: "body_outcome \<Rightarrow> asgi_message list option" where
  \<comment> \<open>what the application receives, \<open>replay_receive\<close>: the buffered body as one message, then the rest\<close>
  "app_receives r = (case r of Forwarded body rest \<Rightarrow> Some (Http_Request body False # rest) | _ \<Rightarrow> None)"

definition api_body_size :: max_body_size where
  "api_body_size =
     \<lparr>mb_default_max_bytes = 16 * 1024,
      mb_path_overrides = [(''/documents'', 11 * 1024 * 1024), (''/data-sources'', 11 * 1024 * 1024)]\<rparr>"


subsection \<open>How many requests a limit lets pass\<close>

fun limiter_run :: "(int \<Rightarrow> int) \<Rightarrow> (string \<Rightarrow> int \<times> int) \<Rightarrow> counters \<Rightarrow> (datetime \<times> string) list \<Rightarrow> (datetime \<times> string \<times> bool) list" where
  \<comment> \<open>checks one after the other; \<open>lims\<close> is the limit and the window of each key\<close>
  "limiter_run ttl_of lims c [] = []"
| "limiter_run ttl_of lims c ((t, key) # es) =
     (case limiter_check ttl_of t t c key (fst (lims key)) (snd (lims key)) of
        ((allowed, _), c') \<Rightarrow> (t, key, allowed) # limiter_run ttl_of lims c' es)"

fun checks :: "int \<Rightarrow> int \<Rightarrow> counter \<Rightarrow> datetime list \<Rightarrow> bool list" where
  "checks limit w e [] = []"
| "checks limit w e (t # ts) =
     (case check_counter t limit w e of (n, e') \<Rightarrow> (n \<le> limit) # checks limit w e' ts)"

fun counter_after :: "int \<Rightarrow> int \<Rightarrow> counter \<Rightarrow> datetime list \<Rightarrow> counter" where
  "counter_after limit w e [] = e"
| "counter_after limit w e (t # ts) = counter_after limit w (snd (check_counter t limit w e)) ts"

definition counter_ok :: "counter \<Rightarrow> bool" where
  "counter_ok e = (case e of None \<Rightarrow> True | Some (n, _) \<Rightarrow> 0 \<le> n)"

lemma check_counter_cases:
  assumes "0 < w"
  shows "check_counter t limit w e =
    (case redis_live t e of
       None \<Rightarrow> (1, Some (1, Some (t + seconds w)))
     | Some (n, None) \<Rightarrow> (n + 1, Some (n + 1, Some (t + seconds w)))
     | Some (n, Some x) \<Rightarrow> (n + 1, Some (n + 1, Some x)))"
  using assms by (auto simp: check_counter_def redis_incr_def redis_expire_nx_def Let_def split: option.splits)

lemma checks_append: "checks limit w e (us @ vs) = checks limit w e us @ checks limit w (counter_after limit w e us) vs"
  by (induction us arbitrary: e) (auto split: prod.splits)

lemma length_checks [simp]: "length (checks limit w e ts) = length ts"
  by (induction ts arbitrary: e) (auto split: prod.splits)

lemma counter_after_append: "counter_after limit w e (us @ vs) = counter_after limit w (counter_after limit w e us) vs"
  by (induction us arbitrary: e) auto

lemma counter_ok_after: "0 < w \<Longrightarrow> counter_ok e \<Longrightarrow> counter_ok (counter_after limit w e ts)"
proof (induction ts arbitrary: e)
  case (Cons t ts)
  have "counter_ok (snd (check_counter t limit w e))"
    using Cons.prems by (auto simp: check_counter_cases counter_ok_def redis_live_def split: option.splits if_splits)
  with Cons show ?case by simp
qed simp

abbreviation passed :: "bool list \<Rightarrow> int" where
  "passed bs \<equiv> int (length (filter (\<lambda>b. b) bs))"

lemma live_counter:
  assumes "0 < w" "\<forall>t\<in>set ts. t < x"
  shows "passed (checks limit w (Some (n, Some x)) ts) \<le> max 0 (limit - n)"
    "counter_after limit w (Some (n, Some x)) ts = Some (n + int (length ts), Some x)"
proof -
  have step: "check_counter t limit w (Some (m, Some x)) = (m + 1, Some (m + 1, Some x))" if "t < x" for t m
    using that by (simp add: check_counter_cases [OF assms(1)] redis_live_def)
  show "passed (checks limit w (Some (n, Some x)) ts) \<le> max 0 (limit - n)"
    using assms(2)
  proof (induction ts arbitrary: n)
    case (Cons t ts)
    then have "passed (checks limit w (Some (n + 1, Some x)) ts) \<le> max 0 (limit - (n + 1))" by simp
    with Cons.prems step show ?case by (simp add: max_def split: if_splits)
  qed simp
  show "counter_after limit w (Some (n, Some x)) ts = Some (n + int (length ts), Some x)"
    using assms(2) step by (induction ts arbitrary: n) simp_all
qed

lemma new_window:
  assumes "0 < w" "0 \<le> limit" "counter_ok e" "\<And>n x. e = Some (n, Some x) \<Longrightarrow> \<forall>t\<in>set ts. x \<le> t"
    and "sorted ts" "\<forall>t\<in>set ts. a \<le> t \<and> t < a + seconds w"
  shows "passed (checks limit w e ts) \<le> limit"
proof (cases ts)
  case (Cons t ts')
  have dead: "redis_live t e = None \<or> (\<exists>n. redis_live t e = Some (n, None) \<and> 0 \<le> n)"
    using assms(3,4) Cons by (cases e) (auto simp: redis_live_def counter_ok_def split: option.splits)
  then obtain m where m: "check_counter t limit w e = (m, Some (m, Some (t + seconds w)))" "1 \<le> m"
    by (auto simp: check_counter_cases [OF assms(1)])
  have "\<forall>s\<in>set ts'. s < t + seconds w" using assms(6) Cons by fastforce
  from live_counter(1) [OF assms(1) this, of limit m] m assms(2) show ?thesis by (simp add: Cons max_def split: if_splits)
qed (simp add: assms(2))

lemma checks_bound:
  assumes "0 < w" "0 \<le> limit" "counter_ok e" "sorted ts" "\<forall>t\<in>set ts. a \<le> t \<and> t < a + seconds w"
  shows "passed (checks limit w e ts) \<le> 2 * limit"
proof (cases "\<exists>n x. e = Some (n, Some x)")
  case False
  with new_window [OF assms(1,2,3) _ assms(4,5)] assms(2) show ?thesis by fastforce
next
  case True
  then obtain n x where e: "e = Some (n, Some x)" by blast
  let ?us = "takeWhile (\<lambda>t. t < x) ts" and ?vs = "dropWhile (\<lambda>t. t < x) ts"
  have us: "\<forall>t\<in>set ?us. t < x" by (auto dest: set_takeWhileD)
  note live = live_counter [OF assms(1) us, of limit n, folded e]
  have n: "0 \<le> n" using assms(3) by (simp add: e counter_ok_def)
  have sv: "sorted ?vs" using assms(4) by (rule sorted_dropWhile)
  have "\<forall>t\<in>set ?vs. x \<le> t"
  proof (cases ?vs)
    case (Cons v vs)
    then have "x \<le> v" using hd_dropWhile [of "\<lambda>t. t < x" ts] by simp
    with sv show ?thesis unfolding Cons by auto
  next
    case Nil
    then show ?thesis by (simp only: list.set) simp
  qed
  then have "passed (checks limit w (counter_after limit w e ?us) ?vs) \<le> limit"
    using assms live(2) n sv by (intro new_window [where a = a]) (auto simp: counter_ok_def dest: set_dropWhileD)
  moreover have "passed (checks limit w e ?us) \<le> limit" using live(1) n assms(2) by simp
  moreover have "checks limit w e ts = checks limit w e ?us @ checks limit w (counter_after limit w e ?us) ?vs"
    by (metis checks_append takeWhile_dropWhile_id)
  ultimately show ?thesis by simp
qed

lemma counter_counts:
  assumes "0 < w" "sorted ts" "ts \<noteq> []"
  shows "\<exists>x. counter_after limit w None ts = Some (int (length (filter (\<lambda>t. x - seconds w \<le> t) ts)), Some x) \<and>
    (\<forall>t\<in>set ts. t < x) \<and> x - seconds w \<in> set ts"
  using assms(2,3)
proof (induction ts rule: rev_induct)
  case (snoc t ts)
  have w: "0 < seconds w" using assms(1) by (simp add: seconds_def)
  show ?case
  proof (cases "ts = []")
    case True
    with w show ?thesis by (simp add: check_counter_cases [OF assms(1)] redis_live_def)
  next
    case False
    have s: "sorted ts" "\<forall>s\<in>set ts. s \<le> t" using snoc.prems by (simp_all add: sorted_append)
    from snoc.IH [OF s(1) False] obtain x where
      x: "counter_after limit w None ts = Some (int (length (filter (\<lambda>t. x - seconds w \<le> t) ts)), Some x)" "\<forall>t\<in>set ts. t < x"
      "x - seconds w \<in> set ts" by blast
    show ?thesis
    proof (cases "t < x")
      case True
      with x s(2) show ?thesis
        by (intro exI [of _ x]) (auto simp: counter_after_append check_counter_cases [OF assms(1)] redis_live_def)
    next
      case f: False
      then have "filter (\<lambda>s. t \<le> s) ts = []" using x(2) by (auto simp: filter_empty_conv)
      moreover have "counter_after limit w None (ts @ [t]) = Some (1, Some (t + seconds w))"
        using f x(1) by (simp add: counter_after_append check_counter_cases [OF assms(1)] redis_live_def)
      moreover have "\<forall>s\<in>set (ts @ [t]). s < t + seconds w" using w s(2) by (auto intro: le_less_trans)
      ultimately show ?thesis by (intro exI [of _ "t + seconds w"]) simp
    qed
  qed
qed simp


lemma length_filter_le: "(\<And>x. P x \<Longrightarrow> Q x) \<Longrightarrow> length (filter P xs) \<le> length (filter Q xs)"
  by (induction xs) auto

lemma checks_admit:
  assumes "0 < w" "sorted (ps @ [t])" "int (length (filter (\<lambda>s. t - seconds w < s) (ps @ [t]))) \<le> limit"
  shows "last (checks limit w None (ps @ [t]))"
proof -
  have w: "0 < seconds w" using assms(1) by (simp add: seconds_def)
  have sp: "sorted ps" using assms(2) by (simp add: sorted_append)
  have r: "last (checks limit w None (ps @ [t])) = (fst (check_counter t limit w (counter_after limit w None ps)) \<le> limit)"
    by (simp add: checks_append split: prod.splits)
  have one: "1 \<le> limit" using assms(3) w by simp
  show ?thesis
  proof (cases "ps = []")
    case True
    then show ?thesis unfolding r using one by (simp add: check_counter_cases [OF assms(1)] redis_live_def)
  next
    case False
    from counter_counts [OF assms(1) sp False, of limit] obtain x where
      x: "counter_after limit w None ps = Some (int (length (filter (\<lambda>t. x - seconds w \<le> t) ps)), Some x)" by blast
    show ?thesis
    proof (cases "t < x")
      case True
      have "length (filter (\<lambda>s. x - seconds w \<le> s) ps) \<le> length (filter (\<lambda>s. t - seconds w < s) ps)"
        using True by (intro length_filter_le) simp
      with True assms(3) w show ?thesis
        unfolding r by (simp add: x check_counter_cases [OF assms(1)] redis_live_def)
    next
      case False
      then show ?thesis unfolding r using one by (simp add: x check_counter_cases [OF assms(1)] redis_live_def)
    qed
  qed
qed

definition redis_key :: "string \<Rightarrow> string" where
  "redis_key key = ''identity:ratelimit:'' @ key"

lemma limiter_check_key:
  "limiter_check ttl_of now wall c key limit w =
     (case check_counter now limit w (c (redis_key key)) of
        (n, e) \<Rightarrow> ((n \<le> limit, max 0 (limit - n), wall + seconds (max (redis_ttl ttl_of now e) 0)), c(redis_key key := e)))"
  by (auto simp: limiter_check_def redis_key_def Let_def split: prod.splits)

lemma limiter_run_key:
  "map (\<lambda>(t, k, ok). (t, ok)) (filter (\<lambda>(t, k, ok). k = key) (limiter_run ttl_of lims c es)) =
     (let ts = map fst (filter (\<lambda>(t, k). k = key) es)
      in zip ts (checks (fst (lims key)) (snd (lims key)) (c (redis_key key)) ts))"
proof (induction es arbitrary: c)
  case (Cons e es)
  obtain t k where e: "e = (t, k)" by (cases e)
  have "redis_key key \<noteq> redis_key k" if "k \<noteq> key" using that by (simp add: redis_key_def)
  with Cons show ?case by (auto simp: e limiter_check_key Let_def split: prod.splits)
qed simp

lemma limiter_run_events: "map (\<lambda>(t, k, ok). (t, k)) (limiter_run ttl_of lims c es) = es"
  by (induction es arbitrary: c) (auto split: prod.splits)

lemma sorted_window:
  assumes "sorted (ts :: int list)"
  shows "\<exists>us vs ws. ts = us @ vs @ ws \<and> (\<forall>t\<in>set us. t < a) \<and> (\<forall>t\<in>set vs. a \<le> t \<and> t < b) \<and> (\<forall>t\<in>set ws. \<not> (a \<le> t \<and> t < b))"
proof -
  let ?us = "takeWhile (\<lambda>t. t < a) ts" and ?r = "dropWhile (\<lambda>t. t < a) ts"
  let ?vs = "takeWhile (\<lambda>t. t < b) ?r" and ?ws = "dropWhile (\<lambda>t. t < b) ?r"
  have r: "sorted ?r" "sorted ?ws" using assms by (simp_all add: sorted_dropWhile)
  have above: "\<forall>t\<in>set (dropWhile (\<lambda>t. t < c) xs). c \<le> t" if "sorted xs" for c and xs :: "int list"
    using that by (induction xs) auto
  have "ts = ?us @ ?vs @ ?ws" by simp
  moreover have "\<forall>t\<in>set ?us. t < a" by (auto dest: set_takeWhileD)
  moreover have "\<forall>t\<in>set ?vs. a \<le> t \<and> t < b" using above [OF assms] by (auto dest: set_takeWhileD)
  moreover have "\<forall>t\<in>set ?ws. \<not> (a \<le> t \<and> t < b)" using above [OF r(1), of b] by auto
  ultimately show ?thesis by blast
qed

lemma zip_window:
  assumes "\<forall>t\<in>set us. \<not> P t" "\<forall>t\<in>set vs. P t" "\<forall>t\<in>set ws. \<not> P t" "length bs = length us" "length cs = length vs"
  shows "length (filter (\<lambda>(t, ok). ok \<and> P t) (zip (us @ vs @ ws) (bs @ cs @ ds))) = length (filter (\<lambda>b. b) cs)"
proof -
  have none: "filter (\<lambda>(t, ok). ok \<and> P t) (zip xs ys) = []" if "\<forall>t\<in>set xs. \<not> P t" for xs ys
    using that by (auto simp: filter_empty_conv dest: set_zip_leftD)
  have "length (filter (\<lambda>(t, ok). ok \<and> P t) (zip vs cs)) = length (filter (\<lambda>b. b) cs)"
    using assms(5,2) by (induction cs vs rule: list_induct2) auto
  with none [OF assms(1)] none [OF assms(3)] assms(4,5) show ?thesis by simp
qed

lemma checks_window:
  assumes "0 < w" "0 \<le> limit" "counter_ok e" "sorted ts"
  shows "int (length (filter (\<lambda>(t, ok). ok \<and> a \<le> t \<and> t < a + seconds w) (zip ts (checks limit w e ts)))) \<le> 2 * limit"
proof -
  obtain us vs ws where ts: "ts = us @ vs @ ws" "\<forall>t\<in>set us. t < a" "\<forall>t\<in>set vs. a \<le> t \<and> t < a + seconds w"
    "\<forall>t\<in>set ws. \<not> (a \<le> t \<and> t < a + seconds w)"
    using sorted_window [OF assms(4), of a "a + seconds w"] by (elim exE conjE)
  have "sorted vs" using assms(4) by (simp add: ts(1) sorted_append)
  define e1 where "e1 = counter_after limit w e us"
  define B C D where "B = checks limit w e us" and "C = checks limit w e1 vs" and "D = checks limit w (counter_after limit w e1 vs) ws"
  have "checks limit w e ts = B @ C @ D" by (simp add: ts(1) checks_append B_def C_def D_def e1_def)
  moreover have "length (filter (\<lambda>(t, ok). ok \<and> (a \<le> t \<and> t < a + seconds w)) (zip (us @ vs @ ws) (B @ C @ D))) = length (filter (\<lambda>b. b) C)"
    using ts(2-4) by (intro zip_window) (auto simp: B_def C_def)
  moreover have "passed C \<le> 2 * limit"
    unfolding C_def e1_def by (rule checks_bound [OF assms(1,2) counter_ok_after [OF assms(1,3)] \<open>sorted vs\<close> ts(3)])
  ultimately show ?thesis by (simp only: ts(1))
qed

text \<open>
  C31. The limiter keeps its promise, whatever the other keys do, when the checks are in the order of time. In any stretch as long
  as the window at most twice the limit pass for one key; and a key that has been checked no more often than its limit in the
  last window, the new check included, is not refused.
\<close>
theorem limiter_bounds:
  assumes "lims key = (limit, w)" "0 < w" "0 \<le> limit" "sorted (map fst es)" "c (redis_key key) = None"
  shows "int (length (filter (\<lambda>(t, k, ok). k = key \<and> ok \<and> a \<le> t \<and> t < a + seconds w) (limiter_run ttl_of lims c es))) \<le> 2 * limit \<and>
    (\<forall>before t. es = before @ [(t, key)] \<longrightarrow> int (length (filter (\<lambda>(s, k). k = key \<and> t - seconds w < s) es)) \<le> limit \<longrightarrow>
       last (limiter_run ttl_of lims c es) = (t, key, True))"
proof (intro conjI allI impI)
  let ?run = "limiter_run ttl_of lims c es"
  let ?ts = "map fst (filter (\<lambda>(t, k). k = key) es)"
  have run: "map (\<lambda>(t, k, ok). (t, ok)) (filter (\<lambda>(t, k, ok). k = key) ?run) = zip ?ts (checks limit w None ?ts)"
    using limiter_run_key [of key ttl_of lims c es] assms(1,5) by (simp add: Let_def)
  have sorted: "sorted ?ts" using assms(4) by (rule sorted_filter)
  have "length (filter (\<lambda>(t, k, ok). k = key \<and> ok \<and> a \<le> t \<and> t < a + seconds w) ?run) =
      length (filter (\<lambda>(t, ok). ok \<and> a \<le> t \<and> t < a + seconds w) (map (\<lambda>(t, k, ok). (t, ok)) (filter (\<lambda>(t, k, ok). k = key) ?run)))"
    by (simp add: filter_map comp_def split_def conj_ac)
  with checks_window [OF assms(2,3) _ sorted, of None a] run
  show "int (length (filter (\<lambda>(t, k, ok). k = key \<and> ok \<and> a \<le> t \<and> t < a + seconds w) ?run)) \<le> 2 * limit"
    by (simp add: counter_ok_def)
  fix before t
  assume es: "es = before @ [(t, key)]" and few: "int (length (filter (\<lambda>(s, k). k = key \<and> t - seconds w < s) es)) \<le> limit"
  let ?ps = "map fst (filter (\<lambda>(t, k). k = key) before)"
  have ts: "?ts = ?ps @ [t]" by (simp add: es)
  have "length (filter (\<lambda>(s, k). k = key \<and> t - seconds w < s) es) = length (filter (\<lambda>s. t - seconds w < s) ?ts)"
    by (simp add: filter_map comp_def split_def conj_ac)
  then have ok: "last (checks limit w None ?ts)" using checks_admit [of w ?ps t limit] assms(2) sorted few unfolding ts by simp
  have "map (\<lambda>(t, k, ok). (t, k)) ?run = before @ [(t, key)]" by (simp add: limiter_run_events es)
  then obtain xs ok' where xs: "?run = xs @ [(t, key, ok')]" by (auto simp: map_eq_append_conv map_eq_Cons_conv)
  have "last (zip ?ts (checks limit w None ?ts)) = (last ?ts, last (checks limit w None ?ts))"
    by (subst last_zip) (auto simp: ts simp flip: length_greater_0_conv)
  with ok have "last (map (\<lambda>(t, k, ok). (t, ok)) (filter (\<lambda>(t, k, ok). k = key) ?run)) = (t, True)" unfolding run ts by simp
  then show "last ?run = (t, key, True)" by (simp add: xs)
qed


text \<open>A user who stays under the limit of login attempts, and one who does not.\<close>

theorem limiter_bounds_witness:
  "last (limiter_run id (\<lambda>_. (2, 60)) (\<lambda>_. None) [(0, ''login:a''), (1, ''login:b''), (5, ''login:a'')]) = (5, ''login:a'', True) \<and>
   int (length (filter (\<lambda>(t, k, ok). k = ''login:a'' \<and> ok \<and> 0 \<le> t \<and> t < 0 + seconds 60)
     (limiter_run id (\<lambda>_. (2, 60)) (\<lambda>_. None) [(0, ''login:a''), (1, ''login:b''), (5, ''login:a'')]))) \<le> 2 * 2"
  using limiter_bounds [where lims = "\<lambda>_. (2, 60)" and key = "''login:a''" and limit = 2 and w = 60 and c = "\<lambda>_. None" and a = 0
      and es = "[(0, ''login:a''), (1, ''login:b''), (5, ''login:a'')]" and ttl_of = id]
  by (auto simp: seconds_def)

subsection \<open>The client cannot choose its address\<close>

lemma split_char_ne: "split_char c xs \<noteq> []"
  by (cases xs) (auto split: list.splits)

lemma split_char_append: "split_char c (xs @ c # ys) = split_char c xs @ split_char c ys"
  by (induction xs) (auto simp: split_char_ne split: list.splits)

lemma split_char_no: "c \<notin> set xs \<Longrightarrow> split_char c xs = [xs]"
  by (induction xs) auto

definition clean_hop :: "string \<Rightarrow> bool" where
  \<comment> \<open>an address as a proxy writes it\<close>
  "clean_hop h \<longleftrightarrow> h \<noteq> [] \<and> CHR '','' \<notin> set h \<and> py_strip h = h \<and> py_strip ('' '' @ h) = h"

definition hops_of :: "string \<Rightarrow> string list" where
  "hops_of s = filter (\<lambda>h. h \<noteq> []) (map py_strip (split_char (CHR '','') s))"

lemma hops_of_append: "hops_of (xs @ CHR '','' # ys) = hops_of xs @ hops_of ys"
  by (simp add: hops_of_def split_char_append)

lemma hops_of_clean: "clean_hop h \<Longrightarrow> hops_of h = [h]" "clean_hop h \<Longrightarrow> hops_of ('' '' @ h) = [h]"
  by (auto simp: hops_of_def clean_hop_def split_char_no)

lemma join_append: "ys \<noteq> [] \<Longrightarrow> xs \<noteq> [] \<Longrightarrow> join sep (xs @ ys) = join sep xs @ sep @ join sep ys"
proof (induction xs)
  case (Cons x xs)
  then show ?case by (cases xs; cases ys) auto
qed simp

lemma hops_of_clean_join:
  "\<forall>h\<in>set hs. clean_hop h \<Longrightarrow> hs \<noteq> [] \<Longrightarrow> hops_of (join '', '' hs) = hs \<and> hops_of ('' '' @ join '', '' hs) = hs"
proof (induction hs rule: induct_list012)
  case (3 h h' hs)
  have "join '', '' (h # h' # hs) = h @ CHR '','' # ('' '' @ join '', '' (h' # hs))" by simp
  moreover have "'' '' @ join '', '' (h # h' # hs) = ('' '' @ h) @ CHR '','' # ('' '' @ join '', '' (h' # hs))" by simp
  ultimately show ?case using 3 hops_of_clean [of h] by (simp only: hops_of_append) simp
qed (auto simp: hops_of_clean hops_of_clean(2) [simplified])

lemma hops_of_tail:
  assumes "\<forall>h\<in>set trusted. clean_hop h" "trusted \<noteq> []"
  shows "\<exists>front. hops_of (join '', '' (xs @ trusted)) = front @ trusted"
proof (cases "xs = []")
  case False
  then have "join '', '' (xs @ trusted) = join '', '' xs @ CHR '','' # ('' '' @ join '', '' trusted)"
    using assms(2) by (simp add: join_append)
  then show ?thesis using hops_of_clean_join [OF assms] by (auto simp: hops_of_append)
qed (use hops_of_clean_join [OF assms] in simp)

lemma join_lines: "xs \<noteq> [] \<Longrightarrow> join '', '' (ls @ [join '', '' xs]) = join '', '' (ls @ xs)"
  by (cases "ls = []") (auto simp: join_append)

text \<open>
  C37. The address that limits are keyed by cannot be forged: behind \<open>n\<close> trusted proxies it is what the outermost of them wrote,
  whatever header lines and whatever entries before theirs the client sends; without trusted proxies the header is not read, and
  a count that is not a number counts as none.
\<close>
theorem client_address_not_forged:
  assumes "length trusted = nat (trusted_proxy_count value)" "\<forall>h\<in>set trusted. clean_hop h"
  shows "real_client_ip value (raw_lines @ [join '', '' (forged @ trusted)]) client =
      (case trusted of [] \<Rightarrow> case_option ''unknown'' id client | h # _ \<Rightarrow> h)"
proof (cases trusted)
  case Nil
  then have "\<not> 0 < trusted_proxy_count value" using assms(1) by simp
  with Nil show ?thesis by (auto simp: real_client_ip_def Let_def split: option.splits)
next
  case (Cons h hs)
  let ?lines = "raw_lines @ [join '', '' (forged @ trusted)]"
  have ne: "forged @ trusted \<noteq> []" "trusted \<noteq> []" using Cons by simp_all
  obtain front where "hops_of (join '', '' ((raw_lines @ forged) @ trusted)) = front @ trusted"
    using hops_of_tail [OF assms(2) ne(2)] by blast
  then have hops: "hops_of (join '', '' ?lines) = front @ trusted" using join_lines [OF ne(1), of raw_lines] by simp
  have n: "0 < trusted_proxy_count value" "trusted_proxy_count value = int (length trusted)"
    using assms(1) Cons by auto
  show ?thesis
    using hops n by (simp add: real_client_ip_def Let_def hops_of_def [symmetric] Cons nat_add_distrib)
qed

theorem client_address_not_forged_witness:
  "real_client_ip (Some ''2'') [''evil'', ''1.1.1.1, ,x, 9.9.9.9, 10.0.0.7''] (Some ''10.0.0.1'') = ''9.9.9.9''"
proof -
  have "length [''9.9.9.9'', ''10.0.0.7''] = nat (trusted_proxy_count (Some ''2''))" by code_simp
  moreover have "\<forall>h\<in>set [''9.9.9.9'', ''10.0.0.7'']. clean_hop h" by code_simp
  ultimately show ?thesis
    using client_address_not_forged [of "[''9.9.9.9'', ''10.0.0.7'']" "Some ''2''" "[''evil'']" "[''1.1.1.1'', '',x'']" "Some ''10.0.0.1''"]
    by simp
qed

subsection \<open>The body of a request\<close>

fun body_of :: "asgi_message \<Rightarrow> string" where
  "body_of (Http_Request body more_body) = body"
| "body_of (Other_Message kind) = []"

fun is_final :: "asgi_message \<Rightarrow> bool" where
  "is_final (Http_Request body more_body) = (\<not> more_body)"
| "is_final (Other_Message kind) = True"

lemma drain_body_forwarded:
  assumes "drain_body limit n chunks ms = Forwarded body rest" "n = int (length (concat chunks))" "n \<le> limit"
  shows "\<exists>read m. ms = read @ m # rest \<and> body = concat chunks @ concat (map body_of (read @ [m])) \<and> int (length body) \<le> limit \<and>
    (\<forall>x\<in>set read. \<not> is_final x) \<and> is_final m"
  using assms
proof (induction limit n chunks ms rule: drain_body.induct)
  case (3 limit n chunks b more ms)
  show ?case
  proof (cases more)
    case True
    with 3 obtain read m where "ms = read @ m # rest" "body = concat (chunks @ [b]) @ concat (map body_of (read @ [m]))"
      "int (length body) \<le> limit" "\<forall>x\<in>set read. \<not> is_final x" "is_final m"
      by (auto split: if_splits)
    with True show ?thesis by (intro exI [of _ "Http_Request b more # read"] exI [of _ m]) simp
  next
    case False
    with 3 show ?thesis
      by (intro exI [of _ "[]"] exI [of _ "Http_Request b more"]) (auto split: if_splits)
  qed
qed (auto intro: exI [of _ "[]"])

lemma drain_body_rejected:
  assumes "drain_body limit n chunks ms = Rejected" "n \<le> limit"
  shows "\<exists>read b more rest. ms = read @ Http_Request b more # rest \<and> n + int (length (concat (map body_of read))) \<le> limit \<and>
    limit < n + int (length (concat (map body_of read) @ b))"
  using assms
proof (induction limit n chunks ms rule: drain_body.induct)
  case (3 limit n chunks b more ms)
  show ?case
  proof (cases "limit < n + int (length b)")
    case True
    with 3 show ?thesis by (intro exI [of _ "[]"] exI [of _ b] exI [of _ more] exI [of _ ms]) simp
  next
    case False
    with 3 obtain read b' more' rest where "ms = read @ Http_Request b' more' # rest"
      "n + int (length b) + int (length (concat (map body_of read))) \<le> limit"
      "limit < n + int (length b) + int (length (concat (map body_of read) @ b'))"
      by (auto split: if_splits)
    then show ?thesis
      by (intro exI [of _ "Http_Request b more # read"] exI [of _ b'] exI [of _ more'] exI [of _ rest]) simp
  qed
qed auto

text \<open>
  The guard of the body: the application receives a body only within the limit of its path, the concatenation of the
  messages read up to the first that ends it, and what follows is left for it to receive; a request is refused only when its declared
  length or the bytes read exceed the limit, and then at most one message beyond the limit has been read.
\<close>
theorem body_guard_correct:
  assumes "0 \<le> limit_for m path"
  shows "case body_guard m path hs ms of
      Forwarded body rest \<Rightarrow> \<exists>read x. ms = read @ x # rest \<and> body = concat (map body_of (read @ [x])) \<and>
        int (length body) \<le> limit_for m path \<and> (\<forall>y\<in>set read. \<not> is_final y) \<and> is_final x
    | Rejected \<Rightarrow> (\<exists>n. declared_length hs = Some n \<and> limit_for m path < n) \<or>
        (\<exists>read b more rest. ms = read @ Http_Request b more # rest \<and> int (length (concat (map body_of read))) \<le> limit_for m path \<and>
           limit_for m path < int (length (concat (map body_of read) @ b)))
    | Waiting \<Rightarrow> True"
proof (cases "body_guard m path hs ms")
  case (Forwarded body rest)
  then have "drain_body (limit_for m path) 0 [] ms = Forwarded body rest"
    by (auto simp: body_guard_def Let_def split: option.splits if_splits)
  from drain_body_forwarded [OF this] Forwarded assms show ?thesis by simp
next
  case Rejected
  then have "(\<exists>n. declared_length hs = Some n \<and> limit_for m path < n) \<or> drain_body (limit_for m path) 0 [] ms = Rejected"
    by (auto simp: body_guard_def Let_def split: option.splits if_splits)
  with drain_body_rejected [of "limit_for m path" 0 "[]" ms] Rejected assms show ?thesis by auto
qed simp

text \<open>
  A client that disconnects within the body is not seen to: the application receives the first part of the body as a
  message that claims to be all of it.
\<close>
lemma interrupted_body_is_forwarded_as_whole:
  "app_receives (body_guard api_body_size ''/documents'' [(''content-length'', ''1000'')]
     (Http_Request ''first half'' True # Other_Message ''http.disconnect'' # rest)) = Some (Http_Request ''first half'' False # rest)"
proof -
  have "limit_for api_body_size ''/documents'' = 11534336" by code_simp
  moreover have "declared_length [(''content-length'', ''1000'')] = Some 1000" by code_simp
  ultimately show ?thesis by (simp add: body_guard_def app_receives_def)
qed

end
