(* ===== verification/Identity_Auth.thy ===== *)
theory Identity_Auth
  imports Api_Limits Mag_Entities "HOL-Library.Countable"
begin

text \<open>
  Accounts and tokens: \<^verbatim>\<open>src/identity\<close> with the stores of users (Postgres) and refresh tokens (Redis), the issuer of JSON web tokens,
  the use cases, and the routes of \<^verbatim>\<open>src/api/routers/auth.py\<close>.

  PyJWT and argon2 are parameters: \<open>jw_decode\<close> gives the claims of a token that is valid under the key (it does not depend on the
  time: PyJWT's own check that a token is not used before it was issued is not modelled), and \<open>au_argon2\<close> the outcome
  of a verification. \<open>uuid4 n\<close> is the \<open>n\<close>-th identifier drawn. A request reads the clock once; between the
  steps of a refresh other requests may run, which \<open>rotate_step\<close> makes explicit.
\<close>

subsection \<open>Entities\<close>

type_synonym claims = "(string \<times> json) list"

definition make_password_hash :: "string \<Rightarrow> string api_result" where
  "make_password_hash v =
     (if startswith v ''$argon2id$'' then Inr v
      else Inl (Domain (ValueError ''PasswordHash must be an Argon2id hash ($argon2id$ prefix)'')))"

record user =
  ur_id :: uuid
  ur_email :: string
  ur_hashed_password :: string
  ur_tenant_id :: uuid
  ur_created_at :: datetime
  ur_updated_at :: datetime

record access_token =
  ac_value :: string
  ac_expires_at :: datetime

record refresh_token =
  rt_token_id :: uuid
  rt_value :: string
  rt_expires_at :: datetime

record token_pair =
  tp_access :: access_token
  tp_refresh :: refresh_token

datatype argon2_outcome = Match | Mismatch | Argon2_Raises py_error

record auth_config =
  jw_encode :: "claims \<Rightarrow> string \<Rightarrow> string"
  jw_decode :: "string \<Rightarrow> string \<Rightarrow> claims option"
  jw_secret :: string
  au_hash :: "nat \<Rightarrow> string \<Rightarrow> string"
  au_argon2 :: "string \<Rightarrow> string \<Rightarrow> argon2_outcome"
  au_uuid4 :: "nat \<Rightarrow> uuid"

record auth_state = http_state +
  au_users :: "user list"
  au_tokens :: "uuid \<Rightarrow> (string \<times> datetime) option"
  au_drawn :: nat
  au_verified :: "string list"
  au_cookie :: "string option"

subsection \<open>JWTTokenIssuer\<close>

definition ACCESS_TOKEN_LIFETIME :: timedelta where
  "ACCESS_TOKEN_LIFETIME = seconds (15 * 60)"

definition REFRESH_TOKEN_LIFETIME :: timedelta where
  "REFRESH_TOKEN_LIFETIME = days 7"

definition timestamp :: "datetime \<Rightarrow> rat" where
  "timestamp t = fl (of_int t / 1000000)"

definition issue_pair :: "auth_config \<Rightarrow> uuid \<Rightarrow> datetime \<Rightarrow> uuid \<Rightarrow> uuid \<Rightarrow> token_pair" where
  "issue_pair cfg token_id now user_id tenant_id =
     (let access_expires_at = now + ACCESS_TOKEN_LIFETIME;
          access_claims = [(''sub'', JStr (uuid_str user_id)), (''tenant_id'', JStr (uuid_str tenant_id)),
            (''exp'', JInt (py_int (timestamp access_expires_at))), (''iat'', JInt (py_int (timestamp now))), (''type'', JStr ''access'')];
          refresh_expires_at = now + REFRESH_TOKEN_LIFETIME;
          refresh_claims = [(''sub'', JStr (uuid_str user_id)), (''jti'', JStr (uuid_str token_id)),
            (''exp'', JInt (py_int (timestamp refresh_expires_at))), (''iat'', JInt (py_int (timestamp now))), (''type'', JStr ''refresh'')]
      in \<lparr>tp_access = \<lparr>ac_value = jw_encode cfg access_claims (jw_secret cfg), ac_expires_at = access_expires_at\<rparr>,
          tp_refresh = \<lparr>rt_token_id = token_id, rt_value = jw_encode cfg refresh_claims (jw_secret cfg),
                        rt_expires_at = refresh_expires_at\<rparr>\<rparr>)"

fun later_than :: "rat \<Rightarrow> json \<Rightarrow> bool option" where
  \<comment> \<open>\<open>now.timestamp() > exp_time\<close>; None: the values do not compare\<close>
  "later_than ts (JInt n) = Some (of_int n < ts)"
| "later_than ts (JBool b) = Some ((if b then 1 else 0) < ts)"
| "later_than ts (JFloat (Fin x)) = Some (x < ts)"
| "later_than ts (JFloat NegInf) = Some True"
| "later_than ts (JFloat _) = Some False"
| "later_than ts _ = None"

definition verify_access_token :: "auth_config \<Rightarrow> datetime \<Rightarrow> string \<Rightarrow> claims api_result" where
  "verify_access_token cfg now token =
     (case jw_decode cfg token (jw_secret cfg) of
        None \<Rightarrow> Inl TokenExpired
      | Some claims \<Rightarrow>
          (case map_option (later_than (timestamp now)) (map_of claims ''exp'') of
             Some None \<Rightarrow> Inl (Domain (OtherException ''TypeError''))
           | Some (Some True) \<Rightarrow> Inl TokenExpired
           | _ \<Rightarrow> if map_of claims ''type'' \<noteq> Some (JStr ''access'') then Inl TokenExpired else Inr claims))"

subsection \<open>The caller\<close>

record caller =
  cl_tenant_id :: uuid
  cl_user_id :: uuid

definition claim_uuid :: "json option \<Rightarrow> uuid api_result" where
  \<comment> \<open>\<open>uuid.UUID(claims[key])\<close> inside the \<open>try\<close>: only \<open>AttributeError\<close>, of a value with no \<open>replace\<close>, escapes\<close>
  "claim_uuid v =
     (case v of
        Some (JStr s) \<Rightarrow> (case parse_uuid s of None \<Rightarrow> Inl TokenExpired | Some u \<Rightarrow> Inr u)
      | None \<Rightarrow> Inl TokenExpired
      | Some JNull \<Rightarrow> Inl TokenExpired
      | Some _ \<Rightarrow> Inl (Domain (OtherException ''AttributeError'')))"

definition caller_from_claims :: "claims \<Rightarrow> caller api_result" where
  "caller_from_claims claims =
     (case claim_uuid (map_of claims ''tenant_id'') of
        Inl e \<Rightarrow> Inl e
      | Inr tenant_id \<Rightarrow>
          (case claim_uuid (map_of claims ''sub'') of
             Inl e \<Rightarrow> Inl e
           | Inr user_id \<Rightarrow> Inr \<lparr>cl_tenant_id = tenant_id, cl_user_id = user_id\<rparr>))"

definition get_current_user_claims :: "auth_config \<Rightarrow> datetime \<Rightarrow> string option \<Rightarrow> claims api_result" where
  "get_current_user_claims cfg now authorization =
     (case authorization of
        None \<Rightarrow> Inl TokenExpired
      | Some a \<Rightarrow> if \<not> startswith a ''Bearer '' then Inl TokenExpired else verify_access_token cfg now (drop 7 a))"

definition get_caller :: "auth_config \<Rightarrow> datetime \<Rightarrow> string option \<Rightarrow> caller api_result" where
  "get_caller cfg now authorization =
     (case get_current_user_claims cfg now authorization of Inl e \<Rightarrow> Inl e | Inr claims \<Rightarrow> caller_from_claims claims)"

subsection \<open>Users\<close>

definition user_save :: "user list \<Rightarrow> user \<Rightarrow> user list api_result" where
  "user_save us u =
     (if ur_email u \<in> ur_email ` set us \<or> ur_id u \<in> ur_id ` set us then Inl (EmailAlreadyRegistered (ur_email u)) else Inr (us @ [u]))"

definition row_to_user :: "user option \<Rightarrow> user option api_result" where
  "row_to_user row =
     (case row of None \<Rightarrow> Inr None
      | Some u \<Rightarrow> (case make_password_hash (ur_hashed_password u) of Inl e \<Rightarrow> Inl e | Inr _ \<Rightarrow> Inr (Some u)))"

definition find_by_email :: "user list \<Rightarrow> string \<Rightarrow> user option api_result" where
  "find_by_email us email = row_to_user (List.find (\<lambda>u. ur_email u = email) us)"

definition find_by_id :: "user list \<Rightarrow> uuid \<Rightarrow> user option api_result" where
  "find_by_id us user_id = row_to_user (List.find (\<lambda>u. ur_id u = user_id) us)"

definition hasher_verify :: "auth_config \<Rightarrow> string \<Rightarrow> string \<Rightarrow> bool api_result" where
  "hasher_verify cfg plain_password hashed =
     (case au_argon2 cfg hashed plain_password of Match \<Rightarrow> Inr True | Mismatch \<Rightarrow> Inr False | Argon2_Raises e \<Rightarrow> Inl (Domain e))"

definition DUMMY_HASH :: string where
  "DUMMY_HASH = ''$argon2id$v=19$m=65536,t=3,p=4$c29tZXNhbHQ$aGFzaHZhbHVl''"

definition register_user :: "auth_config \<Rightarrow> datetime \<Rightarrow> auth_state \<Rightarrow> string \<Rightarrow> string \<Rightarrow> user api_result \<times> auth_state" where
  "register_user cfg now s email plain_password =
     (case make_password_hash (au_hash cfg (au_drawn s) plain_password) of
        Inl e \<Rightarrow> (Inl e, s\<lparr>au_drawn := Suc (au_drawn s)\<rparr>)
      | Inr hashed \<Rightarrow>
          (let u = \<lparr>ur_id = au_uuid4 cfg (au_drawn s), ur_email = email, ur_hashed_password = hashed,
                    ur_tenant_id = au_uuid4 cfg (Suc (au_drawn s)), ur_created_at = now, ur_updated_at = now\<rparr>;
               s1 = s\<lparr>au_drawn := Suc (Suc (au_drawn s))\<rparr>
           in case user_save (au_users s1) u of
                Inl e \<Rightarrow> (Inl e, s1)
              | Inr us \<Rightarrow> (Inr u, s1\<lparr>au_users := us\<rparr>)))"

definition authenticate_user :: "auth_config \<Rightarrow> datetime \<Rightarrow> auth_state \<Rightarrow> string \<Rightarrow> string \<Rightarrow> (user \<times> token_pair) api_result \<times> auth_state" where
  "authenticate_user cfg now s email plain_password =
     (case find_by_email (au_users s) email of
        Inl e \<Rightarrow> (Inl e, s)
      | Inr None \<Rightarrow>
          (case hasher_verify cfg plain_password DUMMY_HASH of
             Inl e \<Rightarrow> (Inl e, s\<lparr>au_verified := au_verified s @ [DUMMY_HASH]\<rparr>)
           | Inr _ \<Rightarrow> (Inl InvalidCredentials, s\<lparr>au_verified := au_verified s @ [DUMMY_HASH]\<rparr>))
      | Inr (Some u) \<Rightarrow>
          (let s1 = s\<lparr>au_verified := au_verified s @ [ur_hashed_password u]\<rparr> in
           case hasher_verify cfg plain_password (ur_hashed_password u) of
             Inl e \<Rightarrow> (Inl e, s1)
           | Inr False \<Rightarrow> (Inl InvalidCredentials, s1)
           | Inr True \<Rightarrow>
               (Inr (u, issue_pair cfg (au_uuid4 cfg (au_drawn s)) now (ur_id u) (ur_tenant_id u)), s1\<lparr>au_drawn := Suc (au_drawn s)\<rparr>)))"

subsection \<open>RedisRefreshTokenStore\<close>

definition token_save :: "datetime \<Rightarrow> (uuid \<Rightarrow> (string \<times> datetime) option) \<Rightarrow> refresh_token \<Rightarrow> uuid \<Rightarrow>
    (uuid \<Rightarrow> (string \<times> datetime) option)" where
  "token_save now ts r user_id =
     (let ttl_seconds = py_int (fl (of_int (rt_expires_at r - now) / 1000000))
      in ts(rt_token_id r \<mapsto> (uuid_str user_id, now + seconds (max ttl_seconds 1))))"

definition token_get_user_id :: "datetime \<Rightarrow> (uuid \<Rightarrow> (string \<times> datetime) option) \<Rightarrow> uuid \<Rightarrow> uuid option api_result" where
  "token_get_user_id now ts token_id =
     (case ts token_id of
        None \<Rightarrow> Inr None
      | Some (v, expires) \<Rightarrow>
          if expires \<le> now \<or> v = [] then Inr None
          else case parse_uuid v of None \<Rightarrow> Inl (Domain (ValueError ''badly formed hexadecimal UUID string'')) | Some u \<Rightarrow> Inr (Some u))"

definition token_delete :: "(uuid \<Rightarrow> (string \<times> datetime) option) \<Rightarrow> uuid \<Rightarrow> (uuid \<Rightarrow> (string \<times> datetime) option)" where
  "token_delete ts token_id = ts(token_id := None)"

subsection \<open>Routes\<close>

definition auth_limit :: "limit_env \<Rightarrow> string \<Rightarrow> string \<Rightarrow> auth_state \<Rightarrow> unit api_result \<times> auth_state" where
  "auth_limit le route_name ip s = enforce_rate_limit le (route_name @ '':'' @ ip) AUTH_LIMIT WINDOW_SECONDS s"

definition register_route :: "auth_config \<Rightarrow> limit_env \<Rightarrow> string \<Rightarrow> auth_state \<Rightarrow> string \<Rightarrow> string \<Rightarrow> user api_result \<times> auth_state" where
  "register_route cfg le ip s email password =
     (case auth_limit le ''register'' ip s of
        (Inl e, s1) \<Rightarrow> (Inl e, s1)
      | (Inr _, s1) \<Rightarrow> register_user cfg (le_wall le) s1 email password)"

definition login_route :: "auth_config \<Rightarrow> limit_env \<Rightarrow> string \<Rightarrow> auth_state \<Rightarrow> string \<Rightarrow> string \<Rightarrow> string api_result \<times> auth_state" where
  "login_route cfg le ip s email password =
     (case auth_limit le ''login'' ip s of
        (Inl e, s1) \<Rightarrow> (Inl e, s1)
      | (Inr _, s1) \<Rightarrow>
          (case authenticate_user cfg (le_wall le) s1 email password of
             (Inl e, s2) \<Rightarrow> (Inl e, s2)
           | (Inr (u, pair), s2) \<Rightarrow>
               (Inr (ac_value (tp_access pair)),
                s2\<lparr>au_tokens := token_save (le_wall le) (au_tokens s2) (tp_refresh pair) (ur_id u),
                   au_cookie := Some (uuid_str (rt_token_id (tp_refresh pair)))\<rparr>)))"

datatype refresh_pc =
    R_Start
  | R_Found uuid
  | R_User uuid
  | R_Held uuid uuid
  | R_Deleted uuid uuid
  | R_Done token_pair
  | R_Failed api_error

fun rotate_step :: "auth_config \<Rightarrow> datetime \<Rightarrow> uuid \<Rightarrow> refresh_pc \<Rightarrow> auth_state \<Rightarrow> refresh_pc \<times> auth_state" where
  \<comment> \<open>one step for each await: the token is read by the route, the user is read, and the use case reads the token again, deletes it and saves the new one\<close>
  "rotate_step cfg now token_id R_Start s =
     (case token_get_user_id now (au_tokens s) token_id of
        Inl e \<Rightarrow> (R_Failed e, s) | Inr None \<Rightarrow> (R_Failed TokenAlreadyUsed, s) | Inr (Some u) \<Rightarrow> (R_Found u, s))"
| "rotate_step cfg now token_id (R_Found u) s =
     (case find_by_id (au_users s) u of
        Inl e \<Rightarrow> (R_Failed e, s) | Inr None \<Rightarrow> (R_Failed TokenAlreadyUsed, s) | Inr (Some x) \<Rightarrow> (R_User (ur_tenant_id x), s))"
| "rotate_step cfg now token_id (R_User tenant_id) s =
     (case token_get_user_id now (au_tokens s) token_id of
        Inl e \<Rightarrow> (R_Failed e, s) | Inr None \<Rightarrow> (R_Failed TokenAlreadyUsed, s) | Inr (Some u) \<Rightarrow> (R_Held u tenant_id, s))"
| "rotate_step cfg now token_id (R_Held u tenant_id) s = (R_Deleted u tenant_id, s\<lparr>au_tokens := token_delete (au_tokens s) token_id\<rparr>)"
| "rotate_step cfg now token_id (R_Deleted u tenant_id) s =
     (let pair = issue_pair cfg (au_uuid4 cfg (au_drawn s)) now u tenant_id
      in (R_Done pair, s\<lparr>au_drawn := Suc (au_drawn s), au_tokens := token_save now (au_tokens s) (tp_refresh pair) u\<rparr>))"
| "rotate_step cfg now token_id pc s = (pc, s)"

definition rotate_run :: "auth_config \<Rightarrow> datetime \<Rightarrow> uuid \<Rightarrow> auth_state \<Rightarrow> refresh_pc \<times> auth_state" where
  "rotate_run cfg now token_id s = ((\<lambda>(pc, s). rotate_step cfg now token_id pc s) ^^ 5) (R_Start, s)"

definition parse_refresh_cookie :: "string \<Rightarrow> uuid api_result" where
  "parse_refresh_cookie v = (case parse_uuid v of None \<Rightarrow> Inl TokenAlreadyUsed | Some u \<Rightarrow> Inr u)"

definition refresh_route :: "auth_config \<Rightarrow> datetime \<Rightarrow> string option \<Rightarrow> auth_state \<Rightarrow> string api_result \<times> auth_state" where
  "refresh_route cfg now cookie s =
     (case cookie of
        None \<Rightarrow> (Inl TokenAlreadyUsed, s)
      | Some [] \<Rightarrow> (Inl TokenAlreadyUsed, s)
      | Some v \<Rightarrow>
          (case parse_refresh_cookie v of
             Inl e \<Rightarrow> (Inl e, s)
           | Inr token_id \<Rightarrow>
               (case rotate_run cfg now token_id s of
                  (R_Done pair, s1) \<Rightarrow> (Inr (ac_value (tp_access pair)), s1\<lparr>au_cookie := Some (uuid_str (rt_token_id (tp_refresh pair)))\<rparr>)
                | (R_Failed e, s1) \<Rightarrow> (Inl e, s1)
                | (_, s1) \<Rightarrow> (Inl (Domain (OtherException ''unfinished'')), s1))))"

definition logout_route :: "string option \<Rightarrow> auth_state \<Rightarrow> auth_state" where
  "logout_route cookie s =
     (let s1 = (case cookie of
                  None \<Rightarrow> s
                | Some v \<Rightarrow> if v = [] then s
                            else case parse_uuid v of None \<Rightarrow> s | Some t \<Rightarrow> s\<lparr>au_tokens := token_delete (au_tokens s) t\<rparr>)
      in s1\<lparr>au_cookie := None\<rparr>)"


datatype auth_request =
    Register_Request limit_env string string string
  | Login_Request limit_env string string string
  | Refresh_Request datetime "string option"
  | Logout_Request "string option"

fun auth_do :: "auth_config \<Rightarrow> auth_request \<Rightarrow> auth_state \<Rightarrow> auth_state" where
  "auth_do cfg (Register_Request le ip email password) s = snd (register_route cfg le ip s email password)"
| "auth_do cfg (Login_Request le ip email password) s = snd (login_route cfg le ip s email password)"
| "auth_do cfg (Refresh_Request now cookie) s = snd (refresh_route cfg now cookie s)"
| "auth_do cfg (Logout_Request cookie) s = logout_route cookie s"

subsection \<open>Access tokens\<close>

lemma timestamp_floor:
  assumes "0 \<le> t" "t div 1000000 < 2 ^ 53"
  shows "of_int (t div 1000000) \<le> timestamp t" "timestamp t \<le> of_int (t div 1000000) + 1"
proof -
  let ?q = "t div 1000000"
  have q: "of_int ?q \<le> (of_int t / 1000000 :: rat)" "of_int t / 1000000 \<le> (of_int (?q + 1) :: rat)"
  proof -
    have "?q * 1000000 \<le> t" "t \<le> (?q + 1) * 1000000" by presburger+
    then have "(of_int (?q * 1000000) :: rat) \<le> of_int t" "(of_int t :: rat) \<le> of_int ((?q + 1) * 1000000)" by (simp_all only: of_int_le_iff)
    then show "of_int ?q \<le> (of_int t / 1000000 :: rat)" "of_int t / 1000000 \<le> (of_int (?q + 1) :: rat)" by (simp_all add: field_simps)
  qed
  have b: "\<bar>?q\<bar> \<le> 2 ^ 53" "\<bar>?q + 1\<bar> \<le> 2 ^ 53" using assms by (simp_all add: pos_imp_zdiv_nonneg_iff)
  show "of_int ?q \<le> timestamp t" unfolding timestamp_def by (rule double.rnd_ge_int [OF q(1) b(1)])
  show "timestamp t \<le> of_int ?q + 1" unfolding timestamp_def using double.rnd_le_int [OF q(2) b(2)] by simp
qed

lemma py_int_timestamp:
  assumes "0 \<le> t" "t div 1000000 < 2 ^ 53"
  shows "t div 1000000 \<le> py_int (timestamp t)" "py_int (timestamp t) \<le> t div 1000000 + 1"
proof -
  note f = timestamp_floor [OF assms]
  have "0 \<le> timestamp t" using f(1) assms(1) by (meson of_int_0_le_iff order_trans pos_imp_zdiv_nonneg_iff zero_less_numeral)
  then show "t div 1000000 \<le> py_int (timestamp t)" "py_int (timestamp t) \<le> t div 1000000 + 1"
    using f by (simp_all add: py_int_def le_floor_iff) linarith
qed

lemma get_caller_bearer:
  "get_caller cfg t (Some (''Bearer '' @ x)) =
     (case verify_access_token cfg t x of Inl e \<Rightarrow> Inl e | Inr claims \<Rightarrow> caller_from_claims claims)"
  by (simp add: get_caller_def get_current_user_claims_def startswith_def)

lemma live_token_caller:
  assumes "\<And>c. jw_decode cfg (jw_encode cfg c (jw_secret cfg)) (jw_secret cfg) = Some c"
    and "user_id < 2 ^ 128" "tenant_id < 2 ^ 128" "0 \<le> now + ACCESS_TOKEN_LIFETIME" "(now + ACCESS_TOKEN_LIFETIME) div 1000000 < 2 ^ 53"
    and "t \<le> (now + ACCESS_TOKEN_LIFETIME) div 1000000 * 1000000"
  shows "get_caller cfg t (Some (''Bearer '' @ ac_value (tp_access (issue_pair cfg i now user_id tenant_id)))) =
    Inr \<lparr>cl_tenant_id = tenant_id, cl_user_id = user_id\<rparr>"
proof -
  let ?a = "now + ACCESS_TOKEN_LIFETIME"
  have "(of_int t :: rat) \<le> of_int (?a div 1000000 * 1000000)" using assms(6) by (simp only: of_int_le_iff)
  then have "of_int t / 1000000 \<le> (of_int (?a div 1000000) :: rat)" by (simp add: field_simps)
  then have "timestamp t \<le> of_int (?a div 1000000)"
    unfolding timestamp_def using assms(4,5) by (intro double.rnd_le_int) (simp_all add: pos_imp_zdiv_nonneg_iff)
  also have "\<dots> \<le> of_int (py_int (timestamp ?a))" using py_int_timestamp(1) [OF assms(4,5)] by (simp only: of_int_le_iff)
  finally show ?thesis
    using assms(2,3) unfolding get_caller_bearer
    by (simp add: verify_access_token_def issue_pair_def Let_def assms(1) caller_from_claims_def claim_uuid_def)
qed

text \<open>
  C33. An access token names its user and tenant, and nothing else passes for one. The header with the token of a pair issued at
  \<open>now\<close> identifies the user and the tenant until the last whole second of its 15 minutes, and is refused from the second second
  after it; the refresh token of the pair is refused at any time. \<open>jw_decode\<close> need only return the claims of a token
  that was encoded with the same key.
\<close>
theorem access_token_identifies_caller:
  assumes "\<And>c. jw_decode cfg (jw_encode cfg c (jw_secret cfg)) (jw_secret cfg) = Some c"
    and "user_id < 2 ^ 128" "tenant_id < 2 ^ 128"
    and "0 \<le> now" "0 \<le> t" "(now + days 7) div 1000000 < 2 ^ 52" "t div 1000000 < 2 ^ 52"
  shows "let pair = issue_pair cfg i now user_id tenant_id; last = (now + ACCESS_TOKEN_LIFETIME) div 1000000
     in (t \<le> last * 1000000 \<longrightarrow>
           get_caller cfg t (Some (''Bearer '' @ ac_value (tp_access pair))) = Inr \<lparr>cl_tenant_id = tenant_id, cl_user_id = user_id\<rparr>) \<and>
        ((last + 2) * 1000000 \<le> t \<longrightarrow> get_caller cfg t (Some (''Bearer '' @ ac_value (tp_access pair))) = Inl TokenExpired) \<and>
        get_caller cfg t (Some (''Bearer '' @ rt_value (tp_refresh pair))) = Inl TokenExpired"
proof -
  let ?a = "now + ACCESS_TOKEN_LIFETIME"
  have day: "days 7 = ACCESS_TOKEN_LIFETIME + 603900000000" by (simp add: days_def seconds_def ACCESS_TOKEN_LIFETIME_def)
  have a: "0 \<le> ?a" "?a div 1000000 < 2 ^ 53"
    using assms(4,6) unfolding day by (simp_all add: ACCESS_TOKEN_LIFETIME_def seconds_def)
  note e = py_int_timestamp [OF a]
  have tt: "t div 1000000 < 2 ^ 53" using assms(7) by simp
  note f = timestamp_floor [OF assms(5) tt]
  have dead: "of_int (py_int (timestamp ?a)) < timestamp t" if "(?a div 1000000 + 2) * 1000000 \<le> t"
  proof -
    have "?a div 1000000 + 2 \<le> t div 1000000" using zdiv_mono1 [OF that, of 1000000] by simp
    then have "(of_int (py_int (timestamp ?a)) :: rat) < of_int (t div 1000000)" using e(2) by (simp only: of_int_less_iff)
    then show ?thesis using f(1) by simp
  qed
  show ?thesis
    unfolding Let_def
  proof (intro conjI impI)
    assume "t \<le> ?a div 1000000 * 1000000"
    then show "get_caller cfg t (Some (''Bearer '' @ ac_value (tp_access (issue_pair cfg i now user_id tenant_id)))) =
        Inr \<lparr>cl_tenant_id = tenant_id, cl_user_id = user_id\<rparr>"
      by (rule live_token_caller [OF assms(1-3) a])
  next
    assume "(?a div 1000000 + 2) * 1000000 \<le> t"
    then show "get_caller cfg t (Some (''Bearer '' @ ac_value (tp_access (issue_pair cfg i now user_id tenant_id)))) = Inl TokenExpired"
      unfolding get_caller_bearer
      using dead by (simp add: verify_access_token_def issue_pair_def Let_def assms(1))
  next
    show "get_caller cfg t (Some (''Bearer '' @ rt_value (tp_refresh (issue_pair cfg i now user_id tenant_id)))) = Inl TokenExpired"
      unfolding get_caller_bearer
      by (simp add: verify_access_token_def issue_pair_def Let_def assms(1) split: bool.splits)
  qed
qed


subsection \<open>Refresh tokens\<close>

definition spent :: "auth_config \<Rightarrow> uuid \<Rightarrow> auth_state \<Rightarrow> bool" where
  \<comment> \<open>a token that was issued and is no longer stored\<close>
  "spent cfg c s \<longleftrightarrow> au_tokens s c = None \<and> c \<in> au_uuid4 cfg ` {..<au_drawn s}"

lemma fresh_not_spent: "inj (au_uuid4 cfg) \<Longrightarrow> spent cfg c s \<Longrightarrow> au_drawn s \<le> n \<Longrightarrow> au_uuid4 cfg n \<noteq> c"
  by (auto simp: spent_def inj_eq)

lemma rt_issue_pair [simp]: "rt_token_id (tp_refresh (issue_pair cfg i now u t)) = i"
  by (simp add: issue_pair_def Let_def)

lemma token_save_other: "c \<noteq> rt_token_id r \<Longrightarrow> token_save now ts r u c = ts c"
  by (simp add: token_save_def Let_def)

lemma enforce_keeps:
  "au_tokens (snd (enforce_rate_limit le k l w s)) = au_tokens s" "au_drawn (snd (enforce_rate_limit le k l w s)) = au_drawn s"
  "au_users (snd (enforce_rate_limit le k l w s)) = au_users s" "au_verified (snd (enforce_rate_limit le k l w s)) = au_verified s"
  by (auto simp: enforce_rate_limit_def Let_def split: prod.splits)

lemma spent_mono: "spent cfg c s \<Longrightarrow> au_tokens s' c = None \<Longrightarrow> au_drawn s \<le> au_drawn s' \<Longrightarrow> spent cfg c s'"
  unfolding spent_def by (meson image_mono lessThan_subset_iff subsetD)

lemma rotate_run_eq:
  "rotate_run cfg now c s =
     (case token_get_user_id now (au_tokens s) c of
        Inl e \<Rightarrow> (R_Failed e, s)
      | Inr None \<Rightarrow> (R_Failed TokenAlreadyUsed, s)
      | Inr (Some u) \<Rightarrow>
          (case find_by_id (au_users s) u of
             Inl e \<Rightarrow> (R_Failed e, s)
           | Inr None \<Rightarrow> (R_Failed TokenAlreadyUsed, s)
           | Inr (Some x) \<Rightarrow>
               (let pair = issue_pair cfg (au_uuid4 cfg (au_drawn s)) now u (ur_tenant_id x)
                in (R_Done pair, s\<lparr>au_tokens := token_save now (token_delete (au_tokens s) c) (tp_refresh pair) u,
                                   au_drawn := Suc (au_drawn s)\<rparr>))))"
  by (auto simp: rotate_run_def numeral_eq_Suc Let_def split: sum.splits option.splits)

lemma spent_rotate_run:
  assumes "inj (au_uuid4 cfg)" "spent cfg c s"
  shows "spent cfg c (snd (rotate_run cfg now t s))"
proof -
  have "token_save now (token_delete (au_tokens s) t) (tp_refresh (issue_pair cfg (au_uuid4 cfg (au_drawn s)) now u x)) u c = None" for u x
    using fresh_not_spent [OF assms, of "au_drawn s"] assms(2)
    by (subst token_save_other) (auto simp: token_delete_def spent_def)
  then show ?thesis
    using assms(2) by (auto simp: rotate_run_eq Let_def split: sum.splits option.splits intro: spent_mono)
qed

lemma spent_refresh_route:
  assumes "inj (au_uuid4 cfg)" "spent cfg c s"
  shows "spent cfg c (snd (refresh_route cfg now cookie s))"
proof -
  have "spent cfg c (snd (rotate_run cfg now t s))" for t by (rule spent_rotate_run [OF assms])
  then have "spent cfg c s1" if "rotate_run cfg now t s = (r, s1)" for t r s1 using that by (metis snd_conv)
  moreover have "spent cfg c (s1\<lparr>au_cookie := v\<rparr>)" if "spent cfg c s1" for s1 v using that by (simp add: spent_def)
  ultimately show ?thesis
    using assms(2) by (auto simp: refresh_route_def split: option.splits list.splits sum.splits prod.splits refresh_pc.splits)
qed

lemma enforce_spent: "spent cfg c (snd (enforce_rate_limit le k l w s)) = spent cfg c s"
  by (simp add: spent_def enforce_keeps)

lemma spent_register: "spent cfg c s \<Longrightarrow> spent cfg c (snd (register_user cfg now s email password))"
  by (auto simp: register_user_def Let_def split: sum.splits intro: spent_mono)
     (auto simp: spent_def)

lemma authenticate_spent:
  assumes "spent cfg c s"
  shows "spent cfg c (snd (authenticate_user cfg now s email password))"
  using assms by (auto simp: authenticate_user_def Let_def spent_def split: sum.splits option.splits bool.splits)

lemma spent_login:
  assumes "inj (au_uuid4 cfg)" "spent cfg c s"
  shows "spent cfg c (snd (login_route cfg le ip s email password))"
proof -
  obtain r s1 where l: "auth_limit le ''login'' ip s = (r, s1)" by (cases "auth_limit le ''login'' ip s")
  have s1: "spent cfg c s1" using enforce_spent assms(2) l unfolding auth_limit_def by (metis snd_conv)
  obtain q s2 where a: "authenticate_user cfg (le_wall le) s1 email password = (q, s2)" by (cases "authenticate_user cfg (le_wall le) s1 email password")
  have s2: "spent cfg c s2" using authenticate_spent [OF s1] a by (metis snd_conv)
  have "rt_token_id (tp_refresh pair) \<noteq> c" if "q = Inr (u, pair)" for u pair
    using a that fresh_not_spent [OF assms(1) s1, of "au_drawn s1"]
    by (auto simp: authenticate_user_def Let_def split: sum.splits option.splits bool.splits)
  then show ?thesis
    using s1 s2 by (auto simp: login_route_def l a spent_def token_save_other split: sum.splits)
qed

lemma spent_auth_do: "inj (au_uuid4 cfg) \<Longrightarrow> spent cfg c s \<Longrightarrow> spent cfg c (auth_do cfg r s)"
proof (cases r)
  case (Register_Request le ip email password)
  assume "spent cfg c s"
  then have "spent cfg c (snd (auth_limit le ''register'' ip s))" by (simp add: auth_limit_def enforce_spent)
  then show ?thesis using Register_Request
    by (auto simp: register_route_def spent_register split: sum.splits prod.splits)
next
  case (Logout_Request cookie)
  assume "spent cfg c s"
  then show ?thesis using Logout_Request
    by (auto simp: logout_route_def Let_def spent_def token_delete_def split: option.splits)
qed (auto intro: spent_login spent_refresh_route)

lemma spent_fold: "inj (au_uuid4 cfg) \<Longrightarrow> spent cfg c s \<Longrightarrow> spent cfg c (fold (auth_do cfg) rs s)"
  by (induction rs arbitrary: s) (auto intro: spent_auth_do)

lemma refresh_route_some:
  "v \<noteq> [] \<Longrightarrow> refresh_route cfg now (Some v) s =
     (case parse_refresh_cookie v of
        Inl e \<Rightarrow> (Inl e, s)
      | Inr token_id \<Rightarrow>
          (case rotate_run cfg now token_id s of
             (R_Done pair, s1) \<Rightarrow> (Inr (ac_value (tp_access pair)), s1\<lparr>au_cookie := Some (uuid_str (rt_token_id (tp_refresh pair)))\<rparr>)
           | (R_Failed e, s1) \<Rightarrow> (Inl e, s1)
           | (_, s1) \<Rightarrow> (Inl (Domain (OtherException ''unfinished'')), s1)))"
  by (cases v) (auto simp: refresh_route_def)

lemma spent_refused: "spent cfg c s \<Longrightarrow> parse_uuid v = Some c \<Longrightarrow> refresh_route cfg now (Some v) s = (Inl TokenAlreadyUsed, s)"
  by (cases v) (auto simp: refresh_route_def parse_refresh_cookie_def rotate_run_eq token_get_user_id_def spent_def)

text \<open>
  C32. A refresh token is used once. After a refresh with it has succeeded, or its owner has logged out with it, every later refresh
  with the same token is refused and changes nothing, whatever registrations, logins, refreshes and logouts come between, one after
  the other; and a refresh that succeeded has issued its new token to the user the old one was stored for, in that user's tenant.
\<close>
theorem refresh_token_single_use:
  assumes "inj (au_uuid4 cfg)" "parse_uuid v = Some c" "c \<in> au_uuid4 cfg ` {..<au_drawn s}"
    and "refresh_route cfg now (Some v) s = (Inr a, s1) \<or> s1 = logout_route (Some v) s" "parse_uuid v' = Some c"
  shows "refresh_route cfg now' (Some v') (fold (auth_do cfg) rs s1) = (Inl TokenAlreadyUsed, fold (auth_do cfg) rs s1) \<and>
    (refresh_route cfg now (Some v) s = (Inr a, s1) \<longrightarrow>
      (\<exists>u x. token_get_user_id now (au_tokens s) c = Inr (Some u) \<and> find_by_id (au_users s) u = Inr (Some x) \<and>
         a = ac_value (tp_access (issue_pair cfg (au_uuid4 cfg (au_drawn s)) now u (ur_tenant_id x))) \<and>
         map_option fst (au_tokens s1 (au_uuid4 cfg (au_drawn s))) = Some (uuid_str u)))"
proof -
  have v: "v \<noteq> []" using assms(2) by (auto simp: parse_uuid_def Let_def strip_braces_def)
  have new: "au_uuid4 cfg (au_drawn s) \<noteq> c" using assms(1,3) by (auto simp: inj_eq)
  have ok: "\<exists>u x. token_get_user_id now (au_tokens s) c = Inr (Some u) \<and> find_by_id (au_users s) u = Inr (Some x) \<and>
      (let pair = issue_pair cfg (au_uuid4 cfg (au_drawn s)) now u (ur_tenant_id x)
       in a = ac_value (tp_access pair) \<and> au_drawn s1 = Suc (au_drawn s) \<and>
          au_tokens s1 = token_save now (token_delete (au_tokens s) c) (tp_refresh pair) u)"
    if "refresh_route cfg now (Some v) s = (Inr a, s1)"
    using that v assms(2)
    by (cases v) (auto simp: refresh_route_def parse_refresh_cookie_def rotate_run_eq Let_def split: sum.splits option.splits)
  have "spent cfg c s1"
    using assms(4)
  proof
    assume r: "refresh_route cfg now (Some v) s = (Inr a, s1)"
    from ok [OF r] new have "au_tokens s1 c = None" "au_drawn s1 = Suc (au_drawn s)"
      by (auto simp: Let_def token_save_other token_delete_def)
    with assms(3) show ?thesis by (auto simp: spent_def)
  next
    assume "s1 = logout_route (Some v) s"
    with v assms(2,3) show ?thesis by (simp add: spent_def logout_route_def Let_def token_delete_def)
  qed
  with spent_refused [OF spent_fold [OF assms(1)] assms(5)] ok show ?thesis
    by (auto simp: Let_def token_save_def)
qed


text \<open>
  Between the read of a token and its deletion another request can read it too: two refreshes with one token, each at the point
  where it has read the token when the other deletes it, both succeed, and both new tokens are stored.
\<close>

fun interleave :: "auth_config \<Rightarrow> datetime \<Rightarrow> uuid \<Rightarrow> nat list \<Rightarrow> refresh_pc list \<Rightarrow> auth_state \<Rightarrow> refresh_pc list \<times> auth_state" where
  "interleave cfg now c [] pcs s = (pcs, s)"
| "interleave cfg now c (i # is) pcs s =
     (case rotate_step cfg now c (pcs ! i) s of (pc, s') \<Rightarrow> interleave cfg now c is (pcs[i := pc]) s')"

theorem concurrent_refreshes_both_succeed:
  assumes "inj (au_uuid4 cfg)" "token_get_user_id now (au_tokens s) c = Inr (Some u)" "find_by_id (au_users s) u = Inr (Some x)"
    and "c \<in> au_uuid4 cfg ` {..<au_drawn s}"
  shows "\<exists>p q s'. interleave cfg now c [0, 0, 0, 1, 1, 1, 0, 0, 1, 1] [R_Start, R_Start] s = ([R_Done p, R_Done q], s') \<and>
    rt_token_id (tp_refresh p) \<noteq> rt_token_id (tp_refresh q) \<and>
    au_tokens s' (rt_token_id (tp_refresh p)) \<noteq> None \<and> au_tokens s' (rt_token_id (tp_refresh q)) \<noteq> None"
proof -
  have "au_uuid4 cfg (au_drawn s) \<noteq> c" using assms(1,4) by (auto simp: inj_eq)
  then show ?thesis using assms(1-3) by (auto simp: Let_def token_delete_def token_save_def inj_eq)
qed

subsection \<open>Accounts\<close>

definition accounts_ok :: "user list \<Rightarrow> bool" where
  "accounts_ok us \<longleftrightarrow> distinct (map ur_email us) \<and> distinct (map ur_id us) \<and> (\<forall>u\<in>set us. startswith (ur_hashed_password u) ''$argon2id$'')"

lemma rotate_run_users: "au_users (snd (rotate_run cfg now c s)) = au_users s"
  by (auto simp: rotate_run_eq Let_def split: sum.splits option.splits)

lemma refresh_route_users: "au_users (snd (refresh_route cfg now cookie s)) = au_users s"
proof -
  have "au_users s1 = au_users s" if "rotate_run cfg now t s = (r, s1)" for t r s1
    using rotate_run_users [of cfg now t s] that by simp
  then show ?thesis
    by (auto simp: refresh_route_def split: option.splits list.splits sum.splits prod.splits refresh_pc.splits)
qed

lemma authenticate_users: "au_users (snd (authenticate_user cfg now s email password)) = au_users s"
  by (auto simp: authenticate_user_def Let_def split: sum.splits option.splits bool.splits)

lemma login_route_users: "au_users (snd (login_route cfg le ip s email password)) = au_users s"
proof -
  obtain r s1 where l: "auth_limit le ''login'' ip s = (r, s1)" by (cases "auth_limit le ''login'' ip s")
  have "au_users s1 = au_users s" using enforce_keeps(3) l unfolding auth_limit_def by (metis snd_conv)
  then show ?thesis using authenticate_users [of cfg "le_wall le" s1 email password]
    by (auto simp: login_route_def l split: sum.splits prod.splits)
qed

lemma accounts_ok_register:
  "accounts_ok (au_users s) \<Longrightarrow> accounts_ok (au_users (snd (register_user cfg now s email password)))"
  by (auto simp: register_user_def user_save_def accounts_ok_def make_password_hash_def Let_def split: sum.splits if_splits)

lemma accounts_ok_do: "accounts_ok (au_users s) \<Longrightarrow> accounts_ok (au_users (auth_do cfg r s))"
proof (cases r)
  case (Register_Request le ip email password)
  obtain q s1 where l: "auth_limit le ''register'' ip s = (q, s1)" by (cases "auth_limit le ''register'' ip s")
  have "au_users s1 = au_users s" using enforce_keeps(3) l unfolding auth_limit_def by (metis snd_conv)
  moreover assume "accounts_ok (au_users s)"
  ultimately show ?thesis using accounts_ok_register [of s1] Register_Request
    by (auto simp: register_route_def l split: sum.splits)
next
  case (Logout_Request cookie)
  then show "accounts_ok (au_users s) \<Longrightarrow> ?thesis" by (auto simp: logout_route_def Let_def split: option.splits)
qed (simp_all add: login_route_users refresh_route_users)

lemma find_by_email_ok:
  assumes "accounts_ok us"
  shows "find_by_email us email = Inr (List.find (\<lambda>u. ur_email u = email) us)"
proof -
  have "startswith (ur_hashed_password u) ''$argon2id$''" if "List.find (\<lambda>u. ur_email u = email) us = Some u" for u
    using assms that unfolding accounts_ok_def by (metis find_Some_iff nth_mem)
  then show ?thesis by (auto simp: find_by_email_def row_to_user_def make_password_hash_def split: option.splits)
qed

text \<open>
  C34. A login tells nothing about which addresses are registered. From any state that requests can reach, a login that the limit
  lets pass succeeds exactly when the address is registered and argon2 accepts the password for its hash; otherwise the reply,
  the number of verifications and the stored tokens are the same for an unknown address and a wrong password.
\<close>
theorem login_correct:
  assumes "au_users s0 = []" "s = fold (auth_do cfg) rs s0" "auth_limit le ''login'' ip s = (Inr (), s1)"
    and "\<And>h e. au_argon2 cfg h password \<noteq> Argon2_Raises e"
  shows "(\<exists>u\<in>set (au_users s). ur_email u = email \<and> au_argon2 cfg (ur_hashed_password u) password = Match \<and>
            (\<exists>s2. login_route cfg le ip s email password =
              (Inr (ac_value (tp_access (issue_pair cfg (au_uuid4 cfg (au_drawn s)) (le_wall le) (ur_id u) (ur_tenant_id u)))), s2))) \<or>
         (\<not> (\<exists>u\<in>set (au_users s). ur_email u = email \<and> au_argon2 cfg (ur_hashed_password u) password = Match) \<and>
            (\<exists>s2. login_route cfg le ip s email password = (Inl InvalidCredentials, s2) \<and> au_tokens s2 = au_tokens s \<and>
               length (au_verified s2) = Suc (length (au_verified s))))"
proof -
  have ok: "accounts_ok (au_users s)"
  proof -
    have "accounts_ok (au_users (fold (auth_do cfg) rs s'))" if "accounts_ok (au_users s')" for s'
      using that by (induction rs arbitrary: s') (auto intro: accounts_ok_do)
    moreover have "accounts_ok (au_users s0)" using assms(1) by (simp add: accounts_ok_def)
    ultimately show ?thesis using assms(2) by simp
  qed
  have keep: "au_users s1 = au_users s" "au_tokens s1 = au_tokens s" "au_drawn s1 = au_drawn s" "au_verified s1 = au_verified s"
    using enforce_keeps [of le "''login'' @ '':'' @ ip" AUTH_LIMIT WINDOW_SECONDS s] assms(3) by (simp_all add: auth_limit_def)
  have verify: "hasher_verify cfg password h = Inr (au_argon2 cfg h password = Match)" for h
    using assms(4) [of h] by (cases "au_argon2 cfg h password") (auto simp: hasher_verify_def)
  show ?thesis
  proof (cases "List.find (\<lambda>u. ur_email u = email) (au_users s)")
    case None
    then have "\<not> (\<exists>u\<in>set (au_users s). ur_email u = email)" by (auto simp: find_None_iff)
    with None show ?thesis
      by (auto simp: login_route_def assms(3) authenticate_user_def keep find_by_email_ok [OF ok] verify)
  next
    case (Some u)
    then have u: "u \<in> set (au_users s)" "ur_email u = email" by (auto simp: find_Some_iff)
    have only: "w = u" if "w \<in> set (au_users s)" "ur_email w = email" for w
      using ok that u unfolding accounts_ok_def by (metis distinct_map inj_onD)
    show ?thesis
    proof (cases "au_argon2 cfg (ur_hashed_password u) password = Match")
      case True
      with Some u show ?thesis
        by (intro disjI1 bexI [of _ u]) (auto simp: login_route_def assms(3) authenticate_user_def keep find_by_email_ok [OF ok] verify)
    next
      case False
      with Some only show ?thesis
        by (intro disjI2) (auto simp: login_route_def assms(3) authenticate_user_def keep find_by_email_ok [OF ok] verify)
    qed
  qed
qed


subsection \<open>Examples\<close>

instance pyfloat :: countable
  by countable_datatype

instance json :: countable
  by countable_datatype

definition ex_auth :: auth_config where
  \<comment> \<open>a token is its claims, numbered; a hash is the password behind the prefix\<close>
  "ex_auth = \<lparr>jw_encode = (\<lambda>c k. replicate (to_nat c) CHR ''x''), jw_decode = (\<lambda>v k. Some (from_nat (length v))), jw_secret = ''k'',
     au_hash = (\<lambda>n p. ''$argon2id$'' @ p), au_argon2 = (\<lambda>h p. if h = ''$argon2id$'' @ p then Match else Mismatch), au_uuid4 = (\<lambda>n. n)\<rparr>"

lemma ex_auth_decodes: "jw_decode ex_auth (jw_encode ex_auth c (jw_secret ex_auth)) (jw_secret ex_auth) = Some c"
  by (simp add: ex_auth_def)

definition ex_limits :: limit_env where
  "ex_limits = \<lparr>le_ttl_of = id, le_iso = (\<lambda>t. ''t''), le_now = 0, le_wall = 0\<rparr>"

definition ex_auth_state :: auth_state where
  "ex_auth_state = \<lparr>ht_counters = (\<lambda>k. None), ht_stash = None, ht_response = [], au_users = [], au_tokens = (\<lambda>t. None), au_drawn = 0,
     au_verified = [], au_cookie = None\<rparr>"

definition ex_account :: auth_state where
  "ex_account = fold (auth_do ex_auth) [Register_Request ex_limits ''1.2.3.4'' ''a@b.c'' ''secret''] ex_auth_state"

lemma ex_account_eval:
  "au_users ex_account = [\<lparr>ur_id = 0, ur_email = ''a@b.c'', ur_hashed_password = ''$argon2id$secret'', ur_tenant_id = 1,
     ur_created_at = 0, ur_updated_at = 0\<rparr>]"
  "au_drawn ex_account = 2" "au_tokens ex_account = (\<lambda>t. None)" "au_verified ex_account = []"
  by (simp_all add: ex_account_def ex_auth_state_def ex_auth_def register_route_def auth_limit_def enforce_rate_limit_def
      limiter_check_key check_counter_def redis_incr_def redis_live_def AUTH_LIMIT_def Let_def register_user_def make_password_hash_def
      startswith_def user_save_def ex_limits_def)

theorem access_token_identifies_caller_witness:
  "get_caller ex_auth 5 (Some (''Bearer '' @ ac_value (tp_access (issue_pair ex_auth 3 0 1 2)))) = Inr \<lparr>cl_tenant_id = 2, cl_user_id = 1\<rparr> \<and>
   get_caller ex_auth 5 (Some (''Bearer '' @ rt_value (tp_refresh (issue_pair ex_auth 3 0 1 2)))) = Inl TokenExpired"
proof -
  have "(1 :: nat) < 2 ^ 128" "(2 :: nat) < 2 ^ 128" "(0 + days 7) div 1000000 < 2 ^ 52" "(5 :: int) div 1000000 < 2 ^ 52"
    "(5 :: int) \<le> (0 + ACCESS_TOKEN_LIFETIME) div 1000000 * 1000000"
    by (simp_all add: days_def seconds_def ACCESS_TOKEN_LIFETIME_def)
  then show ?thesis
    using access_token_identifies_caller [of ex_auth 1 2 0 5 3, OF ex_auth_decodes] unfolding Let_def by simp
qed

lemma ex_limit_passes: "auth_limit ex_limits ''login'' ''1.2.3.4'' ex_account = (Inr (), snd (auth_limit ex_limits ''login'' ''1.2.3.4'' ex_account))"
proof -
  have "ht_counters ex_account (redis_key ''login:1.2.3.4'') = None"
    by (simp add: ex_account_def ex_auth_state_def ex_auth_def register_route_def auth_limit_def enforce_rate_limit_def
      limiter_check_key check_counter_def redis_incr_def redis_live_def AUTH_LIMIT_def Let_def register_user_def make_password_hash_def
      startswith_def user_save_def ex_limits_def redis_key_def)
  then show ?thesis
    by (simp add: auth_limit_def enforce_rate_limit_def limiter_check_key check_counter_def redis_incr_def redis_live_def AUTH_LIMIT_def Let_def)
qed

theorem login_correct_witness:
  "\<exists>s2. login_route ex_auth ex_limits ''1.2.3.4'' ex_account ''a@b.c'' ''guess'' = (Inl InvalidCredentials, s2) \<and>
     au_tokens s2 = au_tokens ex_account \<and> length (au_verified s2) = 1"
proof -
  have "au_users ex_auth_state = []" by (simp add: ex_auth_state_def)
  moreover have "au_argon2 ex_auth h ''guess'' \<noteq> Argon2_Raises e" for h e by (simp add: ex_auth_def)
  ultimately show ?thesis
    using login_correct [OF _ ex_account_def ex_limit_passes, of "''guess''" "''a@b.c''"] by (auto simp: ex_account_eval ex_auth_def)
qed

definition ex_logged_in :: auth_state where
  "ex_logged_in = ex_account\<lparr>au_drawn := 3, au_tokens := [2 \<mapsto> (uuid_str 0, seconds 100)]\<rparr>"

lemma ex_refresh_ok:
  "\<exists>a s1. refresh_route ex_auth 0 (Some (uuid_str 2)) ex_logged_in = (Inr a, s1)"
proof -
  have "uuid_str 2 \<noteq> []" by (simp add: uuid_str_def Let_def)
  moreover have "uuid_str 0 \<noteq> []" by (simp add: uuid_str_def Let_def)
  ultimately show ?thesis
    by (auto simp: refresh_route_some parse_refresh_cookie_def rotate_run_eq token_get_user_id_def ex_logged_in_def ex_account_eval
        find_by_id_def row_to_user_def make_password_hash_def startswith_def seconds_def Let_def)
qed

theorem refresh_token_single_use_witness:
  "\<exists>a s1. refresh_route ex_auth 0 (Some (uuid_str 2)) ex_logged_in = (Inr a, s1) \<and>
     fst (refresh_route ex_auth 1 (Some (uuid_str 2)) (fold (auth_do ex_auth) [Logout_Request None] s1)) = Inl TokenAlreadyUsed"
proof -
  obtain a s1 where r: "refresh_route ex_auth 0 (Some (uuid_str 2)) ex_logged_in = (Inr a, s1)" using ex_refresh_ok by blast
  have p: "parse_uuid (uuid_str 2) = Some 2" by simp
  have "inj (au_uuid4 ex_auth)" "2 \<in> au_uuid4 ex_auth ` {..<au_drawn ex_logged_in}" by (simp_all add: ex_auth_def ex_logged_in_def)
  from refresh_token_single_use [OF this(1) p this(2) disjI1 [OF r] p, of 1 "[Logout_Request None]"] r show ?thesis by auto
qed

end
