(* ===== verification/Api_Routes.thy ===== *)
theory Api_Routes
  imports Identity_Auth Unified_Answer Data_Sources
begin

text \<open>
  The routes behind authentication (\<^verbatim>\<open>src/api/routers\<close>: chat, sessions, data sources, document search), the handlers of their
  exceptions, and the background ingestion they dispatch: ownership of a job (\<^verbatim>\<open>ingestion_ownership.py\<close>), the dispatcher over Celery and Redis, and
  the task of the worker (\<^verbatim>\<open>src/workers\<close>).

  A route is a function of the authorization header, the checked body and the state. FastAPI resolves the caller before it
  checks the body. Celery is a parameter: the identifier of a task that was sent, or its failure, and the result of a task.
\<close>

subsection \<open>Exception handlers\<close>

definition error_response :: "api_error \<Rightarrow> int \<times> string" where
  \<comment> \<open>status and detail; an exception with no handler is an internal error\<close>
  "error_response e =
     (case e of
        InvalidCredentials \<Rightarrow> (401, ''Invalid credentials'')
      | EmailAlreadyRegistered _ \<Rightarrow> (409, ''Email already registered'')
      | TokenExpired \<Rightarrow> (401, ''Token expired'')
      | TokenAlreadyUsed \<Rightarrow> (401, ''Invalid credentials'')
      | RateLimitExceeded _ _ _ _ \<Rightarrow> (429, ''Rate limit exceeded'')
      | Domain (SessionNotFound _) \<Rightarrow> (404, ''Session not found'')
      | Domain (QueryExceedsBudget n slice) \<Rightarrow>
          (422, ''the question is '' @ int_str n @ '' tokens; the Query slice allows '' @ int_str slice)
      | Domain (IngestionJobNotFound _) \<Rightarrow> (404, ''Ingestion job not found'')
      | Domain (OtherException m) \<Rightarrow> if startswith m ''Unsupported file type: '' then (422, m) else (500, ''Internal Server Error'')
      | Domain _ \<Rightarrow> (500, ''Internal Server Error''))"

definition validation_error :: api_error where
  "validation_error = Domain (OtherException ''RequestValidationError'')"

definition MAX_QUESTION_CHARS :: nat where "MAX_QUESTION_CHARS = 4000"

definition valid_question :: "string \<Rightarrow> bool" where
  "valid_question q \<longleftrightarrow> 1 \<le> length q \<and> length q \<le> MAX_QUESTION_CHARS \<and> py_strip q \<noteq> []"

subsection \<open>Chat and sessions\<close>

record limit_values =
  lv_chat :: "string option"
  lv_global :: "string option"

definition chat_guard :: "limit_env \<Rightarrow> limit_values \<Rightarrow> uuid \<Rightarrow> 'z http_state_scheme \<Rightarrow> unit api_result \<times> 'z http_state_scheme" where
  "chat_guard le lv user_id s =
     (case chat_rate_limit (lv_chat lv) of
        Inl e \<Rightarrow> (Inl e, s)
      | Inr per_user \<Rightarrow>
          (case enforce_rate_limit le (''chat:'' @ uuid_str user_id) per_user WINDOW_SECONDS s of
             (Inl e, s1) \<Rightarrow> (Inl e, s1)
           | (Inr _, s1) \<Rightarrow>
               (case global_chat_limit (lv_global lv) of
                  Inl e \<Rightarrow> (Inl e, s1)
                | Inr overall \<Rightarrow> enforce_rate_limit le GLOBAL_CHAT_KEY overall GLOBAL_CHAT_WINDOW_SECONDS s1)))"

definition TOP_K :: int where "TOP_K = 5"

definition chat_route :: "auth_config \<Rightarrow> limit_env \<Rightarrow> limit_values \<Rightarrow> (string \<Rightarrow> string \<Rightarrow> string result) \<Rightarrow> retriever \<Rightarrow> string option \<Rightarrow>
    string \<Rightarrow> http_state \<Rightarrow> chat_answer api_result \<times> http_state" where
  "chat_route cfg le lv gen search authorization question s =
     (case get_caller cfg (le_wall le) authorization of
        Inl e \<Rightarrow> (Inl e, s)
      | Inr c \<Rightarrow>
          if MAX_QUESTION_CHARS < length question then (Inl validation_error, s)
          else case chat_guard le lv (cl_user_id c) s of
                 (Inl e, s1) \<Rightarrow> (Inl e, s1)
               | (Inr _, s1) \<Rightarrow> (map_sum Domain id (answer_question gen search TOP_K (cl_tenant_id c) question), s1))"

definition create_session_route :: "auth_config \<Rightarrow> limit_env \<Rightarrow> uuid set \<Rightarrow> uuid \<Rightarrow> string option \<Rightarrow> string option \<Rightarrow>
    http_state \<times> chat_session list \<Rightarrow> chat_session api_result \<times> http_state \<times> chat_session list" where
  "create_session_route cfg le users new_id authorization title st =
     (case get_caller cfg (le_wall le) authorization of
        Inl e \<Rightarrow> (Inl e, st)
      | Inr c \<Rightarrow>
          if (case title of None \<Rightarrow> False | Some t \<Rightarrow> MAX_SESSION_TITLE_CHARS < length t) then (Inl validation_error, st)
          else case enforce_rate_limit le (''sessions:'' @ uuid_str (cl_user_id c)) SESSION_CREATE_LIMIT WINDOW_SECONDS (fst st) of
                 (Inl e, s1) \<Rightarrow> (Inl e, s1, snd st)
               | (Inr _, s1) \<Rightarrow>
                   (case start_chat_session users new_id (le_wall le) (snd st) (cl_tenant_id c) (cl_user_id c) title of
                      (r, rows) \<Rightarrow> (map_sum Domain id r, s1, rows)))"

definition list_sessions_route :: "auth_config \<Rightarrow> limit_env \<Rightarrow> string option \<Rightarrow> int \<Rightarrow> chat_session list \<Rightarrow> chat_session list api_result" where
  "list_sessions_route cfg le authorization limit rows =
     (case get_caller cfg (le_wall le) authorization of
        Inl e \<Rightarrow> Inl e
      | Inr c \<Rightarrow> if \<not> (1 \<le> limit \<and> limit \<le> MAX_SESSIONS_PER_PAGE) then Inl validation_error
                 else map_sum Domain id (list_chat_sessions rows (cl_tenant_id c) (cl_user_id c) limit))"

definition answer_route :: "auth_config \<Rightarrow> limit_env \<Rightarrow> limit_values \<Rightarrow> unified_config \<Rightarrow> ('t, chat_session list) services \<Rightarrow> run_inputs \<Rightarrow>
    string option \<Rightarrow> uuid \<Rightarrow> string \<Rightarrow> http_state \<times> ('t, chat_session list) answer_state \<Rightarrow>
    unified_answer api_result \<times> http_state \<times> ('t, chat_session list) answer_state" where
  "answer_route cfg le lv ucfg sv ri authorization session_id question st =
     (case get_caller cfg (le_wall le) authorization of
        Inl e \<Rightarrow> (Inl e, st)
      | Inr c \<Rightarrow>
          if \<not> valid_question question then (Inl validation_error, st)
          else case chat_guard le lv (cl_user_id c) (fst st) of
                 (Inl e, s1) \<Rightarrow> (Inl e, s1, snd st)
               | (Inr _, s1) \<Rightarrow>
                   (case answer_in_session ucfg sv ri (cl_tenant_id c) (cl_user_id c) session_id question (snd st) of
                      (r, a) \<Rightarrow> (map_sum Domain id r, s1, a)))"

record answer_schema =
  as_answer :: string
  as_sources :: "(string \<times> string \<times> uuid option) list"
  as_routing :: "(string list \<times> routing_mode \<times> routing_fallback option) option"
  as_attempts :: "(string \<times> tier_outcome \<times> rat) list"
  as_degraded :: bool
  as_dropped :: "(string \<times> nat) list"

definition answer_response :: "unified_answer \<Rightarrow> answer_schema" where
  \<comment> \<open>no scores and no timings of the stages\<close>
  "answer_response a =
     \<lparr>as_answer = ua_answer a,
      as_sources = map (\<lambda>i. (paradigm_value (ci_paradigm i), ci_content i, ci_source_id i)) (ua_sources a),
      as_routing = map_option (\<lambda>d. (map paradigm_value (filter (\<lambda>p. p \<in> rd_paradigms d) PARADIGM_ORDER), rd_mode d, ua_routing_fallback a))
        (ua_decision a),
      as_attempts = map (\<lambda>t. (paradigm_value (ta_paradigm t), ta_outcome t, ta_elapsed_ms t)) (ua_attempts a),
      as_degraded = ua_degraded a,
      as_dropped = map (\<lambda>p. (paradigm_value p, ua_dropped a p)) PARADIGM_ORDER\<rparr>"


definition search_route :: "auth_config \<Rightarrow> datetime \<Rightarrow> retriever \<Rightarrow> string option \<Rightarrow> string \<Rightarrow> int \<Rightarrow> search_result list api_result" where
  \<comment> \<open>\<open>uuid.UUID(claims["tenant_id"])\<close> is not guarded here\<close>
  "search_route cfg now search authorization query top_k =
     (case get_current_user_claims cfg now authorization of
        Inl e \<Rightarrow> Inl e
      | Inr claims \<Rightarrow>
          if \<not> (1 \<le> top_k \<and> top_k \<le> 50) then Inl validation_error
          else case map_of claims ''tenant_id'' of
                 None \<Rightarrow> Inl (Domain (KeyError ''tenant_id''))
               | Some v \<Rightarrow>
                   (case claim_uuid (Some v) of
                      Inl TokenExpired \<Rightarrow> Inl (Domain (ValueError ''badly formed hexadecimal UUID string''))
                    | Inl e \<Rightarrow> Inl e
                    | Inr tenant_id \<Rightarrow> map_sum Domain id (search tenant_id query top_k)))"

subsection \<open>Ownership of jobs\<close>

definition owner_key :: "uuid \<Rightarrow> uuid option \<Rightarrow> string" where
  "owner_key tenant_id user_id = uuid_str tenant_id @ '':'' @ (case user_id of None \<Rightarrow> [] | Some u \<Rightarrow> uuid_str u)"

definition owner_matches :: "string \<Rightarrow> uuid \<Rightarrow> uuid \<Rightarrow> bool result" where
  "owner_matches stored tenant_id user_id =
     (let owner_tenant = takeWhile (\<lambda>c. c \<noteq> CHR '':'') stored;
          owner_user = drop 1 (dropWhile (\<lambda>c. c \<noteq> CHR '':'') stored);
          bad = ValueError ''badly formed hexadecimal UUID string''
      in case parse_uuid owner_tenant of
           None \<Rightarrow> Inl bad
         | Some t \<Rightarrow>
             if t \<noteq> tenant_id then Inr False
             else if owner_user = [] then Inr True
             else case parse_uuid owner_user of None \<Rightarrow> Inl bad | Some u \<Rightarrow> Inr (u = user_id))"

subsection \<open>CeleryIngestionJobDispatcher\<close>

definition JOB_TTL_SECONDS :: int where "JOB_TTL_SECONDS = 24 * 60 * 60"

record task_args =
  ka_tenant_id :: string
  ka_source_key :: string
  ka_scope :: string
  ka_expected_change_interval_seconds :: int
  ka_content :: string
  ka_user_id :: "string option"

record raw_result =
  rr_source_id :: string
  rr_route :: string
  rr_changed :: bool

record celery_result =
  ce_state :: string
  ce_result :: raw_result
  ce_error :: string

record job_store =
  jb_owners :: "string \<Rightarrow> (string \<times> datetime) option"
  jb_sent :: "(string \<times> task_args) list"

definition dispatch_job :: "(nat \<Rightarrow> string result) \<Rightarrow> py_error option \<Rightarrow> datetime \<Rightarrow> job_store \<Rightarrow> uuid \<Rightarrow> data_source_profile \<Rightarrow> string \<Rightarrow>
    uuid option \<Rightarrow> string result \<times> job_store" where
  \<comment> \<open>the task is sent before its owner is stored\<close>
  "dispatch_job send set_fails now st tenant_id profile content user_id =
     (case send (length (jb_sent st)) of
        Inl e \<Rightarrow> (Inl e, st)
      | Inr task_id \<Rightarrow>
          (let args = \<lparr>ka_tenant_id = uuid_str tenant_id, ka_source_key = dp_source_key profile, ka_scope = scope_value (dp_scope profile),
                       ka_expected_change_interval_seconds = py_int (fl (of_int (dp_expected_change_interval profile) / 1000000)),
                       ka_content = content, ka_user_id = map_option uuid_str user_id\<rparr>;
               st1 = st\<lparr>jb_sent := jb_sent st @ [(task_id, args)]\<rparr>
           in case set_fails of
                Some e \<Rightarrow> (Inl e, st1)
              | None \<Rightarrow> (Inr task_id, st1\<lparr>jb_owners := (jb_owners st1)(''ingestion_job:'' @ task_id \<mapsto>
                          (owner_key tenant_id user_id, now + seconds JOB_TTL_SECONDS))\<rparr>)))"

definition ingestion_route_of :: "string \<Rightarrow> ingestion_route option" where
  "ingestion_route_of v =
     (if v = ''rag_only'' then Some RAG_ONLY else if v = ''cag_with_rag_backup'' then Some CAG_WITH_RAG_BACKUP
      else if v = ''mag'' then Some MAG_ROUTE else None)"

definition ingestion_route_value :: "ingestion_route \<Rightarrow> string" where
  "ingestion_route_value r = (case r of RAG_ONLY \<Rightarrow> ''rag_only'' | CAG_WITH_RAG_BACKUP \<Rightarrow> ''cag_with_rag_backup'' | MAG_ROUTE \<Rightarrow> ''mag'')"

definition read_job :: "celery_result \<Rightarrow> job_status result" where
  "read_job c =
     (if ce_state c \<in> {''PENDING'', ''STARTED'', ''RETRY''} then Inr \<lparr>js_state = PENDING, js_result = None, js_error = None\<rparr>
      else if ce_state c = ''SUCCESS''
      then case parse_uuid (rr_source_id (ce_result c)) of
             None \<Rightarrow> Inl (ValueError ''badly formed hexadecimal UUID string'')
           | Some i \<Rightarrow>
               (case ingestion_route_of (rr_route (ce_result c)) of
                  None \<Rightarrow> Inl (ValueError ''not a valid IngestionRoute'')
                | Some r \<Rightarrow> Inr \<lparr>js_state = SUCCESS,
                    js_result = Some \<lparr>ir_source_id = i, ir_route = r, ir_changed = rr_changed (ce_result c)\<rparr>, js_error = None\<rparr>)
      else Inr \<lparr>js_state = FAILURE, js_result = None, js_error = Some (ce_error c)\<rparr>)"

definition job_status_of :: "(string \<Rightarrow> celery_result) \<Rightarrow> datetime \<Rightarrow> job_store \<Rightarrow> string \<Rightarrow> uuid \<Rightarrow> uuid \<Rightarrow> job_status option result" where
  "job_status_of results now st task_id tenant_id user_id =
     (case jb_owners st (''ingestion_job:'' @ task_id) of
        None \<Rightarrow> Inr None
      | Some (owner, expires) \<Rightarrow>
          if expires \<le> now then Inr None
          else case owner_matches owner tenant_id user_id of
                 Inl e \<Rightarrow> Inl e
               | Inr False \<Rightarrow> Inr None
               | Inr True \<Rightarrow> map_sum id Some (read_job (results task_id)))"

definition ingest_route :: "auth_config \<Rightarrow> limit_env \<Rightarrow> (nat \<Rightarrow> string result) \<Rightarrow> py_error option \<Rightarrow> string option \<Rightarrow> string \<Rightarrow> source_scope \<Rightarrow>
    int \<Rightarrow> string \<Rightarrow> http_state \<times> job_store \<Rightarrow> string api_result \<times> http_state \<times> job_store" where
  "ingest_route cfg le send set_fails authorization source_key scope interval_seconds content st =
     (case get_caller cfg (le_wall le) authorization of
        Inl e \<Rightarrow> (Inl e, st)
      | Inr c \<Rightarrow>
          if py_strip source_key = [] \<or> interval_seconds \<le> 0 \<or> py_strip content = [] \<or> 2000000 < length content
          then (Inl validation_error, st)
          else case enforce_rate_limit le (''data-sources:'' @ uuid_str (cl_user_id c)) INGESTION_RATE_LIMIT WINDOW_SECONDS (fst st) of
                 (Inl e, s1) \<Rightarrow> (Inl e, s1, snd st)
               | (Inr _, s1) \<Rightarrow>
                   (case make_data_source_profile source_key scope (seconds interval_seconds) of
                      Inl e \<Rightarrow> (Inl (Domain e), s1, snd st)
                    | Inr profile \<Rightarrow>
                        (case dispatch_job send set_fails (le_now le) (snd st) (cl_tenant_id c) profile content
                                (if scope = USER then Some (cl_user_id c) else None) of
                           (r, st') \<Rightarrow> (map_sum Domain id r, s1, st'))))"

definition job_status_route :: "auth_config \<Rightarrow> limit_env \<Rightarrow> (string \<Rightarrow> celery_result) \<Rightarrow> string option \<Rightarrow> string \<Rightarrow> job_store \<Rightarrow> job_status api_result" where
  "job_status_route cfg le results authorization task_id st =
     (case get_caller cfg (le_wall le) authorization of
        Inl e \<Rightarrow> Inl e
      | Inr c \<Rightarrow>
          (case job_status_of results (le_now le) st task_id (cl_tenant_id c) (cl_user_id c) of
             Inl e \<Rightarrow> Inl (Domain e)
           | Inr None \<Rightarrow> Inl (Domain (IngestionJobNotFound task_id))
           | Inr (Some status) \<Rightarrow> Inr status))"

subsection \<open>The ingestion worker\<close>

datatype build_outcome = Built | Provisioning_Fails py_error

record 'a worker_run =
  wk_result :: "'a result"
  wk_closed :: "string list"

definition task_result :: "ingestion_result \<Rightarrow> raw_result" where
  "task_result r = \<lparr>rr_source_id = uuid_str (ir_source_id r), rr_route = ingestion_route_value (ir_route r), rr_changed = ir_changed r\<rparr>"

definition scope_of :: "string \<Rightarrow> source_scope result" where
  "scope_of v = (if v = ''tenant'' then Inr TENANT else if v = ''user'' then Inr USER else Inl (ValueError (v @ '' is not a valid SourceScope'')))"

fun mask_error :: "py_error \<Rightarrow> py_error" where
  "mask_error (ScopeMismatch a b c) = ScopeMismatch a b c"
| "mask_error (ValueError m) = ValueError m"
| "mask_error e = RuntimeError ''ingestion failed''"

definition run_ingest :: "(uuid \<Rightarrow> data_source_profile \<Rightarrow> string \<Rightarrow> uuid option \<Rightarrow> ingestion_result result) \<Rightarrow> task_args \<Rightarrow> data_source_profile \<Rightarrow>
    ingestion_result result" where
  \<comment> \<open>the call inside the inner \<open>try\<close>, with the conversions of its arguments\<close>
  "run_ingest ingest args profile =
     (let bad = ValueError ''badly formed hexadecimal UUID string'' in
      case parse_uuid (ka_tenant_id args) of
        None \<Rightarrow> Inl bad
      | Some t \<Rightarrow>
          (case ka_user_id args of
             None \<Rightarrow> ingest t profile (ka_content args) None
           | Some v \<Rightarrow> (case parse_uuid v of None \<Rightarrow> Inl bad | Some u \<Rightarrow> ingest t profile (ka_content args) (Some u))))"

definition ingest_data_source_task :: "build_outcome \<Rightarrow> (uuid \<Rightarrow> data_source_profile \<Rightarrow> string \<Rightarrow> uuid option \<Rightarrow> ingestion_result result) \<Rightarrow>
    task_args \<Rightarrow> raw_result worker_run" where
  "ingest_data_source_task build ingest args =
     (case build of
        Provisioning_Fails e \<Rightarrow> \<lparr>wk_result = Inl e, wk_closed = [''graph'', ''engine'']\<rparr>
      | Built \<Rightarrow>
          \<lparr>wk_result =
             (case scope_of (ka_scope args) of
                Inl e \<Rightarrow> Inl e
              | Inr scope \<Rightarrow>
                  (case make_data_source_profile (ka_source_key args) scope (seconds (ka_expected_change_interval_seconds args)) of
                     Inl e \<Rightarrow> Inl e
                   | Inr profile \<Rightarrow> map_sum mask_error task_result (run_ingest ingest args profile))),
           wk_closed = [''graph'', ''engine'']\<rparr>)"

subsection \<open>Guards come first\<close>

lemma limiter_other_key: "k \<noteq> redis_key key \<Longrightarrow> snd (limiter_check f now wall c key limit w) k = c k"
  by (auto simp: limiter_check_key split: prod.splits)

lemma enforce_counters:
  "k \<noteq> redis_key key \<Longrightarrow> ht_counters (snd (enforce_rate_limit le key limit w s)) k = ht_counters s k"
  using limiter_other_key [of k key "le_ttl_of le" "le_now le" "le_wall le" "ht_counters s" limit w]
  by (auto simp: enforce_rate_limit_def Let_def split: prod.splits)

lemma enforce_refused:
  assumes "enforce_rate_limit le key limit w s = (Inl e, s')"
  shows "\<exists>reset_at. e = RateLimitExceeded limit 0 reset_at key" "ht_stash s' = None"
  using assms by (auto simp: enforce_rate_limit_def Let_def split: prod.splits if_splits)

lemma enforce_passed_stash:
  assumes "enforce_rate_limit le key limit w s = (Inr x, s')"
  shows "ht_stash s' = (case ht_stash s of None \<Rightarrow> ht_stash s' | Some h \<Rightarrow> Some h)" "ht_stash s' \<noteq> None"
    "ht_stash s = None \<Longrightarrow> \<exists>remaining reset_at. ht_stash s' = Some (limit_headers (le_iso le) limit remaining reset_at)"
  using assms by (auto simp: enforce_rate_limit_def Let_def split: prod.splits if_splits option.splits) blast

text \<open>
  The order of the two limits protects the shared one: a request of a user who is over the own limit does not touch the
  counter that all users share, and is told the own limit. A request that passes is told the own limit too; one refused by the
  shared limit has no stale headers of the check that it passed.
\<close>
theorem chat_guard_order:
  assumes "chat_guard le lv user_id s = (r, s')" "ht_stash s = None"
  shows "(\<forall>limit remaining reset_at. r = Inl (RateLimitExceeded limit remaining reset_at (''chat:'' @ uuid_str user_id)) \<longrightarrow>
            ht_counters s' (redis_key GLOBAL_CHAT_KEY) = ht_counters s (redis_key GLOBAL_CHAT_KEY)) \<and>
         (\<forall>e. r = Inl e \<longrightarrow> (\<exists>limit reset_at key. e = RateLimitExceeded limit 0 reset_at key) \<longrightarrow> ht_stash s' = None) \<and>
         (r = Inr () \<longrightarrow> (\<exists>limit remaining reset_at. chat_rate_limit (lv_chat lv) = Inr limit \<and>
            ht_stash s' = Some (limit_headers (le_iso le) limit remaining reset_at)))"
proof (cases "chat_rate_limit (lv_chat lv)")
  case (Inl e)
  then have "\<exists>m. e = Domain m" by (auto simp: chat_rate_limit_def env_limit_def split: option.splits if_splits)
  with Inl assms show ?thesis by (auto simp: chat_guard_def)
next
  case (Inr per_user)
  let ?k = "''chat:'' @ uuid_str user_id"
  have key: "redis_key GLOBAL_CHAT_KEY \<noteq> redis_key ?k" by (simp add: redis_key_def GLOBAL_CHAT_KEY_def)
  obtain r1 s1 where e1: "enforce_rate_limit le ?k per_user WINDOW_SECONDS s = (r1, s1)" by (cases "enforce_rate_limit le ?k per_user WINDOW_SECONDS s")
  have c1: "ht_counters s1 (redis_key GLOBAL_CHAT_KEY) = ht_counters s (redis_key GLOBAL_CHAT_KEY)"
    using enforce_counters [OF key, of le per_user WINDOW_SECONDS s] e1 by simp
  show ?thesis
  proof (cases r1)
    case (Inl e)
    then have "r = Inl e" "s' = s1" using assms(1) Inr e1 by (simp_all add: chat_guard_def)
    then show ?thesis using c1 enforce_refused [OF e1 [unfolded Inl]] by auto
  next
    case r1: (Inr u)
    note st = enforce_passed_stash [OF e1 [unfolded r1]]
    show ?thesis
    proof (cases "global_chat_limit (lv_global lv)")
      case (Inl e)
      then have "\<exists>m. e = Domain m" by (auto simp: global_chat_limit_def env_limit_def split: option.splits if_splits)
      moreover have "r = Inl e" using assms(1) Inr e1 r1 Inl by (simp add: chat_guard_def)
      ultimately show ?thesis by auto
    next
      case g: (Inr overall)
      then have e2: "enforce_rate_limit le GLOBAL_CHAT_KEY overall GLOBAL_CHAT_WINDOW_SECONDS s1 = (r, s')"
        using assms(1) Inr e1 r1 by (simp add: chat_guard_def)
      show ?thesis
      proof (cases r)
        case (Inl e)
        with enforce_refused [OF e2 [unfolded Inl]] show ?thesis by (auto simp: GLOBAL_CHAT_KEY_def)
      next
        case (Inr w)
        with enforce_passed_stash(1) [OF e2 [unfolded Inr]] st assms(2) \<open>chat_rate_limit (lv_chat lv) = Inr per_user\<close>
        show ?thesis by auto blast
      qed
    qed
  qed
qed

definition requests_counted :: "limit_env \<Rightarrow> 'z http_state_scheme \<Rightarrow> string \<Rightarrow> int" where
  \<comment> \<open>the requests counted for a limit in its window that has not expired\<close>
  "requests_counted le s name =
     (case ht_counters s (''identity:ratelimit:'' @ name) of
        None \<Rightarrow> 0
      | Some (n, None) \<Rightarrow> n
      | Some (n, Some expires) \<Rightarrow> if le_now le < expires then n else 0)"

lemma enforce_count:
  assumes "enforce_rate_limit le key limit w s = (r, s')" "0 < w"
  shows "requests_counted le s' key = requests_counted le s key + 1"
    "limit \<le> requests_counted le s key \<Longrightarrow> \<exists>reset_at. r = Inl (RateLimitExceeded limit 0 reset_at key)"
    "requests_counted le s key < limit \<Longrightarrow> r = Inr ()"
    "other \<noteq> key \<Longrightarrow> requests_counted le s' other = requests_counted le s other"
proof -
  let ?n = "requests_counted le s key" and ?e = "ht_counters s (redis_key key)"
  have later: "le_now le < le_now le + seconds w" using assms(2) by (simp add: seconds_def)
  have n: "?n = (case redis_live (le_now le) ?e of None \<Rightarrow> 0 | Some (m, _) \<Rightarrow> m)"
    by (simp add: requests_counted_def redis_key_def redis_live_def split: option.splits prod.splits)
  have "\<exists>x. check_counter (le_now le) limit w ?e = (?n + 1, Some (?n + 1, Some x)) \<and> le_now le < x"
    unfolding check_counter_cases [OF assms(2)] n using later by (auto simp: redis_live_def split: option.splits)
  then obtain x where c: "check_counter (le_now le) limit w ?e = (?n + 1, Some (?n + 1, Some x))" and x: "le_now le < x" by blast
  let ?new = "Some (?n + 1, Some x)"
  obtain b where l: "limiter_check (le_ttl_of le) (le_now le) (le_wall le) (ht_counters s) key limit w = ((?n < limit, b), (ht_counters s)(redis_key key := ?new))"
    using c by (cases "?n < limit") (auto simp: limiter_check_key Let_def)
  have s': "ht_counters s' = (ht_counters s)(redis_key key := ?new)"
    using assms(1) by (auto simp: enforce_rate_limit_def l Let_def split: prod.splits if_splits)
  show "requests_counted le s' key = ?n + 1" using x by (simp add: requests_counted_def [of le s'] s' redis_key_def)
  show "limit \<le> ?n \<Longrightarrow> \<exists>reset_at. r = Inl (RateLimitExceeded limit 0 reset_at key)" "?n < limit \<Longrightarrow> r = Inr ()"
    using assms(1) by (auto simp: enforce_rate_limit_def l Let_def split: prod.splits if_splits)
  show "other \<noteq> key \<Longrightarrow> requests_counted le s' other = requests_counted le s other"
    by (simp add: requests_counted_def s' redis_key_def)
qed

lemma chat_guard_counts:
  assumes "chat_guard le lv user_id s = (r, s')" "chat_rate_limit (lv_chat lv) = Inr per_user" "global_chat_limit (lv_global lv) = Inr overall"
  shows "if per_user \<le> requests_counted le s (''chat:'' @ uuid_str user_id)
    then (\<exists>reset_at. r = Inl (RateLimitExceeded per_user 0 reset_at (''chat:'' @ uuid_str user_id))) \<and>
         requests_counted le s' ''global:chat'' = requests_counted le s ''global:chat''
    else if overall \<le> requests_counted le s ''global:chat''
    then \<exists>reset_at. r = Inl (RateLimitExceeded overall 0 reset_at ''global:chat'')
    else r = Inr () \<and> requests_counted le s' (''chat:'' @ uuid_str user_id) = requests_counted le s (''chat:'' @ uuid_str user_id) + 1 \<and>
         requests_counted le s' ''global:chat'' = requests_counted le s ''global:chat'' + 1"
proof -
  let ?k = "''chat:'' @ uuid_str user_id"
  have w: "0 < WINDOW_SECONDS" "0 < GLOBAL_CHAT_WINDOW_SECONDS" by (simp_all add: WINDOW_SECONDS_def GLOBAL_CHAT_WINDOW_SECONDS_def)
  have k: "''global:chat'' \<noteq> ?k" by simp
  obtain r1 s1 where 1: "enforce_rate_limit le ?k per_user WINDOW_SECONDS s = (r1, s1)" by (cases "enforce_rate_limit le ?k per_user WINDOW_SECONDS s")
  note c1 = enforce_count [OF 1 w(1)]
  show ?thesis
  proof (cases "per_user \<le> requests_counted le s ?k")
    case True
    with c1(2) obtain x where x: "r1 = Inl (RateLimitExceeded per_user 0 x ?k)" by blast
    with assms(1,2) 1 have "r = r1" "s' = s1" by (simp_all add: chat_guard_def)
    with True x c1(4) [of "''global:chat''", OF k] show ?thesis by simp
  next
    case False
    with c1(3) have "r1 = Inr ()" by simp
    with assms 1 have 2: "enforce_rate_limit le ''global:chat'' overall GLOBAL_CHAT_WINDOW_SECONDS s1 = (r, s')"
      by (simp add: chat_guard_def GLOBAL_CHAT_KEY_def)
    note c2 = enforce_count [OF 2 w(2)]
    from False c1(1) c1(4) [of "''global:chat''", OF k] c2(1,2,3) c2(4) [of ?k] k show ?thesis by auto
  qed
qed

text \<open>
  C35. No answer without a caller who may have it. With both limits configured, the route of a session does exactly this: a header
  with no token that identifies a caller, or a question that is not valid, is refused with nothing counted. A caller who has
  used up the own limit in its window is refused with it, and the counter that all share is not touched; otherwise one who
  finds the shared limit used up is refused with that one. These refusals have no effect on sessions, the cascade and the chat
  model. Every other request is counted once against both limits and gets what \<^verbatim>\<open>AnswerInSession\<close> returns for the tenant and the user of the
  token, which is an error unless the session is theirs.
\<close>
theorem answer_route_guarded:
  assumes "answer_route cfg le lv ucfg sv ri authorization session_id question (h, a) = (r, h', a')" "sessions_ok (an_sessions a)"
    and "chat_rate_limit (lv_chat lv) = Inr per_user" "global_chat_limit (lv_global lv) = Inr overall"
  shows "case get_caller cfg (le_wall le) authorization of
      Inl e \<Rightarrow> r = Inl e \<and> h' = h \<and> a' = a
    | Inr c \<Rightarrow>
        let own = ''chat:'' @ uuid_str (cl_user_id c); shared = ''global:chat'' in
        if \<not> valid_question question then r = Inl validation_error \<and> h' = h \<and> a' = a
        else if per_user \<le> requests_counted le h own
        then (\<exists>reset_at. r = Inl (RateLimitExceeded per_user 0 reset_at own)) \<and> a' = a \<and>
             requests_counted le h' shared = requests_counted le h shared
        else if overall \<le> requests_counted le h shared
        then (\<exists>reset_at. r = Inl (RateLimitExceeded overall 0 reset_at shared)) \<and> a' = a
        else requests_counted le h' own = requests_counted le h own + 1 \<and>
             requests_counted le h' shared = requests_counted le h shared + 1 \<and>
             (\<exists>x. answer_in_session ucfg sv ri (cl_tenant_id c) (cl_user_id c) session_id question a = (x, a') \<and> r = map_sum Domain id x) \<and>
             (isl r \<or> is_owned (an_sessions a) (cl_tenant_id c) (cl_user_id c) session_id)"
proof (cases "get_caller cfg (le_wall le) authorization")
  case (Inl e)
  with assms(1) show ?thesis by (auto simp: answer_route_def)
next
  case (Inr c)
  obtain g h1 where g: "chat_guard le lv (cl_user_id c) h = (g, h1)" by (cases "chat_guard le lv (cl_user_id c) h")
  note counts = chat_guard_counts [OF g assms(3,4)]
  obtain x a1 where x: "answer_in_session ucfg sv ri (cl_tenant_id c) (cl_user_id c) session_id question a = (x, a1)"
    by (cases "answer_in_session ucfg sv ri (cl_tenant_id c) (cl_user_id c) session_id question a")
  have owned: "isl x \<or> is_owned (an_sessions a) (cl_tenant_id c) (cl_user_id c) session_id"
  proof (rule disjCI)
    assume "\<not> is_owned (an_sessions a) (cl_tenant_id c) (cl_user_id c) session_id"
    then have "find_owned (an_sessions a) (cl_tenant_id c) (cl_user_id c) session_id = Inr None" by (simp add: find_owned_None is_owned_def)
    with x show "isl x" by (auto simp: answer_in_session_def)
  qed
  show ?thesis
  proof (cases "valid_question question")
    case False
    with assms(1) Inr show ?thesis by (simp add: answer_route_def Let_def)
  next
    case True
    show ?thesis
    proof (cases g)
      case (Inl e)
      with assms(1) Inr True g have "r = Inl e" "h' = h1" "a' = a" by (simp_all add: answer_route_def)
      with Inl Inr True counts show ?thesis by (auto simp: Let_def split: if_splits)
    next
      case g: (Inr u)
      with assms(1) Inr True \<open>chat_guard le lv (cl_user_id c) h = (g, h1)\<close> x have r: "r = map_sum Domain id x" "h' = h1" "a' = a1"
        by (simp_all add: answer_route_def)
      have "isl r = isl x" by (cases x) (simp_all add: r)
      with g Inr True counts r x owned show ?thesis by (auto simp: Let_def split: if_splits)
    qed
  qed
qed

subsection \<open>Jobs\<close>

text \<open>An owner is recognised exactly by the tenant and, where the job has one, the user it was stored for.\<close>

theorem owner_matches_key:
  assumes "t < 2 ^ 128" "\<And>u. user = Some u \<Longrightarrow> u < 2 ^ 128"
  shows "owner_matches (owner_key t user) tenant_id user_id = Inr (t = tenant_id \<and> (user = None \<or> user = Some user_id))"
proof -
  have colon: "\<forall>c\<in>set (uuid_str t). c \<noteq> CHR '':''" using uuid_str_no_colon [of t] by auto
  have "takeWhile (\<lambda>c. c \<noteq> CHR '':'') (owner_key t user) = uuid_str t"
    "drop 1 (dropWhile (\<lambda>c. c \<noteq> CHR '':'') (owner_key t user)) = (case user of None \<Rightarrow> [] | Some u \<Rightarrow> uuid_str u)"
    using colon by (simp_all add: owner_key_def takeWhile_append2 dropWhile_append2)
  moreover have "uuid_str u \<noteq> []" for u by (simp add: uuid_str_def Let_def)
  ultimately show ?thesis using assms by (auto simp: owner_matches_def Let_def split: option.splits)
qed

lemma job_status_of_owned:
  assumes "jb_owners st (''ingestion_job:'' @ task_id) = Some (owner, expires)" "owner_matches owner tenant_id user_id = Inr b"
  shows "job_status_of results now st task_id tenant_id user_id =
    (if now < expires \<and> b then map_sum id Some (read_job (results task_id)) else Inr None)"
  using assms by (cases b) (simp_all add: job_status_of_def)

text \<open>
  C36. Jobs are private. A job that a caller dispatched is reported, for a day, to the user who dispatched it and, if its source
  belongs to the tenant, to every user of the tenant; for anyone else the reply is the one for a job that does not exist.
\<close>
theorem job_visible_to_owner_only:
  assumes "dispatch_job send None now st t profile content user = (Inr task_id, st')"
    and "t < 2 ^ 128" "\<And>u. user = Some u \<Longrightarrow> u < 2 ^ 128" "get_caller cfg (le_wall le) authorization = Inr c"
  shows "job_status_route cfg le results authorization task_id st' =
     (if le_now le < now + seconds JOB_TTL_SECONDS \<and> t = cl_tenant_id c \<and> (user = None \<or> user = Some (cl_user_id c))
      then map_sum Domain id (read_job (results task_id))
      else Inl (Domain (IngestionJobNotFound task_id)))"
proof -
  have "jb_owners st' (''ingestion_job:'' @ task_id) = Some (owner_key t user, now + seconds JOB_TTL_SECONDS)"
    using assms(1) by (auto simp: dispatch_job_def Let_def split: sum.splits)
  moreover have "owner_matches (owner_key t user) (cl_tenant_id c) (cl_user_id c) =
      Inr (t = cl_tenant_id c \<and> (user = None \<or> user = Some (cl_user_id c)))"
    by (rule owner_matches_key [OF assms(2)]) (rule assms(3))
  ultimately have "job_status_of results (le_now le) st' task_id (cl_tenant_id c) (cl_user_id c) =
      (if le_now le < now + seconds JOB_TTL_SECONDS \<and> t = cl_tenant_id c \<and> (user = None \<or> user = Some (cl_user_id c))
       then map_sum id Some (read_job (results task_id)) else Inr None)"
    by (rule job_status_of_owned)
  with assms(4) show ?thesis by (cases "read_job (results task_id)") (auto simp: job_status_route_def)
qed

text \<open>What the worker returns is read back by the dispatcher, and the arguments it is sent by the worker.\<close>

theorem task_round_trip:
  assumes "ir_source_id r < 2 ^ 128"
  shows "read_job \<lparr>ce_state = ''SUCCESS'', ce_result = task_result r, ce_error = e\<rparr> =
    Inr \<lparr>js_state = SUCCESS, js_result = Some \<lparr>ir_source_id = ir_source_id r, ir_route = ir_route r, ir_changed = ir_changed r\<rparr>, js_error = None\<rparr>"
proof -
  have "ingestion_route_of (ingestion_route_value x) = Some x" for x by (cases x) (simp_all add: ingestion_route_of_def ingestion_route_value_def)
  with assms show ?thesis by (simp add: read_job_def task_result_def)
qed

text \<open>
  The worker closes the two resources it opened exactly once, whatever happens, and what it raises from the ingestion itself is a
  rule of the domain or says only that ingestion failed. An error of provisioning is raised as it is.
\<close>
theorem worker_closes_and_masks:
  "wk_closed (ingest_data_source_task build ingest args) = [''graph'', ''engine''] \<and>
   (\<forall>e. wk_result (ingest_data_source_task Built ingest args) = Inl e \<longrightarrow>
      (\<exists>m. e = ValueError m) \<or> (\<exists>a b c. e = ScopeMismatch a b c) \<or> e = RuntimeError ''ingestion failed'') \<and>
   wk_result (ingest_data_source_task (Provisioning_Fails e') ingest args) = Inl e'"
proof -
  have mask: "(\<exists>m. mask_error e = ValueError m) \<or> (\<exists>a b c. mask_error e = ScopeMismatch a b c) \<or> mask_error e = RuntimeError ''ingestion failed''" for e
    by (cases e) auto
  have "(\<exists>m. e = ValueError m) \<or> (\<exists>a b c. e = ScopeMismatch a b c) \<or> e = RuntimeError ''ingestion failed''"
    if r: "wk_result (ingest_data_source_task Built ingest args) = Inl e" for e
    using r
  proof (cases "scope_of (ka_scope args)")
    case (Inr scope)
    show ?thesis
    proof (cases "make_data_source_profile (ka_source_key args) scope (seconds (ka_expected_change_interval_seconds args))")
      case (Inl x)
      then show ?thesis using r Inr by (auto simp: ingest_data_source_task_def make_data_source_profile_def split: if_splits)
    next
      case p: (Inr profile)
      then obtain x where "run_ingest ingest args profile = Inl x" "e = mask_error x"
        using r Inr by (cases "run_ingest ingest args profile") (auto simp: ingest_data_source_task_def)
      then show ?thesis using mask by blast
    qed
  qed (auto simp: ingest_data_source_task_def scope_of_def split: if_splits)
  then show ?thesis by (auto simp: ingest_data_source_task_def split: build_outcome.splits)
qed

text \<open>When storing the owner fails, the task has been sent all the same: it will run, and nobody can ask for it.\<close>

lemma failed_dispatch_runs_unowned:
  assumes "send (length (jb_sent st)) = Inr task_id"
  shows "case dispatch_job send (Some e) now st t profile content user of
    (r, st') \<Rightarrow> r = Inl e \<and> fst (last (jb_sent st')) = task_id \<and> jb_owners st' = jb_owners st"
  using assms by (simp add: dispatch_job_def Let_def)

subsection \<open>Witnesses\<close>

definition ex_header :: "string option" where
  "ex_header = Some (''Bearer '' @ ac_value (tp_access (issue_pair ex_auth 3 0 8 7)))"

definition ex_owners :: job_store where
  "ex_owners = snd (dispatch_job (\<lambda>_. Inr ''t1'') None 0 \<lparr>jb_owners = (\<lambda>_. None), jb_sent = []\<rparr> 7
     \<lparr>dp_source_key = ''k'', dp_scope = USER, dp_expected_change_interval = seconds 60\<rparr> ''doc'' (Some 9))"

lemma ex_header_caller: "get_caller ex_auth 0 ex_header = Inr \<lparr>cl_tenant_id = 7, cl_user_id = 8\<rparr>"
  unfolding ex_header_def by (rule live_token_caller [OF ex_auth_decodes]) (simp_all add: ACCESS_TOKEN_LIFETIME_def seconds_def)

theorem job_visible_to_owner_only_witness:
  "job_status_route ex_auth ex_limits (\<lambda>_. \<lparr>ce_state = ''FAILURE'', ce_result = \<lparr>rr_source_id = [], rr_route = [], rr_changed = False\<rparr>, ce_error = ''secret''\<rparr>) ex_header ''t1'' ex_owners =
     Inl (Domain (IngestionJobNotFound ''t1''))"
proof -
  have d: "dispatch_job (\<lambda>_. Inr ''t1'') None 0 \<lparr>jb_owners = (\<lambda>_. None), jb_sent = []\<rparr> 7
     \<lparr>dp_source_key = ''k'', dp_scope = USER, dp_expected_change_interval = seconds 60\<rparr> ''doc'' (Some 9) = (Inr ''t1'', ex_owners)"
    by (simp add: ex_owners_def dispatch_job_def Let_def)
  have w: "get_caller ex_auth (le_wall ex_limits) ex_header = Inr \<lparr>cl_tenant_id = 7, cl_user_id = 8\<rparr>"
    using ex_header_caller by (simp add: ex_limits_def)
  show ?thesis by (subst job_visible_to_owner_only [OF d _ _ w]) auto
qed

definition ex_http :: http_state where
  "ex_http = \<lparr>ht_counters = (\<lambda>_. None), ht_stash = None, ht_response = []\<rparr>"

lemma ex_turn: "\<not> isl (fst (answer_in_session ex_unified ex_services ex_inputs 7 8 9 ''ok?'' ex_answer_state))"
proof -
  have "case find_owned (an_sessions ex_answer_state) 7 8 9 of Inr (Some _) \<Rightarrow> True | _ \<Rightarrow> False" by code_simp
  then show ?thesis using ex_answer_evaluated by (auto simp: answer_in_session_def split: sum.splits option.splits)
qed

lemma ex_guard: "fst (chat_guard ex_limits \<lparr>lv_chat = None, lv_global = None\<rparr> 8 ex_http) = Inr ()"
proof -
  have "chat_rate_limit None = Inr 100" "global_chat_limit None = Inr 10000" by code_simp+
  then show ?thesis
    by (simp add: chat_guard_def enforce_rate_limit_def limiter_check_key check_counter_def
      redis_incr_def redis_live_def Let_def ex_http_def redis_key_def GLOBAL_CHAT_KEY_def)
qed

theorem answer_route_guarded_witness:
  "\<exists>ans h a. answer_route ex_auth ex_limits \<lparr>lv_chat = None, lv_global = None\<rparr> ex_unified ex_services ex_inputs
     ex_header 9 ''ok?'' (ex_http, ex_answer_state) = (Inr ans, h, a) \<and> is_owned (an_sessions ex_answer_state) 7 8 9 \<and>
     requests_counted ex_limits h ''global:chat'' = 1"
proof -
  obtain r h a where r: "answer_route ex_auth ex_limits \<lparr>lv_chat = None, lv_global = None\<rparr> ex_unified ex_services ex_inputs
     ex_header 9 ''ok?'' (ex_http, ex_answer_state) = (r, h, a)" by (rule prod_cases3)
  have c: "get_caller ex_auth (le_wall ex_limits) ex_header = Inr \<lparr>cl_tenant_id = 7, cl_user_id = 8\<rparr>"
    using ex_header_caller by (simp add: ex_limits_def)
  have q: "valid_question ''ok?''" by code_simp
  then have "r = map_sum Domain id (fst (answer_in_session ex_unified ex_services ex_inputs 7 8 9 ''ok?'' ex_answer_state))"
    using r c by (simp add: answer_route_def case_prod_unfold ex_guard)
  then have "\<not> isl r" using ex_turn by (cases "fst (answer_in_session ex_unified ex_services ex_inputs 7 8 9 ''ok?'' ex_answer_state)") simp_all
  moreover have "sessions_ok (an_sessions ex_answer_state)" by (simp add: ex_answer_state_def ex_sessions_ok)
  moreover have "chat_rate_limit (lv_chat \<lparr>lv_chat = None, lv_global = None\<rparr>) = Inr 100" "global_chat_limit (lv_global \<lparr>lv_chat = None, lv_global = None\<rparr>) = Inr 10000"
    by code_simp+
  moreover have "requests_counted ex_limits ex_http k = 0" for k by (simp add: requests_counted_def ex_http_def)
  ultimately show ?thesis using answer_route_guarded [OF r] c q r by (cases r) (auto simp: Let_def)
qed

end
