(* ===== verification/Embedding_Cache.thy ===== *)
theory Embedding_Cache
  imports Mag_Entities
begin

text \<open>
  The cache of embeddings, \<^verbatim>\<open>src/rag/infrastructure/caching_embedding_model.py\<close>. The \<^verbatim>\<open>OrderedDict\<close> is an
  association list, the least recently used entry first. A call holds the lock twice, for the lookup and for the insertion, and
  runs the wrapped model in between without it: the two locked parts are the steps of a call, so that calls of
  several threads can interleave. The digest and the wrapped model are parameters.
\<close>

record embedding_cache =
  ec_max_entries :: nat
  ec_entries :: "(string \<times> embedding) list"
  ec_hits :: nat
  ec_misses :: nat

definition DEFAULT_MAX_ENTRIES :: int where "DEFAULT_MAX_ENTRIES = 1024"

definition make_embedding_cache :: "int \<Rightarrow> embedding_cache result" where
  "make_embedding_cache max_entries =
     (if max_entries < 1 then Inl (ValueError ''max_entries must be at least 1'')
      else Inr \<lparr>ec_max_entries = nat max_entries, ec_entries = [], ec_hits = 0, ec_misses = 0\<rparr>)"

definition move_to_end :: "string \<Rightarrow> (string \<times> embedding) list \<Rightarrow> (string \<times> embedding) list" where
  "move_to_end key es = filter (\<lambda>e. fst e \<noteq> key) es @ filter (\<lambda>e. fst e = key) es"

function evict_over :: "nat \<Rightarrow> (string \<times> embedding) list \<Rightarrow> (string \<times> embedding) list" where
  \<comment> \<open>\<open>while len(entries) > max: entries.popitem(last=False)\<close>\<close>
  "evict_over max_entries es = (if max_entries < length es then evict_over max_entries (tl es) else es)"
  by pat_completeness auto
termination by (relation "measure (\<lambda>(n, es). length es)") auto

declare evict_over.simps [simp del]

definition cache_lookup :: "string \<Rightarrow> embedding_cache \<Rightarrow> embedding option \<times> embedding_cache" where
  \<comment> \<open>the first locked part\<close>
  "cache_lookup key c =
     (case map_of (ec_entries c) key of
        None \<Rightarrow> (None, c)
      | Some v \<Rightarrow> (Some v, c\<lparr>ec_entries := move_to_end key (ec_entries c), ec_hits := Suc (ec_hits c)\<rparr>))"

definition cache_store :: "string \<Rightarrow> embedding \<Rightarrow> embedding_cache \<Rightarrow> embedding_cache" where
  \<comment> \<open>the second locked part\<close>
  "cache_store key v c =
     c\<lparr>ec_misses := Suc (ec_misses c),
       ec_entries := evict_over (ec_max_entries c) (move_to_end key (dict_set key v (ec_entries c)))\<rparr>"

definition caching_embed :: "(string \<Rightarrow> string) \<Rightarrow> (string \<Rightarrow> embedding result) \<Rightarrow> string \<Rightarrow> embedding_cache \<Rightarrow> embedding result \<times> embedding_cache" where
  "caching_embed digest inner txt c =
     (let key = digest txt in
      case cache_lookup key c of
        (Some v, c1) \<Rightarrow> (Inr v, c1)
      | (None, c1) \<Rightarrow>
          (case inner txt of
             Inl e \<Rightarrow> (Inl e, c1)
           | Inr v \<Rightarrow> (Inr v, cache_store key v c1)))"

subsection \<open>Threads\<close>

datatype embed_pc = Asked string | Missed string | Answered string "embedding result"

fun embed_step :: "(string \<Rightarrow> string) \<Rightarrow> (string \<Rightarrow> embedding result) \<Rightarrow> embed_pc \<Rightarrow> embedding_cache \<Rightarrow> embed_pc \<times> embedding_cache" where
  "embed_step digest inner (Asked txt) c =
     (case cache_lookup (digest txt) c of
        (Some v, c1) \<Rightarrow> (Answered txt (Inr v), c1)
      | (None, c1) \<Rightarrow> (Missed txt, c1))"
| "embed_step digest inner (Missed txt) c =
     (case inner txt of
        Inl e \<Rightarrow> (Answered txt (Inl e), c)
      | Inr v \<Rightarrow> (Answered txt (Inr v), cache_store (digest txt) v c))"
| "embed_step digest inner (Answered txt r) c = (Answered txt r, c)"

fun embed_threads :: "(string \<Rightarrow> string) \<Rightarrow> (string \<Rightarrow> embedding result) \<Rightarrow> nat list \<Rightarrow> embed_pc list \<times> embedding_cache \<Rightarrow>
    embed_pc list \<times> embedding_cache" where
  "embed_threads digest inner [] st = st"
| "embed_threads digest inner (i # is) (ps, c) =
     (if i < length ps
      then case embed_step digest inner (ps ! i) c of (p, c1) \<Rightarrow> embed_threads digest inner is (ps[i := p], c1)
      else embed_threads digest inner is (ps, c))"

lemma caching_embed_steps:
  "caching_embed digest inner txt c =
     (case embed_step digest inner (Asked txt) c of
        (Answered _ r, c1) \<Rightarrow> (r, c1)
      | (p, c1) \<Rightarrow> (case embed_step digest inner p c1 of (Answered _ r, c2) \<Rightarrow> (r, c2)))"
  by (auto simp: caching_embed_def Let_def split: prod.splits option.splits sum.splits)

subsection \<open>What the cache holds\<close>

lemma move_to_end_keys: "distinct (map fst es) \<Longrightarrow> distinct (map fst (move_to_end key es))"
  unfolding move_to_end_def map_append distinct_append
  by (auto simp: distinct_map_filter)

lemma set_move_to_end [simp]: "set (move_to_end key es) = set es"
  by (auto simp: move_to_end_def)

lemma length_move_to_end [simp]: "length (move_to_end key es) = length es"
  using sum_length_filter_compl [of "\<lambda>e. fst e \<noteq> key" es] by (simp add: move_to_end_def)

lemma evict_over_drop: "evict_over n es = drop (length es - n) es"
proof (induction n es rule: evict_over.induct)
  case (1 n es)
  show ?case
  proof (cases "n < length es")
    case True
    then have "length es - n = Suc (length (tl es) - n)" by simp
    then show ?thesis using 1 True by (subst evict_over.simps) (simp add: drop_Suc)
  qed (subst evict_over.simps, simp)
qed

lemma dict_set_mem: "e \<in> set (dict_set k v d) \<Longrightarrow> e = (k, v) \<or> e \<in> set d"
  by (induction d) (auto split: if_splits)

lemma evict_over_subset: "set (evict_over n es) \<subseteq> set es"
  by (simp add: evict_over_drop set_drop_subset)

lemma evict_over_keys: "distinct (map fst es) \<Longrightarrow> distinct (map fst (evict_over n es))"
  by (simp add: evict_over_drop drop_map [symmetric])

lemma evict_over_length: "length (evict_over n es) \<le> n"
  by (simp add: evict_over_drop)

definition cache_ok :: "(string \<Rightarrow> string) \<Rightarrow> (string \<Rightarrow> embedding result) \<Rightarrow> embedding_cache \<Rightarrow> bool" where
  "cache_ok digest inner c \<longleftrightarrow>
     distinct (map fst (ec_entries c)) \<and> length (ec_entries c) \<le> ec_max_entries c \<and>
     (\<forall>(key, v) \<in> set (ec_entries c). \<exists>txt. key = digest txt \<and> inner txt = Inr v)"

lemma cache_lookup_ok:
  assumes "cache_ok digest inner c" "cache_lookup key c = (r, c1)"
  shows "cache_ok digest inner c1" "ec_max_entries c1 = ec_max_entries c"
    "r = Some v \<Longrightarrow> \<exists>txt. key = digest txt \<and> inner txt = Inr v"
  using assms by (auto simp: cache_lookup_def cache_ok_def move_to_end_keys split: option.splits dest!: map_of_SomeD)

lemma cache_store_ok:
  assumes "cache_ok digest inner c" "inner txt = Inr v"
  shows "cache_ok digest inner (cache_store (digest txt) v c)" "ec_max_entries (cache_store (digest txt) v c) = ec_max_entries c"
proof -
  let ?es = "move_to_end (digest txt) (dict_set (digest txt) v (ec_entries c))"
  have "distinct (map fst ?es)" using assms(1) by (simp add: cache_ok_def move_to_end_keys distinct_dict_set)
  moreover have "\<forall>(key, w) \<in> set ?es. \<exists>t. key = digest t \<and> inner t = Inr w"
    using assms by (auto simp: cache_ok_def dest!: dict_set_mem)
  ultimately show "cache_ok digest inner (cache_store (digest txt) v c)"
    using evict_over_subset [of "ec_max_entries c" ?es]
    by (auto simp: cache_store_def cache_ok_def evict_over_keys evict_over_length simp del: set_move_to_end)
qed (simp add: cache_store_def)

definition answered_right :: "(string \<Rightarrow> embedding result) \<Rightarrow> string \<Rightarrow> embed_pc \<Rightarrow> bool" where
  "answered_right inner txt p \<longleftrightarrow> (case p of Asked t \<Rightarrow> t = txt | Missed t \<Rightarrow> t = txt | Answered t r \<Rightarrow> t = txt \<and> r = inner t)"

lemma embed_step_right:
  assumes "inj digest" "cache_ok digest inner c" "answered_right inner txt p" "embed_step digest inner p c = (p1, c1)"
  shows "answered_right inner txt p1 \<and> cache_ok digest inner c1 \<and> ec_max_entries c1 = ec_max_entries c"
proof (cases p)
  case (Asked t)
  obtain r c2 where l: "cache_lookup (digest t) c = (r, c2)" by (cases "cache_lookup (digest t) c")
  note ok = cache_lookup_ok [OF assms(2) l]
  have "v' = v" if "r = Some v'" "inner t = Inr v" for v v' using ok(3) [OF that(1)] that(2) injD [OF assms(1)] by fastforce
  moreover have "\<exists>v. inner t = Inr v" if "r = Some v'" for v' using ok(3) [OF that] injD [OF assms(1)] by fastforce
  ultimately show ?thesis
    using assms(3,4) Asked l ok(1,2) by (cases r) (auto simp: answered_right_def)
next
  case (Missed t)
  then show ?thesis
    using assms(3,4) assms(2) cache_store_ok [OF assms(2)] by (cases "inner t") (auto simp: answered_right_def)
qed (use assms in auto)

lemma embed_threads_right:
  assumes "inj digest" "cache_ok digest inner c" "list_all2 (answered_right inner) txts ps" "embed_threads digest inner is (ps, c) = (ps1, c1)"
  shows "list_all2 (answered_right inner) txts ps1 \<and> cache_ok digest inner c1 \<and> ec_max_entries c1 = ec_max_entries c"
  using assms(2-)
proof (induction "is" arbitrary: ps c)
  case (Cons i "is")
  show ?case
  proof (cases "i < length ps")
    case True
    obtain p c2 where p: "embed_step digest inner (ps ! i) c = (p, c2)" by (cases "embed_step digest inner (ps ! i) c")
    have "i < length txts" "answered_right inner (txts ! i) (ps ! i)"
      using Cons.prems(2) True by (simp_all add: list_all2_lengthD list_all2_nthD2)
    with embed_step_right [OF assms(1) Cons.prems(1) _ p]
    have r: "answered_right inner (txts ! i) p" "cache_ok digest inner c2" "ec_max_entries c2 = ec_max_entries c" by auto
    have "list_all2 (answered_right inner) txts (ps[i := p])"
      using list_all2_update_cong [OF Cons.prems(2) r(1), of i] by simp
    then show ?thesis using Cons.IH [OF r(2)] Cons.prems(3) True p r(3) by simp
  qed (use Cons in simp)
qed simp

text \<open>
  C40. The cache is invisible, and bounded. However the calls of several threads interleave, each one that ends is answered what
  the wrapped model returns or raises for its text; the cache holds at most \<^verbatim>\<open>max_entries\<close> embeddings, one per digest, and
  each is the wrapped model's. The digest must not collide.
\<close>
theorem embedding_cache_transparent:
  assumes "make_embedding_cache n = Inr c0" "inj digest" "embed_threads digest inner sched (map Asked txts, c0) = (ps, c)"
  shows "length ps = length txts \<and> int (length (ec_entries c)) \<le> n \<and> distinct (map fst (ec_entries c)) \<and>
    (\<forall>(key, v) \<in> set (ec_entries c). \<exists>txt. key = digest txt \<and> inner txt = Inr v) \<and>
    (\<forall>i t r. i < length ps \<longrightarrow> ps ! i = Answered t r \<longrightarrow> t = txts ! i \<and> r = inner t)"
proof -
  have n: "c0 = \<lparr>ec_max_entries = nat n, ec_entries = [], ec_hits = 0, ec_misses = 0\<rparr>" "1 \<le> n"
    using assms(1) by (auto simp: make_embedding_cache_def split: if_splits)
  have "cache_ok digest inner c0" by (simp add: n(1) cache_ok_def)
  moreover have "list_all2 (answered_right inner) txts (map Asked txts)"
    by (simp add: list_all2_conv_all_nth answered_right_def)
  ultimately have r: "list_all2 (answered_right inner) txts ps" "cache_ok digest inner c" "ec_max_entries c = nat n"
    using embed_threads_right [OF assms(2) _ _ assms(3)] by (auto simp: n(1))
  show ?thesis
    using r n(2) by (fastforce simp: cache_ok_def list_all2_conv_all_nth answered_right_def le_nat_iff)
qed

subsection \<open>Least recently used\<close>

definition recent :: "nat \<Rightarrow> 'a list \<Rightarrow> 'a list" where
  \<comment> \<open>the last \<open>m\<close> different elements, in the order of their last occurrence\<close>
  "recent m ks = drop (length (remdups ks) - m) (remdups ks)"

lemma remdups_snoc: "remdups (ks @ [k]) = filter (\<lambda>x. x \<noteq> k) (remdups ks) @ [k]"
  by (induction ks) auto

lemma length_filter_neq:
  "distinct xs \<Longrightarrow> length (filter (\<lambda>x. x \<noteq> k) xs) = length xs - (if k \<in> set xs then 1 else 0)"
proof (induction xs)
  case (Cons x xs)
  then show ?case by (cases xs) (auto simp: Suc_diff_le)
qed simp

lemma recent_snoc:
  assumes "1 \<le> m" "X = filter (\<lambda>x. x \<noteq> k) (recent m ks) @ [k]"
  shows "recent m (ks @ [k]) = drop (length X - m) X"
proof -
  define D where "D = remdups ks"
  define A where "A = take (length D - m) D"
  let ?K = "recent m ks"
  have D: "D = A @ ?K" by (simp add: A_def D_def recent_def)
  have K: "length ?K = min m (length D)" by (simp add: recent_def D_def)
  have F: "remdups (ks @ [k]) = filter (\<lambda>x. x \<noteq> k) A @ X"
    unfolding remdups_snoc D_def [symmetric] assms(2) by (subst D) simp
  have dist: "distinct (A @ ?K)" unfolding D [symmetric] by (simp add: D_def)
  show ?thesis
  proof (cases "A = []")
    case True
    with F show ?thesis by (simp add: recent_def)
  next
    case False
    then have m: "length ?K = m" using K by (auto simp: A_def)
    show ?thesis
    proof (cases "k \<in> set A")
      case True
      then have "k \<notin> set ?K" using dist by auto
      then have X: "X = ?K @ [k]" using assms(2) by (simp add: filter_id_conv) (metis (mono_tags, lifting) filter_True)
      have "length (filter (\<lambda>x. x \<noteq> k) A) = length A - 1"
        using True dist by (simp add: length_filter_neq)
      then show ?thesis unfolding recent_def F using X m by simp
    next
      case no: False
      then have "filter (\<lambda>x. x \<noteq> k) A = A" by (simp add: filter_id_conv) (metis)
      moreover have "m \<le> length X"
      proof (cases "k \<in> set ?K")
        case True
        then have "length (filter (\<lambda>x. x \<noteq> k) ?K) = m - 1"
          using dist m by (simp add: length_filter_neq)
        then show ?thesis using assms by simp
      next
        case False
        then have "filter (\<lambda>x. x \<noteq> k) ?K = ?K" by (simp add: filter_id_conv) (metis)
        then show ?thesis using assms m by simp
      qed
      ultimately show ?thesis unfolding recent_def F by simp
    qed
  qed
qed

fun embeds :: "(string \<Rightarrow> string) \<Rightarrow> (string \<Rightarrow> embedding result) \<Rightarrow> string list \<Rightarrow> embedding_cache \<Rightarrow>
    embedding result list \<times> embedding_cache" where
  "embeds digest inner [] c = ([], c)"
| "embeds digest inner (txt # txts) c =
     (case caching_embed digest inner txt c of (r, c1) \<Rightarrow>
        case embeds digest inner txts c1 of (rs, c2) \<Rightarrow> (r # rs, c2))"

abbreviation keys_of :: "embedding_cache \<Rightarrow> string list" where
  "keys_of c \<equiv> map fst (ec_entries c)"

lemma filter_key: "distinct xs \<Longrightarrow> k \<in> set xs \<Longrightarrow> filter (\<lambda>x. x = k) xs = [k]"
  by (induction xs) (auto simp: filter_empty_conv)

lemma move_to_end_map:
  assumes "distinct (map fst es)" "k \<in> set (map fst es)"
  shows "map fst (move_to_end k es) = filter (\<lambda>x. x \<noteq> k) (map fst es) @ [k]"
  using filter_key [OF assms] by (simp add: move_to_end_def filter_map o_def)

lemma caching_embed_recent:
  assumes "inj digest" "cache_ok digest inner c" "\<not> isl (inner txt)" "1 \<le> ec_max_entries c"
    and "keys_of c = recent (ec_max_entries c) ks" "caching_embed digest inner txt c = (r, c1)"
  shows "r = inner txt" "cache_ok digest inner c1" "ec_max_entries c1 = ec_max_entries c"
    "keys_of c1 = recent (ec_max_entries c) (ks @ [digest txt])" "ec_hits c1 + ec_misses c1 = Suc (ec_hits c + ec_misses c)"
proof -
  let ?k = "digest txt" and ?m = "ec_max_entries c"
  obtain v where v: "inner txt = Inr v" using assms(3) by (cases "inner txt") auto
  have ok: "distinct (keys_of c)" "length (ec_entries c) \<le> ?m" using assms(2) by (simp_all add: cache_ok_def)
  let ?X = "filter (\<lambda>x. x \<noteq> ?k) (keys_of c) @ [?k]"
  have R: "recent ?m (ks @ [?k]) = drop (length ?X - ?m) ?X" by (rule recent_snoc [OF assms(4)]) (simp add: assms(5))
  have "r = inner txt \<and> cache_ok digest inner c1 \<and> ec_max_entries c1 = ?m \<and> keys_of c1 = drop (length ?X - ?m) ?X \<and>
      ec_hits c1 + ec_misses c1 = Suc (ec_hits c + ec_misses c)"
  proof (cases "map_of (ec_entries c) ?k")
    case None
    then have "?k \<notin> set (keys_of c)" by (simp add: map_of_eq_None_iff)
    then have f: "filter (\<lambda>x. x \<noteq> ?k) (keys_of c) = keys_of c" by (metis (mono_tags, lifting) filter_True)
    have c1: "r = inner txt" "c1 = cache_store ?k v c"
      using assms(6) None by (simp_all add: caching_embed_def cache_lookup_def v)
    have keys: "map fst (move_to_end ?k (dict_set ?k v (ec_entries c))) = ?X"
        using move_to_end_map [of "dict_set ?k v (ec_entries c)" ?k] ok(1) \<open>?k \<notin> set (keys_of c)\<close> f by (simp add: keys_dict_set)
    have "keys_of c1 = drop (length (move_to_end ?k (dict_set ?k v (ec_entries c))) - ?m) ?X"
      unfolding c1(2) cache_store_def keys [symmetric] by (simp add: evict_over_drop drop_map del: length_move_to_end)
    then have "keys_of c1 = drop (length ?X - ?m) ?X" using arg_cong [OF keys, of length] by (simp only: length_map)
    then show ?thesis using c1 cache_store_ok [OF assms(2) v] by (simp add: cache_store_def)
  next
    case (Some w)
    have mem: "?k \<in> set (keys_of c)" using Some by (metis map_of_eq_None_iff option.distinct(1) list.set_map)
    have l: "cache_lookup ?k c = (Some w, c\<lparr>ec_entries := move_to_end ?k (ec_entries c), ec_hits := Suc (ec_hits c)\<rparr>)"
      by (simp add: cache_lookup_def Some)
    note lo = cache_lookup_ok [OF assms(2) l]
    have c1: "r = Inr w" "c1 = c\<lparr>ec_entries := move_to_end ?k (ec_entries c), ec_hits := Suc (ec_hits c)\<rparr>"
      using assms(6) l by (simp_all add: caching_embed_def)
    have "w = v" using lo(3) [OF refl] v injD [OF assms(1)] by fastforce
    have "length ?X = length (keys_of c)"
      using length_filter_neq [OF ok(1), of ?k] mem length_pos_if_in_set [OF mem] by (simp del: length_map filter_map)
    then have "drop (length ?X - ?m) ?X = ?X" using ok(2) by simp
    then show ?thesis
      using c1 lo(1) \<open>w = v\<close> v by (simp add: move_to_end_map [OF ok(1) mem])
  qed
  then show "r = inner txt" "cache_ok digest inner c1" "ec_max_entries c1 = ?m" "keys_of c1 = recent ?m (ks @ [?k])"
    "ec_hits c1 + ec_misses c1 = Suc (ec_hits c + ec_misses c)"
    unfolding R by auto
qed

lemma embeds_recent:
  assumes "inj digest" "cache_ok digest inner c" "\<forall>txt\<in>set txts. \<not> isl (inner txt)" "1 \<le> ec_max_entries c"
    and "keys_of c = recent (ec_max_entries c) ks" "embeds digest inner txts c = (rs, c1)"
  shows "rs = map inner txts \<and> keys_of c1 = recent (ec_max_entries c) (ks @ map digest txts) \<and>
    ec_hits c1 + ec_misses c1 = ec_hits c + ec_misses c + length txts"
  using assms(2-)
proof (induction txts arbitrary: ks c rs)
  case (Cons x txts)
  obtain r c2 where e: "caching_embed digest inner x c = (r, c2)" by (cases "caching_embed digest inner x c")
  obtain rs' where rs: "embeds digest inner txts c2 = (rs', c1)" "rs = r # rs'"
    using Cons.prems(5) e by (auto split: prod.splits)
  have "\<not> isl (inner x)" using Cons.prems(2) by simp
  note s = caching_embed_recent [OF assms(1) Cons.prems(1) this Cons.prems(3,4) e]
  show ?case
    using Cons.IH [OF s(2) _ _ _ rs(1), of "ks @ [digest x]"] Cons.prems(2,3) s rs(2) by simp
qed simp

text \<open>
  The cache is a least-recently-used cache. After any sequence of calls of one thread that all succeed, it holds exactly the
  last \<^verbatim>\<open>max_entries\<close> different texts that were asked, in the order of their last use, and every call has been answered
  what the wrapped model answers and counted as a hit or a miss.
\<close>
theorem embedding_cache_lru:
  assumes "make_embedding_cache n = Inr c0" "inj digest" "\<forall>txt\<in>set txts. \<not> isl (inner txt)" "embeds digest inner txts c0 = (rs, c)"
  shows "rs = map inner txts \<and> keys_of c = recent (nat n) (map digest txts) \<and> ec_hits c + ec_misses c = length txts"
proof -
  have n: "c0 = \<lparr>ec_max_entries = nat n, ec_entries = [], ec_hits = 0, ec_misses = 0\<rparr>" "1 \<le> n"
    using assms(1) by (auto simp: make_embedding_cache_def split: if_splits)
  then have "cache_ok digest inner c0" "1 \<le> ec_max_entries c0" "keys_of c0 = recent (ec_max_entries c0) []"
    by (simp_all add: cache_ok_def recent_def)
  from embeds_recent [OF assms(2) this(1) assms(3) this(2,3) assms(4)] show ?thesis by (simp add: n(1))
qed

subsection \<open>Witnesses\<close>

definition ex_embed :: "string \<Rightarrow> embedding result" where
  "ex_embed txt = (if txt = [] then Inl (RuntimeError ''empty'') else Inr [of_nat (length txt)])"

theorem embedding_cache_transparent_witness:
  "\<exists>c. embed_threads id ex_embed [0, 1, 0, 1, 2] (map Asked [''ab'', ''ab'', ''ab''], \<lparr>ec_max_entries = 1, ec_entries = [], ec_hits = 0, ec_misses = 0\<rparr>) =
     ([Answered ''ab'' (Inr [2]), Answered ''ab'' (Inr [2]), Answered ''ab'' (Inr [2])], c) \<and> int (length (ec_entries c)) \<le> 1 \<and> ec_misses c = 2"
proof -
  have m: "make_embedding_cache 1 = Inr \<lparr>ec_max_entries = 1, ec_entries = [], ec_hits = 0, ec_misses = 0\<rparr>" by (simp add: make_embedding_cache_def)
  let ?r = "embed_threads id ex_embed [0, 1, 0, 1, 2] (map Asked [''ab'', ''ab'', ''ab''], \<lparr>ec_max_entries = 1, ec_entries = [], ec_hits = 0, ec_misses = 0\<rparr>)"
  have "fst ?r = [Answered ''ab'' (Inr [2]), Answered ''ab'' (Inr [2]), Answered ''ab'' (Inr [2])]" "ec_misses (snd ?r) = 2" by code_simp+
  then show ?thesis 
    using embedding_cache_transparent [OF m inj_on_id prod.collapse [symmetric], where txts = "[''ab'', ''ab'', ''ab'']" and sched = "[0, 1, 0, 1, 2]"
      and inner = ex_embed]
    by (intro exI [of _ "snd ?r"] conjI) (simp_all only: prod_eq_iff fst_conv snd_conv simp_thms)
qed

theorem embedding_cache_lru_witness:
  "keys_of (snd (embeds id ex_embed [''a'', ''b'', ''a'', ''c''] \<lparr>ec_max_entries = 2, ec_entries = [], ec_hits = 0, ec_misses = 0\<rparr>)) = [''a'', ''c'']"
proof -
  have m: "make_embedding_cache 2 = Inr \<lparr>ec_max_entries = 2, ec_entries = [], ec_hits = 0, ec_misses = 0\<rparr>" by (simp add: make_embedding_cache_def)
  have "\<forall>txt\<in>set [''a'', ''b'', ''a'', ''c'']. \<not> isl (ex_embed txt)" by (simp add: ex_embed_def)
  from embedding_cache_lru [OF m inj_on_id this prod.collapse [symmetric]] show ?thesis by (simp add: recent_def)
qed

end
