(* ===== verification/Mag_Gating.thy ===== *)
theory Mag_Gating
  imports Cache_Warmed "HOL-Library.Product_Lexorder"
begin

text \<open>
  Memory gating: \<^verbatim>\<open>src/mag/application/gating\<close>, which chooses the memories of a prompt from what the retrieval strategies
  found. Scores are \<open>pyfloat\<close>, because they may be NaN; the keys of the sorts are \<open>float_key\<close>, the floats without NaN in their
  order. \<^verbatim>\<open>json.dumps\<close>, the token count and \<^verbatim>\<open>math.exp\<close> are parameters: the last has no exact definition,
  and the theorems say what they need of it. Components of embeddings are finite, so the test of a similarity for infinity
  is never met.
\<close>

subsection \<open>Sorting by scores\<close>

datatype float_key = NegInfKey | FinKey rat | PosInfKey

instantiation float_key :: linorder
begin

fun less_eq_float_key :: "float_key \<Rightarrow> float_key \<Rightarrow> bool" where
  "less_eq_float_key NegInfKey _ = True"
| "less_eq_float_key (FinKey x) (FinKey y) = (x \<le> y)"
| "less_eq_float_key _ PosInfKey = True"
| "less_eq_float_key _ _ = False"

definition less_float_key :: "float_key \<Rightarrow> float_key \<Rightarrow> bool" where
  "less_float_key x y \<longleftrightarrow> x \<le> y \<and> \<not> y \<le> x"

instance
proof
  fix x y z :: float_key
  show "x < y \<longleftrightarrow> x \<le> y \<and> \<not> y \<le> x" by (rule less_float_key_def)
  show "x \<le> x" by (cases x) simp_all
  show "x \<le> y \<or> y \<le> x" by (cases x; cases y) auto
  show "x \<le> y \<Longrightarrow> y \<le> x \<Longrightarrow> x = y" by (cases x; cases y) auto
  show "x \<le> y \<Longrightarrow> y \<le> z \<Longrightarrow> x \<le> z" by (cases x; cases y; cases z) auto
qed

end

fun safe_score :: "pyfloat \<Rightarrow> pyfloat" where
  "safe_score NaN = NegInf"
| "safe_score x = x"

fun key_of :: "pyfloat \<Rightarrow> float_key" where
  \<comment> \<open>the place of a float in the order of Python; \<open>safe_score\<close> returns no NaN\<close>
  "key_of (Fin x) = FinKey x"
| "key_of PosInf = PosInfKey"
| "key_of NegInf = NegInfKey"
| "key_of NaN = NegInfKey"

fun pf_neg :: "pyfloat \<Rightarrow> pyfloat" where
  "pf_neg (Fin x) = Fin (- x)"
| "pf_neg PosInf = NegInf"
| "pf_neg NegInf = PosInf"
| "pf_neg NaN = NaN"

definition sorted_reverse :: "('a \<Rightarrow> 'b::linorder) \<Rightarrow> 'a list \<Rightarrow> 'a list" where
  \<comment> \<open>\<open>sorted(xs, key=f, reverse=True)\<close>: equal keys keep their order\<close>
  "sorted_reverse f xs = rev (sort_key f (rev xs))"

definition by_score :: "gating_candidate list \<Rightarrow> gating_candidate list" where
  "by_score cs = sorted_reverse (\<lambda>c. key_of (safe_score (gc_score c))) cs"

subsection \<open>Candidates\<close>

definition from_scored_episode :: "((string \<times> json) list \<Rightarrow> string) \<Rightarrow> scored_episode \<Rightarrow> gating_candidate" where
  "from_scored_episode dumps scored =
     (let e = se_episode scored in
      \<lparr>gc_content_text = dumps (em_content e), gc_score = se_score scored, gc_salience = Fin (em_salience_score e),
       gc_timestamp = Some (em_timestamp e), gc_source_type = ''episode'', gc_origin = FromEpisode e, gc_embedding = em_embedding e\<rparr>)"

definition from_scored_fact :: "scored_fact \<Rightarrow> gating_candidate" where
  "from_scored_fact scored =
     (let f = sf_fact scored in
      \<lparr>gc_content_text = sm_fact_value f, gc_score = sf_score scored, gc_salience = sm_confidence f, gc_timestamp = None,
       gc_source_type = ''fact'', gc_origin = FromFact f, gc_embedding = sm_embedding f\<rparr>)"

definition extract_timestamp :: "(string \<times> node_property) list \<Rightarrow> datetime option" where
  "extract_timestamp props = (case map_of props ''timestamp'' of Some (PTime t) \<Rightarrow> Some t | _ \<Rightarrow> None)"

definition from_activated_node :: "((string \<times> node_property) list \<Rightarrow> string) \<Rightarrow> activated_node \<Rightarrow> gating_candidate" where
  "from_activated_node dumps_str node =
     \<lparr>gc_content_text = dumps_str (an_properties node), gc_score = Fin (an_activation node), gc_salience = Fin 0,
      gc_timestamp = extract_timestamp (an_properties node), gc_source_type = ''graph_node'', gc_origin = FromNode node, gc_embedding = []\<rparr>"

subsection \<open>Strategies\<close>

definition dynamic_reranking :: "gating_candidate list \<Rightarrow> embedding \<Rightarrow> gating_candidate list result" where
  "dynamic_reranking cs query_embedding =
     (case seq_results (map (\<lambda>c. if gc_embedding c = [] then Inr c
              else case cosine_similarity query_embedding (gc_embedding c) of Inl e \<Rightarrow> Inl e | Inr s \<Rightarrow> Inr (c\<lparr>gc_score := Fin s\<rparr>)) cs) of
        Inl e \<Rightarrow> Inl e
      | Inr reranked \<Rightarrow> Inr (by_score reranked))"

definition task_specific_filtering :: "gating_candidate list \<Rightarrow> string set \<Rightarrow> gating_candidate list" where
  "task_specific_filtering cs allowed_source_types = filter (\<lambda>c. gc_source_type c \<in> allowed_source_types) cs"

fun ge_zero :: "pyfloat \<Rightarrow> bool" where
  "ge_zero (Fin x) = (0 \<le> x)"
| "ge_zero PosInf = True"
| "ge_zero _ = False"

fun pf_mul :: "pyfloat \<Rightarrow> rat \<Rightarrow> pyfloat" where
  "pf_mul (Fin x) m = Fin (fl (x * m))"
| "pf_mul NaN m = NaN"
| "pf_mul x m = (if m = 0 then NaN else if 0 < m then x else pf_neg x)"

definition age_hours :: "datetime \<Rightarrow> datetime \<Rightarrow> rat" where
  "age_hours now timestamp = max (fl (fl (of_int (now - timestamp) / 1000000) / 3600)) 0"

record libm =
  lm_exp :: "rat \<Rightarrow> rat"
  lm_log2 :: rat

definition recency_decay :: "libm \<Rightarrow> datetime \<Rightarrow> datetime \<Rightarrow> rat \<Rightarrow> rat" where
  \<comment> \<open>\<open>math.exp(-math.log(2) * age_hours / half_life_hours)\<close>\<close>
  "recency_decay m timestamp now half_life_hours = lm_exp m (fl (fl (- lm_log2 m * age_hours now timestamp) / half_life_hours))"

definition reweight :: "libm \<Rightarrow> rat \<Rightarrow> datetime \<Rightarrow> gating_candidate \<Rightarrow> gating_candidate" where
  "reweight m half_life_hours now c =
     (case gc_timestamp c of
        None \<Rightarrow> c
      | Some t \<Rightarrow>
          (let decay = recency_decay m t now half_life_hours;
               multiplier = (if ge_zero (gc_score c) then decay else fl (2 - decay))
           in c\<lparr>gc_score := pf_mul (gc_score c) multiplier\<rparr>))"

definition recency_weighted_sampling :: "libm \<Rightarrow> gating_candidate list \<Rightarrow> rat \<Rightarrow> datetime \<Rightarrow> gating_candidate list result" where
  "recency_weighted_sampling m cs half_life_hours now =
     (if half_life_hours \<le> 0 then Inl (ValueError ''half_life_hours must be positive'')
      else Inr (by_score (map (reweight m half_life_hours now) cs)))"

definition token_budget_allocation :: "(string \<Rightarrow> nat) \<Rightarrow> gating_candidate list \<Rightarrow> int \<Rightarrow> gating_candidate list" where
  "token_budget_allocation count_tokens cs token_budget =
     (if token_budget < 0 then []
      else fst (skip_pack (\<lambda>c. count_tokens (gc_content_text c)) token_budget (by_score cs) 0))"

definition top_k_selection :: "gating_candidate list \<Rightarrow> int \<Rightarrow> gating_candidate list" where
  "top_k_selection cs k = (if k \<le> 0 then [] else take (nat k) (by_score cs))"

definition source_type_priority :: "string \<Rightarrow> nat" where
  "source_type_priority s = (if s = ''fact'' then 0 else if s = ''episode'' then 1 else if s = ''graph_node'' then 2 else 3)"

definition hierarchical_key :: "gating_candidate \<Rightarrow> nat \<times> float_key" where
  "hierarchical_key c = (source_type_priority (gc_source_type c), key_of (pf_neg (safe_score (gc_score c))))"

definition hierarchical_assembly :: "gating_candidate list \<Rightarrow> gating_candidate list" where
  "hierarchical_assembly cs = sort_key hierarchical_key cs"

subsection \<open>The pipeline\<close>

record gating_env =
  ge_libm :: libm
  ge_count_tokens :: "string \<Rightarrow> nat"
  ge_dumps :: "(string \<times> json) list \<Rightarrow> string"
  ge_dumps_str :: "(string \<times> node_property) list \<Rightarrow> string"

definition pooled :: "gating_env \<Rightarrow> scored_episode list \<Rightarrow> scored_fact list \<Rightarrow> activated_node list \<Rightarrow> gating_candidate list" where
  "pooled ge episodes facts graph_nodes =
     map (from_scored_episode (ge_dumps ge)) episodes @ map from_scored_fact facts @ map (from_activated_node (ge_dumps_str ge)) graph_nodes"

definition gate_memories :: "gating_env \<Rightarrow> scored_episode list \<Rightarrow> scored_fact list \<Rightarrow> activated_node list \<Rightarrow> int \<Rightarrow>
    embedding option \<Rightarrow> string set option \<Rightarrow> rat \<Rightarrow> datetime \<Rightarrow> gating_candidate list result" where
  "gate_memories ge episodes facts graph_nodes token_budget query_embedding allowed half_life_hours now =
     (case (case query_embedding of
              None \<Rightarrow> Inr (pooled ge episodes facts graph_nodes)
            | Some q \<Rightarrow> dynamic_reranking (pooled ge episodes facts graph_nodes) q) of
        Inl e \<Rightarrow> Inl e
      | Inr cs \<Rightarrow>
          (let cs1 = (case allowed of None \<Rightarrow> cs | Some types \<Rightarrow> task_specific_filtering cs types)
           in case recency_weighted_sampling (ge_libm ge) cs1 half_life_hours now of
                Inl e \<Rightarrow> Inl e
              | Inr cs2 \<Rightarrow> Inr (hierarchical_assembly (token_budget_allocation (ge_count_tokens ge) cs2 token_budget))))"

subsection \<open>Sorting\<close>

lemma mset_sorted_reverse [simp]: "mset (sorted_reverse f xs) = mset xs"
  by (simp add: sorted_reverse_def)

lemma set_sorted_reverse [simp]: "set (sorted_reverse f xs) = set xs"
  by (simp add: sorted_reverse_def)

lemma set_by_score [simp]: "set (by_score cs) = set cs"
  by (simp add: by_score_def)

lemma sorted_reverse_sorted: "sorted_wrt (\<lambda>x y. f y \<le> f x) (sorted_reverse f xs)"
proof -
  have "sorted_wrt (\<lambda>x y. f x \<le> f y) (sort_key f (rev xs))"
    using sorted_sort_key [of f "rev xs"] by (simp add: sorted_map)
  then show ?thesis by (simp add: sorted_reverse_def sorted_wrt_rev)
qed

lemma sorted_reverse_stable: "filter (\<lambda>x. f x = k) (sorted_reverse f xs) = filter (\<lambda>x. f x = k) xs"
  using sort_key_stable [of f k "rev xs"] by (simp add: sorted_reverse_def rev_filter [symmetric])

lemma key_of_neg: "x \<noteq> NaN \<Longrightarrow> y \<noteq> NaN \<Longrightarrow> key_of (pf_neg x) \<le> key_of (pf_neg y) \<longleftrightarrow> key_of y \<le> key_of x"
  by (cases x; cases y) auto

lemma safe_score_not_NaN [simp]: "safe_score x \<noteq> NaN"
  by (cases x) auto

subsection \<open>Age is never rewarded\<close>

lemma fl_mono: "x \<le> y \<Longrightarrow> fl x \<le> fl y" by (rule double.rnd_mono)

lemma age_hours_mono: "t \<le> t' \<Longrightarrow> age_hours now t' \<le> age_hours now t"
  unfolding age_hours_def
  by (intro max.mono fl_mono divide_right_mono order_refl) simp_all

lemma recency_decay_mono:
  assumes "mono (lm_exp m)" "0 \<le> lm_log2 m" "0 < h" "t \<le> t'"
  shows "recency_decay m t now h \<le> recency_decay m t' now h"
  unfolding recency_decay_def
  using assms age_hours_mono [OF assms(4), of now]
  by (intro monoD [OF assms(1)] fl_mono divide_right_mono) (simp_all add: mult_left_mono)

lemma recency_decay_range:
  assumes "mono (lm_exp m)" "0 \<le> lm_log2 m" "0 < h" "lm_exp m 0 = 1" "\<And>x. 0 \<le> lm_exp m x"
  shows "0 \<le> recency_decay m t now h" "recency_decay m t now h \<le> 1"
proof -
  have "fl (- lm_log2 m * age_hours now t) \<le> 0"
    using fl_mono [of "- lm_log2 m * age_hours now t" 0] assms(2) by (simp add: double.rnd_0 age_hours_def)
  then have "fl (fl (- lm_log2 m * age_hours now t) / h) \<le> 0"
    using fl_mono [of "fl (- lm_log2 m * age_hours now t) / h" 0] assms(3) by (simp add: double.rnd_0 divide_le_0_iff)
  then have "recency_decay m t now h \<le> lm_exp m 0"
    unfolding recency_decay_def by (rule monoD [OF assms(1)])
  then show "recency_decay m t now h \<le> 1" using assms(4) by simp
  show "0 \<le> recency_decay m t now h" using assms(5) by (simp add: recency_decay_def)
qed

lemma aged_multiplier:
  assumes "0 \<le> d" "d \<le> d'" "d' \<le> 1"
  shows "1 \<le> fl (2 - d')" "fl (2 - d') \<le> fl (2 - d)"
  using assms double.rnd_ge_int [of 1 "2 - d'"] by (auto intro: fl_mono)

text \<open>
  C39. Age is never rewarded. Of two candidates with the same score the older one is ranked no higher after the re-weighting,
  whether the score is positive, negative, infinite or not a number, and even where the decay underflows to zero. The
  exponential function need only be monotone, 1 at 0 and not negative.
\<close>
theorem age_never_rewarded:
  assumes "mono (lm_exp m)" "lm_exp m 0 = 1" "\<And>x. 0 \<le> lm_exp m x" "0 \<le> lm_log2 m" "0 < h"
    and "gc_score c = gc_score c'" "gc_timestamp c = Some t" "gc_timestamp c' = Some t'" "t \<le> t'"
  shows "key_of (safe_score (gc_score (reweight m h now c))) \<le> key_of (safe_score (gc_score (reweight m h now c')))"
proof -
  let ?d = "recency_decay m t now h" and ?d' = "recency_decay m t' now h"
  have d: "?d \<le> ?d'" by (rule recency_decay_mono [OF assms(1,4,5,9)])
  note r = recency_decay_range [OF assms(1,4,5,2,3), of t now] recency_decay_range [OF assms(1,4,5,2,3), of t' now]
  note a = aged_multiplier [OF r(1) d r(4)]
  have pos: "fl (x * ?d) \<le> fl (x * ?d')" if "0 \<le> x" for x
    using that d by (intro fl_mono mult_left_mono)
  have neg: "fl (x * fl (2 - ?d)) \<le> fl (x * fl (2 - ?d'))" if "\<not> 0 \<le> x" for x
    using that by (intro fl_mono mult_left_mono_neg a(2)) simp
  show ?thesis
    using assms(6-8) pos neg a d r by (cases "gc_score c'") (auto simp: reweight_def Let_def)
qed

subsection \<open>What is selected\<close>

abbreviation memory_of :: "gating_candidate \<Rightarrow> candidate_origin \<times> string \<times> string" where
  "memory_of c \<equiv> (gc_origin c, gc_content_text c, gc_source_type c)"

lemma skip_pack_mset: "skip_pack c b xs u = (k, u', d) \<Longrightarrow> mset k \<subseteq># mset xs"
proof (induction xs arbitrary: u k u' d)
  case (Cons x xs)
  have "mset xs \<subseteq># add_mset x (mset xs)" by simp
  with Cons show ?case by (auto split: if_splits prod.splits intro: subset_mset.order_trans [of _ "mset xs"])
qed simp

lemma reweight_memory [simp]: "memory_of (reweight m h now c) = memory_of c"
  by (simp add: reweight_def Let_def split: option.splits)

lemma by_score_memory: "mset (map memory_of (by_score cs)) = mset (map memory_of cs)"
  unfolding mset_map by (simp add: by_score_def)

lemma reranking_memory:
  assumes "dynamic_reranking cs q = Inr out"
  shows "mset (map memory_of out) = mset (map memory_of cs)"
proof -
  let ?f = "\<lambda>c. if gc_embedding c = [] then Inr c
    else case cosine_similarity q (gc_embedding c) of Inl e \<Rightarrow> Inl e | Inr s \<Rightarrow> Inr (c\<lparr>gc_score := Fin s\<rparr>)"
  obtain rs where rs: "seq_results (map ?f cs) = Inr rs" "out = by_score rs"
    using assms by (auto simp: dynamic_reranking_def split: sum.splits)
  have "map ?f cs = map Inr rs \<Longrightarrow> map memory_of rs = map memory_of cs" for rs
    by (induction cs arbitrary: rs) (auto split: if_splits sum.splits)
  with rs show ?thesis by (simp only: seq_results_Inr by_score_memory)
qed

definition admitted :: "string set option \<Rightarrow> gating_candidate \<Rightarrow> bool" where
  "admitted allowed c \<longleftrightarrow> (case allowed of None \<Rightarrow> True | Some types \<Rightarrow> gc_source_type c \<in> types)"

definition tokens_of :: "gating_env \<Rightarrow> gating_candidate list \<Rightarrow> int" where
  "tokens_of ge cs = int (sum_list (map (\<lambda>c. ge_count_tokens ge (gc_content_text c)) cs))"

definition prompt_order :: "gating_candidate \<Rightarrow> gating_candidate \<Rightarrow> bool" where
  \<comment> \<open>facts, episodes, graph nodes; in each group by descending score, NaN last\<close>
  "prompt_order a b \<longleftrightarrow>
     source_type_priority (gc_source_type a) < source_type_priority (gc_source_type b) \<or>
     source_type_priority (gc_source_type a) = source_type_priority (gc_source_type b) \<and>
       key_of (safe_score (gc_score b)) \<le> key_of (safe_score (gc_score a))"

lemma admitted_memory:
  assumes "mset (map memory_of cs) = mset (map memory_of ds)"
  shows "mset (map memory_of (filter (admitted allowed) cs)) = mset (map memory_of (filter (admitted allowed) ds))"
proof -
  have f: "image_mset memory_of (filter_mset (admitted allowed) M) =
      filter_mset (\<lambda>(i, c, t). case allowed of None \<Rightarrow> True | Some types \<Rightarrow> t \<in> types) (image_mset memory_of M)" for M
    by (induction M) (auto simp: admitted_def split: option.splits)
  show ?thesis using assms by (simp add: f)
qed

lemma hierarchical_sorted: "sorted_wrt prompt_order (hierarchical_assembly cs)"
proof -
  have "sorted_wrt (\<lambda>a b. hierarchical_key a \<le> hierarchical_key b) (hierarchical_assembly cs)"
    unfolding hierarchical_assembly_def using sorted_sort_key [of hierarchical_key cs] by (simp add: sorted_map)
  then show ?thesis
    by (rule sorted_wrt_mono_rel [rotated]) (auto simp: hierarchical_key_def prompt_order_def less_eq_prod_def key_of_neg)
qed

lemma token_budget_allocation_fits:
  assumes "0 \<le> budget"
  shows "int (sum_list (map (\<lambda>c. tok (gc_content_text c)) (token_budget_allocation tok cs budget))) \<le> budget"
    and "c \<in> set cs \<Longrightarrow> c \<notin> set (token_budget_allocation tok cs budget) \<Longrightarrow>
      budget < int (sum_list (map (\<lambda>c. tok (gc_content_text c)) (token_budget_allocation tok cs budget))) + int (tok (gc_content_text c))"
    and "mset (token_budget_allocation tok cs budget) \<subseteq># mset cs"
proof -
  obtain k u d where k: "skip_pack (\<lambda>c. tok (gc_content_text c)) budget (by_score cs) 0 = (k, u, d)"
    by (rule prod_cases3)
  then have e: "token_budget_allocation tok cs budget = k" using assms by (simp add: token_budget_allocation_def)
  show "int (sum_list (map (\<lambda>c. tok (gc_content_text c)) (token_budget_allocation tok cs budget))) \<le> budget"
    using skip_pack_used [OF k] skip_pack_within [OF k] assms by (simp add: e)
  show "budget < int (sum_list (map (\<lambda>c. tok (gc_content_text c)) (token_budget_allocation tok cs budget))) + int (tok (gc_content_text c))"
    if "c \<in> set cs" "c \<notin> set (token_budget_allocation tok cs budget)"
    using skip_pack_used [OF k] skip_pack_dropped [OF k, of c] that by (simp add: e)
  show "mset (token_budget_allocation tok cs budget) \<subseteq># mset cs"
    using skip_pack_mset [OF k] by (simp add: e by_score_def)
qed

text \<open>
  C38. What gating puts into a prompt. Whatever stages run, the memories chosen are among those given, none twice, only of the
  admitted kinds, and within the token budget; one that was left out would not have fitted beside those chosen; and they come in
  the order facts, episodes, graph nodes, by descending score in each group, with scores that are not numbers last.
\<close>
theorem gated_memories_fit:
  assumes "gate_memories ge episodes facts nodes budget q allowed h now = Inr out"
  shows "tokens_of ge out \<le> max 0 budget \<and>
    mset (map memory_of out) \<subseteq># mset (map memory_of (filter (admitted allowed) (pooled ge episodes facts nodes))) \<and>
    (\<forall>p \<in> set (filter (admitted allowed) (pooled ge episodes facts nodes)). 0 \<le> budget \<longrightarrow>
       memory_of p \<in> memory_of ` set out \<or> budget < tokens_of ge out + int (ge_count_tokens ge (gc_content_text p))) \<and>
    sorted_wrt prompt_order out"
proof -
  let ?pool = "pooled ge episodes facts nodes"
  obtain cs where cs: "mset (map memory_of cs) = mset (map memory_of ?pool)"
    and rest: "(case recency_weighted_sampling (ge_libm ge) (filter (admitted allowed) cs) h now of
        Inl e \<Rightarrow> Inl e
      | Inr cs2 \<Rightarrow> Inr (hierarchical_assembly (token_budget_allocation (ge_count_tokens ge) cs2 budget))) = Inr out"
  proof -
    have f: "(case allowed of None \<Rightarrow> cs | Some types \<Rightarrow> task_specific_filtering cs types) = filter (admitted allowed) cs" for cs
      by (cases allowed) (simp_all add: task_specific_filtering_def admitted_def [abs_def])
    show ?thesis
    proof (cases q)
      case None
      then show ?thesis using that [of "pooled ge episodes facts nodes"] assms unfolding gate_memories_def f Let_def by simp
    next
      case (Some v)
      then obtain rs where "dynamic_reranking ?pool v = Inr rs"
        using assms by (cases "dynamic_reranking ?pool v") (simp_all add: gate_memories_def)
      then show ?thesis using that [OF reranking_memory] assms Some unfolding gate_memories_def f Let_def by simp
    qed
  qed
  then obtain cs2 where cs2: "cs2 = by_score (map (reweight (ge_libm ge) h now) (filter (admitted allowed) cs))"
    and out: "out = hierarchical_assembly (token_budget_allocation (ge_count_tokens ge) cs2 budget)"
    by (auto simp: recency_weighted_sampling_def split: if_splits)
  let ?k = "token_budget_allocation (ge_count_tokens ge) cs2 budget"
  have same: "mset (map memory_of cs2) = mset (map memory_of (filter (admitted allowed) ?pool))"
  proof -
    have "mset (map memory_of cs2) = mset (map memory_of (filter (admitted allowed) cs))"
      unfolding cs2 by_score_memory by (simp add: o_def)
    then show ?thesis using admitted_memory [OF cs] by simp
  qed
  have m: "mset out = mset ?k" by (simp add: out hierarchical_assembly_def)
  have t: "tokens_of ge out = int (sum_list (map (\<lambda>c. ge_count_tokens ge (gc_content_text c)) ?k))"
    unfolding tokens_of_def by (simp only: sum_mset_sum_list [symmetric] mset_map m)
  show ?thesis
  proof (intro conjI ballI impI)
    show "sorted_wrt prompt_order out" unfolding out by (rule hierarchical_sorted)
    show "tokens_of ge out \<le> max 0 budget"
      using token_budget_allocation_fits(1) [of budget "ge_count_tokens ge" cs2] unfolding t
      by (cases "0 \<le> budget") (simp_all add: token_budget_allocation_def)
    have "mset ?k \<subseteq># mset cs2"
      using token_budget_allocation_fits(3) [of budget] by (cases "0 \<le> budget") (simp_all add: token_budget_allocation_def)
    then have "mset (map memory_of out) \<subseteq># mset (map memory_of cs2)" unfolding mset_map m by (rule image_mset_subseteq_mono)
    then show "mset (map memory_of out) \<subseteq># mset (map memory_of (filter (admitted allowed) ?pool))" unfolding same .
  next
    fix p
    assume p: "p \<in> set (filter (admitted allowed) ?pool)" and b: "0 \<le> budget"
    then have "memory_of p \<in> set (map memory_of cs2)"
      using arg_cong [OF same, of set_mset] by (simp only: set_mset_mset list.set_map) blast
    then obtain c where c: "c \<in> set cs2" "memory_of p = memory_of c" by auto
    show "memory_of p \<in> memory_of ` set out \<or> budget < tokens_of ge out + int (ge_count_tokens ge (gc_content_text p))"
    proof (cases "c \<in> set ?k")
      case True
      then have "c \<in> set out" using arg_cong [OF m, of set_mset] by simp
      with c(2) show ?thesis by blast
    next
      case False
      with token_budget_allocation_fits(2) [OF b c(1), of "ge_count_tokens ge"] c(2) show ?thesis unfolding t by simp
    qed
  qed
qed

text \<open>Gating raises exactly for a half-life that is not positive and for a query embedding of the wrong dimension.\<close>

theorem gate_memories_raises:
  "isl (gate_memories ge episodes facts nodes budget query_embedding allowed h now) \<longleftrightarrow>
     h \<le> 0 \<or> (\<exists>q c. query_embedding = Some q \<and> c \<in> set (pooled ge episodes facts nodes) \<and>
       gc_embedding c \<noteq> [] \<and> length (gc_embedding c) \<noteq> length q)"
proof -
  have r: "isl (dynamic_reranking cs q) \<longleftrightarrow> (\<exists>c\<in>set cs. gc_embedding c \<noteq> [] \<and> length (gc_embedding c) \<noteq> length q)" for cs q
  proof -
    have s: "isl (seq_results rs) \<longleftrightarrow> (\<exists>r\<in>set rs. isl r)" for rs :: "gating_candidate result list"
      by (induction rs) (auto split: sum.splits)
    let ?f = "\<lambda>c :: gating_candidate. if gc_embedding c = [] then (Inr c :: gating_candidate result)
      else case cosine_similarity q (gc_embedding c) of Inl e \<Rightarrow> Inl e | Inr s \<Rightarrow> Inr (c\<lparr>gc_score := Fin s\<rparr>)"
    have "isl (?f c) \<longleftrightarrow> gc_embedding c \<noteq> [] \<and> length (gc_embedding c) \<noteq> length q" for c :: gating_candidate
      by (auto simp: cosine_similarity_def Let_def)
    moreover have "isl (dynamic_reranking cs q) \<longleftrightarrow> isl (seq_results (map ?f cs))"
      by (auto simp: dynamic_reranking_def split: sum.splits)
    ultimately show ?thesis by (simp only: s set_map bex_simps)
  qed
  show ?thesis
  proof (cases query_embedding)
    case None
    then show ?thesis by (simp add: gate_memories_def recency_weighted_sampling_def Let_def)
  next
    case (Some q)
    then show ?thesis
      using r [of "pooled ge episodes facts nodes" q]
      by (cases "dynamic_reranking (pooled ge episodes facts nodes) q")
        (auto simp: gate_memories_def recency_weighted_sampling_def Let_def)
  qed
qed

subsection \<open>Witnesses\<close>

definition ex_libm :: libm where
  "ex_libm = \<lparr>lm_exp = (\<lambda>x. if 0 \<le> x then 1 else 1 / (1 - x)), lm_log2 = 7 / 10\<rparr>"

definition ex_aged :: "datetime \<Rightarrow> gating_candidate" where
  "ex_aged t = \<lparr>gc_content_text = ''m'', gc_score = Fin (- 1), gc_salience = Fin 0, gc_timestamp = Some t, gc_source_type = ''episode'',
     gc_origin = FromNode \<lparr>an_node_id = ''n'', an_node_type = ''Episode'', an_properties = [], an_activation = 1, an_hops = 1\<rparr>, gc_embedding = []\<rparr>"

theorem age_never_rewarded_witness:
  "key_of (safe_score (gc_score (reweight ex_libm 24 (seconds 7200) (ex_aged 0)))) \<le>
   key_of (safe_score (gc_score (reweight ex_libm 24 (seconds 7200) (ex_aged (seconds 3600)))))"
proof -
  have "1 / (1 - x) \<le> 1 / (1 - y)" if "x \<le> y" "\<not> 0 \<le> y" for x y :: rat
    using that by (intro divide_left_mono) (auto intro: mult_pos_pos)
  then have "mono (lm_exp ex_libm)" by (auto simp: mono_def ex_libm_def)
  moreover have "lm_exp ex_libm 0 = 1" by (simp add: ex_libm_def)
  moreover have "0 \<le> lm_exp ex_libm x" for x by (simp add: ex_libm_def)
  moreover have "0 \<le> lm_log2 ex_libm" by (simp add: ex_libm_def)
  ultimately show ?thesis
    by (rule age_never_rewarded [where t = 0 and t' = "seconds 3600"]) (simp_all add: ex_aged_def seconds_def)
qed

definition ex_gating :: gating_env where
  "ex_gating = \<lparr>ge_libm = ex_libm, ge_count_tokens = length, ge_dumps = (\<lambda>c. ''{}''), ge_dumps_str = (\<lambda>c. ''{}'')\<rparr>"

definition ex_scored_fact :: "string \<Rightarrow> pyfloat \<Rightarrow> scored_fact" where
  "ex_scored_fact v s = \<lparr>sf_fact = \<lparr>sm_fact_id = 1, sm_user_id = 2, sm_fact_key = ''k'', sm_fact_value = v, sm_embedding = [], sm_confidence = Fin 1,
     sm_source = [], sm_valid_until = None, sm_archived_at = None\<rparr>, sf_score = s\<rparr>"

definition ex_gated :: "gating_candidate list result" where
  "ex_gated = gate_memories ex_gating [] [ex_scored_fact ''abc'' NaN, ex_scored_fact ''de'' (Fin 1), ex_scored_fact ''f'' PosInf]
     [\<lparr>an_node_id = ''n'', an_node_type = ''User'', an_properties = [], an_activation = 1, an_hops = 1\<rparr>] 4 None (Some {''fact''}) 24 0"

lemma ex_gated_evaluated: "map_sum id (map gc_content_text) ex_gated = Inr [''f'', ''de'']"
  by code_simp

theorem gated_memories_fit_witness:
  "\<exists>out. ex_gated = Inr out \<and> map gc_content_text out = [''f'', ''de''] \<and> tokens_of ex_gating out \<le> 4 \<and> sorted_wrt prompt_order out"
proof -
  obtain out where g: "ex_gated = Inr out"
    using ex_gated_evaluated by (metis map_sum.simps(1) sum.distinct(1) sum.exhaust)
  have "map gc_content_text out = [''f'', ''de'']" using ex_gated_evaluated [unfolded g] by (simp del: map_eq_Cons_conv)
  with gated_memories_fit [OF g [unfolded ex_gated_def]] g show ?thesis by (auto simp del: map_eq_Cons_conv)
qed

end
