(* ===== verification/Memory_Graph.thy ===== *)
theory Memory_Graph
  imports Semantic_Memory
begin

text \<open>
  The memory graph, \<^verbatim>\<open>src/mag/infrastructure/neo4j_memory_graph_repository.py\<close>, apart from the fact nodes, which are in
  \<open>Semantic_Memory\<close>: users, sessions, entities and episodes, the four kinds of edges that the commands write, and spreading
  activation.

  A node is its label and key with its tenant. \<open>MERGE\<close> of a node or an edge that is there has no effect; \<open>MATCH\<close> of a
  node that is missing makes the rest of a statement do nothing. The query of spreading activation finds, for every node that a
  path of at most \<open>max_hops\<close> edges inside the tenant joins to a start entity, the length of the shortest such path: a
  search by levels. Its records come in any order (\<open>arrange\<close>). \<open>**\<close> on floats is C \<^verbatim>\<open>pow\<close>, a parameter, like \<open>str\<close> of an
  entity name that is not a string.
\<close>

datatype graph_node = User_Node uuid | Session_Node uuid | Entity_Node json | Episode_Node uuid | Fact_Node uuid

type_synonym vertex = "graph_node \<times> uuid"

datatype edge_label = PARTICIPATED_IN | TEMPORALLY_FOLLOWS | MENTIONS | ABSTRACTS_TO

type_synonym edge = "vertex \<times> edge_label \<times> vertex"

record memory_graph =
  mg_nodes :: "vertex list"
  mg_episodes :: "vertex \<Rightarrow> ((string \<times> json) list \<times> datetime) option"
  mg_edges :: "edge list"

definition merge_node :: "vertex \<Rightarrow> memory_graph \<Rightarrow> memory_graph" where
  "merge_node v g = g\<lparr>mg_nodes := List.insert v (mg_nodes g)\<rparr>"

definition merge_edge :: "vertex \<Rightarrow> edge_label \<Rightarrow> vertex \<Rightarrow> memory_graph \<Rightarrow> memory_graph" where
  "merge_edge a l b g = g\<lparr>mg_edges := List.insert (a, l, b) (mg_edges g)\<rparr>"

definition upsert_episode_node :: "memory_graph \<Rightarrow> episodic_memory \<Rightarrow> uuid \<Rightarrow> memory_graph" where
  "upsert_episode_node g episode tenant_id =
     (let v = (Episode_Node (em_id episode), tenant_id); g1 = merge_node v g
      in g1\<lparr>mg_episodes := (mg_episodes g1)(v \<mapsto> (em_content episode, em_timestamp episode))\<rparr>)"

definition link_participated_in :: "memory_graph \<Rightarrow> uuid \<Rightarrow> uuid \<Rightarrow> uuid \<Rightarrow> memory_graph" where
  "link_participated_in g user_id session_id tenant_id =
     (let u = (User_Node user_id, tenant_id); s = (Session_Node session_id, tenant_id)
      in merge_edge u PARTICIPATED_IN s (merge_node s (merge_node u g)))"

definition link_temporally_follows :: "memory_graph \<Rightarrow> uuid \<Rightarrow> uuid \<Rightarrow> uuid \<Rightarrow> memory_graph" where
  "link_temporally_follows g earlier_episode_id later_episode_id tenant_id =
     (let earlier = (Episode_Node earlier_episode_id, tenant_id); later = (Episode_Node later_episode_id, tenant_id)
      in if earlier \<in> set (mg_nodes g) \<and> later \<in> set (mg_nodes g) then merge_edge later TEMPORALLY_FOLLOWS earlier g else g)"

definition link_mentions :: "memory_graph \<Rightarrow> uuid \<Rightarrow> json \<Rightarrow> uuid \<Rightarrow> memory_graph" where
  "link_mentions g episode_id entity_name tenant_id =
     (let ep = (Episode_Node episode_id, tenant_id); ent = (Entity_Node entity_name, tenant_id)
      in if ep \<in> set (mg_nodes g) then merge_edge ep MENTIONS ent (merge_node ent g) else g)"

definition link_abstracts_to :: "fact_graph \<Rightarrow> memory_graph \<Rightarrow> uuid \<Rightarrow> uuid \<Rightarrow> uuid \<Rightarrow> memory_graph" where
  "link_abstracts_to facts g episode_id fact_id tenant_id =
     (let ep = (Episode_Node episode_id, tenant_id)
      in if ep \<in> set (mg_nodes g) \<and> facts (fact_id, tenant_id) \<noteq> None
         then merge_edge ep ABSTRACTS_TO (Fact_Node fact_id, tenant_id) g else g)"

subsection \<open>Spreading activation\<close>

definition MAX_HOPS :: int where "MAX_HOPS = 10"

definition neighbours :: "edge list \<Rightarrow> uuid \<Rightarrow> vertex \<Rightarrow> vertex list" where
  \<comment> \<open>along edges of either direction, inside the tenant\<close>
  "neighbours es t v =
     concat (map (\<lambda>(a, l, b). (if a = v \<and> snd b = t then [b] else []) @ (if b = v \<and> snd a = t then [a] else [])) es)"

fun levels :: "edge list \<Rightarrow> uuid \<Rightarrow> vertex list \<Rightarrow> vertex list \<Rightarrow> nat \<Rightarrow> nat \<Rightarrow> (vertex \<times> nat) list" where
  \<comment> \<open>\<open>seen\<close> are the vertices at distance below \<open>k\<close>, \<open>cur\<close> those at distance \<open>k - 1\<close>\<close>
  "levels es t seen cur k 0 = []"
| "levels es t seen cur k (Suc n) =
     (let new = filter (\<lambda>v. v \<notin> set seen) (remdups (concat (map (neighbours es t) cur)))
      in map (\<lambda>v. (v, k)) new @ levels es t (new @ seen) new (Suc k) n)"

definition start_entities :: "memory_graph \<Rightarrow> uuid \<Rightarrow> string list \<Rightarrow> vertex list" where
  "start_entities g t names =
     filter (\<lambda>(n, u). u = t \<and> (case n of Entity_Node (JStr s) \<Rightarrow> s \<in> set names | _ \<Rightarrow> False)) (mg_nodes g)"

definition activation_records :: "memory_graph \<Rightarrow> uuid \<Rightarrow> string list \<Rightarrow> nat \<Rightarrow> (vertex \<times> nat) list" where
  "activation_records g t names hops =
     (let starts = start_entities g t names
      in map (\<lambda>v. (v, 0)) starts @ levels (mg_edges g) t starts starts 1 hops)"

record graph_env =
  gv_str :: "json \<Rightarrow> string"
  gv_iso :: "datetime \<Rightarrow> string"
  gv_pow :: "rat \<Rightarrow> nat \<Rightarrow> rat"

definition node_properties :: "graph_env \<Rightarrow> fact_graph \<Rightarrow> memory_graph \<Rightarrow> vertex \<Rightarrow> (string \<times> node_property) list" where
  \<comment> \<open>a property that is null is absent; the content of an episode is parsed again and its timestamp a \<open>datetime\<close>\<close>
  "node_properties gv facts g v =
     (let tenant = (''tenant_id'', PJson (JStr (uuid_str (snd v)))); ident = (\<lambda>i. (''id'', PJson (JStr (uuid_str i))));
          time = (\<lambda>k d. case d of None \<Rightarrow> [] | Some tm \<Rightarrow> [(k, PJson (JStr (gv_iso gv tm)))])
      in case fst v of
           User_Node i \<Rightarrow> [ident i, tenant]
         | Session_Node i \<Rightarrow> [ident i, tenant]
         | Entity_Node name \<Rightarrow> [(''name'', PJson name), tenant]
         | Episode_Node i \<Rightarrow> [ident i, tenant] @
             (case mg_episodes g v of None \<Rightarrow> [] | Some (c, tm) \<Rightarrow> [(''content'', PJson (JObj c)), (''timestamp'', PTime tm)])
         | Fact_Node i \<Rightarrow> [ident i, tenant] @
             (case facts (i, snd v) of
                None \<Rightarrow> []
              | Some f \<Rightarrow> [(''fact_key'', PJson (JStr (fn_fact_key f))), (''fact_value'', PJson (JStr (fn_fact_value f))),
                           (''confidence'', PJson (JFloat (fn_confidence f)))] @
                  time ''valid_until'' (fn_valid_until f) @ time ''archived_at'' (fn_archived_at f)))"

definition node_type :: "vertex \<Rightarrow> string" where
  "node_type v = (case fst v of User_Node _ \<Rightarrow> ''User'' | Session_Node _ \<Rightarrow> ''Session'' | Entity_Node _ \<Rightarrow> ''Entity''
     | Episode_Node _ \<Rightarrow> ''Episode'' | Fact_Node _ \<Rightarrow> ''Fact'')"

definition node_identifier :: "graph_env \<Rightarrow> vertex \<Rightarrow> string" where
  "node_identifier gv v =
     (case fst v of
        User_Node i \<Rightarrow> uuid_str i
      | Session_Node i \<Rightarrow> uuid_str i
      | Entity_Node name \<Rightarrow> (case name of JStr s \<Rightarrow> s | _ \<Rightarrow> gv_str gv name)
      | Episode_Node i \<Rightarrow> uuid_str i
      | Fact_Node i \<Rightarrow> uuid_str i)"

fun activate :: "graph_env \<Rightarrow> fact_graph \<Rightarrow> memory_graph \<Rightarrow> rat \<Rightarrow> rat \<Rightarrow> (vertex \<times> nat) list \<Rightarrow>
    (string \<times> activated_node) list \<Rightarrow> (string \<times> activated_node) list" where
  "activate gv facts g decay threshold [] activated = activated"
| "activate gv facts g decay threshold ((v, node_hops) # rs) activated =
     (let activation = gv_pow gv decay node_hops; node_id = node_identifier gv v in
      if 0 < node_hops \<and> activation \<le> threshold then activate gv facts g decay threshold rs activated
      else case map_of activated node_id of
             Some old \<Rightarrow>
               if activation \<le> an_activation old then activate gv facts g decay threshold rs activated
               else activate gv facts g decay threshold rs (dict_set node_id
                      \<lparr>an_node_id = node_id, an_node_type = node_type v, an_properties = node_properties gv facts g v,
                       an_activation = activation, an_hops = node_hops\<rparr> activated)
           | None \<Rightarrow> activate gv facts g decay threshold rs (dict_set node_id
                      \<lparr>an_node_id = node_id, an_node_type = node_type v, an_properties = node_properties gv facts g v,
                       an_activation = activation, an_hops = node_hops\<rparr> activated))"

definition spread_activation :: "graph_env \<Rightarrow> ((vertex \<times> nat) list \<Rightarrow> (vertex \<times> nat) list) \<Rightarrow> fact_graph \<Rightarrow> memory_graph \<Rightarrow> uuid \<Rightarrow>
    string list \<Rightarrow> int \<Rightarrow> rat \<Rightarrow> rat \<Rightarrow> activated_node list result" where
  "spread_activation gv arrange facts g tenant_id start_entity_names max_hops decay_factor activation_threshold =
     (if \<not> (1 \<le> max_hops \<and> max_hops \<le> MAX_HOPS) then Inl (ValueError ''max_hops must be between 1 and 10'')
      else if \<not> (0 < decay_factor \<and> decay_factor < 1) then Inl (ValueError ''decay_factor must be in (0.0, 1.0)'')
      else Inr (map snd (activate gv facts g decay_factor activation_threshold
                  (arrange (activation_records g tenant_id start_entity_names (nat max_hops))) [])))"

definition DEFAULT_MAX_HOPS :: int where "DEFAULT_MAX_HOPS = 3"

definition DEFAULT_DECAY_FACTOR :: rat where "DEFAULT_DECAY_FACTOR = 1 / 2"

definition DEFAULT_ACTIVATION_THRESHOLD :: rat where "DEFAULT_ACTIVATION_THRESHOLD = fl (5 / 100)"

definition spreading_activation_retrieval :: "graph_env \<Rightarrow> ((vertex \<times> nat) list \<Rightarrow> (vertex \<times> nat) list) \<Rightarrow> fact_graph \<Rightarrow> memory_graph \<Rightarrow>
    uuid \<Rightarrow> string list \<Rightarrow> activated_node list result" where
  \<comment> \<open>the strategy with its defaults\<close>
  "spreading_activation_retrieval gv arrange facts g tenant_id names =
     spread_activation gv arrange facts g tenant_id names DEFAULT_MAX_HOPS DEFAULT_DECAY_FACTOR DEFAULT_ACTIVATION_THRESHOLD"

subsection \<open>Levels are distances\<close>

definition tenant_step :: "edge list \<Rightarrow> uuid \<Rightarrow> vertex \<Rightarrow> vertex \<Rightarrow> bool" where
  "tenant_step es t a b \<longleftrightarrow> snd b = t \<and> (\<exists>l. (a, l, b) \<in> set es \<or> (b, l, a) \<in> set es)"

fun walk :: "edge list \<Rightarrow> uuid \<Rightarrow> nat \<Rightarrow> vertex \<Rightarrow> vertex \<Rightarrow> bool" where
  "walk es t 0 a b \<longleftrightarrow> a = b"
| "walk es t (Suc n) a b \<longleftrightarrow> (\<exists>c. walk es t n a c \<and> tenant_step es t c b)"

definition reached :: "edge list \<Rightarrow> uuid \<Rightarrow> vertex set \<Rightarrow> nat \<Rightarrow> vertex set" where
  "reached es t S n = {v. \<exists>s\<in>S. walk es t n s v}"

definition at_distance :: "edge list \<Rightarrow> uuid \<Rightarrow> vertex set \<Rightarrow> nat \<Rightarrow> vertex \<Rightarrow> bool" where
  "at_distance es t S n v \<longleftrightarrow> v \<in> reached es t S n \<and> (\<forall>m<n. v \<notin> reached es t S m)"

lemma set_neighbours: "set (neighbours es t v) = {w. tenant_step es t v w}"
proof (induction es)
  case (Cons e es)
  have "tenant_step (e # es) t v w \<longleftrightarrow> tenant_step [e] t v w \<or> tenant_step es t v w" for w by (auto simp: tenant_step_def)
  moreover have "set (neighbours [e] t v) = {w. tenant_step [e] t v w}"
    by (cases e) (auto simp: neighbours_def tenant_step_def)
  moreover have "set (neighbours (e # es) t v) = set (neighbours [e] t v) \<union> set (neighbours es t v)" by (simp add: neighbours_def)
  ultimately show ?case using Cons by auto
qed (simp add: neighbours_def tenant_step_def)

lemma reached_Suc: "reached es t S (Suc n) = {w. \<exists>v\<in>reached es t S n. tenant_step es t v w}"
  by (auto simp: reached_def)

lemma at_distance_Suc:
  "at_distance es t S (Suc n) w \<longleftrightarrow>
     (\<exists>v. at_distance es t S n v \<and> tenant_step es t v w) \<and> (\<forall>m\<le>n. w \<notin> reached es t S m)"
proof
  assume d: "at_distance es t S (Suc n) w"
  then obtain v where v: "v \<in> reached es t S n" "tenant_step es t v w" by (auto simp: at_distance_def reached_Suc)
  have "v \<notin> reached es t S m" if "m < n" for m
  proof
    assume "v \<in> reached es t S m"
    with v(2) have "w \<in> reached es t S (Suc m)" by (auto simp: reached_Suc)
    with d that show False by (auto simp: at_distance_def)
  qed
  with v(1) have "at_distance es t S n v" by (simp add: at_distance_def)
  with v(2) have "\<exists>v. at_distance es t S n v \<and> tenant_step es t v w" by blast
  with d show "(\<exists>v. at_distance es t S n v \<and> tenant_step es t v w) \<and> (\<forall>m\<le>n. w \<notin> reached es t S m)"
    by (simp add: at_distance_def [of _ _ _ "Suc n"] less_Suc_eq_le del: split_paired_Ex)
next
  assume "(\<exists>v. at_distance es t S n v \<and> tenant_step es t v w) \<and> (\<forall>m\<le>n. w \<notin> reached es t S m)"
  then show "at_distance es t S (Suc n) w" by (auto simp: at_distance_def reached_Suc less_Suc_eq_le)
qed

lemma levels_distances:
  assumes "set cur = {v. at_distance es t S k v}" "set seen = (\<Union>m\<le>k. reached es t S m)"
  shows "(v, d) \<in> set (levels es t seen cur (Suc k) n) \<longleftrightarrow> k < d \<and> d \<le> k + n \<and> at_distance es t S d v"
  using assms
proof (induction n arbitrary: seen cur k)
  case (Suc n)
  let ?new = "filter (\<lambda>v. v \<notin> set seen) (remdups (concat (map (neighbours es t) cur)))"
  have new: "set ?new = {v. at_distance es t S (Suc k) v}"
    using Suc.prems by (auto simp: set_neighbours at_distance_Suc)
  have "set (?new @ seen) = {v. at_distance es t S (Suc k) v} \<union> (\<Union>m\<le>k. reached es t S m)"
    unfolding set_append by (rule arg_cong2 [OF new Suc.prems(2)])
  also have "\<dots> = (\<Union>m\<le>Suc k. reached es t S m)"
  proof (rule set_eqI)
    fix w
    show "w \<in> {v. at_distance es t S (Suc k) v} \<union> (\<Union>m\<le>k. reached es t S m) \<longleftrightarrow> w \<in> (\<Union>m\<le>Suc k. reached es t S m)"
    proof (cases "\<exists>m\<le>k. w \<in> reached es t S m")
      case True
      then show ?thesis by (auto intro: le_SucI)
    next
      case False
      then show ?thesis by (auto simp: at_distance_def less_Suc_eq_le le_Suc_eq)
    qed
  qed
  finally have seen: "set (?new @ seen) = (\<Union>m\<le>Suc k. reached es t S m)" .
  have "(v, d) \<in> set (levels es t seen cur (Suc k) (Suc n)) \<longleftrightarrow>
      d = Suc k \<and> v \<in> set ?new \<or> (v, d) \<in> set (levels es t (?new @ seen) ?new (Suc (Suc k)) n)"
    by (auto simp: Let_def)
  also have "\<dots> \<longleftrightarrow> d = Suc k \<and> at_distance es t S (Suc k) v \<or> Suc k < d \<and> d \<le> Suc k + n \<and> at_distance es t S d v"
    unfolding Suc.IH [OF new seen] unfolding new by simp
  also have "\<dots> \<longleftrightarrow> k < d \<and> d \<le> k + Suc n \<and> at_distance es t S d v" by (cases "d = Suc k") auto
  finally show ?case .
qed simp

subsection \<open>What spreading activation returns\<close>

definition passes :: "graph_env \<Rightarrow> rat \<Rightarrow> rat \<Rightarrow> vertex \<times> nat \<Rightarrow> bool" where
  "passes gv decay threshold r \<longleftrightarrow> snd r = 0 \<or> threshold < gv_pow gv decay (snd r)"

definition activated_from :: "graph_env \<Rightarrow> fact_graph \<Rightarrow> memory_graph \<Rightarrow> rat \<Rightarrow> vertex \<times> nat \<Rightarrow> activated_node" where
  "activated_from gv facts g decay r =
     \<lparr>an_node_id = node_identifier gv (fst r), an_node_type = node_type (fst r), an_properties = node_properties gv facts g (fst r),
      an_activation = gv_pow gv decay (snd r), an_hops = snd r\<rparr>"

lemma activate_Cons:
  "activate gv facts g decay threshold (r # rs) act =
     (if passes gv decay threshold r \<and>
         (\<forall>old. map_of act (node_identifier gv (fst r)) = Some old \<longrightarrow> an_activation old < gv_pow gv decay (snd r))
      then activate gv facts g decay threshold rs (dict_set (node_identifier gv (fst r)) (activated_from gv facts g decay r) act)
      else activate gv facts g decay threshold rs act)"
  by (cases r) (auto simp: passes_def activated_from_def Let_def split: option.splits)

declare activate.simps(2) [simp del]

lemma activate_distinct: "distinct (map fst act) \<Longrightarrow> distinct (map fst (activate gv facts g decay threshold rs act))"
  by (induction rs arbitrary: act) (simp_all add: activate_Cons)

lemma dict_set_cases: "(k, a) \<in> set (dict_set x y d) \<Longrightarrow> k = x \<and> a = y \<or> (k, a) \<in> set d"
  by (induction d) (auto split: if_splits)

lemma activate_from:
  assumes "(k, a) \<in> set (activate gv facts g decay threshold rs act)"
  shows "(k, a) \<in> set act \<or>
    (\<exists>r\<in>set rs. passes gv decay threshold r \<and> k = node_identifier gv (fst r) \<and> a = activated_from gv facts g decay r)"
  using assms
proof (induction rs arbitrary: act)
  case (Cons r rs)
  have "(\<exists>act'. (k, a) \<in> set (activate gv facts g decay threshold rs act') \<and>
      (act' = act \<or> passes gv decay threshold r \<and> act' = dict_set (node_identifier gv (fst r)) (activated_from gv facts g decay r) act))"
    using Cons.prems by (auto simp only: activate_Cons split: if_splits)
  then show ?case using Cons.IH dict_set_cases by fastforce
qed simp

lemma activate_keeps:
  assumes "map_of act k = Some a"
  shows "\<exists>b. map_of (activate gv facts g decay threshold rs act) k = Some b \<and> an_activation a \<le> an_activation b"
  using assms
proof (induction rs arbitrary: act a)
  case (Cons r rs)
  let ?k = "node_identifier gv (fst r)" and ?n = "activated_from gv facts g decay r"
  show ?case
  proof (cases "passes gv decay threshold r \<and> (\<forall>old. map_of act ?k = Some old \<longrightarrow> an_activation old < gv_pow gv decay (snd r))")
    case True
    define b where "b = (if k = ?k then ?n else a)"
    have "map_of (dict_set ?k ?n act) k = Some b" using Cons.prems by (simp add: b_def)
    moreover have "an_activation a \<le> an_activation b" using True Cons.prems by (auto simp: b_def activated_from_def)
    ultimately show ?thesis using Cons.IH [of "dict_set ?k ?n act" b] True by (auto simp: activate_Cons intro: order_trans)
  next
    case False
    then have "activate gv facts g decay threshold (r # rs) act = activate gv facts g decay threshold rs act"
      by (subst activate_Cons) (simp only: if_False)
    with Cons show ?thesis by simp
  qed
qed auto

lemma activate_complete:
  assumes "r \<in> set rs" "passes gv decay threshold r"
  shows "\<exists>b. map_of (activate gv facts g decay threshold rs act) (node_identifier gv (fst r)) = Some b \<and> gv_pow gv decay (snd r) \<le> an_activation b"
  using assms
proof (induction rs arbitrary: act)
  case (Cons q rs)
  show ?case
  proof (cases "r = q")
    case True
    let ?k = "node_identifier gv (fst r)" and ?n = "activated_from gv facts g decay r"
    show ?thesis
    proof (cases "\<forall>old. map_of act ?k = Some old \<longrightarrow> an_activation old < gv_pow gv decay (snd r)")
      case True
      have "map_of (dict_set ?k ?n act) ?k = Some ?n" by simp
      from activate_keeps [OF this] True \<open>r = q\<close> Cons.prems(2) show ?thesis by (auto simp: activate_Cons activated_from_def)
    next
      case False
      then obtain old where old: "map_of act ?k = Some old" "gv_pow gv decay (snd r) \<le> an_activation old" by (auto simp: not_less)
      from False have "activate gv facts g decay threshold (r # rs) act = activate gv facts g decay threshold rs act"
        by (subst activate_Cons) (simp only: simp_thms if_False)
      with activate_keeps [OF old(1), of gv facts g decay threshold rs] old(2) \<open>r = q\<close> show ?thesis by (auto intro: order_trans)
    qed
  next
    case False
    then show ?thesis using Cons by (auto simp: activate_Cons)
  qed
qed simp

lemma activation_records_distances:
  "(v, d) \<in> set (activation_records g t names hops) \<longleftrightarrow>
     d \<le> hops \<and> at_distance (mg_edges g) t (set (start_entities g t names)) d v"
proof -
  let ?S = "set (start_entities g t names)"
  have z: "{v. at_distance (mg_edges g) t ?S 0 v} = ?S" by (auto simp: at_distance_def reached_def)
  have "(v, d) \<in> set (levels (mg_edges g) t (start_entities g t names) (start_entities g t names) (Suc 0) hops) \<longleftrightarrow>
      0 < d \<and> d \<le> 0 + hops \<and> at_distance (mg_edges g) t ?S d v"
    by (rule levels_distances) (auto simp: z reached_def)
  then show ?thesis using z by (cases d) (auto simp: activation_records_def Let_def)
qed

lemma at_distance_tenant:
  assumes "at_distance (mg_edges g) t (set (start_entities g t names)) d v"
  shows "snd v = t"
  using assms by (cases d) (auto simp: at_distance_def reached_def start_entities_def tenant_step_def split: prod.splits)

text \<open>
  Spreading activation is exact. Every node it returns lies in the tenant, at a distance of at most \<^verbatim>\<open>max_hops\<close> edges from the nearest
  named entity, and has the activation of that distance, above the threshold unless it is a start; conversely each such node
  is represented by a result with its identifier and an activation at least as high; and no identifier is returned twice. The
  records of the query may come in any order.
\<close>
theorem spread_activation_exact:
  assumes "spread_activation gv arrange facts g t names max_hops decay threshold = Inr out" "\<And>rs. set (arrange rs) = set rs"
  defines "near \<equiv> {(v, d). d \<le> nat max_hops \<and> at_distance (mg_edges g) t (set (start_entities g t names)) d v \<and>
      (d = 0 \<or> threshold < gv_pow gv decay d)}"
  shows "(\<forall>a\<in>set out. \<exists>(v, d)\<in>near. snd v = t \<and> a = activated_from gv facts g decay (v, d)) \<and>
    (\<forall>(v, d)\<in>near. \<exists>a\<in>set out. an_node_id a = node_identifier gv v \<and> gv_pow gv decay d \<le> an_activation a) \<and>
    distinct (map an_node_id out)"
proof -
  let ?rs = "arrange (activation_records g t names (nat max_hops))"
  let ?act = "activate gv facts g decay threshold ?rs []"
  have out: "out = map snd ?act" using assms(1) by (auto simp: spread_activation_def split: if_splits)
  have near: "(v, d) \<in> near \<longleftrightarrow> (v, d) \<in> set ?rs \<and> passes gv decay threshold (v, d)" for v d
    unfolding near_def assms(2) by (simp add: activation_records_distances passes_def)
  have dist: "distinct (map fst ?act)" by (rule activate_distinct) simp
  have from_rs: "\<exists>r\<in>set ?rs. passes gv decay threshold r \<and> k = node_identifier gv (fst r) \<and> a = activated_from gv facts g decay r"
    if "(k, a) \<in> set ?act" for k a
    using activate_from [OF that] by simp
  have id: "map an_node_id out = map fst ?act"
    unfolding out by (auto dest!: from_rs simp: activated_from_def)
  show ?thesis
  proof (intro conjI)
    show "distinct (map an_node_id out)" unfolding id by (rule dist)
    show "\<forall>a\<in>set out. \<exists>(v, d)\<in>near. snd v = t \<and> a = activated_from gv facts g decay (v, d)"
    proof
      fix a
      assume "a \<in> set out"
      then obtain k where "(k, a) \<in> set ?act" by (auto simp: out)
      from from_rs [OF this] obtain v d where r: "(v, d) \<in> near" "a = activated_from gv facts g decay (v, d)" using near by auto
      moreover have "snd v = t" using r(1) at_distance_tenant [of g t names d v] by (simp add: near_def)
      ultimately show "\<exists>(v, d)\<in>near. snd v = t \<and> a = activated_from gv facts g decay (v, d)" by blast
    qed
    show "\<forall>(v, d)\<in>near. \<exists>a\<in>set out. an_node_id a = node_identifier gv v \<and> gv_pow gv decay d \<le> an_activation a"
    proof clarify
      fix v d
      assume "(v, d) \<in> near"
      then have "(v, d) \<in> set ?rs" "passes gv decay threshold (v, d)" using near by auto
      from activate_complete [OF this, of facts g "[]"] obtain b where
        b: "map_of ?act (node_identifier gv v) = Some b" "gv_pow gv decay d \<le> an_activation b" by auto
      have m: "(node_identifier gv v, b) \<in> set ?act" using b(1) by (rule map_of_SomeD)
      from from_rs [OF m] have "an_node_id b = node_identifier gv v" by (auto simp: activated_from_def)
      moreover have "b \<in> set out" using m by (force simp: out)
      ultimately show "\<exists>a\<in>set out. an_node_id a = node_identifier gv v \<and> gv_pow gv decay d \<le> an_activation a" using b(2) by blast
    qed
  qed
qed

subsection \<open>Witness\<close>

definition ex_graph :: memory_graph where
  "ex_graph = (let ep = (\<lambda>i. \<lparr>em_id = i, em_session_id = 1, em_content = [], em_embedding = [], em_timestamp = 0, em_salience_score = 0, em_consolidated_at = None\<rparr>)
     in link_mentions (link_temporally_follows (link_mentions (upsert_episode_node (upsert_episode_node
          \<lparr>mg_nodes = [], mg_episodes = (\<lambda>_. None), mg_edges = []\<rparr> (ep 5) 7) (ep 6) 7) 5 (JStr ''Ada'') 7) 5 6 7) 6 (JStr ''Bob'') 8)"

definition ex_graph_env :: graph_env where
  "ex_graph_env = \<lparr>gv_str = (\<lambda>_. ''?''), gv_iso = (\<lambda>_. ''t''), gv_pow = (\<lambda>x n. x ^ n)\<rparr>"

lemma map_sum_Inr_cases: "map_sum f g r = Inr y \<Longrightarrow> (\<And>x. r = Inr x \<Longrightarrow> P) \<Longrightarrow> P"
  by (cases r) auto

definition ex_spread :: "activated_node list result" where
  "ex_spread = spread_activation ex_graph_env rev Map.empty ex_graph 7 [''Ada''] 3 (1 / 2) (1 / 10)"

lemma ex_spread_evaluated: "map_sum id (map (\<lambda>a. (an_node_type a, an_hops a, an_activation a))) ex_spread =
  Inr [(''Episode'', 2, 1 / 4), (''Episode'', 1, 1 / 2), (''Entity'', 0, 1)]"
  by code_simp

theorem spread_activation_exact_witness:
  "\<exists>out. ex_spread = Inr out \<and> length out = 3 \<and> distinct (map an_node_id out)"
proof -
  obtain out where o: "ex_spread = Inr out"
    using ex_spread_evaluated by (rule map_sum_Inr_cases)
  have "map (\<lambda>a. (an_node_type a, an_hops a, an_activation a)) out = [(''Episode'', 2, 1 / 4), (''Episode'', 1, 1 / 2), (''Entity'', 0, 1)]"
    using ex_spread_evaluated unfolding o by (simp only: map_sum.simps sum.inject)
  from arg_cong [OF this, of length] have "length out = 3" by simp
  moreover have "distinct (map an_node_id out)" using spread_activation_exact [OF o [unfolded ex_spread_def]] by simp
  ultimately show ?thesis using o by blast
qed

end
