(* ===== verification/Episodic_Memory.thy ===== *)
theory Episodic_Memory
  imports Memory_Graph "HOL-Library.Product_Lexorder"
begin

text \<open>
  Episodic memory: the Postgres repository and the Qdrant index of episodes (\<^verbatim>\<open>src/mag/infrastructure\<close>), \<^verbatim>\<open>CaptureEpisode\<close> and
  \<^verbatim>\<open>ConsolidateEpisodes\<close> (\<^verbatim>\<open>src/mag/application/commands\<close>).

  The table is the list of its rows in the order of insertion, in which rows with equal sort keys come. \<^verbatim>\<open>ILIKE\<close> is
  a matcher of patterns; the case folding of the database and the text of a \<^verbatim>\<open>jsonb\<close> value are parameters, like
  \<^verbatim>\<open>json.dumps\<close>, \<^verbatim>\<open>json.loads\<close>, \<^verbatim>\<open>float\<close> of a string and the nearest-neighbour search. An attempt to use the reply of a
  model parses it, asks for another one, or raises: \<open>float\<close> of an integer beyond the range raises \<open>OverflowError\<close>, which no
  handler names. A write to the graph that fails is logged and has no effect (\<open>graph_ok\<close> says which succeed).
\<close>

subsection \<open>PostgresEpisodicMemoryRepository\<close>

record episode_row =
  er_tenant_id :: uuid
  er_episode :: episodic_memory

type_synonym episode_table = "episode_row list"

definition save_episode :: "uuid set \<Rightarrow> episode_table \<Rightarrow> episodic_memory \<Rightarrow> uuid \<Rightarrow> episode_table result" where
  \<comment> \<open>a primary key, and a foreign key to the sessions; \<open>consolidated_at\<close> is not inserted\<close>
  "save_episode sessions r episode tenant_id =
     (if em_id episode \<in> em_id ` er_episode ` set r \<or> em_session_id episode \<notin> sessions then Inl (OtherException ''IntegrityError'')
      else Inr (r @ [\<lparr>er_tenant_id = tenant_id, er_episode = episode\<lparr>em_consolidated_at := None\<rparr>\<rparr>]))"

definition row_to_episode :: "episode_row \<Rightarrow> episodic_memory" where
  "row_to_episode row = (er_episode row)\<lparr>em_embedding := []\<rparr>"

definition in_session :: "uuid \<Rightarrow> uuid \<Rightarrow> episode_row \<Rightarrow> bool" where
  "in_session session_id tenant_id row \<longleftrightarrow> em_session_id (er_episode row) = session_id \<and> er_tenant_id row = tenant_id"

definition sql_limit :: "int \<Rightarrow> 'a list \<Rightarrow> 'a list result" where
  "sql_limit n xs = (if n < 0 then Inl (OtherException ''LIMIT must not be negative'') else Inr (take (nat n) xs))"

definition get_by_session :: "episode_table \<Rightarrow> uuid \<Rightarrow> uuid \<Rightarrow> episodic_memory list" where
  "get_by_session r session_id tenant_id =
     map row_to_episode (sort_key (\<lambda>row. em_timestamp (er_episode row)) (filter (in_session session_id tenant_id) r))"

definition unconsolidated :: "uuid \<Rightarrow> uuid \<Rightarrow> episode_row \<Rightarrow> bool" where
  "unconsolidated session_id tenant_id row \<longleftrightarrow> in_session session_id tenant_id row \<and> em_consolidated_at (er_episode row) = None"

definition get_unconsolidated_by_session :: "episode_table \<Rightarrow> uuid \<Rightarrow> uuid \<Rightarrow> int \<Rightarrow> episodic_memory list result" where
  "get_unconsolidated_by_session r session_id tenant_id limit =
     map_sum id (map row_to_episode)
       (sql_limit limit (sort_key (\<lambda>row. em_timestamp (er_episode row)) (filter (unconsolidated session_id tenant_id) r)))"

definition mark_consolidated :: "datetime \<Rightarrow> episode_table \<Rightarrow> uuid list \<Rightarrow> uuid \<Rightarrow> episode_table" where
  "mark_consolidated db_now r episode_ids tenant_id =
     (if episode_ids = [] then r
      else map (\<lambda>row. if em_id (er_episode row) \<in> set episode_ids \<and> er_tenant_id row = tenant_id
                      then row\<lparr>er_episode := (er_episode row)\<lparr>em_consolidated_at := Some db_now\<rparr>\<rparr> else row) r)"

definition search_episodes_by_similarity :: "(embedding \<Rightarrow> embedding \<Rightarrow> rat) \<Rightarrow> episode_table \<Rightarrow> embedding \<Rightarrow> uuid \<Rightarrow> int \<Rightarrow>
    scored_episode list result" where
  "search_episodes_by_similarity distance r query_embedding tenant_id top_k =
     map_sum id (map (\<lambda>row. \<lparr>se_episode = row_to_episode row, se_score = Fin (fl (1 - distance (em_embedding (er_episode row)) query_embedding))\<rparr>))
       (sql_limit top_k (sort_key (\<lambda>row. distance (em_embedding (er_episode row)) query_embedding)
          (filter (\<lambda>row. er_tenant_id row = tenant_id) r)))"

definition get_by_session_in_window :: "episode_table \<Rightarrow> uuid \<Rightarrow> uuid \<Rightarrow> datetime \<Rightarrow> datetime \<Rightarrow> int \<Rightarrow> episodic_memory list result" where
  "get_by_session_in_window r session_id tenant_id start until top_k =
     map_sum id (map row_to_episode) (sql_limit top_k (sorted_desc (\<lambda>row. em_timestamp (er_episode row))
       (filter (\<lambda>row. in_session session_id tenant_id row \<and> start \<le> em_timestamp (er_episode row) \<and> em_timestamp (er_episode row) \<le> until) r)))"

definition get_recent_by_session :: "episode_table \<Rightarrow> uuid \<Rightarrow> uuid \<Rightarrow> int \<Rightarrow> episodic_memory list result" where
  "get_recent_by_session r session_id tenant_id limit =
     map_sum id (map row_to_episode) (sql_limit limit
       (sort_key (\<lambda>row. (- em_timestamp (er_episode row), - int (em_id (er_episode row)))) (filter (in_session session_id tenant_id) r)))"

definition get_by_session_ranked_by_salience :: "episode_table \<Rightarrow> uuid \<Rightarrow> uuid \<Rightarrow> int \<Rightarrow> episodic_memory list result" where
  "get_by_session_ranked_by_salience r session_id tenant_id top_k =
     map_sum id (map row_to_episode) (sql_limit top_k
       (sorted_desc (\<lambda>row. em_salience_score (er_episode row)) (filter (in_session session_id tenant_id) r)))"

definition replace_char :: "char \<Rightarrow> string \<Rightarrow> string \<Rightarrow> string" where
  "replace_char c r s = concat (map (\<lambda>x. if x = c then r else [x]) s)"

abbreviation backslash :: char where
  "backslash \<equiv> CHR 0x5C"

definition escape_like :: "string \<Rightarrow> string" where
  "escape_like v =
     replace_char (CHR ''_'') [backslash, CHR ''_'']
       (replace_char (CHR ''%'') [backslash, CHR ''%''] (replace_char backslash [backslash, backslash] v))"

function like_match :: "(char \<Rightarrow> char) \<Rightarrow> string \<Rightarrow> string \<Rightarrow> bool" where
  \<comment> \<open>\<open>s ILIKE pattern ESCAPE '\'\<close>, \<open>fold_case\<close> being the case folding\<close>
  "like_match fold_case [] s \<longleftrightarrow> s = []"
| "like_match fold_case (p # ps) s \<longleftrightarrow>
     (if p = CHR ''%'' then like_match fold_case ps s \<or> (if s = [] then False else like_match fold_case (p # ps) (tl s))
      else if p = CHR ''_'' then s \<noteq> [] \<and> like_match fold_case ps (tl s)
      else if p = backslash then ps \<noteq> [] \<and> s \<noteq> [] \<and> fold_case (hd s) = fold_case (hd ps) \<and> like_match fold_case (tl ps) (tl s)
      else s \<noteq> [] \<and> fold_case (hd s) = fold_case p \<and> like_match fold_case ps (tl s))"
  by pat_completeness auto
termination by (relation "measure (\<lambda>(f, ps, s). length ps + length s)") auto

declare like_match.simps(2) [simp del]

definition mentions_entity :: "(char \<Rightarrow> char) \<Rightarrow> ((string \<times> json) list \<Rightarrow> string) \<Rightarrow> string \<Rightarrow> (string \<times> json) list \<Rightarrow> bool" where
  "mentions_entity fold_case jsonb_text entity content \<longleftrightarrow>
     (case map_of content ''entities'' of Some (JList es) \<Rightarrow> JStr entity \<in> set es | _ \<Rightarrow> False) \<or>
     like_match fold_case (CHR ''%'' # escape_like entity @ ''%'') (jsonb_text content)"

definition get_by_session_matching_entity :: "(char \<Rightarrow> char) \<Rightarrow> ((string \<times> json) list \<Rightarrow> string) \<Rightarrow> episode_table \<Rightarrow> uuid \<Rightarrow> uuid \<Rightarrow>
    string \<Rightarrow> int \<Rightarrow> episodic_memory list result" where
  "get_by_session_matching_entity fold_case jsonb_text r session_id tenant_id entity top_k =
     map_sum id (map row_to_episode) (sql_limit top_k (sorted_desc (\<lambda>row. em_timestamp (er_episode row))
       (filter (\<lambda>row. in_session session_id tenant_id row \<and> mentions_entity fold_case jsonb_text entity (em_content (er_episode row))) r)))"

subsection \<open>QdrantEpisodicMemoryIndex\<close>

record episode_point =
  ep_vector :: embedding
  ep_tenant_id :: uuid
  ep_session_id :: uuid
  ep_content :: "(string \<times> json) list"
  ep_timestamp :: datetime
  ep_salience_score :: rat

type_synonym episode_index = "(uuid \<times> episode_point) list"

definition upsert_episode :: "episode_index \<Rightarrow> episodic_memory \<Rightarrow> uuid \<Rightarrow> episode_index" where
  "upsert_episode idx episode tenant_id = dict_set (em_id episode)
     \<lparr>ep_vector = em_embedding episode, ep_tenant_id = tenant_id, ep_session_id = em_session_id episode, ep_content = em_content episode,
      ep_timestamp = em_timestamp episode, ep_salience_score = em_salience_score episode\<rparr> idx"

definition search_episodes :: "(embedding \<Rightarrow> int \<Rightarrow> episode_index \<Rightarrow> ((uuid \<times> episode_point) \<times> rat) list) \<Rightarrow> episode_index \<Rightarrow>
    embedding \<Rightarrow> uuid \<Rightarrow> uuid \<Rightarrow> int \<Rightarrow> scored_episode list" where
  \<comment> \<open>the server searches among the points that pass the filter; the payload has no \<open>consolidated_at\<close>\<close>
  "search_episodes knn idx query_embedding tenant_id session_id top_k =
     map (\<lambda>((i, p), score). \<lparr>se_episode = \<lparr>em_id = i, em_session_id = ep_session_id p, em_content = ep_content p, em_embedding = ep_vector p,
            em_timestamp = ep_timestamp p, em_salience_score = ep_salience_score p, em_consolidated_at = None\<rparr>, se_score = Fin score\<rparr>)
       (knn query_embedding top_k (filter (\<lambda>(i, p). ep_tenant_id p = tenant_id \<and> ep_session_id p = session_id) idx))"

subsection \<open>Replies of the language model\<close>

datatype 'a parsed_reply = Parsed 'a | Again | Raises py_error

fun attempts :: "nat \<Rightarrow> (nat \<Rightarrow> string) \<Rightarrow> (string \<Rightarrow> 'a parsed_reply) \<Rightarrow> nat \<Rightarrow> 'a option result" where
  \<comment> \<open>\<open>for _ in range(attempts)\<close>; \<open>None\<close> when they are used up\<close>
  "attempts 0 reply parse n = Inr None"
| "attempts (Suc k) reply parse n =
     (case parse (reply n) of
        Parsed x \<Rightarrow> Inr (Some x)
      | Raises e \<Rightarrow> Inl e
      | Again \<Rightarrow> attempts k reply parse (Suc n))"

definition overflow_error :: py_error where
  "overflow_error = OtherException ''OverflowError: int too large to convert to float''"

definition int_to_float :: "int \<Rightarrow> rat option" where
  \<comment> \<open>\<open>float(n)\<close>; \<open>None\<close> is \<open>OverflowError\<close>\<close>
  "int_to_float n = (if \<bar>n\<bar> < 2 ^ 1024 - 2 ^ 970 then Some (fl (of_int n)) else None)"

definition unit_score :: "json \<Rightarrow> rat parsed_reply" where
  \<comment> \<open>a number, not a \<open>bool\<close>, whose \<open>float\<close> is in [0, 1]\<close>
  "unit_score j =
     (case j of
        JInt n \<Rightarrow> (case int_to_float n of None \<Rightarrow> Raises overflow_error | Some x \<Rightarrow> if 0 \<le> x \<and> x \<le> 1 then Parsed x else Again)
      | JFloat (Fin x) \<Rightarrow> if 0 \<le> x \<and> x \<le> 1 then Parsed x else Again
      | _ \<Rightarrow> Again)"

definition parse_salience :: "(string \<Rightarrow> json option) \<Rightarrow> string \<Rightarrow> rat parsed_reply" where
  "parse_salience json_loads response =
     (case json_loads (strip_markdown_fence response) of
        Some (JObj parsed) \<Rightarrow> (case map_of parsed ''salience_score'' of None \<Rightarrow> Again | Some raw_score \<Rightarrow> unit_score raw_score)
      | _ \<Rightarrow> Again)"

definition MAX_SALIENCE_ATTEMPTS :: nat where "MAX_SALIENCE_ATTEMPTS = 3"

record capture_env =
  cp_chat :: "nat \<Rightarrow> string \<Rightarrow> string"
  cp_json_loads :: "string \<Rightarrow> json option"
  cp_dumps :: "(string \<times> json) list \<Rightarrow> string"
  cp_embed :: "string \<Rightarrow> embedding"
  cp_salience_prompt :: "(string \<times> json) list \<Rightarrow> string"
  cp_sessions :: "uuid set"

definition score_salience :: "capture_env \<Rightarrow> (string \<times> json) list \<Rightarrow> rat result" where
  "score_salience cp content =
     map_sum id (case_option 0 id)
       (attempts MAX_SALIENCE_ATTEMPTS (\<lambda>i. cp_chat cp i (cp_salience_prompt cp content)) (parse_salience (cp_json_loads cp)) 0)"

subsection \<open>CaptureEpisode\<close>

record episodic_state =
  es_rows :: episode_table
  es_points :: episode_index
  es_graph :: memory_graph

definition try_graph :: "bool \<Rightarrow> (memory_graph \<Rightarrow> memory_graph) \<Rightarrow> memory_graph \<Rightarrow> memory_graph" where
  "try_graph ok write g = (if ok then write g else g)"

definition entity_list :: "(string \<times> json) list \<Rightarrow> json list option" where
  \<comment> \<open>what \<open>for name in content.get("entities", [])\<close> goes over; \<open>None\<close>: not iterable\<close>
  "entity_list content =
     (case map_of content ''entities'' of
        None \<Rightarrow> Some []
      | Some (JList es) \<Rightarrow> Some es
      | Some (JStr s) \<Rightarrow> Some (map (\<lambda>c. JStr [c]) s)
      | Some (JObj d) \<Rightarrow> Some (map (JStr \<circ> fst) d)
      | Some _ \<Rightarrow> None)"

fun mention_all :: "(nat \<Rightarrow> bool) \<Rightarrow> nat \<Rightarrow> uuid \<Rightarrow> uuid \<Rightarrow> json list \<Rightarrow> memory_graph \<Rightarrow> memory_graph" where
  "mention_all ok n i t [] g = g"
| "mention_all ok n i t (e # es) g = mention_all ok (Suc n) i t es (try_graph (ok n) (\<lambda>g. link_mentions g i e t) g)"

definition capture_episode :: "capture_env \<Rightarrow> bool \<Rightarrow> (nat \<Rightarrow> bool) \<Rightarrow> uuid \<Rightarrow> datetime \<Rightarrow> episodic_state \<Rightarrow> uuid \<Rightarrow> uuid \<Rightarrow> uuid \<Rightarrow>
    (string \<times> json) list \<Rightarrow> episodic_memory result \<times> episodic_state" where
  "capture_episode cp upsert_fails graph_ok new_id now st tenant_id user_id session_id content =
     (case get_recent_by_session (es_rows st) session_id tenant_id 1 of
        Inl e \<Rightarrow> (Inl e, st)
      | Inr previous \<Rightarrow>
          (case score_salience cp content of
             Inl e \<Rightarrow> (Inl e, st)
           | Inr salience \<Rightarrow>
               (let episode = \<lparr>em_id = new_id, em_session_id = session_id, em_content = content, em_embedding = cp_embed cp (cp_dumps cp content),
                              em_timestamp = now, em_salience_score = salience, em_consolidated_at = None\<rparr>
                in case save_episode (cp_sessions cp) (es_rows st) episode tenant_id of
                     Inl e \<Rightarrow> (Inl e, st)
                   | Inr rows \<Rightarrow>
                       (let st1 = st\<lparr>es_rows := rows\<rparr> in
                        if upsert_fails then (Inl (OtherException ''store unavailable''), st1)
                        else let g1 = try_graph (graph_ok 0) (\<lambda>g. upsert_episode_node g episode tenant_id) (es_graph st);
                                 g2 = try_graph (graph_ok 1) (\<lambda>g. link_participated_in g user_id session_id tenant_id) g1;
                                 g3 = (case previous of [] \<Rightarrow> g2
                                       | p # _ \<Rightarrow> try_graph (graph_ok 2) (\<lambda>g. link_temporally_follows g (em_id p) new_id tenant_id) g2);
                                 st2 = st1\<lparr>es_points := upsert_episode (es_points st1) episode tenant_id, es_graph := g3\<rparr>
                             in case entity_list content of
                                  None \<Rightarrow> (Inl (OtherException ''TypeError: not iterable''), st2)
                                | Some es \<Rightarrow> (Inr episode, st2\<lparr>es_graph := mention_all graph_ok 3 new_id tenant_id es g3\<rparr>)))))"

subsection \<open>ConsolidateEpisodes\<close>

record reflected_fact =
  rf_key :: string
  rf_value :: string
  rf_confidence :: pyfloat

definition to_float :: "(string \<Rightarrow> pyfloat option) \<Rightarrow> json \<Rightarrow> pyfloat parsed_reply" where
  \<comment> \<open>\<open>float(j)\<close>, its \<open>TypeError\<close> and \<open>ValueError\<close> asking for another reply\<close>
  "to_float parse_float j =
     (case j of
        JFloat x \<Rightarrow> Parsed x
      | JInt n \<Rightarrow> (case int_to_float n of None \<Rightarrow> Raises overflow_error | Some x \<Rightarrow> Parsed (Fin x))
      | JBool b \<Rightarrow> Parsed (Fin (if b then 1 else 0))
      | JStr s \<Rightarrow> (case parse_float s of None \<Rightarrow> Again | Some x \<Rightarrow> Parsed x)
      | _ \<Rightarrow> Again)"

definition read_fact :: "(string \<Rightarrow> pyfloat option) \<Rightarrow> json \<Rightarrow> reflected_fact parsed_reply" where
  "read_fact parse_float item =
     (case item of
        JObj d \<Rightarrow>
          (case (map_of d ''fact_key'', map_of d ''fact_value'') of
             (Some (JStr key), Some (JStr val)) \<Rightarrow>
               if py_strip key = [] \<or> py_strip val = [] then Again
               else (case to_float parse_float (case map_of d ''confidence'' of None \<Rightarrow> JFloat (Fin 1) | Some c \<Rightarrow> c) of
                       Parsed x \<Rightarrow> Parsed \<lparr>rf_key = py_strip key, rf_value = val, rf_confidence = x\<rparr>
                     | Again \<Rightarrow> Again
                     | Raises e \<Rightarrow> Raises e)
           | _ \<Rightarrow> Again)
      | _ \<Rightarrow> Again)"

fun validate_and_dedupe :: "(json \<Rightarrow> 'r parsed_reply) \<Rightarrow> ('r \<Rightarrow> string) \<Rightarrow> json list \<Rightarrow> (string \<times> 'r) list \<Rightarrow> 'r list parsed_reply" where
  \<comment> \<open>\<open>validated\<close> with \<open>seen_keys\<close>: a later element with the same key takes the place of the earlier one\<close>
  "validate_and_dedupe rd key [] validated = Parsed (map snd validated)"
| "validate_and_dedupe rd key (item # items) validated =
     (case rd item of
        Parsed r \<Rightarrow> validate_and_dedupe rd key items (dict_set (key r) r validated)
      | Again \<Rightarrow> Again
      | Raises e \<Rightarrow> Raises e)"

definition parse_list :: "(string \<Rightarrow> json option) \<Rightarrow> string \<Rightarrow> (json list \<Rightarrow> 'r list parsed_reply) \<Rightarrow> string \<Rightarrow> 'r list parsed_reply" where
  "parse_list json_loads field validate response =
     (case json_loads (strip_markdown_fence response) of
        Some (JObj parsed) \<Rightarrow> (case map_of parsed field of Some (JList items) \<Rightarrow> validate items | _ \<Rightarrow> Again)
      | _ \<Rightarrow> Again)"

definition MAX_REFLECTION_ATTEMPTS :: nat where "MAX_REFLECTION_ATTEMPTS = 3"

record reflect_env =
  rx_chat :: "nat \<Rightarrow> string \<Rightarrow> string"
  rx_json_loads :: "string \<Rightarrow> json option"
  rx_parse_float :: "string \<Rightarrow> pyfloat option"
  rx_prompt :: "episodic_memory list \<Rightarrow> string"

definition reflect :: "reflect_env \<Rightarrow> string \<Rightarrow> (json list \<Rightarrow> 'r list parsed_reply) \<Rightarrow> episodic_memory list \<Rightarrow> 'r list result" where
  "reflect rx field validate episodes =
     map_sum id (case_option [] id)
       (attempts MAX_REFLECTION_ATTEMPTS (\<lambda>i. rx_chat rx i (rx_prompt rx episodes)) (parse_list (rx_json_loads rx) field validate) 0)"

record consolidation_env =
  cs_reflect :: reflect_env
  cs_mag :: mag_env
  cs_faults :: "nat \<Rightarrow> faults"
  cs_graph_ok :: "nat \<Rightarrow> nat \<Rightarrow> bool"
  cs_db_now :: datetime

fun abstract_all :: "(nat \<Rightarrow> bool) \<Rightarrow> nat \<Rightarrow> fact_graph \<Rightarrow> uuid \<Rightarrow> uuid \<Rightarrow> episodic_memory list \<Rightarrow> memory_graph \<Rightarrow> memory_graph" where
  "abstract_all ok n facts fact_id t [] g = g"
| "abstract_all ok n facts fact_id t (e # es) g =
     abstract_all ok (Suc n) facts fact_id t es (try_graph (ok n) (\<lambda>g. link_abstracts_to facts g (em_id e) fact_id t) g)"

definition record_reflected :: "consolidation_env \<Rightarrow> nat \<Rightarrow> mag_store \<Rightarrow> uuid \<Rightarrow> uuid \<Rightarrow> reflected_fact \<Rightarrow> semantic_memory result \<times> mag_store" where
  "record_reflected cs i st tenant_id user_id r =
     (let existing = find_by_key (ms_repo st) user_id (rf_key r) tenant_id in
      record_semantic_fact (cs_mag cs) (cs_faults cs i) st tenant_id user_id (rf_key r) (rf_value r) (rf_confidence r) ''consolidation''
        (case existing of None \<Rightarrow> None | Some f \<Rightarrow> sm_valid_until f) (case existing of None \<Rightarrow> None | Some f \<Rightarrow> sm_archived_at f))"

fun record_all :: "consolidation_env \<Rightarrow> nat \<Rightarrow> uuid \<Rightarrow> uuid \<Rightarrow> episodic_memory list \<Rightarrow> reflected_fact list \<Rightarrow> mag_store \<times> memory_graph \<Rightarrow>
    semantic_memory list result \<times> mag_store \<times> memory_graph" where
  "record_all cs i t u episodes [] (st, g) = (Inr [], st, g)"
| "record_all cs i t u episodes (reflected # facts) (st, g) =
     (case record_reflected cs i st t u reflected of
        (Inl e, st1) \<Rightarrow> (Inl e, st1, g)
      | (Inr recorded, st1) \<Rightarrow>
          (case record_all cs (Suc i) t u episodes facts
                  (st1, abstract_all (cs_graph_ok cs i) 0 (ms_graph st1) (sm_fact_id recorded) t episodes g) of
             (Inl e, r) \<Rightarrow> (Inl e, r)
           | (Inr written, r) \<Rightarrow> (Inr (recorded # written), r)))"

definition consolidate_episodes :: "consolidation_env \<Rightarrow> episodic_state \<times> mag_store \<Rightarrow> uuid \<Rightarrow> uuid \<Rightarrow> uuid \<Rightarrow> int \<Rightarrow>
    semantic_memory list result \<times> episodic_state \<times> mag_store" where
  "consolidate_episodes cs st tenant_id user_id session_id batch_size =
     (case get_unconsolidated_by_session (es_rows (fst st)) session_id tenant_id batch_size of
        Inl e \<Rightarrow> (Inl e, st)
      | Inr episodes \<Rightarrow>
          if episodes = [] then (Inr [], st)
          else case reflect (cs_reflect cs) ''facts''
                      (\<lambda>items. validate_and_dedupe (read_fact (rx_parse_float (cs_reflect cs))) rf_key items []) episodes of
                 Inl e \<Rightarrow> (Inl e, st)
               | Inr facts \<Rightarrow>
                   (case record_all cs 0 tenant_id user_id episodes facts (snd st, es_graph (fst st)) of
                      (Inl e, mag, g) \<Rightarrow> (Inl e, (fst st)\<lparr>es_graph := g\<rparr>, mag)
                    | (Inr written, mag, g) \<Rightarrow>
                        (Inr written,
                         (fst st)\<lparr>es_graph := g, es_rows := mark_consolidated (cs_db_now cs) (es_rows (fst st)) (map em_id episodes) tenant_id\<rparr>,
                         mag)))"

subsection \<open>Patterns\<close>

lemma replace_char_Cons: "replace_char c r (x # s) = (if x = c then r else [x]) @ replace_char c r s"
  by (simp add: replace_char_def)

lemma replace_char_append: "replace_char c r (s @ u) = replace_char c r s @ replace_char c r u"
  by (simp add: replace_char_def)

lemma escape_like_Cons:
  "escape_like (c # v) = (if c \<in> {CHR ''%'', CHR ''_'', backslash} then [backslash, c] else [c]) @ escape_like v"
  by (simp add: escape_like_def replace_char_Cons replace_char_append replace_char_def [of _ _ "[]"])

lemma like_match_percent: "like_match f (CHR ''%'' # ps) s \<longleftrightarrow> (\<exists>a b. s = a @ b \<and> like_match f ps b)"
proof (induction s)
  case Nil
  show ?case by (subst like_match.simps) simp
next
  case (Cons x s)
  have "(\<exists>a b. x # s = a @ b \<and> like_match f ps b) \<longleftrightarrow> like_match f ps (x # s) \<or> (\<exists>a b. s = a @ b \<and> like_match f ps b)"
    by (auto simp: Cons_eq_append_conv)
  with Cons show ?case by (subst like_match.simps) simp
qed

lemma like_match_escaped:
  "like_match f (escape_like v @ ps) s \<longleftrightarrow> (\<exists>m b. s = m @ b \<and> map f m = map f v \<and> like_match f ps b)"
proof (induction v arbitrary: s)
  case Nil
  show ?case by (simp add: escape_like_def replace_char_def)
next
  case (Cons c v)
  have "like_match f (escape_like (c # v) @ ps) s \<longleftrightarrow> s \<noteq> [] \<and> f (hd s) = f c \<and> like_match f (escape_like v @ ps) (tl s)"
    unfolding escape_like_Cons by (auto simp: like_match.simps(2))
  then show ?case by (cases s) (auto simp: Cons Cons_eq_append_conv map_eq_Cons_conv)
qed

text \<open>
  An entity is searched as it is written: whatever wildcards and escape characters it contains, the pattern matches exactly the
  texts that contain it up to case.
\<close>
theorem entity_pattern_literal:
  "like_match f (CHR ''%'' # escape_like e @ ''%'') s \<longleftrightarrow> (\<exists>a m b. s = a @ m @ b \<and> map f m = map f e)"
proof -
  have "like_match f ''%'' b" for b by (simp add: like_match_percent)
  then show ?thesis unfolding like_match_percent like_match_escaped by auto
qed

subsection \<open>Consolidation\<close>

definition status_of :: "mag_store \<Rightarrow> slot \<Rightarrow> (uuid \<times> datetime option \<times> datetime option) option" where
  "status_of st slot = map_option (\<lambda>row. (fr_tenant row, sm_valid_until (fr_fact row), sm_archived_at (fr_fact row))) (map_of (sr_facts (ms_repo st)) slot)"

lemma record_status:
  "status_of (snd (record_semantic_fact env flt st t u k val conf src v a)) slot =
     (if slot = (u, k) then Some (case status_of st (u, k) of None \<Rightarrow> t | Some (t', _) \<Rightarrow> t', v, a) else status_of st slot)"
  by (auto simp: record_semantic_fact_def Let_def status_of_def repo_save_def attempt_write_def split: sum.splits option.splits)

lemma find_by_key_status:
  assumes "status_of st (u, k) = Some (t, v, a)"
  shows "\<exists>f. find_by_key (ms_repo st) u k t = Some f \<and> sm_valid_until f = v \<and> sm_archived_at f = a"
  using assms by (auto simp: status_of_def find_by_key_def repo_row_def Semantic_Memory.row_to_fact_def)

lemma record_reflected_status:
  assumes "status_of st slot = Some (t, v, a)"
  shows "status_of (snd (record_reflected cs i st t u r)) slot = Some (t, v, a)"
proof (cases "slot = (u, rf_key r)")
  case True
  with assms obtain f where "find_by_key (ms_repo st) u (rf_key r) t = Some f" "sm_valid_until f = v" "sm_archived_at f = a"
    using find_by_key_status by metis
  with True assms show ?thesis by (simp add: record_reflected_def Let_def record_status)
qed (simp add: assms record_reflected_def Let_def record_status)

lemma record_all_status:
  assumes "status_of st slot = Some (t, v, a)" "record_all cs i t u es fs (st, g) = (r, st', g')"
  shows "status_of st' slot = Some (t, v, a)"
  using assms
proof (induction fs arbitrary: i st g r)
  case (Cons f fs)
  obtain r1 st1 where f: "record_reflected cs i st t u f = (r1, st1)" by (cases "record_reflected cs i st t u f")
  then have s: "status_of st1 slot = Some (t, v, a)" using record_reflected_status [OF Cons.prems(1), of cs i u f] by simp
  show ?case using Cons.IH [OF s] Cons.prems(2) f s by (auto split: sum.splits prod.splits)
qed simp

text \<open>
  Consolidation never revives a fact. Whatever the language model replies, also where it names the key of a fact that was
  invalidated or archived, and wherever the stores fail, the facts of the tenant keep their expiry and archival after
  \<^verbatim>\<open>ConsolidateEpisodes\<close>.
\<close>
theorem consolidation_keeps_status:
  assumes "status_of (snd st) slot = Some (tenant_id, v, a)"
  shows "status_of (snd (snd (consolidate_episodes cs st tenant_id user_id session_id batch_size))) slot = Some (tenant_id, v, a)"
  using assms record_all_status [OF assms]
  by (auto simp: consolidate_episodes_def split: sum.splits prod.splits)

subsection \<open>The backlog\<close>

definition backlog :: "uuid \<Rightarrow> uuid \<Rightarrow> episodic_state \<Rightarrow> episode_row list" where
  \<comment> \<open>the episodes still to be consolidated, the oldest first\<close>
  "backlog session_id tenant_id st = sort_key (\<lambda>row. em_timestamp (er_episode row)) (filter (unconsolidated session_id tenant_id) (es_rows st))"

definition keyed :: "episodic_state \<Rightarrow> bool" where
  "keyed st \<longleftrightarrow> distinct (map (em_id \<circ> er_episode) (es_rows st))"

lemma mark_ids: "map (em_id \<circ> er_episode) (mark_consolidated n r ids t) = map (em_id \<circ> er_episode) r"
  by (simp add: mark_consolidated_def)

lemma sort_key_filter: "sort_key f (filter P xs) = filter P (sort_key f xs)"
  by (rule filter_sort [symmetric])

lemma unconsolidated_marked:
  assumes "ids \<noteq> []"
  shows "filter (unconsolidated s t) (mark_consolidated d r ids t) = filter (\<lambda>row. unconsolidated s t row \<and> em_id (er_episode row) \<notin> set ids) r"
  using assms by (induction r) (auto simp: mark_consolidated_def unconsolidated_def in_session_def)

lemma backlog_after_mark:
  assumes "keyed st" "rows = take n (backlog s t st)"
  shows "sort_key (\<lambda>row. em_timestamp (er_episode row)) (filter (unconsolidated s t) (mark_consolidated d (es_rows st) (map (em_id \<circ> er_episode) rows) t)) =
    drop n (backlog s t st)"
proof (cases "rows = []")
  case True
  then have "backlog s t st = [] \<or> n = 0" using assms(2) by auto
  then show ?thesis using True by (auto simp: mark_consolidated_def backlog_def)
next
  case False
  let ?ids = "(em_id \<circ> er_episode) ` set rows"
  let ?old = "\<lambda>row. em_id (er_episode row) \<notin> ?ids"
  have "filter (unconsolidated s t) (mark_consolidated d (es_rows st) (map (em_id \<circ> er_episode) rows) t) =
      filter (\<lambda>row. unconsolidated s t row \<and> ?old row) (es_rows st)"
    using unconsolidated_marked [of "map (em_id \<circ> er_episode) rows" s t d "es_rows st"] False by simp
  also have "\<dots> = filter ?old (filter (unconsolidated s t) (es_rows st))" by (simp add: conj_commute)
  finally have e: "sort_key (\<lambda>row. em_timestamp (er_episode row)) (filter (unconsolidated s t) (mark_consolidated d (es_rows st) (map (em_id \<circ> er_episode) rows) t)) =
      filter ?old (backlog s t st)"
    by (simp only: sort_key_filter backlog_def)
  have "distinct (map (em_id \<circ> er_episode) (backlog s t st))"
  proof -
    have "mset (map (em_id \<circ> er_episode) (backlog s t st)) = mset (map (em_id \<circ> er_episode) (filter (unconsolidated s t) (es_rows st)))"
      by (simp add: backlog_def)
    moreover have "distinct (map (em_id \<circ> er_episode) (filter (unconsolidated s t) (es_rows st)))"
      using assms(1) by (simp add: keyed_def distinct_map_filter)
    ultimately show ?thesis using mset_eq_imp_distinct_iff by blast
  qed
  then have "distinct (map (em_id \<circ> er_episode) (rows @ drop n (backlog s t st)))" by (simp only: assms(2) append_take_drop_id)
  then have "filter ?old (rows @ drop n (backlog s t st)) = drop n (backlog s t st)"
    by (auto simp: filter_empty_conv filter_id_conv)
  then show ?thesis unfolding e by (simp only: assms(2) append_take_drop_id)
qed

lemma consolidate_backlog:
  assumes "keyed (fst st)" "0 < b" "consolidate_episodes cs st t u s b = (r, st')"
  shows "keyed (fst st')" "isl r \<Longrightarrow> es_rows (fst st') = es_rows (fst st)"
    "\<not> isl r \<Longrightarrow> backlog s t (fst st') = drop (nat b) (backlog s t (fst st))"
proof -
  let ?rows = "take (nat b) (backlog s t (fst st))"
  have g: "get_unconsolidated_by_session (es_rows (fst st)) s t b = Inr (map row_to_episode ?rows)"
    using assms(2) by (simp add: get_unconsolidated_by_session_def sql_limit_def backlog_def)
  have ids: "map em_id (map row_to_episode ?rows) = map (em_id \<circ> er_episode) ?rows" by (simp add: row_to_episode_def)
  have "keyed (fst st') \<and> (isl r \<longrightarrow> es_rows (fst st') = es_rows (fst st)) \<and>
      (\<not> isl r \<longrightarrow> backlog s t (fst st') = drop (nat b) (backlog s t (fst st)))"
  proof (cases "?rows = []")
    case True
    then have "r = Inr []" "st' = st" using assms(3) g by (simp_all add: consolidate_episodes_def)
    moreover have "drop (nat b) (backlog s t (fst st)) = backlog s t (fst st)" using True assms(2) by auto
    ultimately show ?thesis using assms(1) by simp
  next
    case False
    then have ne: "map row_to_episode ?rows \<noteq> []" by simp
    note m = backlog_after_mark [OF assms(1) refl, of s t "cs_db_now cs" "nat b"]
    show ?thesis
      using assms(1,3) ne m unfolding consolidate_episodes_def g sum.case if_not_P [OF ne] ids
      by (auto simp: keyed_def backlog_def mark_ids split: sum.splits prod.splits)
  qed
  then show "keyed (fst st')" "isl r \<Longrightarrow> es_rows (fst st') = es_rows (fst st)"
    "\<not> isl r \<Longrightarrow> backlog s t (fst st') = drop (nat b) (backlog s t (fst st))" by auto
qed

fun consolidate_runs :: "consolidation_env list \<Rightarrow> uuid \<Rightarrow> uuid \<Rightarrow> uuid \<Rightarrow> int \<Rightarrow> episodic_state \<times> mag_store \<Rightarrow>
    nat \<times> episodic_state \<times> mag_store" where
  \<comment> \<open>runs one after the other, with the number of those that returned\<close>
  "consolidate_runs [] t u s b st = (0, st)"
| "consolidate_runs (cs # css) t u s b st =
     (case consolidate_episodes cs st t u s b of
        (r, st1) \<Rightarrow> (case consolidate_runs css t u s b st1 of (k, st2) \<Rightarrow> (if isl r then k else Suc k, st2)))"

text \<open>
  The backlog drains, the oldest first. Every run that returns consolidates exactly the \<^verbatim>\<open>batch_size\<close> oldest episodes of the
  session that were left, whatever the model answered; a run that raises leaves all of them for the next one; so after as many returned
  runs as batches are needed nothing is left, and no episode has been taken twice.
\<close>
theorem backlog_drains:
  assumes "keyed (fst st)" "0 < b" "consolidate_runs css t u s b st = (k, st')"
  shows "backlog s t (fst st') = drop (k * nat b) (backlog s t (fst st)) \<and>
    (length (backlog s t (fst st)) \<le> k * nat b \<longrightarrow> get_unconsolidated_by_session (es_rows (fst st')) s t b = Inr [])"
proof -
  have "backlog s t (fst st') = drop (k * nat b) (backlog s t (fst st))"
    using assms(1,3)
  proof (induction css arbitrary: st k)
    case (Cons cs css)
    have run: "consolidate_runs (cs # css) t u s b st = (k, st')" by (rule Cons.prems(2))
    obtain r st1 where c: "consolidate_episodes cs st t u s b = (r, st1)" by (cases "consolidate_episodes cs st t u s b")
    obtain k' st2 where d: "consolidate_runs css t u s b st1 = (k', st2)" by (cases "consolidate_runs css t u s b st1")
    have e: "st2 = st'" "k = (if isl r then k' else Suc k')" using run c d by simp_all
    note o = consolidate_backlog [OF Cons.prems(1) assms(2) c]
    have ih: "backlog s t (fst st') = drop (k' * nat b) (backlog s t (fst st1))"
      using Cons.IH [OF o(1)] d unfolding e(1) by blast
    show ?case
    proof (cases "isl r")
      case True
      then show ?thesis using ih o(2) e(2) by (simp add: backlog_def)
    next
      case False
      then show ?thesis using ih o(3) e(2) by (simp add: add.commute)
    qed
  qed simp
  moreover have "\<not> b < 0" using assms(2) by simp
  ultimately show ?thesis by (simp add: get_unconsolidated_by_session_def sql_limit_def backlog_def [symmetric])
qed

subsection \<open>Capture\<close>

lemma huge_int: "int_to_float (2 ^ 1024) = None"
proof -
  have "(2::int) ^ 970 \<ge> 0" by (rule zero_le_power) simp
  then have "\<not> \<bar>(2::int) ^ 1024\<bar> < 2 ^ 1024 - 2 ^ 970" by (simp del: power_numeral power_Suc)
  then show ?thesis by (simp only: int_to_float_def if_False)
qed

text \<open>
  Capturing an episode fails safe for every reply but one: an integer beyond the range of a float raises \<open>OverflowError\<close>, which the
  loop does not catch, and the episode is lost.
\<close>
lemma huge_salience_loses_episode:
  assumes "cp_json_loads cp (strip_markdown_fence (cp_chat cp 0 (cp_salience_prompt cp content))) = Some (JObj [(''salience_score'', JInt n)])"
    and "int_to_float n = None"
  shows "capture_episode cp f ok i now st t u s content = (Inl overflow_error, st)"
proof -
  have p: "parse_salience (cp_json_loads cp) (cp_chat cp 0 (cp_salience_prompt cp content)) = Raises overflow_error"
    using assms by (simp add: parse_salience_def unit_score_def)
  have "score_salience cp content = Inl overflow_error"
    using p by (simp add: score_salience_def MAX_SALIENCE_ATTEMPTS_def numeral_3_eq_3)
  then show ?thesis by (simp add: capture_episode_def get_recent_by_session_def sql_limit_def)
qed

lemma attempts_Some: "attempts k reply parse n = Inr (Some x) \<Longrightarrow> \<exists>i. parse (reply i) = Parsed x"
  by (induction k arbitrary: n) (auto split: parsed_reply.splits)

lemma unit_score_bounds: "unit_score j = Parsed x \<Longrightarrow> 0 \<le> x \<and> x \<le> 1"
  by (auto simp: unit_score_def split: json.splits pyfloat.splits if_splits option.splits)

lemma score_salience_unit:
  assumes "score_salience cp content = Inr x"
  shows "0 \<le> x \<and> x \<le> 1"
proof -
  obtain y where a: "attempts MAX_SALIENCE_ATTEMPTS (\<lambda>i. cp_chat cp i (cp_salience_prompt cp content)) (parse_salience (cp_json_loads cp)) 0 = Inr y"
    and x: "x = case_option 0 id y"
    using assms unfolding score_salience_def by (metis map_sum_Inr_cases map_sum.simps(2) sum.inject(2))
  show ?thesis
  proof (cases y)
    case (Some z)
    then obtain i where "parse_salience (cp_json_loads cp) (cp_chat cp i (cp_salience_prompt cp content)) = Parsed z"
      using attempts_Some [OF a [unfolded Some]] by blast
    then obtain j where "unit_score j = Parsed z"
      by (auto simp: parse_salience_def split: option.splits json.splits)
    then show ?thesis using unit_score_bounds x Some by simp
  qed (use x in simp)
qed

lemma sort_key_smallest:
  fixes f :: "'a \<Rightarrow> 'b::linorder"
  assumes "\<forall>x\<in>set xs. f y < f x"
  shows "sort_key f (xs @ [y]) = y # sort_key f xs"
  using assms by (induction xs) (auto simp: not_le)

text \<open>
  A captured episode is the latest one, and every store remembers it. When the clock has advanced, a capture that returns has
  a salience in [0, 1], its episode is what the session's most recent episode is now, it is found in the index with its embedding, and
  what the other sessions and tenants read is untouched.
\<close>
theorem captured_is_latest:
  assumes "capture_episode cp upsert_fails graph_ok new_id now st t u s content = (Inr e, st')"
    and "\<forall>row\<in>set (es_rows st). em_timestamp (er_episode row) < now"
  shows "get_recent_by_session (es_rows st') s t 1 = Inr [e\<lparr>em_embedding := []\<rparr>] \<and>
    0 \<le> em_salience_score e \<and> em_salience_score e \<le> 1 \<and> em_content e = content \<and>
    map_option ep_vector (map_of (es_points st') new_id) = Some (em_embedding e) \<and>
    (\<forall>s' t'. (s', t') \<noteq> (s, t) \<longrightarrow> get_by_session (es_rows st') s' t' = get_by_session (es_rows st) s' t')"
proof -
  obtain sal where sal: "score_salience cp content = Inr sal"
    using assms(1) by (auto simp: capture_episode_def split: sum.splits)
  let ?e = "\<lparr>em_id = new_id, em_session_id = s, em_content = content, em_embedding = cp_embed cp (cp_dumps cp content),
     em_timestamp = now, em_salience_score = sal, em_consolidated_at = None\<rparr>"
  have st': "e = ?e" "es_rows st' = es_rows st @ [\<lparr>er_tenant_id = t, er_episode = ?e\<rparr>]" "es_points st' = upsert_episode (es_points st) ?e t"
    using assms(1) sal by (auto simp: capture_episode_def save_episode_def Let_def split: sum.splits if_splits option.splits)
  let ?f = "\<lambda>row. (- em_timestamp (er_episode row), - int (em_id (er_episode row)))"
  have "sort_key ?f (filter (in_session s t) (es_rows st) @ [\<lparr>er_tenant_id = t, er_episode = ?e\<rparr>]) =
      \<lparr>er_tenant_id = t, er_episode = ?e\<rparr> # sort_key ?f (filter (in_session s t) (es_rows st))"
    by (rule sort_key_smallest) (use assms(2) in simp)
  then have "get_recent_by_session (es_rows st') s t 1 = Inr [e\<lparr>em_embedding := []\<rparr>]"
    by (simp add: st' get_recent_by_session_def sql_limit_def in_session_def row_to_episode_def)
  moreover have "\<forall>s' t'. (s', t') \<noteq> (s, t) \<longrightarrow> get_by_session (es_rows st') s' t' = get_by_session (es_rows st) s' t'"
    by (auto simp: st' get_by_session_def in_session_def)
  moreover have "0 \<le> sal \<and> sal \<le> 1" by (rule score_salience_unit [OF sal])
  moreover have "map_option ep_vector (map_of (es_points st') new_id) = Some (em_embedding e)" by (simp add: st' upsert_episode_def)
  ultimately show ?thesis by (simp add: st')
qed

end
