(* ===== verification/Spec2Isabelle.thy ===== *)
theory Spec2Isabelle
  imports Paradigm_Router Budget_Allocator Tiering_Sync Unified_Answer Freshness_Safety Speculative_Decode Kv_Paged Batch_Scheduling Session_Caching Rag_Structure Rag_Upload Rag_Isolation Api_Routes Embedding_Cache Mag_Gating Episodic_Memory
begin

text \<open>
  \<^bold>\<open>The program.\<close> \<^verbatim>\<open>src/\<close> answers questions from three sources of context: retrieval from
  documents (RAG, \<^verbatim>\<open>src/rag\<close>), pre-loaded key-value caches (CAG, \<^verbatim>\<open>src/cag\<close>) and memories of earlier
  sessions (MAG, \<^verbatim>\<open>src/mag\<close>). \<^verbatim>\<open>src/orchestration\<close> joins them. A question is classified and
  routed to some of the paradigms; a cascade tries their tiers under timeouts; the context window is
  sliced among the tiers that found something; the slices are packed; the budget is recorded
  in the caller's session and the chat model is called. Beside that, documents move between a hot
  tier (the frozen cache), a warm tier (semantic memory) and the index, by how often they are
  used and how often their sources change. \<^verbatim>\<open>src/identity\<close> owns users and sessions; \<^verbatim>\<open>src/api\<close> and
  \<^verbatim>\<open>src/workers\<close> are the entry points.

  \<^bold>\<open>How the model is written.\<close> A dataclass is a record, with a \<open>make_\<close> function where its constructor
  checks something, and an enum a datatype; a method is a function from the object's state and its
  arguments to the result and the new state. A raised exception is \<open>Inl\<close> of a \<open>py_error\<close>. \<open>Py_Prelude\<close>
  has the Python the code is written in: exceptions, dictionaries, stable sorting, the binary64
  numbers (\<open>rat\<close> with the rounding \<open>fl\<close> after every operation; results below
  or above the exponent range are outside the model), and times in microseconds. A protocol
  class with laws its clients need is a record of operations and a locale over them; it is
  interpreted on the model of every implementation. Other protocols, and everything that is not under \<^verbatim>\<open>src/\<close>
  (language and embedding models, the tokenizer, SHA-256, UUIDs, \<^verbatim>\<open>json.loads\<close>, the nearest-neighbour
  search of Qdrant, clocks), are arguments of the definitions that call them. A Postgres table is
  the list of its rows with its constraints, and with the tenant conditions that row-level security adds.

  \<^bold>\<open>The theories\<close>, with the sources they translate.

  \<^item> \<open>Orch_Entities\<close> (\<^verbatim>\<open>orchestration/domain/entities.py\<close>), \<open>Mag_Entities\<close> (\<^verbatim>\<open>mag/domain/entities.py\<close>, the replies
    of language models) and \<open>Cag_Entities\<close> (\<^verbatim>\<open>cag/domain/entities.py\<close>, indexing and slicing): the data.
  \<^item> \<open>Paradigm_Router\<close> (\<^verbatim>\<open>domain/paradigm_router.py\<close>): which paradigms are selected and in which mode, and
    exactly which scores are rejected.
  \<^item> \<open>Budget_Allocator\<close> (\<^verbatim>\<open>domain/budget_allocator.py\<close>, \<^verbatim>\<open>application/assemble_context.py\<close>): the slices sum to the
    window, none is negative, and packing stays within them. The bound of \<open>2 ^ 38\<close> tokens is
    where the products with a rounded share stay below the error that one token allows.
  \<^item> \<open>Frozen_Cache\<close> (\<^verbatim>\<open>hf_\<close>, \<^verbatim>\<open>null_\<close> and \<^verbatim>\<open>expiring_frozen_cache.py\<close>): the four cache contracts, and that
    the expiring cache refines a specification in which each entry carries its expiry.
  \<^item> \<open>Access_Tracker\<close> (\<^verbatim>\<open>_sliding_window_counter.py\<close> and the two trackers): pruning never adds
    to a count, and as long as time does not go back it costs exactly what lies beyond the retention.
  \<^item> \<open>Semantic_Memory\<close> (the Postgres repository, the Qdrant index, the fact nodes of Neo4j, the seven commands
    of \<^verbatim>\<open>mag/application/commands\<close> that write facts): the index and the tables agree after any
    sequence of commands, except for the keys whose last index write was lost; no value is lost when a fact evolves.
  \<^item> \<open>Tiering_Sync\<close> (sync mixer, tiering policies, sync cycles, \<^verbatim>\<open>semantic_memory_warm_store.py\<close>): promotion
    and demotion, and that a cycle leaves no stale copy, for every cache of the contract.
  \<^item> \<open>Cache_Warmed\<close> (\<^verbatim>\<open>cache_warmed_retrieve.py\<close>, \<^verbatim>\<open>similarity.py\<close>), \<open>Latency_Cascade\<close>
    (\<^verbatim>\<open>latency_cascade.py\<close>) and \<open>Cascade_Tiers\<close> (\<^verbatim>\<open>cascade_tiers.py\<close>, \<^verbatim>\<open>session_scoped_semantic_fact_search.py\<close>):
    what is tried and reported in every kind of run, the bound on background work as an
    invariant of a transition system, and the isolation of users.
  \<^item> \<open>Chat_Sessions\<close> (\<^verbatim>\<open>identity\<close>: sessions, their repository and use cases; \<^verbatim>\<open>postgres_session_budget_recorder.py\<close>)
    and \<open>Unified_Answer\<close> (\<^verbatim>\<open>unified_answer_question.py\<close>, \<^verbatim>\<open>answer_in_session.py\<close>): the request from end to end,
    composed of the router, the cascade, the allocator and the recorder.
  \<^item> \<open>Freshness_Router\<close> (\<^verbatim>\<open>domain/freshness_router.py\<close>), \<open>Data_Sources\<close> (\<^verbatim>\<open>postgres_data_source_repository.py\<close>,
    \<^verbatim>\<open>ingest_data_source.py\<close>, \<^verbatim>\<open>refresh_cached_sources.py\<close>, \<^verbatim>\<open>review_source_freshness.py\<close>) and
    \<open>Freshness_Safety\<close>: the use cases cut at their awaits, as sequential functions and as the
    steps of concurrent processes, with the invariant that a cached copy is the current content. It holds
    under a discipline that the code leaves to its callers: per source at most one ingestion and one refresh under way, no
    refresh cut off between pre-load and record, and no review meanwhile. Lemmas show the stale copy when it is broken.
  \<^item> \<open>Speculative_Decode\<close> (\<^verbatim>\<open>speculative_decode.py\<close>, \<^verbatim>\<open>hf_target_model.py\<close>, \<^verbatim>\<open>ngram_search.py\<close>, three generators): the
    loop returns, and what it returns is greedy decoding.
  \<^item> \<open>Kv_Allocation\<close> (\<^verbatim>\<open>contiguous_allocator.py\<close>, \<^verbatim>\<open>allocation_metrics.py\<close>) and \<open>Kv_Paged\<close> (\<^verbatim>\<open>paged_allocator.py\<close>): one
    contract, two implementations: disjoint regions, and exact reference counts with copy on write.
  \<^item> \<open>Batch_Scheduling\<close> (two schedulers, \<^verbatim>\<open>batching_metrics.py\<close>) and \<open>Session_Caching\<close> (seven strategies,
    \<^verbatim>\<open>session_metrics.py\<close>): every request is served once; the costs of the strategies compared.
  \<^item> \<open>Rag_Index\<close> (\<^verbatim>\<open>postgres_document_repository.py\<close>, \<^verbatim>\<open>qdrant_vector_store.py\<close>, \<^verbatim>\<open>chunked_rag_index.py\<close>) and \<open>Rag_Upload\<close>
    (the two upload use cases, \<^verbatim>\<open>local_file_storage.py\<close>, the route): documents in two stores, with failures at every call; what a
    replacement leaves, what an upload adds, and that the stores accept what it builds.
  \<^item> \<open>Rag_Retrieval\<close>, \<open>Rag_Fusion\<close> and \<open>Rag_Isolation\<close> (the retrievers of \<^verbatim>\<open>rag/infrastructure\<close>, \<^verbatim>\<open>_result_fusion.py\<close>): hybrid search, fusion of
    rankings, and that every composition of retrievers stays within the tenant.
  \<^item> \<open>Rag_Chunking\<close> and \<open>Rag_Structure\<close> (\<^verbatim>\<open>fixed_size_\<close>, \<^verbatim>\<open>semantic_\<close> and \<^verbatim>\<open>structure_aware_chunker.py\<close>): the windows cover the text,
    and a fenced block is never cut.
  \<^item> \<open>Py_Text\<close>, \<open>Api_Limits\<close>, \<open>Identity_Auth\<close> and \<open>Api_Routes\<close> (\<^verbatim>\<open>src/api\<close>, \<^verbatim>\<open>src/identity\<close>, \<^verbatim>\<open>src/workers\<close>): what stands before the
    use cases: parsing of client text, rate limits and client addresses, accounts and tokens, the routes, ingestion jobs.
  \<^item> \<open>Embedding_Cache\<close> (\<^verbatim>\<open>caching_embedding_model.py\<close>): concurrent calls as interleavings of their locked parts.
  \<^item> \<open>Mag_Gating\<close> (\<^verbatim>\<open>mag/application/gating\<close>): the seven strategies and their pipeline, with NaN and infinities.
  \<^item> \<open>Memory_Graph\<close> (\<^verbatim>\<open>neo4j_memory_graph_repository.py\<close>) and \<open>Episodic_Memory\<close> (\<^verbatim>\<open>capture_episode.py\<close>,
    \<^verbatim>\<open>consolidate_episodes.py\<close> and the two stores of episodes): spreading activation finds exactly the nodes within reach, with
    their distances; capture and consolidation, whose backlog drains whatever the model replies.

  \<^bold>\<open>Termination.\<close> No definition uses fuel. The decoding loop ends because every round emits a token or
  reports that it did not; the walk over the parents of a turn ends because it never visits a turn
  twice, cyclic input included. The loop of the fixed-size chunker may run forever (a chunk size of 0): it is a
  \<open>partial_function\<close> into \<open>option\<close>, and that it returns for the sizes the program uses is proved as such. The other loops follow a list.

  \<^bold>\<open>Not modelled.\<close> Logging. Calls of services and libraries, beyond what the callers rely on: an embedder or tokenizer
  that raises is modelled only where a caller catches it. The tensor arithmetic of the compressors. The migrations,
  except the constraints in the models of the tables. The evaluation scripts. Of the remaining logic: procedural and working memory,
  the retrieval queries of \<^verbatim>\<open>src/mag\<close> (spreading activation excepted), the evictors, offloaders and pipelines of \<^verbatim>\<open>src/cag\<close>, and the query classifiers.
\<close>

end
